(* ===== verification/Prelude.thy ===== *)
theory Prelude
  imports Main "HOL-Library.Word"
begin

text \<open>
  Shared vocabulary of the development: the names of the machine integers the simulator
  computes with, the fact collections the component theories extend, and the generic
  lemmas about words, lists and maps that several components need.
\<close>

unbundle bit_operations_syntax

section \<open>Machine integers\<close>

type_synonym u8 = "8 word"
type_synonym u16 = "16 word"
type_synonym u32 = "32 word"
type_synonym u64 = "64 word"
type_synonym u128 = "128 word"

section \<open>Fact collections\<close>

named_theorems field_simps_rv \<open>bit-field extraction rewritten to take_bit and drop_bit\<close>
named_theorems ring_simps \<open>arithmetic of ring-buffer positions\<close>
named_theorems route_simps \<open>lookups in a route table after updates\<close>
named_theorems cache_simps \<open>observations of a cache block after an update\<close>

section \<open>Words\<close>

lemma word_shift_one_minus_one: "push_bit n 1 - 1 = (mask n :: 'a::len word)"
  by (simp add: mask_eq_exp_minus_1 push_bit_eq_mult)

lemma word_and_mask: "w AND (push_bit n 1 - 1) = take_bit n (w :: 'a::len word)"
  by (simp only: word_shift_one_minus_one take_bit_eq_mask)

lemma unat_drop_bit_one_less: "w \<noteq> 0 \<Longrightarrow> unat (drop_bit (Suc 0) w) < unat (w :: 'a::len word)"
proof -
  assume "w \<noteq> 0"
  then have "0 < unat w" by (simp add: unat_gt_0)
  then have "unat w div 2 < unat w" by simp
  then show ?thesis using unat_drop_bit_eq [of "Suc 0" w] by (simp add: drop_bit_Suc)
qed

lemma word_drop_bit_zero_iff: "drop_bit n w = 0 \<longleftrightarrow> (\<forall>i\<ge>n. \<not> bit (w :: 'a::len word) i)"
proof -
  have "drop_bit n w = 0 \<longleftrightarrow> (\<forall>i. bit (drop_bit n w) i = bit (0 :: 'a word) i)"
    by (metis bit_eqI)
  also have "\<dots> \<longleftrightarrow> (\<forall>i. \<not> bit w (n + i))"
    by (simp add: bit_drop_bit_eq)
  also have "\<dots> \<longleftrightarrow> (\<forall>i\<ge>n. \<not> bit w i)"
    by (metis le_add1 le_Suc_ex)
  finally show ?thesis .
qed

section \<open>Modular positions\<close>

lemma mod_Suc_shift [ring_simps]: "(a + Suc b) mod n = ((a + b) mod n + 1) mod (n :: nat)"
  by (simp add: mod_simps)

lemma mod_add_inj_less:
  fixes a i j n :: nat
  assumes "i \<le> j" and "j < n" and "(a + i) mod n = (a + j) mod n"
  shows "i = j"
proof -
  have "n dvd (a + j) - (a + i)"
    using assms(3) mod_eq_dvd_iff_nat [of "a + i" "a + j" n] assms(1) by simp
  then have "n dvd j - i" by simp
  with assms(1,2) show ?thesis
    by (metis diff_is_0_eq dvd_imp_le le_antisym less_imp_diff_less not_le zero_less_diff)
qed

lemma mod_add_inj:
  fixes a i j n :: nat
  assumes "i < n" and "j < n" and "(a + i) mod n = (a + j) mod n"
  shows "i = j"
  using assms mod_add_inj_less [of i j n a] mod_add_inj_less [of j i n a]
  by (cases "i \<le> j") auto

section \<open>Computations that may fail\<close>

text \<open>Sequencing of computations whose failure is the left summand, and the failure of a partial lookup.\<close>

definition ebind :: "'e + 'a \<Rightarrow> ('a \<Rightarrow> 'e + 'b) \<Rightarrow> 'e + 'b" where
  "ebind m f = (case m of Inl e \<Rightarrow> Inl e | Inr x \<Rightarrow> f x)"

definition require :: "'e \<Rightarrow> 'a option \<Rightarrow> 'e + 'a" where
  "require e x = (case x of None \<Rightarrow> Inl e | Some y \<Rightarrow> Inr y)"

definition check :: "'e \<Rightarrow> bool \<Rightarrow> 'e + unit" where
  "check e c = (if c then Inr () else Inl e)"

lemma ebind_simps [simp]: "ebind (Inl e) f = Inl e" "ebind (Inr x) f = f x"
  by (simp_all add: ebind_def)

lemma ebind_Inr_iff [simp]: "ebind m f = Inr y \<longleftrightarrow> (\<exists>x. m = Inr x \<and> f x = Inr y)"
  by (cases m) simp_all

lemma ebind_Inl_iff: "ebind m f = Inl e \<longleftrightarrow> m = Inl e \<or> (\<exists>x. m = Inr x \<and> f x = Inl e)"
  by (cases m) simp_all

lemma require_simps [simp]: "require e None = Inl e" "require e (Some x) = Inr x"
  "require e o' = Inr x \<longleftrightarrow> o' = Some x" "require e o' = Inl e' \<longleftrightarrow> o' = None \<and> e' = e"
  by (auto simp: require_def split: option.splits)

lemma check_simps [simp]: "check e True = Inr ()" "check e False = Inl e"
  "check e c = Inr u \<longleftrightarrow> c" "check e c = Inl e' \<longleftrightarrow> \<not> c \<and> e' = e"
  by (auto simp: check_def)

end
