(* ===== verification/SimCommon.thy ===== *)
theory SimCommon
  imports Prelude
begin

text \<open>
  The helpers of \<^verbatim>\<open>src/src/common.h\<close> and the error codes of \<^verbatim>\<open>src/src/simerror.h\<close>:
  the reinterpretations of a raw 64-bit value, the line and page address arithmetic, the
  bit-scanning loops and the PCG32 generator. Counters that the loops keep in a
  \<^verbatim>\<open>uint32_t\<close> never exceed the width of the scanned word and are natural numbers here.
\<close>

section \<open>Error codes\<close>

datatype SimError =
    err_success | err_illegalinst | err_unsupported | err_devidebyzero | err_invalidaddr
  | err_unaligned | err_unaccessable | err_invalidpc | err_unexecutable | err_miss
  | err_processing | err_busy | err_coherence | err_pagefault | err_unconditional
  | err_slreorder | err_llreorder

fun error_name :: "SimError \<Rightarrow> string" where
  "error_name err_success = ''success''"
| "error_name err_illegalinst = ''illegalinst''"
| "error_name err_unsupported = ''unsupported''"
| "error_name err_devidebyzero = ''devidebyzero''"
| "error_name err_invalidaddr = ''invalidaddr''"
| "error_name err_unaligned = ''unaligned''"
| "error_name err_unaccessable = ''unaccessable''"
| "error_name err_invalidpc = ''invalidpc''"
| "error_name err_unexecutable = ''unexecutable''"
| "error_name err_miss = ''miss''"
| "error_name err_processing = ''processing''"
| "error_name err_busy = ''busy''"
| "error_name err_coherence = ''coherence''"
| "error_name err_pagefault = ''pagefault''"
| "error_name err_unconditional = ''unconditional''"
| "error_name err_slreorder = ''slreorder''"
| "error_name err_llreorder = ''llreorder''"

lemma error_name_inj: "error_name e = error_name e' \<Longrightarrow> e = e'"
  by (cases e; cases e') simp_all

section \<open>Views of a raw 64-bit value\<close>

text \<open>
  \<^verbatim>\<open>RAW_DATA_AS(x)\<close> reads the low bytes of a 64-bit cell through a union, on a
  little-endian host: the 32-bit views are the low half of the value.
\<close>

definition as_u32 :: "u64 \<Rightarrow> u32" where
  "as_u32 x = ucast x"

definition set_i64_of_i32 :: "u32 \<Rightarrow> u64" where
  \<comment> \<open>assigning an \<^verbatim>\<open>int32_t\<close> expression to the \<^verbatim>\<open>i64\<close> view sign-extends it\<close>
  "set_i64_of_i32 w = scast w"

definition set_u64_of_u32 :: "u32 \<Rightarrow> u64" where
  \<comment> \<open>assigning a \<^verbatim>\<open>uint32_t\<close> expression to the \<^verbatim>\<open>u64\<close> view zero-extends it\<close>
  "set_u64_of_u32 w = ucast w"

section \<open>Line and page addresses\<close>

definition cache_line_addr_offset :: nat where "cache_line_addr_offset = 6"

definition cache_line_len_byte :: nat where "cache_line_len_byte = 2 ^ cache_line_addr_offset"

definition page_addr_offset :: nat where "page_addr_offset = 12"

definition addr_to_line_addr :: "u64 \<Rightarrow> u64" where
  "addr_to_line_addr addr = push_bit cache_line_addr_offset (drop_bit cache_line_addr_offset addr)"

definition addr_to_line_index :: "u64 \<Rightarrow> u64" where
  "addr_to_line_index addr = drop_bit cache_line_addr_offset addr"

definition line_index_to_line_addr :: "u64 \<Rightarrow> u64" where
  "line_index_to_line_addr index = push_bit cache_line_addr_offset index"

definition addr_to_page_addr :: "u64 \<Rightarrow> u64" where
  "addr_to_page_addr addr = push_bit page_addr_offset (drop_bit page_addr_offset addr)"

definition addr_to_page_index :: "u64 \<Rightarrow> u64" where
  "addr_to_page_index addr = drop_bit page_addr_offset addr"

definition page_index_to_page_addr :: "u64 \<Rightarrow> u64" where
  "page_index_to_page_addr index = push_bit page_addr_offset index"

lemma addr_to_line_addr_mask: "addr_to_line_addr a = a AND NOT (mask 6)"
  by (rule bit_word_eqI)
    (auto simp: addr_to_line_addr_def cache_line_addr_offset_def bit_simps)

lemma line_addr_of_index: "line_index_to_line_addr (addr_to_line_index a) = addr_to_line_addr a"
  by (simp add: line_index_to_line_addr_def addr_to_line_index_def addr_to_line_addr_def)

lemma page_addr_of_index: "page_index_to_page_addr (addr_to_page_index a) = addr_to_page_addr a"
  by (simp add: page_index_to_page_addr_def addr_to_page_index_def addr_to_page_addr_def)

section \<open>Rounding\<close>

definition CEIL_DIV :: "'a::len word \<Rightarrow> 'a word \<Rightarrow> 'a word" where
  "CEIL_DIV x y = (x + y - 1) div y"

definition ALIGN :: "'a::len word \<Rightarrow> 'a word \<Rightarrow> 'a word" where
  "ALIGN x y = y * CEIL_DIV x y"

lemma nat_ceil_div_bounds:
  fixes x y :: nat
  assumes "0 < y"
  shows "x \<le> y * ((x + y - 1) div y)" and "y * ((x + y - 1) div y) < x + y"
proof -
  have "x + y - 1 = y * ((x + y - 1) div y) + (x + y - 1) mod y" by simp
  moreover have "(x + y - 1) mod y < y" using assms by simp
  ultimately show "x \<le> y * ((x + y - 1) div y)" using assms by linarith
  have "y * ((x + y - 1) div y) \<le> x + y - 1" by simp
  then show "y * ((x + y - 1) div y) < x + y" using assms by linarith
qed

lemma unat_CEIL_DIV:
  fixes x y :: "'a::len word"
  assumes "0 < unat y" and "unat x + unat y < 2 ^ LENGTH('a)"
  shows "unat (CEIL_DIV x y) = (unat x + unat y - 1) div unat y"
proof -
  have s: "unat (x + y) = unat x + unat y"
    using assms(2) by (simp add: unat_word_ariths)
  have "1 \<le> x + y" using s assms(1)
    by (simp add: word_le_nat_alt)
  then have "unat (x + y - 1) = unat x + unat y - 1"
    using s by (simp add: unat_sub)
  then show ?thesis
    by (simp add: CEIL_DIV_def unat_div)
qed

lemma unat_ALIGN:
  fixes x y :: "'a::len word"
  assumes "0 < unat y" and "unat x + unat y < 2 ^ LENGTH('a)"
  shows "unat (ALIGN x y) = unat y * ((unat x + unat y - 1) div unat y)"
proof -
  have "unat y * ((unat x + unat y - 1) div unat y) < unat x + unat y"
    using nat_ceil_div_bounds(2) [OF assms(1)] by simp
  then have "unat y * unat (CEIL_DIV x y) < 2 ^ LENGTH('a)"
    using assms(2) by (simp only: unat_CEIL_DIV [OF assms])
  then show ?thesis
    by (simp add: ALIGN_def unat_word_ariths unat_CEIL_DIV [OF assms])
qed

section \<open>Macros on counters\<close>

definition BOEQ :: "bool \<Rightarrow> bool \<Rightarrow> bool" where
  "BOEQ a b = ((\<not> a) = (\<not> b))"

definition INC :: "'a::len word \<Rightarrow> 'a word \<Rightarrow> 'a word" where
  "INC num maxv = (if num < maxv then num + 1 else num)"

definition DEC :: "'a::len word \<Rightarrow> 'a word \<Rightarrow> 'a word" where
  "DEC num minv = (if minv < num then num - 1 else num)"

section \<open>Searching a sequence\<close>

fun find_iteratable :: "'a list \<Rightarrow> 'a \<Rightarrow> nat" where
  \<comment> \<open>the iterator is the number of elements before it; the end is the length\<close>
  "find_iteratable [] key = 0"
| "find_iteratable (x # xs) key = (if x = key then 0 else Suc (find_iteratable xs key))"

lemma find_iteratable_le: "find_iteratable xs k \<le> length xs"
  by (induction xs) auto

lemma find_iteratable_end_iff: "find_iteratable xs k = length xs \<longleftrightarrow> k \<notin> set xs"
  by (induction xs) auto

section \<open>The PCG32 generator\<close>

definition pcg32_rand :: "u64 \<Rightarrow> u32 \<times> u64" where
  "pcg32_rand oldstate =
    (let state = oldstate * 6364136223846793005 + 1442695040888963407;
         xorshifted = (ucast (drop_bit 27 (drop_bit 18 oldstate XOR oldstate)) :: u32);
         rot = (ucast (drop_bit 59 oldstate) :: u32)
     in (drop_bit (unat rot) xorshifted OR push_bit (unat ((- rot) AND 31)) xorshifted, state))"

lemma pcg32_rot_bound: "unat (ucast (drop_bit 59 (s :: u64)) :: u32) < 32"
proof -
  have "unat s < 2 ^ 64" using unsigned_less [of s] by simp
  moreover have "unat (drop_bit 59 s) = unat s div 2 ^ 59"
    by (subst unat_drop_bit_eq) (rule drop_bit_eq_div)
  ultimately have *: "unat (drop_bit 59 s) < 32"
    by (simp only: less_mult_imp_div_less) simp
  then have "unat (ucast (drop_bit 59 s) :: u32) = unat (drop_bit 59 s)"
    by (simp only: unsigned_ucast_eq take_bit_eq_mod) simp
  with * show ?thesis by (simp only:)
qed

section \<open>Bit scanning\<close>

definition extract_bits :: "nat \<Rightarrow> nat \<Rightarrow> 'a::len word \<Rightarrow> 'a word" where
  \<comment> \<open>template arguments \<^verbatim>\<open>BitPos\<close> and \<^verbatim>\<open>BitLen\<close>\<close>
  "extract_bits BitPos BitLen n = drop_bit BitPos n AND (push_bit BitLen 1 - 1)"

function pop_count_loop :: "'a::len word \<Rightarrow> nat \<Rightarrow> nat" where
  "pop_count_loop n cnt =
    (if n = 0 then cnt else pop_count_loop (drop_bit (Suc 0) n) (cnt + unat (n AND 1)))"
  by pat_completeness auto
termination
  by (relation "measure (\<lambda>(n, _). unat n)") (auto intro: unat_drop_bit_one_less)

definition pop_count :: "'a::len word \<Rightarrow> nat" where
  "pop_count n = pop_count_loop n 0"

function highest_bitpos_loop :: "'a::len word \<Rightarrow> nat \<Rightarrow> nat" where
  "highest_bitpos_loop n cnt =
    (if n = 0 then cnt else highest_bitpos_loop (drop_bit (Suc 0) n) (Suc cnt))"
  by pat_completeness auto
termination
  by (relation "measure (\<lambda>(n, _). unat n)") (auto intro: unat_drop_bit_one_less)

definition count_highest_bitpos_1begin :: "'a::len word \<Rightarrow> nat" where
  "count_highest_bitpos_1begin n = (if n = 0 then 0 else highest_bitpos_loop n 0)"

function unpack_bit_loop :: "'a::len word \<Rightarrow> nat \<Rightarrow> nat list \<Rightarrow> nat list" where
  "unpack_bit_loop n cnt out =
    (if n = 0 then out
     else unpack_bit_loop (drop_bit (Suc 0) n) (Suc cnt) (if n AND 1 \<noteq> 0 then out @ [cnt] else out))"
  by pat_completeness auto
termination
  by (relation "measure (\<lambda>(n, _, _). unat n)") (auto intro: unat_drop_bit_one_less)

definition unpack_bit_position :: "'a::len word \<Rightarrow> nat list" where
  "unpack_bit_position n = unpack_bit_loop n 0 []"

declare pop_count_loop.simps [simp del] highest_bitpos_loop.simps [simp del]
  unpack_bit_loop.simps [simp del]

lemma extract_bits_eq: "extract_bits p l n = take_bit l (drop_bit p n)"
  by (simp only: extract_bits_def word_and_mask)

lemma word_and_one_iff: "(w :: 'a::len word) AND 1 \<noteq> 0 \<longleftrightarrow> bit w 0"
  by (simp add: and_one_eq odd_iff_mod_2_eq_one bit_0)

lemma unat_and_one: "unat ((w :: 'a::len word) AND 1) = of_bool (bit w 0)"
  by (cases "bit w 0") (simp_all add: and_one_eq bit_0 odd_iff_mod_2_eq_one)

text \<open>The positions of the set bits of a word, lowest first: what the loops compute.\<close>

definition set_bits_list :: "'a::len word \<Rightarrow> nat list" where
  "set_bits_list n = List.filter (bit n) [0..<LENGTH('a)]"

lemma set_bits_list_drop:
  fixes n :: "'a::len word"
  shows "set_bits_list n =
    (if bit n 0 then [0] else []) @ map Suc (set_bits_list (drop_bit (Suc 0) n))"
proof -
  let ?L = "LENGTH('a)"
  have L: "[0..<Suc ?L] = 0 # map Suc [0..<?L]"
    by (simp only: upt_conv_Cons zero_less_Suc map_Suc_upt)
  have "List.filter (bit n) [0..<Suc ?L] = set_bits_list n"
    by (simp add: set_bits_list_def)
  moreover have "List.filter (bit n) (0 # map Suc [0..<?L])
    = (if bit n 0 then [0] else []) @ map Suc (List.filter (bit n \<circ> Suc) [0..<?L])"
    by (simp add: filter_map)
  moreover have "bit n \<circ> Suc = bit (drop_bit (Suc 0) n)"
    by (auto simp: fun_eq_iff bit_simps)
  ultimately show ?thesis by (simp only: L set_bits_list_def)
qed

lemma unpack_bit_loop_eq:
  "unpack_bit_loop n cnt out = out @ map (\<lambda>i. i + cnt) (set_bits_list n)"
proof (induction n cnt out rule: unpack_bit_loop.induct)
  case (1 n cnt out)
  show ?case
  proof (cases "n = 0")
    case True
    then show ?thesis by (simp add: unpack_bit_loop.simps set_bits_list_def)
  next
    case False
    have "unpack_bit_loop n cnt out
        = (if bit n 0 then out @ [cnt] else out)
          @ map (\<lambda>i. i + Suc cnt) (set_bits_list (drop_bit (Suc 0) n))"
      using "1.IH" [OF False] False
      by (subst unpack_bit_loop.simps) (simp only: if_False word_and_one_iff)
    then show ?thesis
      by (subst set_bits_list_drop) (simp add: comp_def)
  qed
qed

lemma pop_count_loop_eq: "pop_count_loop n cnt = cnt + length (set_bits_list n)"
proof (induction n cnt rule: pop_count_loop.induct)
  case (1 n cnt)
  show ?case
  proof (cases "n = 0")
    case True
    then show ?thesis by (simp add: pop_count_loop.simps set_bits_list_def)
  next
    case False
    then have "pop_count_loop n cnt
        = cnt + of_bool (bit n 0) + length (set_bits_list (drop_bit (Suc 0) n))"
      using "1.IH" by (subst pop_count_loop.simps) (simp add: unat_and_one)
    then show ?thesis
      by (subst set_bits_list_drop) simp
  qed
qed

lemma highest_bitpos_loop_eq:
  "highest_bitpos_loop n cnt = (if n = 0 then cnt else cnt + Suc (last (set_bits_list n)))"
proof (induction n cnt rule: highest_bitpos_loop.induct)
  case (1 n cnt)
  show ?case
  proof (cases "n = 0")
    case True
    then show ?thesis by (simp add: highest_bitpos_loop.simps)
  next
    case False
    let ?d = "drop_bit (Suc 0) n"
    have IH: "highest_bitpos_loop n cnt
        = (if ?d = 0 then Suc cnt else Suc cnt + Suc (last (set_bits_list ?d)))"
      using "1.IH" [OF False] False by (subst highest_bitpos_loop.simps) simp
    show ?thesis
    proof (cases "?d = 0")
      case True
      have "bit n 0"
      proof (rule contrapos_pp [OF False])
        assume "\<not> bit n 0"
        moreover have "\<forall>i\<ge>Suc 0. \<not> bit n i"
          using True by (simp only: word_drop_bit_zero_iff)
        ultimately have "\<not> bit n i" for i by (cases i) auto
        then show "\<not> n \<noteq> 0" by (simp add: bit_eq_iff)
      qed
      with True IH False show ?thesis
        by (subst set_bits_list_drop) (simp add: set_bits_list_def)
    next
      case d: False
      then have "set_bits_list ?d \<noteq> []"
        by (auto simp: set_bits_list_def filter_empty_conv bit_eq_iff)
      with d IH False show ?thesis
        by (subst set_bits_list_drop) (simp add: last_map)
    qed
  qed
qed

end
