(* ===== verification/FifoSpec.thy ===== *)
theory FifoSpec
  imports Prelude
begin

text \<open>
  The contract every clocked buffer of the simulator promises to the components it connects:
  values come out in the order they went in, none is lost or duplicated, and the clock tick
  moves values inside the buffer only. The contract is a locale over the operations of a
  buffer; \<^verbatim>\<open>Pipes\<close> and \<^verbatim>\<open>TickQueue\<close> interpret it on the models of the
  code's buffers.
\<close>

datatype 'a fifo_event = Push 'a | Pop | Clock

text \<open>
  A run of a buffer: refused pushes and pops on an empty output are skipped. The result is the
  list of accepted values, the list of delivered values and the final state.
\<close>

fun fifo_run ::
  "('a \<Rightarrow> 's \<Rightarrow> 's option) \<Rightarrow> ('s \<Rightarrow> ('a \<times> 's) option) \<Rightarrow> ('s \<Rightarrow> 's) \<Rightarrow>
   'a fifo_event list \<Rightarrow> 's \<Rightarrow> 'a list \<times> 'a list \<times> 's" where
  "fifo_run push pop tick [] s = ([], [], s)"
| "fifo_run push pop tick (Push x # es) s =
     (case push x s of
        None \<Rightarrow> fifo_run push pop tick es s
      | Some s' \<Rightarrow> (case fifo_run push pop tick es s' of (ins, outs, t) \<Rightarrow> (x # ins, outs, t)))"
| "fifo_run push pop tick (Pop # es) s =
     (case pop s of
        None \<Rightarrow> fifo_run push pop tick es s
      | Some (x, s') \<Rightarrow> (case fifo_run push pop tick es s' of (ins, outs, t) \<Rightarrow> (ins, x # outs, t)))"
| "fifo_run push pop tick (Clock # es) s = fifo_run push pop tick es (tick s)"

locale clocked_fifo =
  fixes push :: "'a \<Rightarrow> 's \<Rightarrow> 's option"
    and pop :: "'s \<Rightarrow> ('a \<times> 's) option"
    and tick :: "'s \<Rightarrow> 's"
    and contents :: "'s \<Rightarrow> 'a list"
    and inv :: "'s \<Rightarrow> bool"
  assumes push_inv: "inv s \<Longrightarrow> push x s = Some s' \<Longrightarrow> inv s'"
    and push_contents: "inv s \<Longrightarrow> push x s = Some s' \<Longrightarrow> contents s' = contents s @ [x]"
    and pop_inv: "inv s \<Longrightarrow> pop s = Some (x, s') \<Longrightarrow> inv s'"
    and pop_contents: "inv s \<Longrightarrow> pop s = Some (x, s') \<Longrightarrow> contents s = x # contents s'"
    and tick_inv: "inv s \<Longrightarrow> inv (tick s)"
    and tick_contents: "inv s \<Longrightarrow> contents (tick s) = contents s"
begin

lemma run_inv: "inv s \<Longrightarrow> inv (snd (snd (fifo_run push pop tick es s)))"
proof (induction es arbitrary: s)
  case Nil
  then show ?case by simp
next
  case (Cons e es)
  show ?case
  proof (cases e)
    case (Push x)
    with Cons show ?thesis
      by (auto split: option.split prod.split dest: push_inv) (metis push_inv snd_conv)
  next
    case Pop
    with Cons show ?thesis
      by (auto split: option.split prod.split dest: pop_inv) (metis pop_inv snd_conv)
  next
    case Clock
    with Cons show ?thesis by (simp add: tick_inv)
  qed
qed

lemma run_conserves:
  "inv s \<Longrightarrow> fifo_run push pop tick es s = (ins, outs, t) \<Longrightarrow> contents s @ ins = outs @ contents t"
proof (induction es arbitrary: s ins outs t)
  case Nil
  then show ?case by simp
next
  case (Cons e es)
  show ?case
  proof (cases e)
    case (Push x)
    show ?thesis
    proof (cases "push x s")
      case None
      with Push Cons show ?thesis by simp
    next
      case (Some s')
      obtain i o' t' where r: "fifo_run push pop tick es s' = (i, o', t')" by (cases "fifo_run push pop tick es s'") auto
      with Push Some Cons.prems have "ins = x # i" "outs = o'" "t = t'" by simp_all
      with Cons.IH [OF push_inv [OF Cons.prems(1) Some] r] push_contents [OF Cons.prems(1) Some]
      show ?thesis by simp
    qed
  next
    case Pop
    show ?thesis
    proof (cases "pop s")
      case None
      with Pop Cons show ?thesis by simp
    next
      case (Some p)
      obtain x s' where p: "p = (x, s')" by (cases p)
      obtain i o' t' where r: "fifo_run push pop tick es s' = (i, o', t')" by (cases "fifo_run push pop tick es s'") auto
      with Pop Some p Cons.prems have "ins = i" "outs = x # o'" "t = t'" by simp_all
      with Some p Cons.IH [OF pop_inv [OF Cons.prems(1), of x s'] r] pop_contents [OF Cons.prems(1), of x s']
      show ?thesis by simp
    qed
  next
    case Clock
    with Cons.prems(2) have "fifo_run push pop tick es (tick s) = (ins, outs, t)" by simp
    from Cons.IH [OF tick_inv [OF Cons.prems(1)] this] show ?thesis
      by (simp add: tick_contents [OF Cons.prems(1)])
  qed
qed

lemma run_prefix:
  assumes "inv s" and "contents s = []" and "fifo_run push pop tick es s = (ins, outs, t)"
  shows "ins = outs @ contents t"
  using run_conserves [OF assms(1,3)] assms(2) by simp

end

text \<open>
  A bounded buffer also limits what it holds, whatever its clients do.
\<close>

locale bounded_fifo = clocked_fifo +
  fixes capacity :: "'b \<Rightarrow> nat"
  assumes within_capacity: "inv s \<Longrightarrow> length (contents s) \<le> capacity s"
    and push_capacity: "push x s = Some s' \<Longrightarrow> capacity s' = capacity s"
    and pop_capacity: "pop s = Some (x, s') \<Longrightarrow> capacity s' = capacity s"
    and tick_capacity: "capacity (tick s) = capacity s"
begin

lemma run_capacity: "capacity (snd (snd (fifo_run push pop tick es s))) = capacity s"
proof (induction es arbitrary: s)
  case Nil
  then show ?case by simp
next
  case (Cons e es)
  show ?case
  proof (cases e)
    case (Push x)
    with Cons.IH show ?thesis
      by (auto split: option.split prod.split dest: push_capacity) (metis push_capacity snd_conv)
  next
    case Pop
    with Cons.IH show ?thesis
      by (auto split: option.split prod.split dest: pop_capacity) (metis pop_capacity snd_conv)
  next
    case Clock
    with Cons.IH show ?thesis by (simp add: tick_capacity)
  qed
qed

lemma run_bounded:
  assumes "inv s" and "fifo_run push pop tick es s = (ins, outs, t)"
  shows "length (contents t) \<le> capacity s"
  using run_inv [OF assms(1), of es] run_capacity [of es s] assms(2)
  by (auto dest: within_capacity)

end

end
