(* ===== verification/TickQueue.thy ===== *)
theory TickQueue
  imports SimCommon FifoSpec "HOL-Library.AList"
begin

text \<open>
  The clocked queues of \<^verbatim>\<open>src/src/tickqueue.h\<close>. \<^verbatim>\<open>SimpleTickQueue\<close> is a ring
  buffer whose occupied part is three consecutive segments (poppable, queued, pushed in this
  cycle); positions and sizes are natural numbers, and the 32-bit wrap of a position sum is
  written out in \<^verbatim>\<open>tq_pos\<close>. The list based buffers (\<^verbatim>\<open>LimitedTickList\<close>,
  \<^verbatim>\<open>TickList\<close>, \<^verbatim>\<open>TickMap\<close>, \<^verbatim>\<open>TickMultiMap\<close>, \<^verbatim>\<open>TickSet\<close>) are records of
  their containers.
\<close>

section \<open>The ring buffer\<close>

record 'a tick_queue =
  tq_iwid :: nat
  tq_owid :: nat
  tq_qsize :: nat
  tq_len :: nat
  tq_bottom :: nat
  tq_q_bottom :: nat
  tq_push_bottom :: nat
  tq_ptr :: nat
  tq_pop_sz :: nat
  tq_q_sz :: nat
  tq_push_sz :: nat
  tq_buf :: "'a list"

definition tq_new :: "'a \<Rightarrow> u32 \<Rightarrow> u32 \<Rightarrow> u32 \<Rightarrow> 'a tick_queue option" where
  \<comment> \<open>the first argument is the value of a default-constructed element\<close>
  "tq_new v input_wid output_wid queue_size =
    (if 0 < input_wid \<and> 0 < output_wid \<and> input_wid < push_bit 30 1 \<and> output_wid < push_bit 30 1 then
       let l = unat (ALIGN ((input_wid + output_wid + queue_size) * 2) 16)
       in Some \<lparr>tq_iwid = unat input_wid, tq_owid = unat output_wid, tq_qsize = unat queue_size, tq_len = l,
            tq_bottom = 0, tq_q_bottom = 0, tq_push_bottom = 0, tq_ptr = 0,
            tq_pop_sz = 0, tq_q_sz = 0, tq_push_sz = 0, tq_buf = replicate l v\<rparr>
     else None)"

definition tq_pos :: "'a tick_queue \<Rightarrow> nat \<Rightarrow> nat \<Rightarrow> nat" where
  "tq_pos q p d = ((p + d) mod 2 ^ 32) mod tq_len q"

definition tq_q2pop :: "'a tick_queue \<Rightarrow> 'a tick_queue" where
  "tq_q2pop q = (let n = min (tq_owid q - tq_pop_sz q) (tq_q_sz q)
     in q\<lparr>tq_q_bottom := tq_pos q (tq_q_bottom q) n,
          tq_pop_sz := tq_pop_sz q + n, tq_q_sz := tq_q_sz q - n\<rparr>)"

definition tq_push2pop :: "'a tick_queue \<Rightarrow> 'a tick_queue" where
  "tq_push2pop q = (let n = min (tq_owid q - tq_pop_sz q) (tq_push_sz q)
     in q\<lparr>tq_q_bottom := tq_pos q (tq_q_bottom q) n, tq_push_bottom := tq_pos q (tq_push_bottom q) n,
          tq_pop_sz := tq_pop_sz q + n, tq_push_sz := tq_push_sz q - n\<rparr>)"

definition tq_push2q :: "'a tick_queue \<Rightarrow> 'a tick_queue" where
  "tq_push2q q = (let n = min (tq_qsize q - tq_q_sz q) (tq_push_sz q)
     in q\<lparr>tq_push_bottom := tq_pos q (tq_push_bottom q) n,
          tq_q_sz := tq_q_sz q + n, tq_push_sz := tq_push_sz q - n\<rparr>)"

definition tq_apply_next_tick :: "'a tick_queue \<Rightarrow> 'a tick_queue" where
  "tq_apply_next_tick q =
    (if tq_qsize q \<noteq> 0 then
       let q1 = tq_q2pop q;
           q2 = (if tq_push_sz q1 \<noteq> 0 then tq_push2pop q1 else q1)
       in tq_push2q q2
     else if tq_push_sz q \<noteq> 0 \<and> tq_pop_sz q < tq_owid q then tq_push2pop q
     else q)"

definition tq_can_push :: "'a tick_queue \<Rightarrow> nat" where
  "tq_can_push q = tq_iwid q - tq_push_sz q"

definition tq_can_pop :: "'a tick_queue \<Rightarrow> nat" where
  "tq_can_pop q = tq_pop_sz q"

definition tq_top :: "'a tick_queue \<Rightarrow> 'a option" where
  "tq_top q = (if tq_pop_sz q = 0 then None else Some (tq_buf q ! tq_bottom q))"

definition tq_pop :: "'a tick_queue \<Rightarrow> 'a tick_queue option" where
  "tq_pop q = (if tq_pop_sz q = 0 then None
     else Some (q\<lparr>tq_bottom := tq_pos q (tq_bottom q) 1, tq_pop_sz := tq_pop_sz q - 1\<rparr>))"

definition tq_push :: "'a \<Rightarrow> 'a tick_queue \<Rightarrow> 'a tick_queue option" where
  "tq_push v q = (if tq_iwid q \<le> tq_push_sz q then None
     else Some (q\<lparr>tq_buf := (tq_buf q)[tq_ptr q := v], tq_ptr := tq_pos q (tq_ptr q) 1,
                 tq_push_sz := tq_push_sz q + 1\<rparr>))"

fun tq_collect :: "nat \<Rightarrow> 'a tick_queue \<Rightarrow> nat \<Rightarrow> 'a list option" where
  \<comment> \<open>the loop of \<^verbatim>\<open>dbg_get_all\<close> and \<^verbatim>\<open>clear\<close>, with fuel for its iterations\<close>
  "tq_collect 0 q i = None"
| "tq_collect (Suc f) q i =
     (if i = tq_ptr q then Some []
      else map_option (Cons (tq_buf q ! i)) (tq_collect f q (tq_pos q i 1)))"

definition tq_dbg_get_all :: "'a tick_queue \<Rightarrow> 'a list option" where
  "tq_dbg_get_all q = tq_collect (Suc (tq_len q)) q (tq_bottom q)"

definition tq_clear :: "'a list \<Rightarrow> 'a tick_queue \<Rightarrow> ('a list \<times> 'a tick_queue) option" where
  "tq_clear out q = map_option (\<lambda>xs. (out @ xs,
     q\<lparr>tq_bottom := 0, tq_q_bottom := 0, tq_push_bottom := 0, tq_ptr := 0,
       tq_pop_sz := 0, tq_q_sz := 0, tq_push_sz := 0\<rparr>)) (tq_dbg_get_all q)"

definition tq_empty :: "'a tick_queue \<Rightarrow> bool" where
  "tq_empty q = (tq_bottom q = tq_ptr q)"

definition tq_size :: "'a tick_queue \<Rightarrow> nat" where
  "tq_size q = tq_push_sz q + tq_pop_sz q + tq_q_sz q"

definition tq_cur_size :: "'a tick_queue \<Rightarrow> nat" where
  "tq_cur_size q = tq_pop_sz q + tq_q_sz q"

fun tq_pass_loop :: "nat \<Rightarrow> 'a tick_queue \<Rightarrow> 'a tick_queue \<Rightarrow> ('a tick_queue \<times> 'a tick_queue) option" where
  "tq_pass_loop 0 q q2 = Some (q, q2)"
| "tq_pass_loop (Suc n) q q2 =
     (case tq_top q of None \<Rightarrow> None
      | Some v \<Rightarrow> (case tq_pop q of None \<Rightarrow> None
         | Some q' \<Rightarrow> tq_pass_loop n q' (case tq_push v q2 of None \<Rightarrow> q2 | Some q2' \<Rightarrow> q2')))"

definition tq_pass_to :: "nat \<Rightarrow> 'a tick_queue \<Rightarrow> 'a tick_queue \<Rightarrow> (bool \<times> 'a tick_queue \<times> 'a tick_queue) option" where
  "tq_pass_to cnt q q2 =
    (if cnt = 0 then Some (True, q, q2)
     else if tq_can_pop q < cnt \<or> tq_can_push q2 < cnt then Some (False, q, q2)
     else map_option (Pair True) (tq_pass_loop cnt q q2))"

subsection \<open>The queue the ring buffer stands for\<close>

definition tq_contents :: "'a tick_queue \<Rightarrow> 'a list" where
  "tq_contents q = map (\<lambda>i. tq_buf q ! ((tq_bottom q + i) mod tq_len q)) [0..<tq_size q]"

definition tq_inv :: "'a tick_queue \<Rightarrow> bool" where
  "tq_inv q \<longleftrightarrow> 0 < tq_iwid q \<and> 0 < tq_owid q \<and> tq_len q \<le> 2 ^ 31 \<and> length (tq_buf q) = tq_len q
     \<and> tq_iwid q + tq_owid q + tq_qsize q < tq_len q
     \<and> tq_pop_sz q \<le> tq_owid q \<and> tq_q_sz q \<le> tq_qsize q \<and> tq_push_sz q \<le> tq_iwid q
     \<and> tq_bottom q < tq_len q
     \<and> tq_q_bottom q = (tq_bottom q + tq_pop_sz q) mod tq_len q
     \<and> tq_push_bottom q = (tq_bottom q + (tq_pop_sz q + tq_q_sz q)) mod tq_len q
     \<and> tq_ptr q = (tq_bottom q + tq_size q) mod tq_len q"

lemma tq_pos_eq:
  assumes "tq_inv q" and "p < tq_len q" and "d \<le> tq_len q"
  shows "tq_pos q p d = (p + d) mod tq_len q"
proof -
  have "p + d < 2 ^ 32" using assms by (simp add: tq_inv_def)
  then show ?thesis by (simp add: tq_pos_def)
qed

lemma tq_size_less: "tq_inv q \<Longrightarrow> tq_size q < tq_len q"
  by (simp add: tq_inv_def tq_size_def)

lemma tq_inv_pos:
  assumes "tq_inv q"
  shows "tq_q_bottom q < tq_len q" "tq_push_bottom q < tq_len q" "tq_ptr q < tq_len q" "0 < tq_len q"
  using assms by (simp_all add: tq_inv_def)

lemmas tq_frame = tq_q2pop_def tq_push2pop_def tq_push2q_def Let_def

text \<open>Moving \<open>n\<close> elements over a segment border keeps the ring invariant.\<close>

lemma tq_q2pop_inv:
  assumes inv: "tq_inv q"
  shows "tq_inv (tq_q2pop q)"
proof -
  define n where "n = min (tq_owid q - tq_pop_sz q) (tq_q_sz q)"
  have n: "n \<le> tq_q_sz q" "n + tq_pop_sz q \<le> tq_owid q" "n \<le> tq_len q"
    using inv by (auto simp: n_def tq_inv_def)
  have "tq_pos q (tq_q_bottom q) n = (tq_q_bottom q + n) mod tq_len q"
    using tq_pos_eq [OF inv tq_inv_pos(1) [OF inv] n(3)] .
  also have "\<dots> = (tq_bottom q + (tq_pop_sz q + n)) mod tq_len q"
    using inv by (simp add: tq_inv_def mod_simps ac_simps)
  finally have "tq_q2pop q = q\<lparr>tq_q_bottom := (tq_bottom q + (tq_pop_sz q + n)) mod tq_len q,
      tq_pop_sz := tq_pop_sz q + n,
      tq_q_sz := tq_q_sz q - n\<rparr>"
    by (simp add: tq_q2pop_def Let_def n_def)
  then show ?thesis
    using inv n diff_le_self [of "tq_q_sz q" n] by (auto simp: tq_inv_def tq_size_def ac_simps)
qed

lemma tq_push2pop_inv:
  assumes inv: "tq_inv q" and empty: "tq_q_sz q = 0 \<or> tq_pop_sz q = tq_owid q"
  shows "tq_inv (tq_push2pop q)"
proof -
  define n where "n = min (tq_owid q - tq_pop_sz q) (tq_push_sz q)"
  have n: "n \<le> tq_push_sz q" "n + tq_pop_sz q \<le> tq_owid q" "n \<le> tq_len q"
    using inv by (auto simp: n_def tq_inv_def)
  have "tq_pos q (tq_q_bottom q) n = (tq_q_bottom q + n) mod tq_len q"
    using tq_pos_eq [OF inv tq_inv_pos(1) [OF inv] n(3)] .
  also have "\<dots> = (tq_bottom q + (tq_pop_sz q + n)) mod tq_len q"
    using inv by (simp add: tq_inv_def mod_simps ac_simps)
  finally have e1: "tq_pos q (tq_q_bottom q) n = (tq_bottom q + (tq_pop_sz q + n)) mod tq_len q" .
  have "tq_pos q (tq_push_bottom q) n = (tq_push_bottom q + n) mod tq_len q"
    using tq_pos_eq [OF inv tq_inv_pos(2) [OF inv] n(3)] .
  also have "\<dots> = (tq_bottom q + (tq_pop_sz q + tq_q_sz q + n)) mod tq_len q"
    using inv by (simp add: tq_inv_def mod_simps ac_simps)
  finally have "tq_push2pop q = q\<lparr>tq_q_bottom := (tq_bottom q + (tq_pop_sz q + n)) mod tq_len q,
      tq_push_bottom := (tq_bottom q + (tq_pop_sz q + tq_q_sz q + n)) mod tq_len q,
      tq_pop_sz := tq_pop_sz q + n, tq_push_sz := tq_push_sz q - n\<rparr>"
    using e1 by (simp add: tq_push2pop_def Let_def n_def)
  then show ?thesis
    using inv n diff_le_self [of "tq_push_sz q" n] by (auto simp: tq_inv_def tq_size_def ac_simps)
qed

lemma tq_push2q_inv:
  assumes inv: "tq_inv q"
  shows "tq_inv (tq_push2q q)"
proof -
  define n where "n = min (tq_qsize q - tq_q_sz q) (tq_push_sz q)"
  have n: "n \<le> tq_push_sz q" "n + tq_q_sz q \<le> tq_qsize q" "n \<le> tq_len q"
    using inv by (auto simp: n_def tq_inv_def)
  have "tq_pos q (tq_push_bottom q) n = (tq_push_bottom q + n) mod tq_len q"
    using tq_pos_eq [OF inv tq_inv_pos(2) [OF inv] n(3)] .
  also have "\<dots> = (tq_bottom q + (tq_pop_sz q + (tq_q_sz q + n))) mod tq_len q"
    using inv by (simp add: tq_inv_def mod_simps ac_simps)
  finally have "tq_push2q q = q\<lparr>tq_push_bottom := (tq_bottom q + (tq_pop_sz q + (tq_q_sz q + n))) mod tq_len q,
      tq_q_sz := tq_q_sz q + n,
      tq_push_sz := tq_push_sz q - n\<rparr>"
    by (simp add: tq_push2q_def Let_def n_def)
  then show ?thesis
    using inv n diff_le_self [of "tq_push_sz q" n] by (auto simp: tq_inv_def tq_size_def ac_simps)
qed

text \<open>What a tick does to the three sizes.\<close>

lemma tq_moves_frame:
  "tq_buf (tq_q2pop q) = tq_buf q" "tq_bottom (tq_q2pop q) = tq_bottom q" "tq_len (tq_q2pop q) = tq_len q"
  "tq_buf (tq_push2pop q) = tq_buf q" "tq_bottom (tq_push2pop q) = tq_bottom q" "tq_len (tq_push2pop q) = tq_len q"
  "tq_buf (tq_push2q q) = tq_buf q" "tq_bottom (tq_push2q q) = tq_bottom q" "tq_len (tq_push2q q) = tq_len q"
  "tq_size (tq_q2pop q) = tq_size q" "tq_size (tq_push2pop q) = tq_size q" "tq_size (tq_push2q q) = tq_size q"
  by (simp_all add: tq_frame tq_size_def)

lemma tq_params_frame:
  "tq_iwid (tq_q2pop q) = tq_iwid q" "tq_owid (tq_q2pop q) = tq_owid q" "tq_qsize (tq_q2pop q) = tq_qsize q"
  "tq_iwid (tq_push2pop q) = tq_iwid q" "tq_owid (tq_push2pop q) = tq_owid q" "tq_qsize (tq_push2pop q) = tq_qsize q"
  "tq_iwid (tq_push2q q) = tq_iwid q" "tq_owid (tq_push2q q) = tq_owid q" "tq_qsize (tq_push2q q) = tq_qsize q"
  by (simp_all add: tq_frame)

lemma tq_q2pop_split: "tq_inv q \<Longrightarrow> tq_q_sz (tq_q2pop q) = 0 \<or> tq_pop_sz (tq_q2pop q) = tq_owid (tq_q2pop q)"
  by (auto simp: tq_q2pop_def Let_def tq_inv_def min_def)

lemma tq_apply_next_tick_inv:
  assumes "tq_inv q"
  shows "tq_inv (tq_apply_next_tick q)"
proof (cases "tq_qsize q = 0")
  case True
  then have "tq_q_sz q = 0" using assms by (simp add: tq_inv_def)
  with True assms show ?thesis by (simp add: tq_apply_next_tick_def tq_push2pop_inv)
next
  case False
  have "tq_inv (tq_q2pop q)" using assms by (rule tq_q2pop_inv)
  moreover from this have "tq_inv (tq_push2pop (tq_q2pop q))"
    using tq_q2pop_split [OF assms] by (rule tq_push2pop_inv)
  ultimately show ?thesis
    using False by (simp add: tq_apply_next_tick_def Let_def tq_push2q_inv)
qed

lemma tq_tick_frame:
  "tq_buf (tq_apply_next_tick q) = tq_buf q" "tq_bottom (tq_apply_next_tick q) = tq_bottom q"
  "tq_len (tq_apply_next_tick q) = tq_len q" "tq_size (tq_apply_next_tick q) = tq_size q"
  "tq_iwid (tq_apply_next_tick q) = tq_iwid q" "tq_owid (tq_apply_next_tick q) = tq_owid q"
  "tq_qsize (tq_apply_next_tick q) = tq_qsize q"
  by (simp_all add: tq_apply_next_tick_def Let_def tq_moves_frame tq_params_frame)

lemma tq_tick_contents: "tq_contents (tq_apply_next_tick q) = tq_contents q"
  by (simp add: tq_contents_def tq_tick_frame)

text \<open>After a tick the poppable segment is as long as the output width and the content allow.\<close>

lemma tq_q2pop_sizes:
  assumes "tq_pop_sz q \<le> tq_owid q"
  shows "tq_pop_sz (tq_q2pop q) = min (tq_owid q) (tq_pop_sz q + tq_q_sz q)"
    and "tq_q_sz (tq_q2pop q) = tq_pop_sz q + tq_q_sz q - tq_owid q"
    and "tq_push_sz (tq_q2pop q) = tq_push_sz q"
  using assms by (simp_all add: tq_q2pop_def Let_def)

lemma tq_push2pop_sizes:
  assumes "tq_pop_sz q \<le> tq_owid q"
  shows "tq_pop_sz (tq_push2pop q) = min (tq_owid q) (tq_pop_sz q + tq_push_sz q)"
    and "tq_push_sz (tq_push2pop q) = tq_pop_sz q + tq_push_sz q - tq_owid q"
    and "tq_q_sz (tq_push2pop q) = tq_q_sz q"
  using assms by (simp_all add: tq_push2pop_def Let_def)

lemma tq_push2q_sizes:
  assumes "tq_q_sz q \<le> tq_qsize q"
  shows "tq_q_sz (tq_push2q q) = min (tq_qsize q) (tq_q_sz q + tq_push_sz q)"
    and "tq_push_sz (tq_push2q q) = tq_q_sz q + tq_push_sz q - tq_qsize q"
    and "tq_pop_sz (tq_push2q q) = tq_pop_sz q"
  using assms by (simp_all add: tq_push2q_def Let_def)

lemma tq_tick_sizes:
  assumes inv: "tq_inv q"
  shows "tq_pop_sz (tq_apply_next_tick q) = min (tq_owid q) (tq_size q)
    \<and> tq_push_sz (tq_apply_next_tick q) = tq_size q - (tq_owid q + tq_qsize q)"
proof (cases "tq_qsize q = 0")
  case True
  then have "tq_q_sz q = 0" "tq_pop_sz q \<le> tq_owid q" using inv by (simp_all add: tq_inv_def)
  then show ?thesis
    using True tq_push2pop_sizes [of q] by (simp add: tq_apply_next_tick_def tq_size_def) arith
next
  case False
  define q1 where "q1 = tq_q2pop q"
  define q2 where "q2 = (if tq_push_sz q1 \<noteq> 0 then tq_push2pop q1 else q1)"
  have le: "tq_pop_sz q \<le> tq_owid q" "tq_q_sz q \<le> tq_qsize q" using inv by (simp_all add: tq_inv_def)
  have p1: "tq_owid q1 = tq_owid q" "tq_qsize q1 = tq_qsize q" by (simp_all add: q1_def tq_params_frame)
  have s1: "tq_pop_sz q1 = min (tq_owid q) (tq_pop_sz q + tq_q_sz q)"
      "tq_q_sz q1 = tq_pop_sz q + tq_q_sz q - tq_owid q" "tq_push_sz q1 = tq_push_sz q"
    using tq_q2pop_sizes [OF le(1)] by (simp_all add: q1_def)
  have p2: "tq_owid q2 = tq_owid q" "tq_qsize q2 = tq_qsize q" by (simp_all add: q2_def p1 tq_params_frame)
  have "tq_pop_sz q1 \<le> tq_owid q1" using s1 p1 by simp
  from tq_push2pop_sizes [OF this]
  have s2: "tq_pop_sz q2 = min (tq_owid q) (tq_pop_sz q1 + tq_push_sz q)"
      "tq_push_sz q2 = tq_pop_sz q1 + tq_push_sz q - tq_owid q" "tq_q_sz q2 = tq_q_sz q1"
    using s1 p1 by (simp_all add: q2_def)
  have "tq_q_sz q2 \<le> tq_qsize q2" using s2 s1 p2 le by linarith
  note s3 = tq_push2q_sizes [OF this]
  have "tq_apply_next_tick q = tq_push2q q2"
    using False by (simp add: tq_apply_next_tick_def Let_def q1_def q2_def)
  moreover have "tq_pop_sz q2 = min (tq_owid q) (tq_size q)"
    using s1 s2(1) by (simp add: tq_size_def)
  moreover have "tq_q_sz q2 + tq_push_sz q2 - tq_qsize q2 = tq_size q - (tq_owid q + tq_qsize q)"
    using s1 s2 p2 by (simp add: tq_size_def) arith
  ultimately show ?thesis using s3 by simp
qed

subsection \<open>Push and pop\<close>

lemma tq_push_inv:
  assumes inv: "tq_inv q" and push: "tq_push v q = Some q'"
  shows "tq_inv q'"
proof -
  have "tq_pos q (tq_ptr q) 1 = (tq_ptr q + 1) mod tq_len q"
    using tq_pos_eq [OF inv tq_inv_pos(3) [OF inv], of 1] tq_inv_pos(4) [OF inv] by simp
  also have "\<dots> = (tq_bottom q + (tq_size q + 1)) mod tq_len q"
    using inv by (simp add: tq_inv_def mod_simps ac_simps)
  finally show ?thesis
    using inv push by (auto simp: tq_push_def tq_inv_def tq_size_def split: if_splits)
qed

lemma tq_push_contents:
  assumes inv: "tq_inv q" and push: "tq_push v q = Some q'"
  shows "tq_contents q' = tq_contents q @ [v]"
proof -
  have q': "q' = q\<lparr>tq_buf := (tq_buf q)[tq_ptr q := v], tq_ptr := tq_pos q (tq_ptr q) 1,
      tq_push_sz := tq_push_sz q + 1\<rparr>"
    using push by (simp add: tq_push_def split: if_splits)
  have size: "tq_size q' = Suc (tq_size q)" by (simp add: q' tq_size_def)
  have ptr: "tq_ptr q = (tq_bottom q + tq_size q) mod tq_len q" "length (tq_buf q) = tq_len q"
    using inv by (simp_all add: tq_inv_def)
  have lt: "tq_size q < tq_len q" using inv by (rule tq_size_less)
  have "tq_buf q' ! ((tq_bottom q + i) mod tq_len q) = tq_buf q ! ((tq_bottom q + i) mod tq_len q)"
    if "i < tq_size q" for i
  proof -
    have "(tq_bottom q + i) mod tq_len q \<noteq> tq_ptr q"
      using mod_add_inj [of i "tq_len q" "tq_size q" "tq_bottom q"] that lt ptr(1) by auto
    then show ?thesis by (simp add: q')
  qed
  moreover have "tq_buf q' ! ((tq_bottom q + tq_size q) mod tq_len q) = v"
    using ptr inv tq_inv_pos(3) [OF inv] by (simp add: q')
  ultimately show ?thesis by (simp add: tq_contents_def size) (simp add: q')
qed

lemma tq_pop_inv:
  assumes inv: "tq_inv q" and pop: "tq_pop q = Some q'"
  shows "tq_inv q'"
proof -
  have "tq_pos q (tq_bottom q) 1 = (tq_bottom q + 1) mod tq_len q"
    using tq_pos_eq [OF inv, of "tq_bottom q" 1] inv by (simp add: tq_inv_def)
  moreover obtain m where m: "tq_pop_sz q = Suc m"
    using pop by (cases "tq_pop_sz q") (auto simp: tq_pop_def)
  ultimately have q': "q' = q\<lparr>tq_bottom := (tq_bottom q + 1) mod tq_len q, tq_pop_sz := m\<rparr>"
    using pop by (simp add: tq_pop_def)
  show ?thesis
    using inv m tq_inv_pos(4) [OF inv] by (simp add: q' tq_inv_def tq_size_def mod_simps)
qed

lemma tq_pop_contents:
  assumes inv: "tq_inv q" and pop: "tq_pop q = Some q'"
  shows "tq_contents q = tq_buf q ! tq_bottom q # tq_contents q'"
proof -
  have q': "q' = q\<lparr>tq_bottom := tq_pos q (tq_bottom q) 1, tq_pop_sz := tq_pop_sz q - 1\<rparr>"
    and pos: "0 < tq_pop_sz q"
    using pop by (simp_all add: tq_pop_def split: if_splits)
  have b: "tq_pos q (tq_bottom q) 1 = (tq_bottom q + 1) mod tq_len q"
    using tq_pos_eq [OF inv, of "tq_bottom q" 1] inv by (simp add: tq_inv_def)
  have size: "tq_size q = Suc (tq_size q')" using pos by (simp add: q' tq_size_def)
  have "[0..<tq_size q] = 0 # map Suc [0..<tq_size q']"
    by (simp only: size upt_conv_Cons zero_less_Suc map_Suc_upt)
  then show ?thesis
    using inv by (simp add: tq_contents_def comp_def tq_inv_def) (simp add: q' b [simplified] mod_simps)
qed

lemma tq_top_contents:
  "tq_inv q \<Longrightarrow> tq_top q = (if tq_pop_sz q = 0 then None else Some (hd (tq_contents q)))"
  using tq_pop_contents [of q] by (auto simp: tq_top_def tq_pop_def)

lemma tq_new_inv:
  assumes new: "tq_new v iw ow qs = Some q" and small: "unat iw + unat ow + unat qs \<le> 2 ^ 29"
  shows "tq_inv q \<and> tq_contents q = [] \<and> tq_iwid q = unat iw \<and> tq_owid q = unat ow \<and> tq_qsize q = unat qs"
proof -
  let ?n = "unat iw + unat ow + unat qs"
  have pos: "0 < unat iw" "0 < unat ow"
    using new by (auto simp: tq_new_def word_less_nat_alt split: if_splits)
  have s: "unat (iw + ow + qs) = ?n" using small by (simp add: unat_word_ariths)
  have d: "unat ((iw + ow + qs) * 2) = ?n * 2" using small by (simp only: unat_word_ariths(2) s) simp
  have l: "unat (ALIGN ((iw + ow + qs) * 2) 16) = 16 * ((?n * 2 + 16 - 1) div 16)"
    using unat_ALIGN [of "16 :: u32" "(iw + ow + qs) * 2"] small d by simp
  have "?n * 2 \<le> 16 * ((?n * 2 + 16 - 1) div 16)" "16 * ((?n * 2 + 16 - 1) div 16) < ?n * 2 + 16"
    using nat_ceil_div_bounds [of 16 "?n * 2"] by simp_all
  then show ?thesis
    using new small pos unfolding tq_new_def Let_def l
    by (auto simp: tq_inv_def tq_size_def tq_contents_def split: if_splits)
qed

subsection \<open>The traversal and the transfer\<close>

lemma tq_collect_eq:
  assumes inv: "tq_inv q" and "k + n = tq_size q" and "n < f"
  shows "tq_collect f q ((tq_bottom q + k) mod tq_len q)
    = Some (map (\<lambda>i. tq_buf q ! ((tq_bottom q + i) mod tq_len q)) [k..<tq_size q])"
  using assms(2,3)
proof (induction n arbitrary: k f)
  case 0
  then obtain f' where "f = Suc f'" by (cases f) auto
  with 0 inv show ?case by (simp add: tq_inv_def)
next
  case (Suc n)
  then obtain f' where f: "f = Suc f'" by (cases f) auto
  have lt: "tq_size q < tq_len q" using inv by (rule tq_size_less)
  let ?i = "(tq_bottom q + k) mod tq_len q"
  have ne: "?i \<noteq> tq_ptr q"
    using mod_add_inj [of k "tq_len q" "tq_size q" "tq_bottom q"] Suc.prems lt inv
    by (auto simp: tq_inv_def)
  have "tq_pos q ?i 1 = (tq_bottom q + Suc k) mod tq_len q"
    using tq_pos_eq [OF inv, of ?i 1] tq_inv_pos(4) [OF inv] by (simp add: mod_simps)
  moreover have "tq_collect f' q ((tq_bottom q + Suc k) mod tq_len q)
      = Some (map (\<lambda>i. tq_buf q ! ((tq_bottom q + i) mod tq_len q)) [Suc k..<tq_size q])"
    using Suc.prems f by (intro Suc.IH) auto
  moreover have "[k..<tq_size q] = k # [Suc k..<tq_size q]"
    using Suc.prems by (simp add: upt_conv_Cons)
  ultimately show ?case using ne f by simp
qed

lemma tq_dbg_get_all_eq: "tq_inv q \<Longrightarrow> tq_dbg_get_all q = Some (tq_contents q)"
  using tq_collect_eq [of q 0 "tq_size q" "Suc (tq_len q)"] tq_size_less [of q]
  by (simp add: tq_dbg_get_all_def tq_contents_def tq_inv_def)

lemma tq_empty_iff:
  assumes "tq_inv q"
  shows "tq_empty q \<longleftrightarrow> tq_contents q = []"
proof -
  have "tq_bottom q = (tq_bottom q + 0) mod tq_len q" using assms by (simp add: tq_inv_def)
  then have "tq_empty q \<longleftrightarrow> (tq_bottom q + 0) mod tq_len q = (tq_bottom q + tq_size q) mod tq_len q"
    using assms by (simp add: tq_empty_def tq_inv_def)
  also have "\<dots> \<longleftrightarrow> tq_size q = 0"
    using mod_add_inj [of 0 "tq_len q" "tq_size q" "tq_bottom q"] tq_size_less [OF assms]
      tq_inv_pos(4) [OF assms] by auto
  finally show ?thesis by (simp add: tq_contents_def)
qed

text \<open>The client's protocol: read \<^verbatim>\<open>top\<close> and pop, when something can be popped.\<close>

definition tq_take :: "'a tick_queue \<Rightarrow> ('a \<times> 'a tick_queue) option" where
  "tq_take q = (case tq_top q of None \<Rightarrow> None | Some v \<Rightarrow> map_option (Pair v) (tq_pop q))"

lemma tq_takeD:
  assumes "tq_take q = Some (x, q')"
  shows "tq_pop q = Some q'" and "x = tq_buf q ! tq_bottom q"
  using assms by (auto simp: tq_take_def tq_top_def split: if_splits option.splits)

definition tq_capacity :: "'a tick_queue \<Rightarrow> nat" where
  "tq_capacity q = tq_iwid q + tq_owid q + tq_qsize q"

lemma length_tq_contents: "length (tq_contents q) = tq_size q"
  by (simp add: tq_contents_def)

interpretation tq: bounded_fifo tq_push tq_take tq_apply_next_tick tq_contents tq_inv tq_capacity
proof
  fix s x s'
  show "tq_inv s \<Longrightarrow> tq_push x s = Some s' \<Longrightarrow> tq_inv s'" by (rule tq_push_inv)
  show "tq_inv s \<Longrightarrow> tq_push x s = Some s' \<Longrightarrow> tq_contents s' = tq_contents s @ [x]"
    by (rule tq_push_contents)
  show "tq_inv s \<Longrightarrow> tq_take s = Some (x, s') \<Longrightarrow> tq_inv s'"
    using tq_takeD(1) [of s x s'] tq_pop_inv [of s s'] by simp
  show "tq_inv s \<Longrightarrow> tq_take s = Some (x, s') \<Longrightarrow> tq_contents s = x # tq_contents s'"
    using tq_takeD [of s x s'] tq_pop_contents [of s s'] by simp
  show "tq_inv s \<Longrightarrow> tq_inv (tq_apply_next_tick s)" by (rule tq_apply_next_tick_inv)
  show "tq_inv s \<Longrightarrow> tq_contents (tq_apply_next_tick s) = tq_contents s" by (rule tq_tick_contents)
  show "tq_inv s \<Longrightarrow> length (tq_contents s) \<le> tq_capacity s"
    by (simp add: length_tq_contents tq_inv_def tq_size_def tq_capacity_def)
  show "tq_push x s = Some s' \<Longrightarrow> tq_capacity s' = tq_capacity s"
    by (auto simp: tq_push_def tq_capacity_def split: if_splits)
  show "tq_take s = Some (x, s') \<Longrightarrow> tq_capacity s' = tq_capacity s"
    using tq_takeD(1) [of s x s'] by (auto simp: tq_pop_def tq_capacity_def split: if_splits)
  show "tq_capacity (tq_apply_next_tick s) = tq_capacity s"
    by (simp add: tq_capacity_def tq_tick_frame)
qed

lemma tq_pass_loop_moves:
  assumes "tq_inv q" and "tq_inv q2" and "n \<le> tq_can_pop q" and "n \<le> tq_can_push q2"
  shows "\<exists>q' q2'. tq_pass_loop n q q2 = Some (q', q2') \<and> tq_inv q' \<and> tq_inv q2'
    \<and> tq_contents q' = drop n (tq_contents q) \<and> tq_contents q2' = tq_contents q2 @ take n (tq_contents q)"
  using assms
proof (induction n arbitrary: q q2)
  case 0
  then show ?case by simp
next
  case (Suc n)
  obtain q' where q': "tq_pop q = Some q'" using Suc.prems(3) by (simp add: tq_pop_def tq_can_pop_def)
  let ?v = "tq_buf q ! tq_bottom q"
  have top: "tq_top q = Some ?v" using Suc.prems(3) by (simp add: tq_top_def tq_can_pop_def)
  obtain r where r: "tq_push ?v q2 = Some r"
    using Suc.prems(4) by (cases "tq_push ?v q2") (auto simp: tq_push_def tq_can_push_def split: if_splits)
  have "n \<le> tq_can_pop q'" using q' Suc.prems(3) by (auto simp: tq_pop_def tq_can_pop_def split: if_splits)
  moreover have "n \<le> tq_can_push r" using r Suc.prems(4) by (auto simp: tq_push_def tq_can_push_def split: if_splits)
  moreover have "tq_inv q'" "tq_inv r"
    using tq_pop_inv [OF Suc.prems(1) q'] tq_push_inv [OF Suc.prems(2) r] by simp_all
  ultimately obtain p p2 where p: "tq_pass_loop n q' r = Some (p, p2)" "tq_inv p" "tq_inv p2"
      "tq_contents p = drop n (tq_contents q')" "tq_contents p2 = tq_contents r @ take n (tq_contents q')"
    using Suc.IH by blast
  with top q' r tq_pop_contents [OF Suc.prems(1) q'] tq_push_contents [OF Suc.prems(2) r]
  show ?case by simp
qed

section \<open>The list based buffers\<close>

subsection \<open>LimitedTickList\<close>

record 'a limited_list =
  ll_iwid :: nat
  ll_qsize :: nat
  ll_push_buf :: "'a list"
  ll_q :: "'a list"

definition ll_new :: "nat \<Rightarrow> nat \<Rightarrow> 'a limited_list option" where
  "ll_new input_wid queue_size =
     (if 0 < input_wid \<and> input_wid < 2 ^ 30
      then Some \<lparr>ll_iwid = input_wid, ll_qsize = queue_size, ll_push_buf = [], ll_q = []\<rparr> else None)"

definition ll_can_push :: "'a limited_list \<Rightarrow> nat" where
  "ll_can_push l =
     (if length (ll_push_buf l) < ll_iwid l \<and> length (ll_push_buf l) + length (ll_q l) < ll_qsize l
      then ll_iwid l - length (ll_push_buf l) else 0)"

definition ll_push_next_tick :: "'a \<Rightarrow> 'a limited_list \<Rightarrow> 'a limited_list option" where
  "ll_push_next_tick v l = (if ll_can_push l = 0 then None else Some (l\<lparr>ll_push_buf := ll_push_buf l @ [v]\<rparr>))"

definition ll_apply_next_tick :: "'a limited_list \<Rightarrow> 'a limited_list" where
  "ll_apply_next_tick l = l\<lparr>ll_q := ll_q l @ ll_push_buf l, ll_push_buf := []\<rparr>"

definition ll_size :: "'a limited_list \<Rightarrow> nat" where
  "ll_size l = length (ll_q l) + length (ll_push_buf l)"

definition ll_cur_size :: "'a limited_list \<Rightarrow> nat" where
  "ll_cur_size l = length (ll_q l)"

definition ll_empty :: "'a limited_list \<Rightarrow> bool" where
  "ll_empty l = (ll_q l = [] \<and> ll_push_buf l = [])"

definition ll_take :: "'a limited_list \<Rightarrow> ('a \<times> 'a limited_list) option" where
  \<comment> \<open>\<^verbatim>\<open>front\<close> followed by \<^verbatim>\<open>pop_front\<close>, undefined on an empty main list\<close>
  "ll_take l = (case ll_q l of [] \<Rightarrow> None | x # xs \<Rightarrow> Some (x, l\<lparr>ll_q := xs\<rparr>))"

definition ll_clear :: "'a list \<Rightarrow> 'a limited_list \<Rightarrow> 'a list \<times> 'a limited_list" where
  "ll_clear to_free l = (to_free @ ll_q l @ ll_push_buf l, l\<lparr>ll_q := [], ll_push_buf := []\<rparr>)"

definition ll_contents :: "'a limited_list \<Rightarrow> 'a list" where
  "ll_contents l = ll_q l @ ll_push_buf l"

definition ll_inv :: "'a limited_list \<Rightarrow> bool" where
  "ll_inv l \<longleftrightarrow> length (ll_q l) + length (ll_push_buf l) \<le> ll_qsize l"

interpretation ll: bounded_fifo ll_push_next_tick ll_take ll_apply_next_tick ll_contents ll_inv ll_qsize
  by unfold_locales
    (auto simp: ll_push_next_tick_def ll_take_def ll_apply_next_tick_def ll_contents_def ll_inv_def
      ll_can_push_def split: if_splits list.splits)

subsection \<open>TickList\<close>

record 'a tick_list =
  tl_push_buf :: "'a list"
  tl_q :: "'a list"

definition tl_push_next_tick :: "'a \<Rightarrow> 'a tick_list \<Rightarrow> 'a tick_list option" where
  "tl_push_next_tick v l = Some (l\<lparr>tl_push_buf := tl_push_buf l @ [v]\<rparr>)"

definition tl_apply_next_tick :: "'a tick_list \<Rightarrow> 'a tick_list" where
  "tl_apply_next_tick l = l\<lparr>tl_q := tl_q l @ tl_push_buf l, tl_push_buf := []\<rparr>"

definition tl_take :: "'a tick_list \<Rightarrow> ('a \<times> 'a tick_list) option" where
  "tl_take l = (case tl_q l of [] \<Rightarrow> None | x # xs \<Rightarrow> Some (x, l\<lparr>tl_q := xs\<rparr>))"

definition tl_clear :: "'a list \<Rightarrow> 'a tick_list \<Rightarrow> 'a list \<times> 'a tick_list" where
  "tl_clear to_free l = (to_free @ tl_q l @ tl_push_buf l, l\<lparr>tl_q := [], tl_push_buf := []\<rparr>)"

definition tl_contents :: "'a tick_list \<Rightarrow> 'a list" where
  "tl_contents l = tl_q l @ tl_push_buf l"

interpretation tl: clocked_fifo tl_push_next_tick tl_take tl_apply_next_tick tl_contents "\<lambda>_. True"
  by unfold_locales
    (auto simp: tl_push_next_tick_def tl_take_def tl_apply_next_tick_def tl_contents_def split: list.splits)

subsection \<open>TickMap, TickMultiMap and TickSet\<close>

text \<open>
  An unordered map is an association list with distinct keys; the order in which the code
  would visit its entries is not specified, and the list order stands for one such order.
\<close>

record ('k, 'v) tick_map =
  tm_push_buf :: "('k \<times> 'v) list"
  tm_m :: "('k \<times> 'v) list"

definition tm_push_next_tick :: "'k \<Rightarrow> 'v \<Rightarrow> ('k, 'v) tick_map \<Rightarrow> ('k, 'v) tick_map" where
  "tm_push_next_tick k v t = t\<lparr>tm_push_buf := tm_push_buf t @ [(k, v)]\<rparr>"

definition tm_apply_next_tick :: "('k, 'v) tick_map \<Rightarrow> ('k, 'v) tick_map" where
  "tm_apply_next_tick t = t\<lparr>tm_m := fold (\<lambda>(k, v). AList.update k v) (tm_push_buf t) (tm_m t), tm_push_buf := []\<rparr>"

definition tm_find :: "'k \<Rightarrow> ('k, 'v) tick_map \<Rightarrow> 'v option" where
  "tm_find k t = map_of (tm_m t) k"

definition tm_size :: "('k, 'v) tick_map \<Rightarrow> nat" where
  "tm_size t = length (tm_m t) + length (tm_push_buf t)"

definition tm_clear :: "('k \<times> 'v) list \<Rightarrow> ('k, 'v) tick_map \<Rightarrow> ('k \<times> 'v) list \<times> ('k, 'v) tick_map" where
  "tm_clear to_free t = (to_free @ tm_m t @ tm_push_buf t, \<lparr>tm_push_buf = [], tm_m = []\<rparr>)"

definition tmm_apply_next_tick :: "('k, 'v) tick_map \<Rightarrow> ('k, 'v) tick_map" where
  \<comment> \<open>the multimap keeps an entry per push\<close>
  "tmm_apply_next_tick t = t\<lparr>tm_m := tm_m t @ tm_push_buf t, tm_push_buf := []\<rparr>"

definition tmm_push_next_tick :: "'k \<Rightarrow> 'v \<Rightarrow> ('k, 'v) tick_map \<Rightarrow> ('k, 'v) tick_map" where
  "tmm_push_next_tick k v t = t\<lparr>tm_push_buf := tm_push_buf t @ [(k, v)]\<rparr>"

definition tmm_clear :: "('k \<times> 'v) list \<Rightarrow> ('k, 'v) tick_map \<Rightarrow> ('k \<times> 'v) list \<times> ('k, 'v) tick_map" where
  "tmm_clear to_free t = (to_free @ tm_m t @ tm_push_buf t, \<lparr>tm_push_buf = [], tm_m = []\<rparr>)"

record 'a tick_set =
  ts_push_buf :: "'a set"
  ts_s :: "'a set"

definition ts_push_next_tick :: "'a \<Rightarrow> 'a tick_set \<Rightarrow> 'a tick_set" where
  "ts_push_next_tick v t = t\<lparr>ts_push_buf := insert v (ts_push_buf t)\<rparr>"

definition ts_apply_next_tick :: "'a tick_set \<Rightarrow> 'a tick_set" where
  "ts_apply_next_tick t = t\<lparr>ts_s := ts_s t \<union> ts_push_buf t, ts_push_buf := {}\<rparr>"

definition ts_clear :: "'a tick_set \<Rightarrow> 'a tick_set" where
  "ts_clear t = t\<lparr>ts_s := {}, ts_push_buf := {}\<rparr>"

lemma tm_fold_update:
  "map_of (fold (\<lambda>(k, v). AList.update k v) ps m) = map_of m ++ map_of (rev ps)"
proof (induction ps arbitrary: m)
  case Nil
  then show ?case by simp
next
  case (Cons p ps)
  obtain a b where p: "p = (a, b)" by (cases p)
  have "map_of (fold (\<lambda>(k, v). AList.update k v) (p # ps) m) = map_of (AList.update a b m) ++ map_of (rev ps)"
    by (simp only: fold_Cons comp_apply p prod.case Cons.IH)
  also have "\<dots> = (map_of m)(a \<mapsto> b) ++ map_of (rev ps)"
    by (simp only: update_conv')
  also have "\<dots> = map_of m ++ map_of (rev (p # ps))"
    by (simp add: p map_add_assoc [symmetric])
  finally show ?case .
qed

lemma tm_fold_distinct:
  "distinct (map fst m) \<Longrightarrow> distinct (map fst (fold (\<lambda>(k, v). AList.update k v) ps m))"
  by (induction ps arbitrary: m) (auto simp: distinct_update)

section \<open>Properties\<close>

text \<open>
  C15. The ring buffer of \<^verbatim>\<open>SimpleTickQueue\<close> is a bounded FIFO. From a freshly
  constructed queue, over every sequence of pushes, pops and ticks, the accepted values are
  the delivered values followed by the content of the queue, which the ring traversal lists;
  the queue reports empty exactly when everything accepted was delivered, and it never holds
  more than its input width, output width and queue size together. The three sizes together are taken to be at most \<open>2 ^ 29\<close>.
\<close>

theorem tick_queue_fifo:
  assumes "tq_new d iw ow qs = Some q" and "unat iw + unat ow + unat qs \<le> 2 ^ 29"
    and "fifo_run tq_push tq_take tq_apply_next_tick es q = (ins, outs, t)"
  shows "ins = outs @ tq_contents t \<and> tq_dbg_get_all t = Some (tq_contents t)
    \<and> (tq_empty t \<longleftrightarrow> ins = outs) \<and> tq_size t \<le> unat iw + unat ow + unat qs"
proof -
  have q: "tq_inv q" "tq_contents q = []" "tq_capacity q = unat iw + unat ow + unat qs"
    using tq_new_inv [OF assms(1,2)] by (simp_all add: tq_capacity_def)
  have ins: "ins = outs @ tq_contents t" using tq.run_prefix [OF q(1,2) assms(3)] .
  have t: "tq_inv t" using tq.run_inv [OF q(1), of es] assms(3) by simp
  have "tq_size t \<le> unat iw + unat ow + unat qs"
    using tq.run_bounded [OF q(1) assms(3)] q(3) by (simp add: length_tq_contents)
  then show ?thesis
    using ins tq_dbg_get_all_eq [OF t] tq_empty_iff [OF t] by simp
qed

theorem tick_queue_fifo_witness:
  "\<exists>q ins outs t. tq_new (0 :: nat) 1 1 0 = Some q
    \<and> fifo_run tq_push tq_take tq_apply_next_tick [Push 5, Push 6, Clock, Push 7, Pop, Clock] q = (ins, outs, t)
    \<and> ins = outs @ tq_contents t"
proof -
  obtain q where q: "tq_new (0 :: nat) 1 1 0 = Some q" by (simp add: tq_new_def Let_def)
  obtain ins outs t where
    t: "fifo_run tq_push tq_take tq_apply_next_tick [Push 5, Push 6, Clock, Push 7, Pop, Clock] q = (ins, outs, t)"
    by (rule prod_cases3)
  have "ins = outs @ tq_contents t" using tick_queue_fifo [OF q _ t] by simp
  with q t show ?thesis by blast
qed

text \<open>
  C26. A tick makes progress: afterwards exactly the first \<^verbatim>\<open>output_wid\<close> elements (or all,
  if there are fewer) can be popped, so a non-empty queue always offers one; and unless the
  content exceeds the output width and the queue size, the full input width can be pushed.
\<close>

theorem tick_queue_progress:
  assumes "tq_inv q"
  shows "tq_can_pop (tq_apply_next_tick q) = min (tq_owid q) (tq_size q)
    \<and> (tq_contents q \<noteq> [] \<longrightarrow> tq_top (tq_apply_next_tick q) = Some (hd (tq_contents q)))
    \<and> (tq_size q \<le> tq_owid q + tq_qsize q \<longrightarrow> tq_can_push (tq_apply_next_tick q) = tq_iwid q)"
proof -
  have pop: "tq_can_pop (tq_apply_next_tick q) = min (tq_owid q) (tq_size q)"
    and push: "tq_push_sz (tq_apply_next_tick q) = tq_size q - (tq_owid q + tq_qsize q)"
    using tq_tick_sizes [OF assms] by (simp_all add: tq_can_pop_def)
  have "tq_top (tq_apply_next_tick q) = Some (hd (tq_contents q))" if "tq_contents q \<noteq> []"
  proof -
    have "0 < tq_size q" using that by (simp add: length_tq_contents [symmetric])
    moreover have "0 < tq_owid q" using assms by (simp add: tq_inv_def)
    ultimately have "tq_pop_sz (tq_apply_next_tick q) \<noteq> 0" using pop by (simp add: tq_can_pop_def)
    then show ?thesis
      using tq_top_contents [OF tq_apply_next_tick_inv [OF assms]] by (simp add: tq_tick_contents)
  qed
  then show ?thesis using pop push by (simp add: tq_can_push_def tq_tick_frame)
qed

theorem tick_queue_progress_witness:
  "\<exists>q q1. tq_new (0 :: nat) 2 1 4 = Some q \<and> tq_push 9 q = Some q1 \<and> tq_can_pop q1 = 0
    \<and> tq_can_pop (tq_apply_next_tick q1) = min (tq_owid q1) (tq_size q1)"
proof -
  obtain q where q: "tq_new (0 :: nat) 2 1 4 = Some q" by (simp add: tq_new_def Let_def)
  have inv: "tq_inv q" using tq_new_inv [OF q] by simp
  obtain q1 where q1: "tq_push 9 q = Some q1" "tq_can_pop q1 = 0"
    using q by (auto simp: tq_new_def tq_push_def tq_can_pop_def Let_def)
  from tick_queue_progress [OF tq_push_inv [OF inv q1(1)]] q q1 show ?thesis by blast
qed

text \<open>
  \<^verbatim>\<open>pass_to\<close> is atomic: it either refuses and changes nothing, exactly when the source
  cannot pop or the target cannot take that many elements, or it moves the first
  \<^verbatim>\<open>cnt\<close> elements in order from the front of the source to the back of the target.
\<close>

theorem tick_queue_pass_to_atomic:
  assumes "tq_inv q" and "tq_inv q2"
  shows "\<exists>ok q' q2'. tq_pass_to cnt q q2 = Some (ok, q', q2') \<and> tq_inv q' \<and> tq_inv q2'
    \<and> (ok \<longleftrightarrow> cnt \<le> tq_can_pop q \<and> cnt \<le> tq_can_push q2)
    \<and> tq_contents q' = (if ok then drop cnt (tq_contents q) else tq_contents q)
    \<and> tq_contents q2' = (if ok then tq_contents q2 @ take cnt (tq_contents q) else tq_contents q2)"
proof (cases "cnt \<le> tq_can_pop q \<and> cnt \<le> tq_can_push q2")
  case True
  then obtain q' q2' where "tq_pass_loop cnt q q2 = Some (q', q2')" "tq_inv q'" "tq_inv q2'"
      "tq_contents q' = drop cnt (tq_contents q)" "tq_contents q2' = tq_contents q2 @ take cnt (tq_contents q)"
    using tq_pass_loop_moves [OF assms] by blast
  with True assms show ?thesis by (cases "cnt = 0") (auto simp: tq_pass_to_def)
next
  case False
  then have "tq_pass_to cnt q q2 = Some (False, q, q2)" by (auto simp: tq_pass_to_def)
  with False assms show ?thesis by auto
qed

theorem tick_queue_pass_to_atomic_witness:
  "\<exists>q ok q' q2'. tq_new (0 :: nat) 1 1 0 = Some q \<and> tq_pass_to 1 q q = Some (ok, q', q2')
    \<and> (ok \<longleftrightarrow> 1 \<le> tq_can_pop q \<and> 1 \<le> tq_can_push q)"
proof -
  obtain q where q: "tq_new (0 :: nat) 1 1 0 = Some q" by (simp add: tq_new_def Let_def)
  have "tq_inv q" using tq_new_inv [OF q] by simp
  from tick_queue_pass_to_atomic [OF this this, of 1] q show ?thesis by blast
qed

text \<open>
  Entries pushed into a \<^verbatim>\<open>TickMap\<close> during a cycle are invisible until the tick; after it
  every key has the last value pushed for it in the cycle, or its old value, and no key is
  stored twice.
\<close>

theorem tick_map_last_push_wins:
  assumes "distinct (map fst (tm_m t))"
  shows "tm_find k (tm_push_next_tick k' v t) = tm_find k t
    \<and> tm_find k (tm_apply_next_tick t)
      = (case map_of (rev (tm_push_buf t)) k of None \<Rightarrow> tm_find k t | Some w \<Rightarrow> Some w)
    \<and> distinct (map fst (tm_m (tm_apply_next_tick t)))"
  using tm_fold_distinct [OF assms, of "tm_push_buf t"]
  by (simp add: tm_find_def tm_push_next_tick_def tm_apply_next_tick_def tm_fold_update map_add_def
      split: option.split)

theorem tick_map_last_push_wins_witness:
  "tm_find 1 (tm_apply_next_tick (tm_push_next_tick 1 (8 :: nat) (tm_push_next_tick 1 7
      \<lparr>tm_push_buf = [], tm_m = [(1 :: nat, 5)]\<rparr>))) = Some 8"
  using tick_map_last_push_wins [of "tm_push_next_tick 1 (8 :: nat) (tm_push_next_tick 1 7
      \<lparr>tm_push_buf = [], tm_m = [(1 :: nat, 5)]\<rparr>)" 1 0 0]
  by (simp add: tm_push_next_tick_def)

end
