(* ===== verification/Pipes.thy ===== *)
theory Pipes
  imports FifoSpec
begin

text \<open>
  The stage pipes of \<^verbatim>\<open>src/src/utils/pipe.hpp\<close>: the unbuffered stage registers, the
  one-place handshake pipe and the general \<^verbatim>\<open>Pipe\<close> with \<^verbatim>\<open>InNum\<close> push ports,
  \<^verbatim>\<open>OutNum\<close> pop ports and a list between them. A port is a record with the code's fields; the
  value of a port that was never written is whatever the record holds.
\<close>

section \<open>Stage registers\<close>

record 'd stage_pipe =
  sp_input :: 'd
  sp_output :: 'd

definition sp_push :: "'d \<Rightarrow> 'd stage_pipe \<Rightarrow> 'd stage_pipe" where
  "sp_push d p = p\<lparr>sp_input := d\<rparr>"

definition sp_top :: "'d stage_pipe \<Rightarrow> 'd" where
  "sp_top p = sp_output p"

definition sp_apply_next_tick :: "'d stage_pipe \<Rightarrow> 'd stage_pipe" where
  "sp_apply_next_tick p = p\<lparr>sp_output := sp_input p\<rparr>"

record 'd valid_data =
  vd_valid :: bool
  vd_data :: 'd

record 'd valid_pipe =
  vp_input :: "'d valid_data"
  vp_output :: "'d valid_data"

definition vp_keep :: "'d valid_pipe \<Rightarrow> 'd valid_pipe" where
  "vp_keep p = p\<lparr>vp_input := (vp_input p)\<lparr>vd_valid := True\<rparr>\<rparr>"

definition vp_push :: "'d \<Rightarrow> 'd valid_pipe \<Rightarrow> 'd valid_pipe" where
  "vp_push d p = p\<lparr>vp_input := \<lparr>vd_valid = True, vd_data = d\<rparr>\<rparr>"

definition vp_top :: "'d valid_pipe \<Rightarrow> bool \<times> 'd" where
  "vp_top p = (vd_valid (vp_output p), vd_data (vp_output p))"

definition vp_apply_next_tick :: "'d valid_pipe \<Rightarrow> 'd valid_pipe" where
  "vp_apply_next_tick p = p\<lparr>vp_output := vp_input p, vp_input := (vp_input p)\<lparr>vd_valid := False\<rparr>\<rparr>"

lemma vp_one_cycle:
  "vp_top (vp_apply_next_tick (vp_push d p)) = (True, d)"
  "vd_valid (vp_output (vp_apply_next_tick (vp_apply_next_tick p))) = False"
  by (simp_all add: vp_top_def vp_apply_next_tick_def vp_push_def)

section \<open>Ports\<close>

record 'd pop_port =
  pop_valid :: bool
  pop_value :: 'd
  pop_accepted :: bool

record 'd push_port =
  push_ready :: bool
  push_value :: 'd
  push_accepted :: bool

definition port_pop :: "'d pop_port \<Rightarrow> 'd pop_port" where
  "port_pop p = (if \<not> pop_valid p then p else p\<lparr>pop_valid := False, pop_accepted := True\<rparr>)"

definition port_push :: "'d \<Rightarrow> 'd push_port \<Rightarrow> 'd push_port" where
  "port_push v p =
     (if \<not> push_ready p then p else p\<lparr>push_accepted := True, push_ready := False, push_value := v\<rparr>)"

section \<open>The one-place handshake pipe\<close>

record 'd handshake_pipe =
  hp_out :: "'d pop_port"
  hp_in :: "'d push_port"
  hp_clear_flag :: bool

definition hp_clear :: "'d handshake_pipe \<Rightarrow> 'd handshake_pipe" where
  "hp_clear p = p\<lparr>hp_clear_flag := True\<rparr>"

definition hp_apply_next_tick :: "'d handshake_pipe \<Rightarrow> 'd handshake_pipe" where
  "hp_apply_next_tick p =
    (if hp_clear_flag p then
       p\<lparr>hp_clear_flag := False,
         hp_out := (hp_out p)\<lparr>pop_valid := False, pop_accepted := False\<rparr>,
         hp_in := (hp_in p)\<lparr>push_ready := True, push_accepted := False\<rparr>\<rparr>
     else
       let o1 = (if pop_accepted (hp_out p) then (hp_out p)\<lparr>pop_accepted := False\<rparr> else hp_out p)
       in if push_accepted (hp_in p) \<and> \<not> pop_valid o1 then
            p\<lparr>hp_out := o1\<lparr>pop_valid := True, pop_value := push_value (hp_in p)\<rparr>,
              hp_in := (hp_in p)\<lparr>push_accepted := False, push_ready := True\<rparr>\<rparr>
          else p\<lparr>hp_out := o1\<rparr>)"

definition hp_init :: "'d \<Rightarrow> 'd handshake_pipe" where
  "hp_init v = \<lparr>hp_out = \<lparr>pop_valid = False, pop_value = v, pop_accepted = False\<rparr>,
     hp_in = \<lparr>push_ready = True, push_value = v, push_accepted = False\<rparr>, hp_clear_flag = False\<rparr>"

text \<open>The client's protocol: push when \<^verbatim>\<open>can_push\<close>, read \<^verbatim>\<open>top\<close> and pop when \<^verbatim>\<open>can_pop\<close>.\<close>

definition hp_try_push :: "'d \<Rightarrow> 'd handshake_pipe \<Rightarrow> 'd handshake_pipe option" where
  "hp_try_push v p = (if push_ready (hp_in p) then Some (p\<lparr>hp_in := port_push v (hp_in p)\<rparr>) else None)"

definition hp_try_pop :: "'d handshake_pipe \<Rightarrow> ('d \<times> 'd handshake_pipe) option" where
  "hp_try_pop p =
     (if pop_valid (hp_out p) then Some (pop_value (hp_out p), p\<lparr>hp_out := port_pop (hp_out p)\<rparr>) else None)"

definition hp_contents :: "'d handshake_pipe \<Rightarrow> 'd list" where
  "hp_contents p =
     (if pop_valid (hp_out p) then [pop_value (hp_out p)] else [])
     @ (if push_accepted (hp_in p) then [push_value (hp_in p)] else [])"

definition hp_inv :: "'d handshake_pipe \<Rightarrow> bool" where
  "hp_inv p \<longleftrightarrow> \<not> hp_clear_flag p \<and> push_ready (hp_in p) = (\<not> push_accepted (hp_in p))"

lemmas hp_defs = hp_apply_next_tick_def hp_try_push_def hp_try_pop_def hp_contents_def hp_inv_def
  port_pop_def port_push_def Let_def

interpretation hp: bounded_fifo hp_try_push hp_try_pop hp_apply_next_tick hp_contents hp_inv "\<lambda>_. 2"
  by unfold_locales (auto simp: hp_defs split: if_splits)

section \<open>The general pipe\<close>

record 'd pipe =
  pp_outputs :: "'d pop_port list"
  pp_inputs :: "'d push_port list"
  pp_clear_flag :: bool
  pp_fifo :: "'d list"

definition pp_clear :: "'d pipe \<Rightarrow> 'd pipe" where
  "pp_clear p = p\<lparr>pp_clear_flag := True\<rparr>"

text \<open>
  The first loop over the outputs: \<^verbatim>\<open>i\<close> runs over the ports, \<^verbatim>\<open>rem\<close> is
  \<^verbatim>\<open>remained_output\<close>.
\<close>

fun pp_compact :: "nat list \<Rightarrow> nat \<Rightarrow> 'd pop_port list \<Rightarrow> nat \<times> 'd pop_port list" where
  "pp_compact [] rem outs = (rem, outs)"
| "pp_compact (i # is) rem outs =
     (let o_i = outs ! i in
      if pop_valid o_i \<and> pop_accepted o_i then
        pp_compact is rem (outs[i := o_i\<lparr>pop_valid := False, pop_accepted := False\<rparr>])
      else if pop_valid o_i then
        pp_compact is (Suc rem)
          (outs[rem := (outs ! rem)\<lparr>pop_valid := True, pop_value := pop_value o_i, pop_accepted := False\<rparr>])
      else pp_compact is rem outs)"

fun pp_accept :: "'d push_port list \<Rightarrow> 'd list \<Rightarrow> 'd push_port list \<times> 'd list" where
  "pp_accept [] fifo = ([], fifo)"
| "pp_accept (p # ps) fifo =
     (if push_ready p \<and> push_accepted p then
        (case pp_accept ps (fifo @ [push_value p]) of (ps', fifo') \<Rightarrow> (p\<lparr>push_accepted := False\<rparr> # ps', fifo'))
      else (case pp_accept ps fifo of (ps', fifo') \<Rightarrow> (p # ps', fifo')))"

fun pp_dispatch :: "nat list \<Rightarrow> 'd pop_port list \<Rightarrow> 'd list \<Rightarrow> 'd pop_port list \<times> 'd list" where
  "pp_dispatch [] outs fifo = (outs, fifo)"
| "pp_dispatch (i # is) outs [] = pp_dispatch is (outs[i := (outs ! i)\<lparr>pop_valid := False\<rparr>]) []"
| "pp_dispatch (i # is) outs (x # fifo) =
     pp_dispatch is (outs[i := (outs ! i)\<lparr>pop_valid := True, pop_value := x\<rparr>]) fifo"

definition pp_set_ready :: "nat \<Rightarrow> 'd push_port list \<Rightarrow> 'd push_port list" where
  "pp_set_ready valid_input ins =
     map (\<lambda>(i, p). p\<lparr>push_ready := i < valid_input\<rparr>) (zip [0..<length ins] ins)"

definition pp_apply_next_tick :: "nat \<Rightarrow> 'd pipe \<Rightarrow> 'd pipe" where
  \<comment> \<open>the first argument is the template argument \<^verbatim>\<open>Depth\<close>; the port counts are the lengths\<close>
  "pp_apply_next_tick Depth p =
    (if pp_clear_flag p then
       p\<lparr>pp_clear_flag := False, pp_fifo := [],
         pp_outputs := map (\<lambda>q. q\<lparr>pop_valid := False, pop_accepted := False\<rparr>) (pp_outputs p),
         pp_inputs := map (\<lambda>q. q\<lparr>push_ready := True, push_accepted := False\<rparr>) (pp_inputs p)\<rparr>
     else
       let OutNum = length (pp_outputs p); InNum = length (pp_inputs p);
           (rem, outs1) = pp_compact [0..<OutNum] 0 (pp_outputs p);
           (ins1, fifo1) = pp_accept (pp_inputs p) (pp_fifo p);
           (outs2, fifo2) = pp_dispatch [rem..<OutNum] outs1 fifo1;
           valid_input = (if length fifo2 < Depth + InNum then Depth + InNum - length fifo2 else 0)
       in p\<lparr>pp_outputs := outs2, pp_inputs := pp_set_ready valid_input ins1, pp_fifo := fifo2\<rparr>)"

definition pp_init :: "nat \<Rightarrow> nat \<Rightarrow> 'd \<Rightarrow> 'd pipe" where
  "pp_init InNum OutNum v =
     \<lparr>pp_outputs = replicate OutNum \<lparr>pop_valid = False, pop_value = v, pop_accepted = False\<rparr>,
      pp_inputs = replicate InNum \<lparr>push_ready = True, push_value = v, push_accepted = False\<rparr>,
      pp_clear_flag = False, pp_fifo = []\<rparr>"

definition pp_push :: "nat \<Rightarrow> 'd \<Rightarrow> 'd pipe \<Rightarrow> 'd pipe" where
  "pp_push i v p = p\<lparr>pp_inputs := (pp_inputs p)[i := port_push v (pp_inputs p ! i)]\<rparr>"

text \<open>A producer on the only port that pushes a value and lets the clock tick, every cycle.\<close>

fun pp_stream :: "nat \<Rightarrow> 'd list \<Rightarrow> 'd pipe \<Rightarrow> 'd pipe" where
  "pp_stream Depth [] p = p"
| "pp_stream Depth (v # vs) p = pp_stream Depth vs (pp_apply_next_tick Depth (pp_push 0 v p))"

definition pp_starved :: "'d pipe \<Rightarrow> bool" where
  "pp_starved p \<longleftrightarrow> (\<exists>out inp. p = \<lparr>pp_outputs = [out], pp_inputs = [inp], pp_clear_flag = False, pp_fifo = []\<rparr>
     \<and> \<not> pop_valid out \<and> push_ready inp)"

lemma pp_starved_step: "pp_starved p \<Longrightarrow> pp_starved (pp_apply_next_tick Depth (pp_push 0 v p))"
  by (auto simp: pp_starved_def pp_apply_next_tick_def pp_push_def port_push_def pp_set_ready_def Let_def)

lemma pp_starved_stream: "pp_starved p \<Longrightarrow> pp_starved (pp_stream Depth vs p)"
  by (induction vs arbitrary: p) (auto intro: pp_starved_step)

section \<open>Properties\<close>

text \<open>
  C27. The handshake pipe is a FIFO of two places: over every sequence of pushes, pops and
  clock ticks from the initial pipe, the accepted values are the delivered ones followed by
  what the pipe still holds, which is at most two values.
\<close>

theorem handshake_pipe_fifo:
  assumes "fifo_run hp_try_push hp_try_pop hp_apply_next_tick es (hp_init v) = (ins, outs, t)"
  shows "ins = outs @ hp_contents t \<and> length (hp_contents t) \<le> 2"
proof -
  have "hp_inv (hp_init v)" "hp_contents (hp_init v) = []"
    by (simp_all add: hp_init_def hp_inv_def hp_contents_def)
  then show ?thesis
    using hp.run_prefix [OF _ _ assms] hp.run_bounded [OF _ assms] by simp
qed

theorem handshake_pipe_fifo_witness:
  "\<exists>t. fifo_run hp_try_push hp_try_pop hp_apply_next_tick
      [Push 1, Clock, Push 2, Pop, Clock, Pop] (hp_init (0 :: nat)) = ([1, 2], [1, 2], t)
    \<and> [1, 2] = [1, 2 :: nat] @ hp_contents t"
proof -
  have r: "fifo_run hp_try_push hp_try_pop hp_apply_next_tick
      [Push 1, Clock, Push 2, Pop, Clock, Pop] (hp_init (0 :: nat))
    = ([1, 2], [1, 2], \<lparr>hp_out = \<lparr>pop_valid = False, pop_value = 2, pop_accepted = True\<rparr>,
        hp_in = \<lparr>push_ready = True, push_value = 2, push_accepted = False\<rparr>, hp_clear_flag = False\<rparr>)"
    by (simp add: hp_defs hp_init_def)
  show ?thesis using handshake_pipe_fifo [OF r] r by blast
qed

text \<open>
  The general pipe clears a port's ready flag when it accepts a value and moves the value
  only out of a port whose ready flag is still set. A producer that pushes in every cycle
  therefore never gets a value through a one-in, one-out pipe of any depth: after any number
  of pushes, each followed by a tick, the output is invalid and the internal list is empty.
\<close>

theorem pipe_starves_streaming_producer:
  "\<exists>out inp. pp_outputs (pp_stream Depth vs (pp_init 1 1 v)) = [out] \<and> \<not> pop_valid out
    \<and> pp_inputs (pp_stream Depth vs (pp_init 1 1 v)) = [inp] \<and> push_ready inp
    \<and> pp_fifo (pp_stream Depth vs (pp_init 1 1 v)) = []"
proof -
  have "pp_starved (pp_init 1 1 v)" by (simp add: pp_starved_def pp_init_def)
  then have "pp_starved (pp_stream Depth vs (pp_init 1 1 v))" by (rule pp_starved_stream)
  then show ?thesis by (auto simp: pp_starved_def)
qed

end
