(* ===== verification/Storage.thy ===== *)
theory Storage
  imports SimCommon
begin

text \<open>
  The clocked storage elements of \<^verbatim>\<open>src/src/utils/storage.hpp\<close> and
  \<^verbatim>\<open>src/src/utils/blockram.hpp\<close>: registers whose next value is arbitrated by a priority,
  arrays of them, the tagged array and the read-first block RAM.
\<close>

section \<open>Registers with an arbitrated next value\<close>

record 't storage_next =
  sn_value :: 't
  sn_nextvalue :: 't
  sn_updated :: bool
  sn_update_priority :: u8

definition storage_init :: "'t \<Rightarrow> 't storage_next" where
  "storage_init initial = \<lparr>sn_value = initial, sn_nextvalue = initial, sn_updated = False, sn_update_priority = 0\<rparr>"

definition storage_get :: "'t storage_next \<Rightarrow> 't" where
  "storage_get s = sn_value s"

definition storage_setnext :: "'t \<Rightarrow> u8 \<Rightarrow> 't storage_next \<Rightarrow> 't storage_next" where
  "storage_setnext v priority s =
     (if \<not> sn_updated s \<or> priority \<le> sn_update_priority s
      then s\<lparr>sn_nextvalue := v, sn_updated := True, sn_update_priority := priority\<rparr> else s)"

definition storage_apply_next_tick :: "'t storage_next \<Rightarrow> 't storage_next" where
  "storage_apply_next_tick s =
     (if sn_updated s then s\<lparr>sn_value := sn_nextvalue s, sn_updated := False, sn_update_priority := 0\<rparr> else s)"

text \<open>The requests of one cycle, in the order they are made.\<close>

definition storage_requests :: "('t \<times> u8) list \<Rightarrow> 't storage_next \<Rightarrow> 't storage_next" where
  "storage_requests reqs s = fold (\<lambda>(v, p). storage_setnext v p) reqs s"

fun storage_winner :: "'t \<times> u8 \<Rightarrow> ('t \<times> u8) list \<Rightarrow> 't \<times> u8" where
  "storage_winner w [] = w"
| "storage_winner w (r # rs) = storage_winner (if snd r \<le> snd w then r else w) rs"

lemma storage_winner_least: "snd (storage_winner w rs) \<le> snd w \<and> (\<forall>r \<in> set rs. snd (storage_winner w rs) \<le> snd r)"
  by (induction rs arbitrary: w) (auto intro: order_trans, (meson order_trans linear)+)

lemma storage_winner_in: "storage_winner w rs \<in> set (w # rs)"
  by (induction rs arbitrary: w) auto

lemma storage_requests_updated:
  "sn_updated s \<Longrightarrow>
    storage_requests reqs s = (let w = storage_winner (sn_nextvalue s, sn_update_priority s) reqs
      in s\<lparr>sn_nextvalue := fst w, sn_update_priority := snd w\<rparr>)"
proof (induction reqs arbitrary: s)
  case Nil
  then show ?case by (simp add: storage_requests_def)
next
  case (Cons r rs)
  obtain v p where r: "r = (v, p)" by (cases r)
  have u: "sn_updated (storage_setnext v p s)"
    using Cons.prems by (simp add: storage_setnext_def)
  have "storage_requests (r # rs) s = storage_requests rs (storage_setnext v p s)"
    by (simp add: storage_requests_def r)
  with Cons.IH [OF u] Cons.prems show ?case
    by (simp add: r storage_setnext_def Let_def)
qed

lemma storage_requests_fresh:
  assumes "\<not> sn_updated s"
  shows "storage_requests (r # rs) s = (let w = storage_winner r rs
      in s\<lparr>sn_nextvalue := fst w, sn_updated := True, sn_update_priority := snd w\<rparr>)"
proof -
  obtain v p where r: "r = (v, p)" by (cases r)
  let ?s = "s\<lparr>sn_nextvalue := v, sn_updated := True, sn_update_priority := p\<rparr>"
  have "storage_requests (r # rs) s = storage_requests rs ?s"
    using assms by (simp add: storage_requests_def storage_setnext_def r)
  then show ?thesis
    using storage_requests_updated [of ?s rs] by (simp add: r Let_def)
qed

subsection \<open>Arrays and vectors of registers\<close>

definition sarray_init :: "'t list \<Rightarrow> 't storage_next list" where
  "sarray_init initial = map storage_init initial"

definition sarray_get :: "nat \<Rightarrow> 't storage_next list \<Rightarrow> 't option" where
  "sarray_get i xs = (if i < length xs then Some (storage_get (xs ! i)) else None)"

definition sarray_setnext :: "nat \<Rightarrow> 't \<Rightarrow> u8 \<Rightarrow> 't storage_next list \<Rightarrow> 't storage_next list option" where
  "sarray_setnext i v p xs = (if i < length xs then Some (xs[i := storage_setnext v p (xs ! i)]) else None)"

definition sarray_apply_next_tick :: "'t storage_next list \<Rightarrow> 't storage_next list" where
  "sarray_apply_next_tick xs = map storage_apply_next_tick xs"

section \<open>The tagged array\<close>

record ('t, 'd) tagged_array =
  ta_tags :: "'t list"
  ta_datas :: "'d list"
  ta_tag2idx :: "'t \<rightharpoonup> nat"
  ta_toBeSetEntries :: "(nat \<times> 't \<times> 'd) list"

definition ta_match :: "'t \<Rightarrow> ('t, 'd) tagged_array \<Rightarrow> ('d \<times> nat) option" where
  "ta_match tag a = (case ta_tag2idx a tag of Some idx \<Rightarrow> Some (ta_datas a ! idx, idx) | None \<Rightarrow> None)"

definition ta_full :: "nat \<Rightarrow> ('t, 'd) tagged_array \<Rightarrow> bool" where
  "ta_full Size a = (Size \<le> card (dom (ta_tag2idx a)))"

definition ta_get :: "nat \<Rightarrow> ('t, 'd) tagged_array \<Rightarrow> ('t \<times> 'd) option" where
  "ta_get idx a = (if idx < length (ta_tags a) then Some (ta_tags a ! idx, ta_datas a ! idx) else None)"

definition ta_setnext :: "nat \<Rightarrow> 't \<Rightarrow> 'd \<Rightarrow> ('t, 'd) tagged_array \<Rightarrow> ('t, 'd) tagged_array" where
  "ta_setnext idx tag d a = a\<lparr>ta_toBeSetEntries := ta_toBeSetEntries a @ [(idx, tag, d)]\<rparr>"

definition ta_apply_entry :: "nat \<times> 't \<times> 'd \<Rightarrow> ('t, 'd) tagged_array \<Rightarrow> ('t, 'd) tagged_array" where
  "ta_apply_entry e a =
     (case e of (idx, tag, d) \<Rightarrow>
        let old_tag = ta_tags a ! idx
        in a\<lparr>ta_tags := (ta_tags a)[idx := tag], ta_datas := (ta_datas a)[idx := d],
             ta_tag2idx := (ta_tag2idx a)(old_tag := None, tag := Some idx)\<rparr>)"

definition ta_apply_next_tick :: "('t, 'd) tagged_array \<Rightarrow> ('t, 'd) tagged_array" where
  "ta_apply_next_tick a = (fold ta_apply_entry (ta_toBeSetEntries a) a)\<lparr>ta_toBeSetEntries := []\<rparr>"

text \<open>The index never lies: a tag it knows is the tag stored in the slot it names.\<close>

definition ta_sound :: "nat \<Rightarrow> ('t, 'd) tagged_array \<Rightarrow> bool" where
  "ta_sound Size a \<longleftrightarrow> length (ta_tags a) = Size \<and> length (ta_datas a) = Size
     \<and> (\<forall>tag idx. ta_tag2idx a tag = Some idx \<longrightarrow> idx < Size \<and> ta_tags a ! idx = tag)"

definition ta_entries_ok :: "nat \<Rightarrow> ('t, 'd) tagged_array \<Rightarrow> bool" where
  "ta_entries_ok Size a \<longleftrightarrow> (\<forall>e \<in> set (ta_toBeSetEntries a). fst e < Size)"

lemma ta_apply_entry_sound: "ta_sound Size a \<Longrightarrow> fst e < Size \<Longrightarrow> ta_sound Size (ta_apply_entry e a)"
  by (cases e) (auto simp: ta_sound_def ta_apply_entry_def Let_def nth_list_update)

lemma ta_fold_sound:
  "ta_sound Size a \<Longrightarrow> \<forall>e \<in> set es. fst e < Size \<Longrightarrow> ta_sound Size (fold ta_apply_entry es a)"
  by (induction es arbitrary: a) (auto intro: ta_apply_entry_sound)

lemma ta_apply_next_tick_sound:
  "ta_sound Size a \<Longrightarrow> ta_entries_ok Size a \<Longrightarrow> ta_sound Size (ta_apply_next_tick a)"
  using ta_fold_sound [of Size a "ta_toBeSetEntries a"]
  by (simp add: ta_apply_next_tick_def ta_entries_ok_def ta_sound_def)

lemma ta_dom_card:
  assumes "ta_sound Size a"
  shows "card (dom (ta_tag2idx a)) \<le> Size"
proof -
  have "dom (ta_tag2idx a) \<subseteq> (\<lambda>i. ta_tags a ! i) ` {..<Size}"
    using assms by (force simp: ta_sound_def)
  then have "card (dom (ta_tag2idx a)) \<le> card ((\<lambda>i. ta_tags a ! i) ` {..<Size})"
    by (intro card_mono) auto
  also have "\<dots> \<le> Size" using card_image_le [of "{..<Size}" "\<lambda>i. ta_tags a ! i"] by simp
  finally show ?thesis .
qed

lemma ta_fold_last:
  "idx < length (ta_tags a) \<Longrightarrow> length (ta_datas a) = length (ta_tags a) \<Longrightarrow>
    ta_match tag (fold ta_apply_entry (es @ [(idx, tag, d)]) a) = Some (d, idx)"
proof -
  assume *: "idx < length (ta_tags a)" "length (ta_datas a) = length (ta_tags a)"
  let ?b = "fold ta_apply_entry es a"
  have "length (ta_tags ?b) = length (ta_tags a) \<and> length (ta_datas ?b) = length (ta_datas a)"
    by (induction es arbitrary: a) (auto simp: ta_apply_entry_def Let_def split: prod.splits)
  with * show ?thesis by (simp add: ta_match_def ta_apply_entry_def Let_def)
qed

section \<open>The read-first block RAM\<close>

text \<open>
  The memory has one slot more than \<^verbatim>\<open>2 ^ AddrWidth\<close>: a write port with nothing to write
  aims at that slot, unless there is a single write port, which has a valid flag instead.
\<close>

record 'd write_port =
  wp_addr :: nat
  wp_data :: 'd
  wp_valid :: bool

record 'd block_ram =
  br_datas :: "nat \<Rightarrow> 'd"
  br_toBeWritens :: "'d write_port list"
  br_toBeReadAddrs :: "nat list"
  br_readDatas :: "'d list"

definition br_addr :: "nat \<Rightarrow> u64 \<Rightarrow> nat" where
  "br_addr AddrWidth addr = unat (addr AND (push_bit AddrWidth 1 - 1))"

definition br_readReq :: "nat \<Rightarrow> nat \<Rightarrow> u64 \<Rightarrow> 'd block_ram \<Rightarrow> 'd block_ram" where
  "br_readReq AddrWidth port addr r =
     r\<lparr>br_toBeReadAddrs := (br_toBeReadAddrs r)[port := br_addr AddrWidth addr]\<rparr>"

definition br_readResp :: "nat \<Rightarrow> 'd block_ram \<Rightarrow> 'd" where
  "br_readResp port r = br_readDatas r ! port"

definition br_writeReq :: "nat \<Rightarrow> nat \<Rightarrow> u64 \<Rightarrow> 'd \<Rightarrow> 'd block_ram \<Rightarrow> 'd block_ram" where
  "br_writeReq AddrWidth port addr d r =
     r\<lparr>br_toBeWritens := (br_toBeWritens r)[port :=
        \<lparr>wp_addr = br_addr AddrWidth addr, wp_data = d,
         wp_valid = (length (br_toBeWritens r) = 1 \<or> wp_valid (br_toBeWritens r ! port))\<rparr>]\<rparr>"

definition br_commit :: "bool \<Rightarrow> 'd write_port \<Rightarrow> (nat \<Rightarrow> 'd) \<Rightarrow> nat \<Rightarrow> 'd" where
  \<comment> \<open>the flag says that there is one write port\<close>
  "br_commit single w m = (if single \<and> \<not> wp_valid w then m else m(wp_addr w := wp_data w))"

definition br_retire :: "nat \<Rightarrow> bool \<Rightarrow> 'd write_port \<Rightarrow> 'd write_port" where
  "br_retire AddrWidth single w =
     (if single then w\<lparr>wp_valid := False\<rparr> else w\<lparr>wp_addr := 2 ^ AddrWidth\<rparr>)"

definition br_apply_next_tick :: "nat \<Rightarrow> 'd block_ram \<Rightarrow> 'd block_ram" where
  "br_apply_next_tick AddrWidth r =
     (let single = (length (br_toBeWritens r) = 1)
      in r\<lparr>br_readDatas := map (br_datas r) (br_toBeReadAddrs r),
           br_datas := fold (br_commit single) (br_toBeWritens r) (br_datas r),
           br_toBeWritens := map (br_retire AddrWidth single) (br_toBeWritens r)\<rparr>)"

lemma br_addr_less: "AddrWidth < 64 \<Longrightarrow> br_addr AddrWidth addr < 2 ^ AddrWidth"
proof -
  have "br_addr AddrWidth addr = take_bit AddrWidth (unat addr)"
    by (simp only: br_addr_def word_and_mask unsigned_take_bit_eq)
  then show ?thesis by simp
qed

text \<open>The pending writes of a cycle as address and data pairs, and their combined effect.\<close>

definition br_pending :: "'d block_ram \<Rightarrow> (nat \<times> 'd) list" where
  "br_pending r = map (\<lambda>w. (wp_addr w, wp_data w))
     (filter (\<lambda>w. length (br_toBeWritens r) = 1 \<longrightarrow> wp_valid w) (br_toBeWritens r))"

lemma br_fold_commit:
  "fold (br_commit single) ws m x =
    (case map_of (rev (map (\<lambda>w. (wp_addr w, wp_data w)) (filter (\<lambda>w. single \<longrightarrow> wp_valid w) ws))) x of
       None \<Rightarrow> m x | Some d \<Rightarrow> d)"
  by (induction ws arbitrary: m) (auto simp: br_commit_def map_add_def split: option.splits)

lemma br_apply_datas:
  "br_datas (br_apply_next_tick aw r) x =
    (case map_of (rev (br_pending r)) x of None \<Rightarrow> br_datas r x | Some d \<Rightarrow> d)"
  by (simp add: br_apply_next_tick_def Let_def br_fold_commit br_pending_def)

lemma br_readReq_frame:
  "br_datas (br_readReq aw port addr r) = br_datas r"
  "br_pending (br_readReq aw port addr r) = br_pending r"
  by (simp_all add: br_readReq_def br_pending_def)

lemma br_apply_retires:
  "length (br_toBeWritens r) \<noteq> 1 \<Longrightarrow>
    \<forall>w \<in> set (br_toBeWritens (br_apply_next_tick aw r)). wp_addr w = 2 ^ aw"
  by (auto simp: br_apply_next_tick_def Let_def br_retire_def)

section \<open>Properties\<close>

text \<open>
  Whatever requests a register receives in one cycle, it keeps its value until the tick
  and then takes the value of a request with the smallest priority number; a register without
  requests keeps its value.
\<close>

theorem storage_takes_best_priority:
  assumes "\<not> sn_updated s" and "reqs \<noteq> []"
  shows "storage_get (storage_requests reqs s) = storage_get s
    \<and> (\<exists>(v, p) \<in> set reqs. storage_get (storage_apply_next_tick (storage_requests reqs s)) = v
        \<and> (\<forall>(v', p') \<in> set reqs. p \<le> p'))"
proof -
  obtain r rs where reqs: "reqs = r # rs" using assms(2) by (cases reqs) auto
  let ?w = "storage_winner r rs"
  have eq: "storage_requests reqs s
      = s\<lparr>sn_nextvalue := fst ?w, sn_updated := True, sn_update_priority := snd ?w\<rparr>"
    using storage_requests_fresh [OF assms(1), of r rs] by (simp add: reqs Let_def)
  have "\<forall>x \<in> set reqs. snd ?w \<le> snd x"
    using storage_winner_least [of r rs] by (simp add: reqs)
  moreover have "?w \<in> set reqs" using storage_winner_in [of r rs] by (simp add: reqs)
  ultimately show ?thesis
    by (cases ?w) (force simp: eq storage_get_def storage_apply_next_tick_def)
qed

theorem storage_takes_best_priority_witness:
  "let s = storage_init (0 :: nat); reqs = [(7, 3), (8, 1), (9, 2)]
   in storage_get (storage_requests reqs s) = storage_get s
    \<and> (\<exists>(v, p) \<in> set reqs. storage_get (storage_apply_next_tick (storage_requests reqs s)) = v
        \<and> (\<forall>(v', p') \<in> set reqs. p \<le> p'))"
  unfolding Let_def
  by (rule storage_takes_best_priority) (simp_all add: storage_init_def)

text \<open>
  The tag index of the tagged array is sound: if it starts sound and the requests of the
  cycle name existing slots, then after the tick a match on a tag returns exactly the slot
  that stores this tag, with the slot's data, and the index never holds more tags than slots.
\<close>

theorem tagged_array_match_sound:
  assumes "ta_sound Size a" and "ta_entries_ok Size a"
  shows "ta_sound Size (ta_apply_next_tick a)
    \<and> card (dom (ta_tag2idx (ta_apply_next_tick a))) \<le> Size
    \<and> (\<forall>tag d idx. ta_match tag (ta_apply_next_tick a) = Some (d, idx)
         \<longrightarrow> ta_get idx (ta_apply_next_tick a) = Some (tag, d))"
proof -
  have s: "ta_sound Size (ta_apply_next_tick a)"
    using assms by (rule ta_apply_next_tick_sound)
  then show ?thesis
    using ta_dom_card [OF s]
    by (auto simp: ta_match_def ta_get_def ta_sound_def split: option.splits)
qed

theorem tagged_array_match_sound_witness:
  "ta_match 7 (ta_apply_next_tick (ta_setnext 1 (7 :: nat) ''b''
      \<lparr>ta_tags = [5, 6], ta_datas = [''x'', ''y''], ta_tag2idx = [5 \<mapsto> 0, 6 \<mapsto> 1], ta_toBeSetEntries = []\<rparr>))
    = Some (''b'', 1)
   \<and> ta_sound 2 (ta_apply_next_tick (ta_setnext 1 (7 :: nat) ''b''
      \<lparr>ta_tags = [5, 6], ta_datas = [''x'', ''y''], ta_tag2idx = [5 \<mapsto> 0, 6 \<mapsto> 1], ta_toBeSetEntries = []\<rparr>))"
proof -
  let ?a = "ta_setnext 1 (7 :: nat) ''b''
      \<lparr>ta_tags = [5, 6], ta_datas = [''x'', ''y''], ta_tag2idx = [5 \<mapsto> 0, 6 \<mapsto> 1], ta_toBeSetEntries = []\<rparr>"
  have "ta_sound 2 ?a" "ta_entries_ok 2 ?a"
    by (auto simp: ta_sound_def ta_entries_ok_def ta_setnext_def split: if_splits)
  then have "ta_sound 2 (ta_apply_next_tick ?a)"
    using tagged_array_match_sound [of 2 ?a] by blast
  moreover have "ta_match 7 (ta_apply_next_tick ?a) = Some (''b'', 1)"
    by (simp add: ta_match_def ta_apply_next_tick_def ta_apply_entry_def ta_setnext_def)
  ultimately show ?thesis by blast
qed

text \<open>
  The block RAM is read-first: the response of every port is the content its address had
  before the writes of the same tick; afterwards every address holds the data of the last
  write port that wrote it in this tick, or its old content.
\<close>

theorem block_ram_read_first:
  assumes "port < length (br_toBeReadAddrs r)"
  shows "br_readResp port (br_apply_next_tick aw (br_readReq aw port addr r)) = br_datas r (br_addr aw addr)
    \<and> br_datas (br_apply_next_tick aw (br_readReq aw port addr r)) x
      = (case map_of (rev (br_pending r)) x of None \<Rightarrow> br_datas r x | Some d \<Rightarrow> d)"
  using assms
  by (simp add: br_apply_datas br_readReq_frame split: option.split)
    (simp add: br_readResp_def br_apply_next_tick_def br_readReq_def Let_def)

theorem block_ram_read_first_witness:
  "br_readResp 0 (br_apply_next_tick 2 (br_readReq 2 0 1
      (br_writeReq 2 1 1 (9 :: nat)
        \<lparr>br_datas = id, br_toBeWritens = replicate 2 \<lparr>wp_addr = 4, wp_data = 0, wp_valid = False\<rparr>,
         br_toBeReadAddrs = [0], br_readDatas = [0]\<rparr>))) = 1"
  using block_ram_read_first [of 0 "br_writeReq 2 1 1 (9 :: nat)
        \<lparr>br_datas = id, br_toBeWritens = replicate 2 \<lparr>wp_addr = 4, wp_data = 0, wp_valid = False\<rparr>,
         br_toBeReadAddrs = [0], br_readDatas = [0]\<rparr>" 2 1 1]
  by (simp add: br_writeReq_def br_addr_def)

end
