(* ===== verification/Replacer.thy ===== *)
theory Replacer
  imports SimCommon
begin

text \<open>
  The replacement policies of \<^verbatim>\<open>src/src/utils/replacer.hpp\<close>. The template
  argument \<^verbatim>\<open>WayCnt\<close> of \<^verbatim>\<open>ReplacerPLRU\<close> is a power of two of at
  least 2; its exponent \<^verbatim>\<open>level\<close> is the parameter here. The array of tree bits of one
  set is a function from node numbers, the table a function from set numbers. The queue
  of touches is never cleared by \<^verbatim>\<open>apply_next_tick\<close>; the model keeps it too.
\<close>

section \<open>Random replacement\<close>

definition random_victim :: "nat \<Rightarrow> u64 \<Rightarrow> nat \<times> u64" where
  "random_victim WayCnt state = (case pcg32_rand state of (r, state') \<Rightarrow> (unat r mod WayCnt, state'))"

lemma random_victim_less: "0 < WayCnt \<Longrightarrow> fst (random_victim WayCnt st) < WayCnt"
  by (simp add: random_victim_def split: prod.split)

section \<open>Tree pseudo-LRU\<close>

record plru =
  bitree_left_hot_table :: "nat \<Rightarrow> nat \<Rightarrow> bool"
  to_be_touched :: "(u64 \<times> nat) list"

definition plru_set :: "nat \<Rightarrow> u64 \<Rightarrow> nat" where
  "plru_set AddrWidth addr = unat (addr AND (push_bit AddrWidth 1 - 1))"

definition plru_touch :: "nat \<Rightarrow> u64 \<Rightarrow> nat \<Rightarrow> plru \<Rightarrow> plru" where
  "plru_touch level addr idx s =
     s\<lparr>to_be_touched := to_be_touched s @ [(addr, idx AND (2 ^ level - 1))]\<rparr>"

fun victim_loop :: "nat \<Rightarrow> (nat \<Rightarrow> bool) \<Rightarrow> nat \<Rightarrow> nat" where
  "victim_loop 0 hot i = i"
| "victim_loop (Suc n) hot i = victim_loop n hot (2 * i + (if hot i then 1 else 0))"

definition plru_victim :: "nat \<Rightarrow> nat \<Rightarrow> u64 \<Rightarrow> plru \<Rightarrow> nat" where
  "plru_victim AddrWidth level addr s =
     victim_loop level (bitree_left_hot_table s (plru_set AddrWidth addr)) 1 - 2 ^ level"

fun touch_loop :: "nat \<Rightarrow> nat \<Rightarrow> (nat \<Rightarrow> bool) \<Rightarrow> nat \<Rightarrow> bool" where
  "touch_loop 0 idx hot = hot"
| "touch_loop (Suc n) idx hot = touch_loop n (idx div 2) (hot(idx div 2 := even idx))"

definition plru_touch_entry ::
  "nat \<Rightarrow> nat \<Rightarrow> u64 \<times> nat \<Rightarrow> (nat \<Rightarrow> nat \<Rightarrow> bool) \<Rightarrow> nat \<Rightarrow> nat \<Rightarrow> bool" where
  "plru_touch_entry AddrWidth level e table =
     (let st = plru_set AddrWidth (fst e)
      in table(st := touch_loop level (snd e + 2 ^ level) (table st)))"

definition plru_apply_next_tick :: "nat \<Rightarrow> nat \<Rightarrow> plru \<Rightarrow> plru" where
  "plru_apply_next_tick AddrWidth level s =
     s\<lparr>bitree_left_hot_table :=
         fold (plru_touch_entry AddrWidth level) (to_be_touched s) (bitree_left_hot_table s)\<rparr>"

subsection \<open>The victim is a way\<close>

lemma victim_loop_range:
  "i * 2 ^ n \<le> victim_loop n hot i \<and> victim_loop n hot i < (i + 1) * 2 ^ n"
proof (induction n arbitrary: i)
  case 0
  show ?case by simp
next
  case (Suc n)
  define j where "j = 2 * i + (if hot i then 1 else 0)"
  have j: "2 * i \<le> j" "j + 1 \<le> 2 * (i + 1)" by (simp_all add: j_def)
  have "j * 2 ^ n \<le> victim_loop n hot j \<and> victim_loop n hot j < (j + 1) * 2 ^ n"
    by (rule Suc.IH)
  moreover have "2 * i * 2 ^ n \<le> j * 2 ^ n" "(j + 1) * 2 ^ n \<le> 2 * (i + 1) * 2 ^ n"
    using j by (simp_all only: mult_le_mono1)
  moreover have "victim_loop (Suc n) hot i = victim_loop n hot j"
    by (simp add: j_def)
  moreover have "i * 2 ^ Suc n = 2 * i * 2 ^ n" "(i + 1) * 2 ^ Suc n = 2 * (i + 1) * 2 ^ n"
    by simp_all
  ultimately show ?case by (metis order_trans order_less_le_trans)
qed

lemma plru_victim_less: "plru_victim aw level addr s < 2 ^ level"
proof -
  let ?v = "victim_loop level (bitree_left_hot_table s (plru_set aw addr)) 1"
  have "?v < 2 ^ level + 2 ^ level" "2 ^ level \<le> ?v"
    using victim_loop_range [of 1 level "bitree_left_hot_table s (plru_set aw addr)"] by simp_all
  then show ?thesis unfolding plru_victim_def by linarith
qed

subsection \<open>A touch protects the way\<close>

lemma touch_loop_root:
  "touch_loop (Suc n) idx hot (idx div 2 ^ Suc n) = even (idx div 2 ^ n)"
proof (induction n arbitrary: idx hot)
  case 0
  show ?case by simp
next
  case (Suc n)
  have "idx div 2 ^ Suc m = idx div 2 div 2 ^ m" for m by (simp add: div_mult2_eq)
  then show ?case
    using Suc.IH [of "idx div 2" "hot(idx div 2 := even idx)"]
    by (simp only: touch_loop.simps(2) [of "Suc n"])
qed

lemma victim_loop_avoids:
  assumes "hot 1 = even (leaf div 2 ^ n)" and "leaf div 2 ^ Suc n = 1"
  shows "victim_loop (Suc n) hot 1 \<noteq> leaf"
proof
  assume eq: "victim_loop (Suc n) hot 1 = leaf"
  let ?j = "2 + (if hot 1 then 1 else 0 :: nat)"
  have "?j * 2 ^ n \<le> leaf" "leaf < (?j + 1) * 2 ^ n"
    using victim_loop_range [of ?j n hot] eq by simp_all
  then have "leaf div 2 ^ n = ?j"
    by (intro div_nat_eqI) (simp_all add: algebra_simps)
  with assms(1) show False by (auto split: if_splits)
qed

subsection \<open>The retained touches are harmless\<close>

text \<open>
  Every touch overwrites a fixed set of tree bits with fixed values, whatever the bits were:
  a list of touches acts as the override with one partial map.
\<close>

type_synonym plru_writes = "(nat \<times> nat) \<Rightarrow> bool option"

definition override_table :: "(nat \<Rightarrow> nat \<Rightarrow> bool) \<Rightarrow> plru_writes \<Rightarrow> nat \<Rightarrow> nat \<Rightarrow> bool" where
  "override_table t w = (\<lambda>st n. case w (st, n) of None \<Rightarrow> t st n | Some b \<Rightarrow> b)"

lemma override_table_twice: "override_table (override_table t w) w' = override_table t (w ++ w')"
  by (auto simp: override_table_def fun_eq_iff map_add_def split: option.splits)

lemma touch_loop_writes:
  "\<exists>w. \<forall>hot n. touch_loop k idx hot n = (case w n of None \<Rightarrow> hot n | Some b \<Rightarrow> b)"
proof (induction k arbitrary: idx)
  case 0
  show ?case by (rule exI [of _ Map.empty]) simp
next
  case (Suc k)
  from Suc.IH obtain w where w:
    "\<forall>hot n. touch_loop k (idx div 2) hot n = (case w n of None \<Rightarrow> hot n | Some b \<Rightarrow> b)"
    by blast
  have "touch_loop (Suc k) idx hot n
      = (case ([idx div 2 \<mapsto> even idx] ++ w) n of None \<Rightarrow> hot n | Some b \<Rightarrow> b)" for hot n
    by (simp add: w map_add_def split: option.split)
  then show ?case by blast
qed

lemma touch_entry_writes: "\<exists>w. \<forall>t. plru_touch_entry aw level e t = override_table t w"
proof -
  from touch_loop_writes [of level "snd e + 2 ^ level"] obtain w where w:
    "\<forall>hot n. touch_loop level (snd e + 2 ^ level) hot n = (case w n of None \<Rightarrow> hot n | Some b \<Rightarrow> b)"
    by blast
  let ?st = "plru_set aw (fst e)"
  have "plru_touch_entry aw level e t
      = override_table t (\<lambda>(st, n). if st = ?st then w n else None)" for t
    by (auto simp: plru_touch_entry_def Let_def override_table_def fun_eq_iff w split: option.splits)
  then show ?thesis by blast
qed

lemma touches_writes: "\<exists>w. \<forall>t. fold (plru_touch_entry aw level) es t = override_table t w"
proof (induction es)
  case Nil
  show ?case by (rule exI [of _ Map.empty]) (simp add: override_table_def)
next
  case (Cons e es)
  from Cons.IH obtain w where "\<forall>t. fold (plru_touch_entry aw level) es t = override_table t w"
    by blast
  moreover from touch_entry_writes obtain v where
    "\<forall>t. plru_touch_entry aw level e t = override_table t v" by blast
  ultimately have "\<forall>t. fold (plru_touch_entry aw level) (e # es) t = override_table t (v ++ w)"
    by (simp add: override_table_twice)
  then show ?case by blast
qed

lemma touches_replay:
  "fold (plru_touch_entry aw level) es (fold (plru_touch_entry aw level) es t)
    = fold (plru_touch_entry aw level) es t"
proof -
  obtain w where "\<forall>t. fold (plru_touch_entry aw level) es t = override_table t w"
    using touches_writes by blast
  moreover have "w ++ w = w" by (auto simp: map_add_def fun_eq_iff split: option.split)
  ultimately show ?thesis by (simp add: override_table_twice)
qed

lemma touch_entry_avoids:
  assumes "0 < level" and "snd e < 2 ^ level"
    and "bitree_left_hot_table s = plru_touch_entry aw level e t"
  shows "plru_victim aw level (fst e) s \<noteq> snd e"
proof -
  obtain n where n: "level = Suc n" using assms(1) by (cases level) auto
  let ?st = "plru_set aw (fst e)"
  let ?leaf = "snd e + 2 ^ Suc n"
  let ?hot = "touch_loop (Suc n) ?leaf (t ?st)"
  have hot: "bitree_left_hot_table s ?st = ?hot"
    using assms(3) by (simp add: plru_touch_entry_def Let_def n del: touch_loop.simps)
  have root: "?leaf div 2 ^ Suc n = 1"
    using assms(2) n by (simp add: div_add_self2 del: power_Suc)
  have "?hot 1 = even (?leaf div 2 ^ n)"
    using touch_loop_root [of n ?leaf "t ?st"] root by (simp del: touch_loop.simps power_Suc)
  then have "victim_loop (Suc n) ?hot 1 \<noteq> ?leaf"
    using root by (rule victim_loop_avoids)
  moreover have "2 ^ Suc n \<le> victim_loop (Suc n) ?hot 1"
    using victim_loop_range [of 1 "Suc n" ?hot] by simp
  ultimately show ?thesis
    by (simp add: plru_victim_def n hot del: touch_loop.simps victim_loop.simps power_Suc)
qed

lemma idx_and_mask_less: "(idx :: nat) AND (2 ^ level - 1) < 2 ^ level"
proof -
  have "idx AND (2 ^ level - 1) = take_bit level idx"
    by (simp only: take_bit_eq_mask mask_eq_exp_minus_1)
  then show ?thesis by simp
qed

section \<open>Runs, and the reference replacer that clears its queue\<close>

datatype plru_event = Touch u64 nat | Tick

fun plru_run :: "nat \<Rightarrow> nat \<Rightarrow> plru_event list \<Rightarrow> plru \<Rightarrow> plru" where
  "plru_run aw level [] s = s"
| "plru_run aw level (Touch addr idx # es) s = plru_run aw level es (plru_touch level addr idx s)"
| "plru_run aw level (Tick # es) s = plru_run aw level es (plru_apply_next_tick aw level s)"

fun plru_run_clearing :: "nat \<Rightarrow> nat \<Rightarrow> plru_event list \<Rightarrow> plru \<Rightarrow> plru" where
  "plru_run_clearing aw level [] s = s"
| "plru_run_clearing aw level (Touch addr idx # es) s =
     plru_run_clearing aw level es (plru_touch level addr idx s)"
| "plru_run_clearing aw level (Tick # es) s =
     plru_run_clearing aw level es ((plru_apply_next_tick aw level s)\<lparr>to_be_touched := []\<rparr>)"

text \<open>All touches of a run, in order.\<close>

fun plru_touches :: "nat \<Rightarrow> plru_event list \<Rightarrow> (u64 \<times> nat) list" where
  "plru_touches level [] = []"
| "plru_touches level (Touch addr idx # es) = (addr, idx AND (2 ^ level - 1)) # plru_touches level es"
| "plru_touches level (Tick # es) = plru_touches level es"

lemma plru_run_queue: "to_be_touched (plru_run aw level es s) = to_be_touched s @ plru_touches level es"
  by (induction es arbitrary: s rule: plru_touches.induct) (simp_all add: plru_touch_def plru_apply_next_tick_def)

lemma plru_run_append: "plru_run aw level (es @ es') s = plru_run aw level es' (plru_run aw level es s)"
  by (induction es arbitrary: s rule: plru_touches.induct) simp_all

text \<open>The two queues differ by a prefix whose effect the tree already shows.\<close>

definition plru_agree :: "nat \<Rightarrow> nat \<Rightarrow> plru \<Rightarrow> plru \<Rightarrow> bool" where
  "plru_agree aw level s r \<longleftrightarrow>
     bitree_left_hot_table s = bitree_left_hot_table r \<and>
     (\<exists>old. to_be_touched s = old @ to_be_touched r \<and>
        fold (plru_touch_entry aw level) old (bitree_left_hot_table r) = bitree_left_hot_table r)"

lemma plru_agree_touch:
  "plru_agree aw level s r \<Longrightarrow>
    plru_agree aw level (plru_touch level a i s) (plru_touch level a i r)"
  by (auto simp: plru_agree_def plru_touch_def)

lemma plru_agree_tick:
  assumes "plru_agree aw level s r"
  shows "plru_agree aw level (plru_apply_next_tick aw level s)
    ((plru_apply_next_tick aw level r)\<lparr>to_be_touched := []\<rparr>)"
proof -
  let ?f = "fold (plru_touch_entry aw level)"
  obtain old where old: "to_be_touched s = old @ to_be_touched r"
    and idem: "?f old (bitree_left_hot_table r) = bitree_left_hot_table r"
    using assms by (auto simp: plru_agree_def)
  have "?f (to_be_touched s) (bitree_left_hot_table r) = ?f (to_be_touched r) (bitree_left_hot_table r)"
    by (simp add: old idem)
  moreover have "?f (to_be_touched s) (?f (to_be_touched s) (bitree_left_hot_table r))
      = ?f (to_be_touched s) (bitree_left_hot_table r)"
    by (rule touches_replay)
  ultimately show ?thesis
    using assms by (simp add: plru_agree_def plru_apply_next_tick_def)
qed

lemma plru_agree_run:
  "plru_agree aw level s r \<Longrightarrow>
    plru_agree aw level (plru_run aw level es s) (plru_run_clearing aw level es r)"
proof (induction es arbitrary: s r)
  case Nil
  then show ?case by simp
next
  case (Cons e es)
  then show ?case
    by (cases e) (auto intro: Cons.IH plru_agree_touch plru_agree_tick)
qed

section \<open>Properties\<close>

text \<open>
  C36. After a way has been touched and the touch applied, the replacer never chooses that
  way as the victim of its set, and its choice is always one of the ways.
\<close>

theorem plru_spares_last_touched:
  assumes "0 < level"
  shows "plru_victim aw level addr
      (plru_apply_next_tick aw level (plru_touch level addr idx s)) \<noteq> idx AND (2 ^ level - 1)
    \<and> plru_victim aw level addr
      (plru_apply_next_tick aw level (plru_touch level addr idx s)) < 2 ^ level"
  using assms touch_entry_avoids [of level "(addr, idx AND (2 ^ level - 1))"] idx_and_mask_less
    plru_victim_less
  by (simp add: plru_apply_next_tick_def plru_touch_def)

theorem plru_spares_last_touched_witness:
  "plru_victim 1 2 5 (plru_apply_next_tick 1 2
      (plru_touch 2 5 3 \<lparr>bitree_left_hot_table = \<lambda>_ _. True, to_be_touched = []\<rparr>)) \<noteq> 3 AND (2 ^ 2 - 1)"
  using plru_spares_last_touched [of 2 1 5 3
      "\<lparr>bitree_left_hot_table = \<lambda>_ _. True, to_be_touched = []\<rparr>"] by simp

text \<open>
  C37. The replacer never clears its queue of touches: over every sequence of touches and ticks from an empty queue, the queue holds
  every touch made so far, in order, and each tick applies all of them again. This cannot be observed: the replacer chooses the same
  victims as one that clears the queue in every tick.
\<close>

theorem plru_uncleared_queue_unobservable:
  assumes "to_be_touched s = []"
  shows "to_be_touched (plru_run aw level es s) = plru_touches level es
    \<and> bitree_left_hot_table (plru_run aw level (es @ [Tick]) s)
      = fold (plru_touch_entry aw level) (plru_touches level es) (bitree_left_hot_table (plru_run aw level es s))
    \<and> plru_victim aw level addr (plru_run aw level es s)
      = plru_victim aw level addr (plru_run_clearing aw level es s)"
proof -
  have "plru_agree aw level s s" by (simp add: plru_agree_def assms)
  then have "plru_agree aw level (plru_run aw level es s) (plru_run_clearing aw level es s)"
    by (rule plru_agree_run)
  then show ?thesis
    using assms by (simp add: plru_agree_def plru_victim_def plru_run_queue plru_run_append plru_apply_next_tick_def)
qed

theorem plru_uncleared_queue_unobservable_witness:
  "to_be_touched (plru_run 1 1 [Touch 0 1, Tick, Touch 0 0, Tick] \<lparr>bitree_left_hot_table = \<lambda>_ _. True, to_be_touched = []\<rparr>) = [(0, 1), (0, 0)]
    \<and> plru_victim 1 1 0 (plru_run 1 1 [Touch 0 1, Tick, Touch 0 0, Tick]
      \<lparr>bitree_left_hot_table = \<lambda>_ _. True, to_be_touched = []\<rparr>)
    = plru_victim 1 1 0 (plru_run_clearing 1 1 [Touch 0 1, Tick, Touch 0 0, Tick]
      \<lparr>bitree_left_hot_table = \<lambda>_ _. True, to_be_touched = []\<rparr>)"
  using plru_uncleared_queue_unobservable [of "\<lparr>bitree_left_hot_table = \<lambda>_ _. True, to_be_touched = []\<rparr>" 1 1 "[Touch 0 1, Tick, Touch 0 0, Tick]" 0]
  by simp

end
