(* ===== verification/Counters.thy ===== *)
theory Counters
  imports SimCommon
begin

text \<open>
  The small value types of the branch predictors: \<^verbatim>\<open>SaturateCounter8\<close>
  (\<^verbatim>\<open>src/src/utils/saturate.hpp\<close>) and \<^verbatim>\<open>BitVec\<close>
  (\<^verbatim>\<open>src/src/utils/bitvec.hpp\<close>). A counter is its 8-bit value, with the template
  argument \<^verbatim>\<open>MaxV\<close> as a parameter. \<^verbatim>\<open>BitVec\<close> builds its masks with the
  \<^verbatim>\<open>int\<close> expression \<^verbatim>\<open>1 << pos\<close>: a shift by 32 or more is undefined there
  (\<^verbatim>\<open>None\<close>), and a wider operand sees the sign extension of the \<^verbatim>\<open>int\<close>.
\<close>

section \<open>Saturating counters\<close>

definition sat_init :: "u8 \<Rightarrow> u8" where
  "sat_init MaxV = MaxV div 2"

definition get_increment :: "u8 \<Rightarrow> u8 \<Rightarrow> u8" where
  "get_increment MaxV v = (if v < MaxV then v + 1 else MaxV)"

definition get_decrement :: "u8 \<Rightarrow> u8" where
  "get_decrement v = (if 0 < v then v - 1 else 0)"

definition is_positive :: "u8 \<Rightarrow> u8 \<Rightarrow> bool" where
  "is_positive MaxV v = (MaxV div 2 \<le> v)"

definition is_saturate_positive :: "u8 \<Rightarrow> u8 \<Rightarrow> bool" where
  "is_saturate_positive MaxV v = (v = MaxV)"

definition is_saturate_negative :: "u8 \<Rightarrow> bool" where
  "is_saturate_negative v = (v = 0)"

definition is_negative :: "u8 \<Rightarrow> u8 \<Rightarrow> bool" where
  "is_negative MaxV v = (v < MaxV div 2)"

definition sat_assign :: "u8 \<Rightarrow> u8 \<Rightarrow> u8" where
  "sat_assign MaxV v = (if MaxV < v then MaxV else v)"

definition get_netural :: "u8 \<Rightarrow> u8" where
  "get_netural MaxV = MaxV div 2"

lemma sat_assign_le: "sat_assign MaxV v \<le> MaxV"
  by (simp add: sat_assign_def not_less)

lemma unat_get_increment: "unat (get_increment M v) = (if unat v < unat M then unat v + 1 else unat M)"
proof (cases "v < M")
  case True
  then have "unat v < unat M" by (simp add: word_less_nat_alt)
  moreover have "unat M < 2 ^ 8" using unsigned_less [of M] by simp
  ultimately have "unat (v + 1) = unat v + 1" by (simp add: unat_word_ariths)
  with True show ?thesis by (simp add: get_increment_def word_less_nat_alt)
next
  case False
  then show ?thesis by (simp add: get_increment_def word_less_nat_alt)
qed

lemma unat_get_decrement: "unat (get_decrement v) = unat v - 1"
proof (cases "0 < v")
  case True
  then have "1 \<le> v" by (simp add: word_le_nat_alt word_less_nat_alt)
  with True show ?thesis by (simp add: get_decrement_def unat_sub)
next
  case False
  then have "v = 0" by (simp add: word_neq_0_conv [symmetric])
  then show ?thesis by (simp add: get_decrement_def)
qed

text \<open>\<^verbatim>\<open>n\<close> predictions in one direction, each stored back through the assignment.\<close>

fun sat_train :: "u8 \<Rightarrow> bool list \<Rightarrow> u8 \<Rightarrow> u8" where
  "sat_train MaxV [] v = v"
| "sat_train MaxV (taken # bs) v =
     sat_train MaxV bs (sat_assign MaxV (if taken then get_increment MaxV v else get_decrement v))"

lemma unat_sat_step:
  assumes "v \<le> M"
  shows "unat (sat_assign M (if b then get_increment M v else get_decrement v))
    = (if b then min (unat v + 1) (unat M) else unat v - 1)"
  using assms unat_get_increment [of M v] unat_get_decrement [of v]
  by (auto simp: sat_assign_def word_less_nat_alt word_le_nat_alt min_def)

lemma sat_train_bound: "v \<le> M \<Longrightarrow> sat_train M bs v \<le> M"
  by (induction bs arbitrary: v) (auto intro: sat_assign_le)

lemma sat_train_taken:
  "v \<le> M \<Longrightarrow> unat (sat_train M (replicate k True) v) = min (unat v + k) (unat M)"
proof (induction k arbitrary: v)
  case 0
  then show ?case by (simp add: word_le_nat_alt)
next
  case (Suc k)
  let ?w = "sat_assign M (get_increment M v)"
  have "unat ?w = min (unat v + 1) (unat M)"
    using unat_sat_step [OF Suc.prems, of True] by simp
  with Suc.IH [OF sat_assign_le [of M "get_increment M v"]] show ?case
    by (simp add: min_def)
qed

lemma sat_train_not_taken:
  "v \<le> M \<Longrightarrow> unat (sat_train M (replicate k False) v) = unat v - k"
proof (induction k arbitrary: v)
  case 0
  then show ?case by simp
next
  case (Suc k)
  have "unat (sat_assign M (get_decrement v)) = unat v - 1"
    using unat_sat_step [OF Suc.prems, of False] by simp
  with Suc.IH [OF sat_assign_le [of M "get_decrement v"]] show ?case by simp
qed

section \<open>Bit vectors\<close>

definition int_one_shl :: "nat \<Rightarrow> u32 option" where
  \<comment> \<open>the \<^verbatim>\<open>int\<close> expression \<^verbatim>\<open>1 << pos\<close>\<close>
  "int_one_shl pos = (if pos < 32 then Some (push_bit pos 1) else None)"

definition bv_set_bit :: "'a::len word \<Rightarrow> nat \<Rightarrow> 'a word option" where
  "bv_set_bit data pos = map_option (\<lambda>m. data OR scast m) (int_one_shl pos)"

definition bv_clear_bit :: "'a::len word \<Rightarrow> nat \<Rightarrow> 'a word option" where
  "bv_clear_bit data pos = map_option (\<lambda>m. data AND scast (NOT m)) (int_one_shl pos)"

definition bv_get_bit :: "'a::len word \<Rightarrow> nat \<Rightarrow> bool option" where
  "bv_get_bit data pos = map_option (\<lambda>m. data AND scast m \<noteq> 0) (int_one_shl pos)"

definition bv_and :: "'a::len word \<Rightarrow> 'a word \<Rightarrow> 'a word" where
  "bv_and a b = a AND b"

definition bv_or :: "'a::len word \<Rightarrow> 'a word \<Rightarrow> 'a word" where
  "bv_or a b = a OR b"

definition bv_not :: "'a::len word \<Rightarrow> 'a word" where
  "bv_not a = NOT a"

lemma int_one_shl_Some:
  assumes "pos < 32"
  shows "\<exists>m. int_one_shl pos = Some m \<and> (\<forall>i. bit m i \<longleftrightarrow> i = pos)"
proof -
  have "\<forall>i. bit (push_bit pos 1 :: u32) i \<longleftrightarrow> i = pos"
    using assms by (simp only: bit_push_bit_iff) (auto simp: bit_1_iff)
  then show ?thesis using assms by (auto simp only: int_one_shl_def if_True)
qed

lemma bit_scast_u32: "bit (scast (m :: u32) :: 'a::len word) i \<longleftrightarrow> i < LENGTH('a) \<and> bit m (min 31 i)"
  by (simp add: bit_signed_iff)

lemma bit_not_u32: "i < 32 \<Longrightarrow> bit (NOT m :: u32) i \<longleftrightarrow> \<not> bit m i"
  by (simp add: bit_not_iff)

definition bv_pos_ok :: "nat \<Rightarrow> nat \<Rightarrow> bool" where
  \<comment> \<open>the positions where the \<^verbatim>\<open>int\<close> mask is the intended one, for a vector of the given width\<close>
  "bv_pos_ok width pos = (pos < width \<and> (pos < 31 \<or> pos = 31 \<and> width \<le> 32))"

lemma bv_pos_ok_less: "bv_pos_ok width pos \<Longrightarrow> pos < 32"
  by (auto simp: bv_pos_ok_def)

lemma bv_set_bit_bits:
  assumes "bv_pos_ok LENGTH('a) pos"
  shows "\<exists>d'. bv_set_bit (d :: 'a::len word) pos = Some d' \<and> (\<forall>i. bit d' i \<longleftrightarrow> bit d i \<or> i = pos)"
proof -
  obtain m where m: "int_one_shl pos = Some m" "\<And>i. bit m i \<longleftrightarrow> i = pos"
    using int_one_shl_Some [OF bv_pos_ok_less [OF assms]] by metis
  have "bit (d OR scast m) i \<longleftrightarrow> bit d i \<or> i = pos" for i
    using assms by (auto simp: bit_or_iff bit_scast_u32 m bv_pos_ok_def min_def split: if_splits)
  with m(1) show ?thesis by (simp add: bv_set_bit_def)
qed

lemma bv_clear_bit_bits:
  assumes "bv_pos_ok LENGTH('a) pos"
  shows "\<exists>d'. bv_clear_bit (d :: 'a::len word) pos = Some d' \<and> (\<forall>i. bit d' i \<longleftrightarrow> bit d i \<and> i \<noteq> pos)"
proof -
  obtain m where m: "int_one_shl pos = Some m" "\<And>i. bit m i \<longleftrightarrow> i = pos"
    using int_one_shl_Some [OF bv_pos_ok_less [OF assms]] by metis
  have "bit (d AND scast (NOT m)) i \<longleftrightarrow> bit d i \<and> i \<noteq> pos" for i
    using assms
    by (auto simp: bit_and_iff bit_scast_u32 bit_not_u32 m bv_pos_ok_def min_def
        dest: bit_imp_le_length split: if_splits)
  with m(1) show ?thesis by (simp add: bv_clear_bit_def)
qed

lemma bv_get_bit_bits:
  assumes "bv_pos_ok LENGTH('a) pos"
  shows "bv_get_bit (d :: 'a::len word) pos = Some (bit d pos)"
proof -
  obtain m where m: "int_one_shl pos = Some m" "\<And>i. bit m i \<longleftrightarrow> i = pos"
    using int_one_shl_Some [OF bv_pos_ok_less [OF assms]] by metis
  have b: "bit (d AND scast m) i \<longleftrightarrow> bit d i \<and> i = pos" for i
    using assms
    by (auto simp: bit_and_iff bit_scast_u32 m bv_pos_ok_def min_def
        dest: bit_imp_le_length split: if_splits)
  have "d AND scast m \<noteq> 0 \<longleftrightarrow> bit d pos"
  proof
    assume "d AND scast m \<noteq> 0"
    then obtain i where "bit (d AND scast m) i"
      using bit_eqI [of "d AND scast m" 0] by auto
    then show "bit d pos" using b by auto
  next
    assume "bit d pos"
    then have "bit (d AND scast m) pos" by (simp add: b)
    then show "d AND scast m \<noteq> 0" by auto
  qed
  with m(1) show ?thesis by (simp add: bv_get_bit_def)
qed

section \<open>Properties\<close>

text \<open>
  Training a saturating counter never leaves the range \<^verbatim>\<open>0..MaxV\<close>; \<^verbatim>\<open>k\<close> taken
  outcomes in a row add \<^verbatim>\<open>k\<close> up to saturation and \<^verbatim>\<open>k\<close> not-taken outcomes subtract
  \<^verbatim>\<open>k\<close> down to zero, whatever the 8-bit representation would wrap to.
\<close>

theorem saturating_counter_training:
  assumes "v \<le> MaxV"
  shows "sat_train MaxV bs v \<le> MaxV
    \<and> unat (sat_train MaxV (replicate k True) v) = min (unat v + k) (unat MaxV)
    \<and> unat (sat_train MaxV (replicate k False) v) = unat v - k"
  using assms by (simp add: sat_train_bound sat_train_taken sat_train_not_taken)

theorem saturating_counter_training_witness:
  "unat (sat_train 255 (replicate 9 True) 250) = min (unat (250 :: u8) + 9) (unat (255 :: u8))"
  using saturating_counter_training [of 250 255 "[]" 9] by simp

text \<open>
  At the positions where the \<^verbatim>\<open>int\<close> mask is the intended one (below 31, or 31 in a
  vector of at most 32 bits) the bit vector's set, clear and get act on exactly that bit. In
  the 64-bit vector position 31 already sets every bit from 31 up, and from position 32 on the
  operation is undefined.
\<close>

theorem bit_vector_operations:
  assumes "bv_pos_ok LENGTH('a) pos"
  shows "(\<exists>d'. bv_set_bit (d :: 'a::len word) pos = Some d' \<and> (\<forall>i. bit d' i \<longleftrightarrow> bit d i \<or> i = pos))
    \<and> (\<exists>d'. bv_clear_bit d pos = Some d' \<and> (\<forall>i. bit d' i \<longleftrightarrow> bit d i \<and> i \<noteq> pos))
    \<and> bv_get_bit d pos = Some (bit d pos)
    \<and> bv_set_bit (0 :: u64) 31 = Some (NOT (mask 31)) \<and> bv_set_bit (0 :: u64) 32 = None"
  using bv_set_bit_bits [OF assms, of d] bv_clear_bit_bits [OF assms, of d] bv_get_bit_bits [OF assms, of d]
  by (simp add: bv_set_bit_def int_one_shl_def mask_eq_exp_minus_1)

theorem bit_vector_operations_witness:
  "bv_get_bit (5 :: u16) 2 = Some (bit (5 :: u16) 2) \<and> bv_set_bit (0 :: u64) 31 = Some (NOT (mask 31))"
  using bit_vector_operations [where 'a = 16, of 2 5] by (simp only: bv_pos_ok_def) simp

end
