(* ===== verification/RouteTable.thy ===== *)
theory RouteTable
  imports Prelude "HOL-Library.Mapping" "HOL-Library.AList_Mapping"
begin

text \<open>
  The route tables of the on-chip networks (\<^verbatim>\<open>bus/routetable.cpp\<close>): the nested hash map
  from source and destination node to the next node, its insertion and deletion, the generators
  for a one-way ring, a two-way ring and a 2D mesh with XY routing, and the reachability check.
  An \<^verbatim>\<open>assert(0)\<close> is the result None. Vector positions are nat: the code keeps them in
  uint32_t, and a vector of 2^32 nodes is out of its reach. The locale \<^verbatim>\<open>hop_routing\<close> is
  the contract between a table and the routers that follow it, interpreted on the three generators.
\<close>

section \<open>The table\<close>

type_synonym BusNodeT = u32
type_synonym BusRouteTable = "(BusNodeT, (BusNodeT, BusNodeT) mapping) mapping"

definition route_insert :: "BusNodeT \<Rightarrow> BusNodeT \<Rightarrow> BusNodeT \<Rightarrow> BusRouteTable \<Rightarrow> BusRouteTable" where
  "route_insert src dst nxt table =
     (let row = (case Mapping.lookup table src of None \<Rightarrow> Mapping.empty | Some r \<Rightarrow> r)
      in Mapping.update src (Mapping.update dst nxt row) table)"

definition route_delete :: "BusNodeT \<Rightarrow> BusNodeT \<Rightarrow> BusRouteTable \<Rightarrow> BusRouteTable" where
  "route_delete src dst table =
     (case Mapping.lookup table src of
        None \<Rightarrow> table
      | Some row \<Rightarrow>
          (let row' = Mapping.delete dst row
           in if Mapping.is_empty row' then Mapping.delete src table
              else Mapping.update src row' table))"

text \<open>The two nested \<^verbatim>\<open>find\<close> calls of every reader of the table.\<close>

definition route_next :: "BusRouteTable \<Rightarrow> BusNodeT \<Rightarrow> BusNodeT \<Rightarrow> BusNodeT option" where
  "route_next table cur dst =
     (case Mapping.lookup table cur of None \<Rightarrow> None | Some row \<Rightarrow> Mapping.lookup row dst)"

lemma route_next_insert [route_simps]:
  "route_next (route_insert src dst nxt t) s d =
     (if s = src \<and> d = dst then Some nxt else route_next t s d)"
  by (auto simp: route_next_def route_insert_def Let_def lookup_update' lookup_empty
      split: option.split)

lemma is_empty_iff_lookup: "Mapping.is_empty m \<longleftrightarrow> (\<forall>k. Mapping.lookup m k = None)"
  by (auto simp: Mapping.is_empty_def keys_dom_lookup)

lemma lookup_delete_if: "Mapping.lookup (Mapping.delete k m) k' = (if k' = k then None else Mapping.lookup m k')"
  by (cases "k' = k") (simp_all add: lookup_delete lookup_delete_neq)

lemma route_next_delete [route_simps]:
  "route_next (route_delete src dst t) s d =
     (if s = src \<and> d = dst then None else route_next t s d)"
proof (cases "Mapping.lookup t src")
  case None
  then show ?thesis by (auto simp: route_next_def route_delete_def)
next
  case (Some row)
  show ?thesis
  proof (cases "Mapping.is_empty (Mapping.delete dst row)")
    case True
    then have row: "Mapping.lookup row k = None" if "k \<noteq> dst" for k
      using that by (simp add: is_empty_iff_lookup lookup_delete_if) metis
    show ?thesis
      using True Some row
      by (simp add: route_next_def route_delete_def Let_def lookup_delete_if)
  next
    case False
    with Some show ?thesis
      by (auto simp: route_next_def route_delete_def Let_def lookup_delete_if lookup_update')
  qed
qed

section \<open>The generators\<close>

definition insert_dsts :: "BusNodeT \<Rightarrow> BusNodeT \<Rightarrow> BusNodeT list \<Rightarrow> BusRouteTable \<Rightarrow> BusRouteTable" where
  "insert_dsts src nxt dsts t = fold (\<lambda>d. route_insert src d nxt) dsts t"

text \<open>
  The two loop shapes of the generators: \<^verbatim>\<open>for\<close> a number of positions, and \<^verbatim>\<open>while(idx != i)\<close>.
  At every position they insert the destinations \<^verbatim>\<open>dsts idx\<close> (one node of a ring, a column or
  a node of a mesh) with the same next hop.
\<close>

fun ring_for :: "(nat \<Rightarrow> BusNodeT list) \<Rightarrow> BusNodeT \<Rightarrow> BusNodeT \<Rightarrow> nat \<Rightarrow> nat \<Rightarrow> nat \<Rightarrow> BusRouteTable
    \<Rightarrow> nat \<times> BusRouteTable" where
  "ring_for dsts src nxt cnt 0 idx t = (idx, t)"
| "ring_for dsts src nxt cnt (Suc k) idx t =
     ring_for dsts src nxt cnt k ((idx + 1) mod cnt) (insert_dsts src nxt (dsts idx) t)"

partial_function (option) ring_while ::
    "(nat \<Rightarrow> BusNodeT list) \<Rightarrow> BusNodeT \<Rightarrow> BusNodeT \<Rightarrow> nat \<Rightarrow> nat \<Rightarrow> nat \<Rightarrow> BusRouteTable \<Rightarrow> BusRouteTable option" where
  "ring_while dsts src nxt cnt i idx t =
     (if idx = i then Some t
      else ring_while dsts src nxt cnt i ((idx + 1) mod cnt) (insert_dsts src nxt (dsts idx) t))"

declare ring_while.simps [code]

definition ring_sweep ::
    "(nat \<Rightarrow> BusNodeT list) \<Rightarrow> BusNodeT \<Rightarrow> BusNodeT \<Rightarrow> BusNodeT \<Rightarrow> nat \<Rightarrow> nat \<Rightarrow> BusRouteTable \<Rightarrow> BusRouteTable option" where
  "ring_sweep dsts src fwd bwd cnt i t =
     (case ring_for dsts src fwd cnt (cnt div 2) ((i + 1) mod cnt) t of
        (idx, t') \<Rightarrow> ring_while dsts src bwd cnt i idx t')"

text \<open>The number of entries of \<^verbatim>\<open>nodeidxs\<close>: \<^verbatim>\<open>emplace\<close> keeps one entry per key.\<close>

definition nodeidxs_size :: "u32 list \<Rightarrow> nat" where
  "nodeidxs_size ks = length (remdups ks)"

definition fold_nodes :: "(nat \<Rightarrow> BusRouteTable \<Rightarrow> BusRouteTable option) \<Rightarrow> nat list \<Rightarrow> BusRouteTable option" where
  "fold_nodes f is = fold (\<lambda>i r. case r of None \<Rightarrow> None | Some t \<Rightarrow> f i t) is (Some Mapping.empty)"

definition genroute_single_ring :: "BusNodeT list \<Rightarrow> BusRouteTable option" where
  "genroute_single_ring nodes =
     (if length nodes \<noteq> nodeidxs_size (map of_nat [0..<length nodes]) then None
      else (let cnt = length nodes in
        fold_nodes (\<lambda>i t.
          let idx = (i + 1) mod cnt in
          Some (snd (ring_for (\<lambda>k. [nodes ! k]) (nodes ! i) (nodes ! idx) cnt (cnt - 1) idx t)))
          [0..<cnt]))"

definition genroute_double_ring :: "BusNodeT list \<Rightarrow> BusRouteTable option" where
  "genroute_double_ring nodes =
     (if length nodes \<noteq> nodeidxs_size (map of_nat [0..<length nodes]) then None
      else (let cnt = length nodes in
        fold_nodes (\<lambda>i.
          ring_sweep (\<lambda>k. [nodes ! k]) (nodes ! i) (nodes ! ((i + 1) mod cnt))
            (if i = 0 then nodes ! (cnt - 1) else nodes ! (i - 1)) cnt i)
          [0..<cnt]))"

definition mesh_node :: "BusNodeT list \<Rightarrow> nat \<Rightarrow> nat \<Rightarrow> bool \<Rightarrow> nat \<Rightarrow> BusRouteTable \<Rightarrow> BusRouteTable option" where
  "mesh_node nodes_byx cnt_x cnt_y double_direct p t =
     (let x = p mod cnt_x; y = p div cnt_x; src = nodes_byx ! (x + y * cnt_x);
          nextx = nodes_byx ! ((x + 1) mod cnt_x + y * cnt_x);
          prevx = (if double_direct
                   then (if x = 0 then nodes_byx ! ((cnt_x - 1) + y * cnt_x)
                         else nodes_byx ! ((x - 1) + y * cnt_x))
                   else nextx);
          nexty = nodes_byx ! (x + (y + 1) mod cnt_y * cnt_x);
          prevy = (if double_direct
                   then (if y = 0 then nodes_byx ! (x + (cnt_y - 1) * cnt_x)
                         else nodes_byx ! (x + (y - 1) * cnt_x))
                   else nexty)
      in (case ring_sweep (\<lambda>xi. map (\<lambda>y2. nodes_byx ! (xi + y2 * cnt_x)) [0..<cnt_y])
                 src nextx prevx cnt_x x t of
            None \<Rightarrow> None
          | Some t' \<Rightarrow> ring_sweep (\<lambda>yi. [nodes_byx ! (x + yi * cnt_x)]) src nexty prevy cnt_y y t'))"

text \<open>The two outer loops run \<^verbatim>\<open>y\<close> outside \<^verbatim>\<open>x\<close>: position \<^verbatim>\<open>p = x + y * cnt_x\<close> counts up.\<close>

definition genroute_mesh2d_xy :: "BusNodeT list \<Rightarrow> nat \<Rightarrow> nat \<Rightarrow> bool \<Rightarrow> BusRouteTable option" where
  "genroute_mesh2d_xy nodes_byx cnt_x cnt_y double_direct =
     (if length nodes_byx \<noteq> nodeidxs_size
           (map (\<lambda>p. of_nat (p mod cnt_x) OR push_bit 16 (of_nat (p div cnt_x))) [0..<cnt_x * cnt_y])
      then None
      else fold_nodes (mesh_node nodes_byx cnt_x cnt_y double_direct) [0..<cnt_x * cnt_y])"

section \<open>The reachability check\<close>

fun route_walk :: "BusRouteTable \<Rightarrow> BusNodeT \<Rightarrow> nat \<Rightarrow> BusNodeT \<Rightarrow> BusNodeT" where
  "route_walk t dst 0 cur = cur"
| "route_walk t dst (Suc k) cur =
     (if cur = dst then cur
      else (case route_next t cur dst of None \<Rightarrow> cur | Some n \<Rightarrow> route_walk t dst k n))"

definition assert_route_table_valid :: "BusNodeT list \<Rightarrow> BusRouteTable \<Rightarrow> bool" where
  "assert_route_table_valid nodes t =
     list_all (\<lambda>src. list_all (\<lambda>dst. route_walk t dst (length nodes) src = dst) nodes) nodes"

section \<open>What the loops insert\<close>

lemma route_next_insert_dsts [route_simps]:
  "route_next (insert_dsts src nxt ds t) s d =
     (if s = src \<and> d \<in> set ds then Some nxt else route_next t s d)"
  unfolding insert_dsts_def
  by (induction ds arbitrary: t) (auto simp: route_simps)

lemma ring_for_idx: "idx < cnt \<Longrightarrow> fst (ring_for dsts src nxt cnt k idx t) = (idx + k) mod cnt"
  by (induction k arbitrary: idx t) (simp_all add: mod_simps)

lemma ring_for_next [route_simps]:
  "route_next (snd (ring_for dsts src nxt cnt k ((i + a) mod cnt) t)) s d =
     (if s = src \<and> (\<exists>off\<in>{a..<a + k}. d \<in> set (dsts ((i + off) mod cnt))) then Some nxt else route_next t s d)"
proof (induction k arbitrary: a t)
  case 0
  then show ?case by simp
next
  case (Suc k)
  have step: "((i + a) mod cnt + 1) mod cnt = (i + Suc a) mod cnt" by (simp add: mod_simps)
  have split: "{a..<a + Suc k} = insert a {Suc a..<Suc a + k}" by auto
  show ?case
    unfolding ring_for.simps step Suc.IH route_next_insert_dsts split by auto
qed

lemma ring_while_for:
  assumes "0 < cnt" and "idx < cnt" and "i = (idx + k) mod cnt" and "k < cnt"
  shows "ring_while dsts src nxt cnt i idx t = Some (snd (ring_for dsts src nxt cnt k idx t))"
  using assms
proof (induction k arbitrary: idx t)
  case 0
  then show ?case by (simp add: ring_while.simps)
next
  case (Suc k)
  have "idx \<noteq> i"
    using mod_add_inj_less [of 0 "Suc k" cnt idx] Suc.prems by auto
  moreover have "i = ((idx + 1) mod cnt + k) mod cnt" using Suc.prems by (simp add: mod_simps)
  ultimately show ?case
    using Suc.IH [of "(idx + 1) mod cnt"] Suc.prems by (subst ring_while.simps) simp
qed

text \<open>What a sweep writes for a destination in its range: the direction of the shorter way round.\<close>

definition sweep_row :: "(nat \<Rightarrow> BusNodeT list) \<Rightarrow> BusNodeT \<Rightarrow> BusNodeT \<Rightarrow> nat \<Rightarrow> nat \<Rightarrow> BusNodeT \<Rightarrow> BusNodeT option" where
  "sweep_row dsts fwd bwd cnt i d =
     (if \<exists>off\<in>{cnt div 2 + 1..<cnt}. d \<in> set (dsts ((i + off) mod cnt)) then Some bwd
      else if \<exists>off\<in>{1..<cnt div 2 + 1}. d \<in> set (dsts ((i + off) mod cnt)) then Some fwd else None)"

definition or_else :: "'a option \<Rightarrow> 'a option \<Rightarrow> 'a option" where
  "or_else a b = (case a of None \<Rightarrow> b | Some _ \<Rightarrow> a)"

lemma or_else_simps [simp]: "or_else None b = b" "or_else (Some x) b = Some x" "or_else a None = a"
  by (simp_all add: or_else_def split: option.split)

lemma ring_sweep_row:
  assumes "i < cnt"
  obtains t' where "ring_sweep dsts src fwd bwd cnt i t = Some t'"
    and "\<And>s d. route_next t' s d =
      (if s = src then or_else (sweep_row dsts fwd bwd cnt i d) (route_next t s d) else route_next t s d)"
proof -
  define t1 where "t1 = snd (ring_for dsts src fwd cnt (cnt div 2) ((i + 1) mod cnt) t)"
  let ?k = "cnt - (cnt div 2 + 1)" and ?idx = "(i + (cnt div 2 + 1)) mod cnt"
  define t2 where "t2 = snd (ring_for dsts src bwd cnt ?k ?idx t1)"
  have le: "cnt div 2 + 1 \<le> cnt" and pos: "0 < cnt" using assms by linarith+
  have f: "ring_for dsts src fwd cnt (cnt div 2) ((i + 1) mod cnt) t = (?idx, t1)"
    using ring_for_idx [of "(i + 1) mod cnt" cnt dsts src fwd "cnt div 2" t] pos
    by (simp add: t1_def prod_eq_iff mod_simps add.commute)
  have "(?idx + ?k) mod cnt = (i + (cnt div 2 + 1 + ?k)) mod cnt" by (simp add: mod_simps add.assoc)
  then have "i = (?idx + ?k) mod cnt" using le assms by simp
  then have w: "ring_while dsts src bwd cnt i ?idx t1 = Some t2"
    using pos unfolding t2_def by (intro ring_while_for) simp_all
  have sum: "cnt div 2 + 1 + ?k = cnt" using le by simp
  have "route_next t2 s d =
      (if s = src then or_else (sweep_row dsts fwd bwd cnt i d) (route_next t s d) else route_next t s d)" for s d
    unfolding t2_def ring_for_next sum t1_def sweep_row_def add.commute [of 1 "cnt div 2"] by simp
  with f w that show ?thesis by (simp add: ring_sweep_def)
qed

section \<open>Rows of a generated table\<close>

text \<open>Each step of an outer loop writes the row of its own source node only.\<close>

definition row_written :: "BusNodeT \<Rightarrow> (BusNodeT \<Rightarrow> BusNodeT option) \<Rightarrow> BusRouteTable \<Rightarrow> BusRouteTable \<Rightarrow> bool" where
  "row_written src row t t' \<longleftrightarrow>
     (\<forall>s d. route_next t' s d = (if s = src then or_else (row d) (route_next t s d) else route_next t s d))"

definition writes_row :: "(BusRouteTable \<Rightarrow> BusRouteTable option) \<Rightarrow> BusNodeT \<Rightarrow> (BusNodeT \<Rightarrow> BusNodeT option) \<Rightarrow> bool" where
  "writes_row f src row \<longleftrightarrow> (\<forall>t. \<exists>t'. f t = Some t' \<and> row_written src row t t')"

lemma row_written_next:
  "row_written src row t t' \<Longrightarrow>
   route_next t' s d = (if s = src then or_else (row d) (route_next t s d) else route_next t s d)"
  by (simp add: row_written_def)

lemma writes_rowD: "writes_row f src row \<Longrightarrow> \<exists>t'. f t = Some t' \<and> row_written src row t t'"
  by (simp add: writes_row_def)

lemma sweep_writes_row:
  assumes "i < cnt"
  shows "writes_row (ring_sweep dsts src fwd bwd cnt i) src (sweep_row dsts fwd bwd cnt i)"
  unfolding writes_row_def
proof
  fix t
  show "\<exists>t'. ring_sweep dsts src fwd bwd cnt i t = Some t' \<and>
      row_written src (sweep_row dsts fwd bwd cnt i) t t'"
    by (rule ring_sweep_row [OF assms, of dsts src fwd bwd t]) (simp add: row_written_def)
qed

lemma writes_row_seq:
  assumes "writes_row f src r" and "writes_row g src r'"
  shows "writes_row (\<lambda>t. case f t of None \<Rightarrow> None | Some t' \<Rightarrow> g t') src (\<lambda>d. or_else (r' d) (r d))"
  unfolding writes_row_def
proof
  fix t
  obtain t1 where 1: "f t = Some t1" "row_written src r t t1" using writes_rowD [OF assms(1)] by blast
  obtain t2 where 2: "g t1 = Some t2" "row_written src r' t1 t2" using writes_rowD [OF assms(2)] by blast
  have "row_written src (\<lambda>d. or_else (r' d) (r d)) t t2"
    using 1(2) 2(2) by (simp add: row_written_def or_else_def split: option.split)
  with 1(1) 2(1)
  show "\<exists>t'. (case f t of None \<Rightarrow> None | Some t' \<Rightarrow> g t') = Some t' \<and>
      row_written src (\<lambda>d. or_else (r' d) (r d)) t t'"
    by simp
qed

definition rows_of :: "nat set \<Rightarrow> (nat \<Rightarrow> BusNodeT) \<Rightarrow> (nat \<Rightarrow> BusNodeT \<Rightarrow> BusNodeT option)
    \<Rightarrow> BusRouteTable \<Rightarrow> BusRouteTable \<Rightarrow> bool" where
  "rows_of I node row t t' \<longleftrightarrow>
     (\<forall>i\<in>I. \<forall>d. route_next t' (node i) d = or_else (row i d) (route_next t (node i) d)) \<and>
     (\<forall>s d. s \<notin> node ` I \<longrightarrow> route_next t' s d = route_next t s d)"

lemma rows_of_insert:
  assumes "row_written (node i) (row i) t t1" and "rows_of I node row t1 t'" and "node i \<notin> node ` I"
  shows "rows_of (insert i I) node row t t'"
  using assms(2,3) unfolding rows_of_def by (auto simp: row_written_next [OF assms(1)]) (metis imageI)

lemma fold_rows:
  assumes "\<And>i. i \<in> set is \<Longrightarrow> writes_row (f i) (node i) (row i)" and "inj_on node (set is)" and "distinct is"
  shows "\<exists>t'. fold (\<lambda>i r. case r of None \<Rightarrow> None | Some t \<Rightarrow> f i t) is (Some t) = Some t' \<and>
    rows_of (set is) node row t t'"
  using assms
proof (induction "is" arbitrary: t)
  case Nil
  then show ?case by (simp add: rows_of_def)
next
  case (Cons i "is")
  obtain t1 where 1: "f i t = Some t1" "row_written (node i) (row i) t t1"
    using writes_rowD [OF Cons.prems(1)] by (metis list.set_intros(1))
  have ni: "node i \<notin> node ` set is" using Cons.prems(2,3) by (auto simp: inj_on_def)
  have "\<exists>t'. fold (\<lambda>i r. case r of None \<Rightarrow> None | Some t \<Rightarrow> f i t) is (Some t1) = Some t' \<and>
    rows_of (set is) node row t1 t'"
    using Cons.prems by (intro Cons.IH) (auto simp: inj_on_def)
  then obtain t' where t': "fold (\<lambda>i r. case r of None \<Rightarrow> None | Some t \<Rightarrow> f i t) is (Some t1) = Some t'"
    "rows_of (set is) node row t1 t'" by blast
  have "rows_of (set (i # is)) node row t t'"
    using rows_of_insert [OF 1(2) t'(2) ni] by simp
  with 1(1) t'(1) show ?case by auto
qed

lemma fold_nodes_rows:
  assumes "\<And>i. i < n \<Longrightarrow> writes_row (f i) (node i) (row i)" and "inj_on node {..<n}"
  obtains t where "fold_nodes f [0..<n] = Some t"
    and "\<And>i d. i < n \<Longrightarrow> route_next t (node i) d = row i d"
proof -
  have e: "route_next Mapping.empty s d = None" for s d by (simp add: route_next_def lookup_empty)
  have "inj_on node (set [0..<n])" using assms(2) by (simp add: lessThan_atLeast0)
  then have "\<exists>t. fold_nodes f [0..<n] = Some t \<and> (\<forall>i<n. \<forall>d. route_next t (node i) d = row i d)"
    using fold_rows [of "[0..<n]" f node row Mapping.empty] assms(1)
    by (auto simp: fold_nodes_def e rows_of_def)
  with that show ?thesis by blast
qed

section \<open>Routers that follow a table\<close>

text \<open>
  The contract of a routing table: towards every destination there is a next hop, and it is one
  hop closer by the network's own distance.
\<close>

locale hop_routing =
  fixes table :: "BusRouteTable" and nodeset :: "BusNodeT set" and dist :: "BusNodeT \<Rightarrow> BusNodeT \<Rightarrow> nat"
  assumes closer: "a \<in> nodeset \<Longrightarrow> d \<in> nodeset \<Longrightarrow> a \<noteq> d \<Longrightarrow>
      \<exists>b\<in>nodeset. route_next table a d = Some b \<and> dist a d = Suc (dist b d)"
    and dist_self: "d \<in> nodeset \<Longrightarrow> dist d d = 0"
begin

lemma walk_reaches_iff:
  assumes "a \<in> nodeset" and "d \<in> nodeset"
  shows "route_walk table d k a = d \<longleftrightarrow> dist a d \<le> k"
  using assms(1)
proof (induction k arbitrary: a)
  case 0
  show ?case using closer [OF 0 assms(2)] dist_self [OF assms(2)] by (cases "a = d") auto
next
  case (Suc k)
  show ?case
  proof (cases "a = d")
    case True
    then show ?thesis using dist_self [OF assms(2)] by simp
  next
    case False
    with closer [OF Suc.prems assms(2)] obtain b where
      "b \<in> nodeset" "route_next table a d = Some b" "dist a d = Suc (dist b d)" by blast
    with False Suc.IH [of b] show ?thesis by simp
  qed
qed

lemma routes_valid:
  assumes "set nodes \<subseteq> nodeset" and "\<And>a d. a \<in> nodeset \<Longrightarrow> d \<in> nodeset \<Longrightarrow> dist a d \<le> length nodes"
  shows "assert_route_table_valid nodes table"
  unfolding assert_route_table_valid_def list_all_iff
  using assms walk_reaches_iff by blast

end

section \<open>Rings\<close>

lemma nodeidxs_size_positions:
  "n \<le> 2 ^ 32 \<Longrightarrow> nodeidxs_size (map of_nat [0..<n]) = n"
proof -
  assume "n \<le> 2 ^ 32"
  then have "inj_on (of_nat :: nat \<Rightarrow> u32) {0..<n}"
    by (intro inj_onI) (simp add: word_of_nat_eq_iff take_bit_nat_eq_self)
  then show ?thesis by (simp add: nodeidxs_size_def length_remdups_card_conv card_image)
qed

definition node_pos :: "BusNodeT list \<Rightarrow> BusNodeT \<Rightarrow> nat" where
  "node_pos nodes n = length (takeWhile (\<lambda>m. m \<noteq> n) nodes)"

lemma node_pos_nth: "distinct nodes \<Longrightarrow> i < length nodes \<Longrightarrow> node_pos nodes (nodes ! i) = i"
proof (induction nodes arbitrary: i)
  case Nil
  then show ?case by simp
next
  case (Cons m nodes)
  then show ?case by (cases i) (auto simp: node_pos_def)
qed

definition ring_off :: "nat \<Rightarrow> nat \<Rightarrow> nat \<Rightarrow> nat" where
  "ring_off cnt i j = (j + (cnt - i)) mod cnt"

definition ring_dist :: "nat \<Rightarrow> nat \<Rightarrow> nat \<Rightarrow> nat" where
  "ring_dist cnt i j = min (ring_off cnt i j) (cnt - ring_off cnt i j)"

lemma ring_off_add: "i < cnt \<Longrightarrow> off < cnt \<Longrightarrow> ring_off cnt i ((i + off) mod cnt) = off"
proof -
  assume "i < cnt" "off < cnt"
  then have "i + off + (cnt - i) = off + cnt" by simp
  then have "((i + off) mod cnt + (cnt - i)) mod cnt = (off + cnt) mod cnt" by (metis mod_add_left_eq)
  with \<open>off < cnt\<close> show ?thesis by (simp add: ring_off_def)
qed

lemma ring_off_less [simp]: "i < cnt \<Longrightarrow> ring_off cnt i j < cnt"
  by (simp add: ring_off_def)

lemma ring_off_reach: "i < cnt \<Longrightarrow> j < cnt \<Longrightarrow> (i + ring_off cnt i j) mod cnt = j"
  by (simp add: ring_off_def mod_simps)

lemma ring_off_eq_iff: "i < cnt \<Longrightarrow> j < cnt \<Longrightarrow> off < cnt \<Longrightarrow> (i + off) mod cnt = j \<longleftrightarrow> off = ring_off cnt i j"
  by (metis ring_off_add ring_off_reach)

lemma ring_off_zero_iff: "i < cnt \<Longrightarrow> j < cnt \<Longrightarrow> ring_off cnt i j = 0 \<longleftrightarrow> i = j"
  by (metis add.right_neutral mod_less ring_off_eq_iff gr_implies_not0 neq0_conv)

text \<open>One hop forward makes the offset one smaller, one hop backward one larger.\<close>

lemma ring_off_fwd:
  assumes "i < cnt" and "j < cnt" and "i \<noteq> j"
  shows "ring_off cnt i j = Suc (ring_off cnt ((i + 1) mod cnt) j)"
proof -
  let ?o = "ring_off cnt i j"
  have o: "0 < ?o" "?o < cnt" using assms ring_off_zero_iff by auto
  have "((i + 1) mod cnt + (?o - 1)) mod cnt = (i + 1 + (?o - 1)) mod cnt" by (rule mod_add_left_eq)
  moreover have "i + 1 + (?o - 1) = i + ?o" using o by simp
  ultimately have "((i + 1) mod cnt + (?o - 1)) mod cnt = (i + ?o) mod cnt" by simp
  then have "((i + 1) mod cnt + (?o - 1)) mod cnt = j" by (simp only: ring_off_reach [OF assms(1,2)])
  moreover have "(i + 1) mod cnt < cnt" "?o - 1 < cnt" using o by simp_all
  ultimately have "ring_off cnt ((i + 1) mod cnt) j = ?o - 1"
    using ring_off_add by metis
  with o show ?thesis by simp
qed

lemma ring_off_bwd:
  assumes "i < cnt" and "j < cnt" and "i \<noteq> j"
  shows "ring_off cnt (if i = 0 then cnt - 1 else i - 1) j = Suc (ring_off cnt i j) mod cnt"
proof -
  let ?p = "if i = 0 then cnt - 1 else i - 1"
  have p: "?p < cnt" "(?p + 1) mod cnt = i" using assms(1) by auto
  show ?thesis
  proof (cases "?p = j")
    case True
    have "(i + (cnt - 1)) mod cnt = ?p"
    proof (cases "i = 0")
      case False
      then have "i + (cnt - 1) = (i - 1) + cnt" using assms(1) by simp
      then have "(i + (cnt - 1)) mod cnt = (i - 1) mod cnt" by (metis mod_add_self2)
      then show ?thesis using False assms(1) by simp
    qed (use assms(1) in simp)
    then have "ring_off cnt i ?p = cnt - 1"
      using ring_off_add [of i cnt "cnt - 1"] assms(1) by simp
    with True p assms ring_off_zero_iff [of ?p cnt j] show ?thesis by simp
  next
    case False
    then have "ring_off cnt ?p j = Suc (ring_off cnt i j)"
      using ring_off_fwd [OF p(1) assms(2)] p(2) by metis
    with p(1) show ?thesis by (metis mod_less ring_off_less)
  qed
qed

lemma ring_dist_self: "i < cnt \<Longrightarrow> ring_dist cnt i i = 0"
  using ring_off_zero_iff [of i cnt i] by (simp add: ring_dist_def)

lemma ring_dist_fwd:
  assumes "i < cnt" and "j < cnt" and "i \<noteq> j" and "ring_off cnt i j \<le> cnt div 2"
  shows "ring_dist cnt i j = Suc (ring_dist cnt ((i + 1) mod cnt) j)"
  using ring_off_fwd [OF assms(1-3)] assms(4) by (simp add: ring_dist_def min_def) linarith

lemma ring_dist_bwd:
  assumes "i < cnt" and "j < cnt" and "i \<noteq> j" and "cnt div 2 < ring_off cnt i j"
  shows "ring_dist cnt i j = Suc (ring_dist cnt (if i = 0 then cnt - 1 else i - 1) j)"
proof (cases "Suc (ring_off cnt i j) = cnt")
  case True
  with ring_off_bwd [OF assms(1-3)] have o: "ring_off cnt (if i = 0 then cnt - 1 else i - 1) j = 0" by simp
  show ?thesis unfolding ring_dist_def o using True assms(4) by linarith
next
  case False
  with assms(1) have "Suc (ring_off cnt i j) < cnt" using ring_off_less [OF assms(1), of j] by linarith
  with ring_off_bwd [OF assms(1-3)] assms(4) have o: "ring_off cnt (if i = 0 then cnt - 1 else i - 1) j = Suc (ring_off cnt i j)"
    by simp
  show ?thesis
    unfolding ring_dist_def o using assms(4) \<open>Suc (ring_off cnt i j) < cnt\<close> by linarith
qed

lemma ring_dist_bound: "i < cnt \<Longrightarrow> ring_dist cnt i j \<le> cnt div 2"
  unfolding ring_dist_def by linarith

lemma sweep_row_at:
  assumes "i < cnt" and "j < cnt" and "\<And>k. k < cnt \<Longrightarrow> d \<in> set (dsts k) \<longleftrightarrow> k = j"
  shows "sweep_row dsts fwd bwd cnt i d =
    (if i = j then None else if ring_off cnt i j \<le> cnt div 2 then Some fwd else Some bwd)"
proof -
  have "d \<in> set (dsts ((i + off) mod cnt)) \<longleftrightarrow> off = ring_off cnt i j" if "off < cnt" for off
    using assms(3) [of "(i + off) mod cnt"] ring_off_eq_iff [OF assms(1,2) that] assms(1) by simp
  then have ex: "(\<exists>off\<in>{a..<b}. d \<in> set (dsts ((i + off) mod cnt))) \<longleftrightarrow> a \<le> ring_off cnt i j \<and> ring_off cnt i j < b"
    if "b \<le> cnt" for a b using that by (metis atLeastLessThan_iff less_le_trans)
  have le: "cnt div 2 + 1 \<le> cnt" using assms(1) by linarith
  show ?thesis
    unfolding sweep_row_def ex [OF le] ex [OF order_refl]
    using ring_off_zero_iff [OF assms(1,2)] ring_off_less [OF assms(1), of j] by auto
qed

lemma sweep_row_none:
  assumes "0 < cnt" and "\<And>k. k < cnt \<Longrightarrow> d \<notin> set (dsts k)"
  shows "sweep_row dsts fwd bwd cnt i d = None"
  using assms by (simp add: sweep_row_def)

lemma distinct_nodes_bound: "distinct (nodes :: u32 list) \<Longrightarrow> length nodes \<le> 2 ^ 32"
proof -
  assume "distinct nodes"
  then have "length nodes = card (set nodes)" by (simp add: distinct_card)
  also have "\<dots> \<le> card (UNIV :: u32 set)" by (intro card_mono) simp_all
  finally show ?thesis by (simp add: card_word)
qed

lemma inj_on_nth: "distinct nodes \<Longrightarrow> inj_on ((!) nodes) {..<length nodes}"
  by (simp add: inj_on_nth)

text \<open>The position of the next hop towards \<^verbatim>\<open>j\<close>, on a ring used in both or in one direction.\<close>

definition hop_pos :: "bool \<Rightarrow> nat \<Rightarrow> nat \<Rightarrow> nat \<Rightarrow> nat" where
  "hop_pos dd n i j =
     (if dd \<and> n div 2 < ring_off n i j then (if i = 0 then n - 1 else i - 1) else (i + 1) mod n)"

definition hop_dist :: "bool \<Rightarrow> nat \<Rightarrow> nat \<Rightarrow> nat \<Rightarrow> nat" where
  "hop_dist dd n i j = (if dd then ring_dist n i j else ring_off n i j)"

lemma hop_pos_less: "i < n \<Longrightarrow> hop_pos dd n i j < n"
  by (auto simp: hop_pos_def)

lemma hop_dist_closer:
  assumes "i < n" and "j < n" and "i \<noteq> j"
  shows "hop_dist dd n i j = Suc (hop_dist dd n (hop_pos dd n i j) j)"
  using ring_dist_fwd [OF assms] ring_dist_bwd [OF assms] ring_off_fwd [OF assms]
  by (cases dd) (auto simp: hop_dist_def hop_pos_def not_less)

lemma hop_dist_self: "i < n \<Longrightarrow> hop_dist dd n i i = 0"
  using ring_off_zero_iff [of i n i] by (simp add: hop_dist_def ring_dist_self)

lemma hop_dist_less: "i < n \<Longrightarrow> hop_dist dd n i j < n"
  using ring_dist_bound [of i n j] ring_off_less [of i n j] unfolding hop_dist_def by (auto intro: le_less_trans)

lemma sweep_row_hop:
  assumes "i < n" and "j < n" and "\<And>k. k < n \<Longrightarrow> d \<in> set (dsts k) \<longleftrightarrow> k = j"
  shows "sweep_row dsts (f ((i + 1) mod n))
      (if dd then f (if i = 0 then n - 1 else i - 1) else f ((i + 1) mod n)) n i d =
    (if i = j then None else Some (f (hop_pos dd n i j)))"
  using sweep_row_at [where dsts = dsts and d = d, OF assms] by (auto simp: hop_pos_def not_less)

lemma double_ring_row:
  assumes "distinct nodes"
  obtains t where "genroute_double_ring nodes = Some t"
    and "\<And>i j. i < length nodes \<Longrightarrow> j < length nodes \<Longrightarrow> i \<noteq> j \<Longrightarrow>
      route_next t (nodes ! i) (nodes ! j) = Some (nodes ! hop_pos True (length nodes) i j)"
proof -
  let ?n = "length nodes"
  define row where "row i = sweep_row (\<lambda>k. [nodes ! k]) (nodes ! ((i + 1) mod ?n))
    (if i = 0 then nodes ! (?n - 1) else nodes ! (i - 1)) ?n i" for i
  obtain t where t: "genroute_double_ring nodes = Some t" "\<And>i d. i < ?n \<Longrightarrow> route_next t (nodes ! i) d = row i d"
    unfolding genroute_double_ring_def Let_def
    using nodeidxs_size_positions [OF distinct_nodes_bound [OF assms]]
      fold_nodes_rows [OF _ inj_on_nth [OF assms], of _ row] sweep_writes_row
    unfolding row_def by (metis (no_types, lifting))
  moreover have "row i (nodes ! j) = Some (nodes ! hop_pos True ?n i j)" if "i < ?n" "j < ?n" "i \<noteq> j" for i j
    unfolding row_def
    using that assms sweep_row_hop [of i ?n j "nodes ! j" "\<lambda>k. [nodes ! k]" "(!) nodes" True]
    by (simp add: nth_eq_iff_index_eq eq_commute [of j] if_distrib [of "(!) nodes"])
  ultimately show ?thesis using that by simp
qed

lemma single_ring_row:
  assumes "distinct nodes"
  obtains t where "genroute_single_ring nodes = Some t"
    and "\<And>i j. i < length nodes \<Longrightarrow> j < length nodes \<Longrightarrow> i \<noteq> j \<Longrightarrow>
      route_next t (nodes ! i) (nodes ! j) = Some (nodes ! hop_pos False (length nodes) i j)"
proof -
  let ?n = "length nodes"
  define row where "row i d = (if \<exists>off\<in>{1..<?n}. d \<in> set [nodes ! ((i + off) mod ?n)]
    then Some (nodes ! ((i + 1) mod ?n)) else None)" for i d
  define step where "step = (\<lambda>i t. let idx = (i + 1) mod ?n in
    Some (snd (ring_for (\<lambda>k. [nodes ! k]) (nodes ! i) (nodes ! idx) ?n (?n - 1) idx t)))"
  have "writes_row (step i) (nodes ! i) (row i)" if "i < ?n" for i
  proof -
    have e: "1 + (?n - 1) = ?n" using that by simp
    have "row_written (nodes ! i) (row i) t
        (snd (ring_for (\<lambda>k. [nodes ! k]) (nodes ! i) (nodes ! ((i + 1) mod ?n)) ?n (?n - 1) ((i + 1) mod ?n) t))" for t
      unfolding row_written_def ring_for_next e row_def or_else_def by simp
    then show ?thesis unfolding writes_row_def step_def Let_def by blast
  qed
  then obtain t where t: "fold_nodes step [0..<?n] = Some t" "\<And>i d. i < ?n \<Longrightarrow> route_next t (nodes ! i) d = row i d"
    using fold_nodes_rows [OF _ inj_on_nth [OF assms], of step row] by metis
  have "row i (nodes ! j) = Some (nodes ! hop_pos False ?n i j)" if "i < ?n" "j < ?n" "i \<noteq> j" for i j
  proof -
    have "ring_off ?n i j \<in> {1..<?n}" using that ring_off_zero_iff [of i ?n j] ring_off_less [of i ?n j] by auto
    then have "\<exists>off\<in>{1..<?n}. nodes ! j \<in> set [nodes ! ((i + off) mod ?n)]"
      using ring_off_reach [of i ?n j] that by (metis list.set_intros(1))
    then show ?thesis by (simp add: row_def hop_pos_def)
  qed
  with t that show ?thesis
    using nodeidxs_size_positions [OF distinct_nodes_bound [OF assms]]
    by (simp add: genroute_single_ring_def step_def Let_def)
qed

definition node_dist :: "bool \<Rightarrow> BusNodeT list \<Rightarrow> BusNodeT \<Rightarrow> BusNodeT \<Rightarrow> nat" where
  "node_dist dd nodes a d = hop_dist dd (length nodes) (node_pos nodes a) (node_pos nodes d)"

definition routed_nodes :: "BusNodeT list \<Rightarrow> BusNodeT set" where
  "routed_nodes nodes = (if distinct nodes then set nodes else {})"

definition table_of :: "BusRouteTable option \<Rightarrow> BusRouteTable" where
  "table_of r = (case r of None \<Rightarrow> Mapping.empty | Some t \<Rightarrow> t)"

lemma routed_nodesE:
  assumes "a \<in> routed_nodes nodes"
  obtains i where "distinct nodes" and "i < length nodes" and "a = nodes ! i"
  using assms by (auto simp: routed_nodes_def in_set_conv_nth split: if_splits)

lemma hop_routing_by_rows:
  assumes "distinct nodes \<Longrightarrow> \<forall>i<length nodes. \<forall>j<length nodes. i \<noteq> j \<longrightarrow>
      route_next t (nodes ! i) (nodes ! j) = Some (nodes ! hop_pos dd (length nodes) i j)"
  shows "hop_routing t (routed_nodes nodes) (node_dist dd nodes)"
proof
  fix a d assume ad: "a \<in> routed_nodes nodes" "d \<in> routed_nodes nodes" "a \<noteq> d"
  let ?n = "length nodes"
  obtain i where i: "distinct nodes" "i < ?n" "a = nodes ! i" using ad(1) by (rule routed_nodesE)
  obtain j where j: "j < ?n" "d = nodes ! j" using ad(2) by (rule routed_nodesE)
  let ?b = "nodes ! hop_pos dd ?n i j"
  have "i \<noteq> j" using i j ad(3) by auto
  then have "route_next t a d = Some ?b" using assms i j by blast
  moreover have "?b \<in> routed_nodes nodes" using i hop_pos_less [of i ?n] by (simp add: routed_nodes_def)
  moreover have "node_dist dd nodes a d = Suc (node_dist dd nodes ?b d)"
    unfolding node_dist_def i(3) j(2)
    using i(1,2) j(1) hop_pos_less [of i ?n] hop_dist_closer [OF i(2) j(1) \<open>i \<noteq> j\<close>] by (simp add: node_pos_nth)
  ultimately show "\<exists>b\<in>routed_nodes nodes. route_next t a d = Some b \<and> node_dist dd nodes a d = Suc (node_dist dd nodes b d)"
    by blast
next
  fix d assume "d \<in> routed_nodes nodes"
  then show "node_dist dd nodes d d = 0"
    by (rule routed_nodesE) (simp add: node_dist_def node_pos_nth hop_dist_self)
qed

interpretation single: hop_routing "table_of (genroute_single_ring nodes)" "routed_nodes nodes" "node_dist False nodes"
  for nodes
  by (rule hop_routing_by_rows) (metis single_ring_row table_of_def option.simps(5))

interpretation double: hop_routing "table_of (genroute_double_ring nodes)" "routed_nodes nodes" "node_dist True nodes"
  for nodes
  by (rule hop_routing_by_rows) (metis double_ring_row table_of_def option.simps(5))

section \<open>Meshes\<close>

lemma mesh_pos:
  fixes x y cx cy :: nat
  assumes "x < cx" and "y < cy"
  shows "x + y * cx < cx * cy" and "(x + y * cx) mod cx = x" and "(x + y * cx) div cx = y"
proof -
  have "y * cx + cx \<le> cy * cx" using assms(2) mult_le_mono1 [of "Suc y" cy cx] by simp
  then show "x + y * cx < cx * cy" using assms(1) by (simp add: mult.commute)
  show "(x + y * cx) mod cx = x" "(x + y * cx) div cx = y" using assms(1) by simp_all
qed

lemma mesh_split: "p < cx * cy \<Longrightarrow> p mod cx < cx \<and> p div cx < cy \<and> p mod cx + p div cx * cx = (p :: nat)"
proof -
  assume p: "p < cx * cy"
  then have "0 < cx" by (cases cx) simp_all
  with p show ?thesis using less_mult_imp_div_less [of p cy cx] by (simp add: mult.commute)
qed

lemma mesh_key_inj:
  assumes "x < 2 ^ 16" "y < 2 ^ 16" "x' < 2 ^ 16" "y' < (2 ^ 16 :: nat)"
    and "(of_nat x OR push_bit 16 (of_nat y) :: u32) = of_nat x' OR push_bit 16 (of_nat y')"
  shows "x = x' \<and> y = y'"
proof -
  have u: "unat (of_nat a OR push_bit 16 (of_nat b) :: u32) = a OR push_bit 16 b" if "a < 2 ^ 16" "b < 2 ^ 16" for a b :: nat
  proof -
    have "push_bit 16 b < 2 ^ 32" using that(2) by (simp add: push_bit_eq_mult)
    then have "take_bit 32 (push_bit 16 b) = push_bit 16 b" by (rule take_bit_nat_eq_self)
    moreover have "take_bit 32 a = a" "take_bit 32 b = b" using that by (simp_all add: take_bit_nat_eq_self)
    ultimately show ?thesis by (simp add: unsigned_or_eq unsigned_push_bit_eq unsigned_of_nat)
  qed
  have e: "x OR push_bit 16 y = x' OR push_bit 16 y'" using u [of x y] u [of x' y'] assms by metis
  have z: "take_bit 16 (a OR push_bit 16 b) = a" "drop_bit 16 (a OR push_bit 16 b) = b" if "a < 2 ^ 16" for a b :: nat
  proof -
    have a: "a = take_bit 16 a" using that by (simp add: take_bit_nat_eq_self)
    have "take_bit 16 (push_bit 16 b) = 0" by (simp only: take_bit_push_bit) simp
    then show "take_bit 16 (a OR push_bit 16 b) = a" using a by (simp only: take_bit_or) simp
    have "drop_bit 16 a = 0" using that by (simp add: drop_bit_eq_div)
    moreover have "drop_bit 16 (push_bit 16 b) = b" by (simp add: drop_bit_eq_div push_bit_eq_mult)
    ultimately show "drop_bit 16 (a OR push_bit 16 b) = b" by (simp only: drop_bit_or) simp
  qed
  show ?thesis using arg_cong [OF e, of "take_bit 16"] arg_cong [OF e, of "drop_bit 16"] z assms by metis
qed

definition mesh_hop :: "bool \<Rightarrow> nat \<Rightarrow> nat \<Rightarrow> nat \<Rightarrow> nat \<Rightarrow> nat" where
  "mesh_hop dd cx cy p q =
     (if p mod cx \<noteq> q mod cx then hop_pos dd cx (p mod cx) (q mod cx) + p div cx * cx
      else p mod cx + hop_pos dd cy (p div cx) (q div cx) * cx)"

definition mesh_dist :: "bool \<Rightarrow> nat \<Rightarrow> nat \<Rightarrow> nat \<Rightarrow> nat \<Rightarrow> nat" where
  "mesh_dist dd cx cy p q = hop_dist dd cx (p mod cx) (q mod cx) + hop_dist dd cy (p div cx) (q div cx)"

lemma mesh_hop_closer:
  assumes "p < cx * cy" and "q < cx * cy" and "p \<noteq> q"
  shows "mesh_hop dd cx cy p q < cx * cy"
    and "mesh_dist dd cx cy p q = Suc (mesh_dist dd cx cy (mesh_hop dd cx cy p q) q)"
proof -
  note p = mesh_split [OF assms(1)] and q = mesh_split [OF assms(2)]
  have "mesh_hop dd cx cy p q < cx * cy \<and>
    mesh_dist dd cx cy p q = Suc (mesh_dist dd cx cy (mesh_hop dd cx cy p q) q)"
  proof (cases "p mod cx = q mod cx")
    case True
    then have ne: "p div cx \<noteq> q div cx" using p q assms(3) by metis
    let ?h = "hop_pos dd cy (p div cx) (q div cx)"
    have h: "?h < cy" using p by (simp add: hop_pos_less)
    have m: "mesh_hop dd cx cy p q = p mod cx + ?h * cx" using True by (simp add: mesh_hop_def)
    show ?thesis
      unfolding m mesh_dist_def
      using mesh_pos [of "p mod cx" cx ?h cy] h p True hop_dist_closer [of "p div cx" cy "q div cx" dd] q ne by simp
  next
    case False
    let ?h = "hop_pos dd cx (p mod cx) (q mod cx)"
    have h: "?h < cx" using p by (simp add: hop_pos_less)
    have m: "mesh_hop dd cx cy p q = ?h + p div cx * cx" using False by (simp add: mesh_hop_def)
    show ?thesis
      unfolding m mesh_dist_def
      using mesh_pos [of ?h cx "p div cx" cy] h p False hop_dist_closer [of "p mod cx" cx "q mod cx" dd] q by simp
  qed
  then show "mesh_hop dd cx cy p q < cx * cy"
    and "mesh_dist dd cx cy p q = Suc (mesh_dist dd cx cy (mesh_hop dd cx cy p q) q)" by simp_all
qed

lemma mesh_dist_bound:
  assumes "p < cx * cy" and "q < cx * cy"
  shows "mesh_dist dd cx cy p q \<le> cx * cy"
proof -
  have "mesh_dist dd cx cy p q + 2 \<le> cx + cy"
    using hop_dist_less [of "p mod cx" cx dd "q mod cx"] hop_dist_less [of "p div cx" cy dd "q div cx"]
      mesh_split [OF assms(1)] by (simp add: mesh_dist_def)
  moreover have "cx + cy \<le> cx * cy + 1"
    using mesh_split [OF assms(1)] by (cases cx; cases cy) simp_all
  ultimately show ?thesis by linarith
qed

lemma mesh_row:
  assumes "distinct nodes" and "length nodes = cx * cy" and "cx \<le> 2 ^ 16" and "cy \<le> 2 ^ 16"
  obtains t where "genroute_mesh2d_xy nodes cx cy dd = Some t"
    and "\<And>p q. p < cx * cy \<Longrightarrow> q < cx * cy \<Longrightarrow> p \<noteq> q \<Longrightarrow>
      route_next t (nodes ! p) (nodes ! q) = Some (nodes ! mesh_hop dd cx cy p q)"
proof -
  let ?xn = "\<lambda>p x. nodes ! (x + p div cx * cx)" and ?yn = "\<lambda>p y. nodes ! (p mod cx + y * cx)"
  define rx where "rx p = sweep_row (\<lambda>xi. map (\<lambda>y2. nodes ! (xi + y2 * cx)) [0..<cy])
    (?xn p ((p mod cx + 1) mod cx))
    (if dd then ?xn p (if p mod cx = 0 then cx - 1 else p mod cx - 1) else ?xn p ((p mod cx + 1) mod cx)) cx (p mod cx)" for p
  define ry where "ry p = sweep_row (\<lambda>yi. [nodes ! (p mod cx + yi * cx)])
    (?yn p ((p div cx + 1) mod cy))
    (if dd then ?yn p (if p div cx = 0 then cy - 1 else p div cx - 1) else ?yn p ((p div cx + 1) mod cy)) cy (p div cx)" for p
  have node: "nodes ! (x + y * cx) = nodes ! q \<longleftrightarrow> x = q mod cx \<and> y = q div cx"
    if "x < cx" "y < cy" "q < cx * cy" for x y q
    using mesh_pos [OF that(1,2)] mesh_split [OF that(3)] assms(1,2) that(3)
    by (metis nth_eq_iff_index_eq)
  have wr: "writes_row (mesh_node nodes cx cy dd p) (nodes ! p) (\<lambda>d. or_else (ry p d) (rx p d))" if "p < cx * cy" for p
  proof -
    note p = mesh_split [OF that]
    show ?thesis
      unfolding mesh_node_def Let_def rx_def ry_def if_distrib [of "\<lambda>x. nodes ! (x + p div cx * cx)"]
        if_distrib [of "\<lambda>y. nodes ! (p mod cx + y * cx)"]
      using p by (intro writes_row_seq) (simp_all add: sweep_writes_row)
  qed
  have inj: "inj_on ((!) nodes) {..<cx * cy}" using inj_on_nth [OF assms(1)] assms(2) by simp
  have "\<exists>t. fold_nodes (mesh_node nodes cx cy dd) [0..<cx * cy] = Some t \<and>
    (\<forall>p<cx * cy. \<forall>d. route_next t (nodes ! p) d = or_else (ry p d) (rx p d))"
    by (rule fold_nodes_rows [OF wr inj]) auto
  then obtain t where t: "fold_nodes (mesh_node nodes cx cy dd) [0..<cx * cy] = Some t"
    "\<And>p d. p < cx * cy \<Longrightarrow> route_next t (nodes ! p) d = or_else (ry p d) (rx p d)" by blast
  have "or_else (ry p (nodes ! q)) (rx p (nodes ! q)) = Some (nodes ! mesh_hop dd cx cy p q)"
    if "p < cx * cy" "q < cx * cy" "p \<noteq> q" for p q
  proof -
    note p = mesh_split [OF that(1)] and q = mesh_split [OF that(2)]
    have x: "rx p (nodes ! q) = (if p mod cx = q mod cx then None else Some (?xn p (hop_pos dd cx (p mod cx) (q mod cx))))"
      unfolding rx_def using p q node [OF _ _ that(2)]
      by (intro sweep_row_hop [where f = "?xn p"]) (auto simp: image_iff eq_commute [of "nodes ! q"])
    show ?thesis
    proof (cases "p mod cx = q mod cx")
      case True
      then have "p div cx \<noteq> q div cx" using p q that(3) by metis
      moreover have "ry p (nodes ! q) = (if p div cx = q div cx then None else Some (?yn p (hop_pos dd cy (p div cx) (q div cx))))"
        unfolding ry_def using p q True node [OF _ _ that(2)]
        by (intro sweep_row_hop [where f = "?yn p"]) (auto simp: eq_commute [of "nodes ! q"])
      ultimately show ?thesis using True by (simp add: mesh_hop_def)
    next
      case False
      have "ry p (nodes ! q) = None"
        unfolding ry_def using p q False node [OF _ _ that(2)]
        by (intro sweep_row_none) (auto simp: eq_commute [of "nodes ! q"])
      with False x show ?thesis by (simp add: mesh_hop_def)
    qed
  qed
  moreover have "nodeidxs_size (map (\<lambda>p. of_nat (p mod cx) OR push_bit 16 (of_nat (p div cx))) [0..<cx * cy]) = cx * cy"
  proof -
    have "inj_on (\<lambda>p. of_nat (p mod cx) OR push_bit 16 (of_nat (p div cx)) :: u32) {0..<cx * cy}"
    proof (rule inj_onI)
      fix p q assume pq: "p \<in> {0..<cx * cy}" "q \<in> {0..<cx * cy}"
        and e: "of_nat (p mod cx) OR push_bit 16 (of_nat (p div cx)) = (of_nat (q mod cx) OR push_bit 16 (of_nat (q div cx)) :: u32)"
      then have s: "p < cx * cy" "q < cx * cy" by simp_all
      show "p = q" using mesh_key_inj [OF _ _ _ _ e] mesh_split [OF s(1)] mesh_split [OF s(2)] assms(3,4)
        by (metis less_le_trans)
    qed
    then show ?thesis by (simp add: nodeidxs_size_def length_remdups_card_conv card_image)
  qed
  ultimately show ?thesis using that t assms(2) by (simp add: genroute_mesh2d_xy_def)
qed

definition mesh_nodes :: "BusNodeT list \<Rightarrow> nat \<Rightarrow> nat \<Rightarrow> BusNodeT set" where
  "mesh_nodes nodes cx cy =
     (if distinct nodes \<and> length nodes = cx * cy \<and> cx \<le> 2 ^ 16 \<and> cy \<le> 2 ^ 16 then set nodes else {})"

definition mesh_node_dist :: "bool \<Rightarrow> BusNodeT list \<Rightarrow> nat \<Rightarrow> nat \<Rightarrow> BusNodeT \<Rightarrow> BusNodeT \<Rightarrow> nat" where
  "mesh_node_dist dd nodes cx cy a d = mesh_dist dd cx cy (node_pos nodes a) (node_pos nodes d)"

lemma mesh_nodesE:
  assumes "a \<in> mesh_nodes nodes cx cy"
  obtains p where "distinct nodes" "length nodes = cx * cy" "cx \<le> 2 ^ 16" "cy \<le> 2 ^ 16"
    and "p < cx * cy" "a = nodes ! p"
proof -
  have c: "distinct nodes" "length nodes = cx * cy" "cx \<le> 2 ^ 16" "cy \<le> 2 ^ 16" "a \<in> set nodes"
    using assms unfolding mesh_nodes_def by (metis empty_iff)+
  then obtain p where "p < cx * cy" "a = nodes ! p" by (metis in_set_conv_nth)
  with c that show ?thesis by blast
qed

interpretation mesh: hop_routing "table_of (genroute_mesh2d_xy nodes cx cy dd)" "mesh_nodes nodes cx cy"
  "mesh_node_dist dd nodes cx cy" for nodes cx cy dd
proof
  fix a d assume a: "a \<in> mesh_nodes nodes cx cy" and d: "d \<in> mesh_nodes nodes cx cy" and ne: "a \<noteq> d"
  obtain p where c: "distinct nodes" "length nodes = cx * cy" "cx \<le> 2 ^ 16" "cy \<le> 2 ^ 16"
    and p: "p < cx * cy" "a = nodes ! p" using a by (rule mesh_nodesE)
  obtain q where q: "q < cx * cy" "d = nodes ! q" using d by (rule mesh_nodesE)
  have pq: "p \<noteq> q" using p q ne by auto
  let ?h = "mesh_hop dd cx cy p q"
  note h = mesh_hop_closer [OF p(1) q(1) pq, of dd]
  have "route_next (table_of (genroute_mesh2d_xy nodes cx cy dd)) a d = Some (nodes ! ?h)"
    using mesh_row [OF c, of dd] p q pq by (metis table_of_def option.simps(5))
  moreover have "nodes ! ?h \<in> mesh_nodes nodes cx cy" using c h(1) by (simp add: mesh_nodes_def)
  moreover have "mesh_node_dist dd nodes cx cy a d = Suc (mesh_node_dist dd nodes cx cy (nodes ! ?h) d)"
    using c h p q by (simp add: mesh_node_dist_def node_pos_nth)
  ultimately show "\<exists>b\<in>mesh_nodes nodes cx cy. route_next (table_of (genroute_mesh2d_xy nodes cx cy dd)) a d = Some b \<and>
      mesh_node_dist dd nodes cx cy a d = Suc (mesh_node_dist dd nodes cx cy b d)" by blast
next
  fix d assume "d \<in> mesh_nodes nodes cx cy"
  then show "mesh_node_dist dd nodes cx cy d d = 0"
    by (rule mesh_nodesE)
      (simp add: mesh_node_dist_def node_pos_nth mesh_dist_def hop_dist_self mesh_split)
qed

section \<open>Properties\<close>

text \<open>
  C22. Ring routes are valid and as short as the ring allows: for pairwise different node ids the
  two generators succeed, the tables pass the reachability check of the bus, and a packet from
  position i reaches position j within k hops exactly when k is at least the clockwise offset
  (one-way ring), or the shorter way round (two-way ring).
\<close>

theorem ring_routes_shortest:
  assumes "distinct nodes"
  shows "\<exists>t1 t2. genroute_single_ring nodes = Some t1 \<and> genroute_double_ring nodes = Some t2 \<and>
    assert_route_table_valid nodes t1 \<and> assert_route_table_valid nodes t2 \<and>
    (\<forall>i<length nodes. \<forall>j<length nodes. \<forall>k.
      (let off = (j + (length nodes - i)) mod length nodes in
        (route_walk t1 (nodes ! j) k (nodes ! i) = nodes ! j \<longleftrightarrow> off \<le> k) \<and>
        (route_walk t2 (nodes ! j) k (nodes ! i) = nodes ! j \<longleftrightarrow> min off (length nodes - off) \<le> k)))"
proof -
  obtain t1 where t1: "genroute_single_ring nodes = Some t1" using single_ring_row [OF assms] by metis
  obtain t2 where t2: "genroute_double_ring nodes = Some t2" using double_ring_row [OF assms] by metis
  have N: "routed_nodes nodes = set nodes" using assms by (simp add: routed_nodes_def)
  have le: "node_dist dd nodes a d \<le> length nodes" if "a \<in> set nodes" for dd a d
    using hop_dist_less [of "node_pos nodes a" "length nodes" dd] that assms
    by (metis node_dist_def node_pos_nth in_set_conv_nth less_imp_le)
  have v: "assert_route_table_valid nodes t1" "assert_route_table_valid nodes t2"
    using single.routes_valid [of nodes nodes] double.routes_valid [of nodes nodes] le
    by (simp_all add: N t1 t2 table_of_def)
  have w: "(let off = (j + (length nodes - i)) mod length nodes in
        (route_walk t1 (nodes ! j) k (nodes ! i) = nodes ! j \<longleftrightarrow> off \<le> k) \<and>
        (route_walk t2 (nodes ! j) k (nodes ! i) = nodes ! j \<longleftrightarrow> min off (length nodes - off) \<le> k))"
    if "i < length nodes" "j < length nodes" for i j k
    using single.walk_reaches_iff [of "nodes ! i" nodes "nodes ! j" k]
      double.walk_reaches_iff [of "nodes ! i" nodes "nodes ! j" k] that assms
    by (simp add: N t1 t2 table_of_def node_dist_def node_pos_nth hop_dist_def ring_dist_def ring_off_def Let_def)
  show ?thesis using t1 t2 v w by blast
qed

lemma ring_routes_shortest_witness:
  "\<exists>t1 t2. genroute_single_ring [7, 3, 9, 4, 1] = Some t1 \<and> genroute_double_ring [7, 3, 9, 4, 1] = Some t2 \<and>
    assert_route_table_valid [7, 3, 9, 4, 1] t1 \<and> assert_route_table_valid [7, 3, 9, 4, 1] t2"
  using ring_routes_shortest [of "[7, 3, 9, 4, 1]"] by auto

text \<open>
  C21. XY routing on a mesh is valid: for a full mesh of pairwise different nodes, up to 65536 in
  each direction, the generator succeeds, the table passes the reachability check, and a packet
  needs exactly the sum of the ring distances of the two directions (of the forward offsets when
  the links are used in one direction only).
\<close>

theorem mesh_routes_valid:
  assumes "distinct nodes" and "length nodes = cx * cy" and "cx \<le> 2 ^ 16" and "cy \<le> 2 ^ 16"
  shows "\<exists>t. genroute_mesh2d_xy nodes cx cy dd = Some t \<and> assert_route_table_valid nodes t \<and>
    (\<forall>p<cx * cy. \<forall>q<cx * cy. \<forall>k.
      (let offx = (q mod cx + (cx - p mod cx)) mod cx; offy = (q div cx + (cy - p div cx)) mod cy in
        route_walk t (nodes ! q) k (nodes ! p) = nodes ! q \<longleftrightarrow>
          (if dd then min offx (cx - offx) + min offy (cy - offy) else offx + offy) \<le> k))"
proof -
  obtain t where t: "genroute_mesh2d_xy nodes cx cy dd = Some t" using mesh_row [OF assms] by metis
  have N: "mesh_nodes nodes cx cy = set nodes" using assms by (simp add: mesh_nodes_def)
  have le: "mesh_node_dist dd nodes cx cy a d \<le> length nodes" if "a \<in> set nodes" "d \<in> set nodes" for a d
    using that assms(1,2) mesh_dist_bound by (metis mesh_node_dist_def node_pos_nth in_set_conv_nth)
  have v: "assert_route_table_valid nodes t"
    using mesh.routes_valid [of nodes nodes cx cy dd] le by (simp add: N t table_of_def)
  have w: "(let offx = (q mod cx + (cx - p mod cx)) mod cx; offy = (q div cx + (cy - p div cx)) mod cy in
        route_walk t (nodes ! q) k (nodes ! p) = nodes ! q \<longleftrightarrow>
          (if dd then min offx (cx - offx) + min offy (cy - offy) else offx + offy) \<le> k)"
    if "p < cx * cy" "q < cx * cy" for p q k
    using mesh.walk_reaches_iff [of "nodes ! p" nodes cx cy "nodes ! q" dd k] that assms(1,2)
    by (simp add: N t table_of_def mesh_node_dist_def node_pos_nth mesh_dist_def hop_dist_def ring_dist_def
        ring_off_def Let_def)
  show ?thesis using t v w by blast
qed

lemma mesh_routes_valid_witness:
  "\<exists>t. genroute_mesh2d_xy [0, 1, 2, 10, 11, 12] 3 2 True = Some t \<and>
    assert_route_table_valid [0, 1, 2, 10, 11, 12] t"
  using mesh_routes_valid [of "[0, 1, 2, 10, 11, 12]" 3 2 True] by auto

text \<open>
  The node id collision check of the ring generators never fires: the map it counts is keyed
  by the position instead of the node id, so every list of at most 2^32 nodes passes. With a node
  id that occurs twice the generated table is wrong: it fails the reachability check.
\<close>

theorem collision_check_vacuous:
  "(\<forall>nodes. length nodes \<le> 2 ^ 32 \<longrightarrow> genroute_single_ring nodes \<noteq> None) \<and>
   \<not> assert_route_table_valid [1, 2, 1, 3] (table_of (genroute_single_ring [1, 2, 1, 3]))"
proof
  have f: "fold (\<lambda>i r. case r of None \<Rightarrow> None | Some t \<Rightarrow> Some (f i t)) is (Some t0) = Some (fold f is t0)"
    for f :: "nat \<Rightarrow> BusRouteTable \<Rightarrow> BusRouteTable" and "is" t0
    by (induction "is" arbitrary: t0) simp_all
  show "\<forall>nodes. length nodes \<le> 2 ^ 32 \<longrightarrow> genroute_single_ring nodes \<noteq> None"
  proof (intro allI impI)
    fix nodes :: "BusNodeT list"
    assume "length nodes \<le> 2 ^ 32"
    then have "\<not> length nodes \<noteq> nodeidxs_size (map of_nat [0..<length nodes])"
      using nodeidxs_size_positions by simp
    then show "genroute_single_ring nodes \<noteq> None"
      by (simp only: genroute_single_ring_def fold_nodes_def Let_def f) simp
  qed
  show "\<not> assert_route_table_valid [1, 2, 1, 3] (table_of (genroute_single_ring [1, 2, 1, 3]))"
    by code_simp
qed

lemma collision_check_vacuous_witness: "genroute_single_ring [1, 2, 1, 3] \<noteq> None"
  using collision_check_vacuous by simp

end
