(* ===== verification/SymMulChaBus.thy ===== *)
theory SymMulChaBus
  imports SimCommon RouteTable "HOL-Library.Product_Lexorder" "HOL-Library.AList" "HOL-Library.Multiset"
begin

text \<open>
  The symmetric multi-channel bus (\<^verbatim>\<open>bus/symmulcha.h\<close>, \<^verbatim>\<open>bus/symmulcha.cpp\<close>): a message
  is cut into packets of the channel's width, the packets travel over the edges of the route table
  one hop per tick, the target node collects them in a buffer ordered by packet index, and a
  complete message is handed to the receiving port. A packet has one owner at any time, so the
  \<^verbatim>\<open>MsgPack*\<close> of the code is the packet itself; pointers to edges and ports are edge positions
  and port ids. A hash map that the code iterates over is an association list in iteration order.
\<close>

section \<open>State\<close>

record MsgPack =
  pk_src :: u32
  pk_dst :: u32
  pk_tgt :: u32
  pk_cha :: u32
  pk_xmtid :: u32
  pk_len :: u32
  pk_idx :: u16
  pk_cnt :: u16
  pk_data :: "u8 list"
  pk_start :: u64

type_synonym PipelinedPack = "MsgPack \<times> nat"

record EdgeInChannel =
  ed_input :: "MsgPack option list"
  ed_output :: "MsgPack option list"
  ed_from :: u32
  ed_to :: u32
  ed_busy :: u64

record PortStruct =
  recv_buf :: "MsgPack list list"
  send_buf :: "MsgPack list list"

record NodeStruct =
  myid :: u32
  txs :: "(u32 \<times> nat) list"
  rxs :: "nat list"
  rx_ptr :: nat
  pipeline :: "PipelinedPack list"
  order_buf :: "(u32 \<times> MsgPack list) list"
  node_ports :: "u32 list"
  sd_ptr :: nat
  node_busy :: u64
  passed_packs :: u64

record SymBus =
  cha_cnt :: nat
  bus_width :: u32
  route_latency :: nat
  xmtid_alloc :: u32
  cha_widths :: "u32 list"
  port2node :: "(u32 \<times> u32) list"
  bus_route :: BusRouteTable
  bus_nodes :: "(u32 \<times> NodeStruct) list"
  bus_ports :: "(u32 \<times> PortStruct) list"
  bus_edges :: "EdgeInChannel list"
  tx_pack_num :: u64
  tx_pack_cycle_sum :: u64
  transmit_cnt :: "(u64 \<times> u64) list"

text \<open>\<^verbatim>\<open>simroot_assert\<close> ends the run with a message; a null pointer or an index out of range crashes it.\<close>

datatype bus_error = BusAssert | BusCrash

text \<open>\<^verbatim>\<open>operator[]\<close> of a hash map: a missing key reads as 0.\<close>

definition map_or_zero :: "('k \<times> u32) list \<Rightarrow> 'k \<Rightarrow> u32" where
  "map_or_zero m k = (case map_of m k of None \<Rightarrow> 0 | Some v \<Rightarrow> v)"

section \<open>Construction\<close>

text \<open>
  The two \<^verbatim>\<open>std::set\<close>s of the constructor iterate in ascending order. An edge whose end has no
  port reaches \<^verbatim>\<open>nodes[...]\<close> with a new key: the node it creates keeps \<^verbatim>\<open>myid\<close> 0.
\<close>

definition empty_node :: "u32 \<Rightarrow> NodeStruct" where
  "empty_node n = \<lparr> myid = n, txs = [], rxs = [], rx_ptr = 0, pipeline = [], order_buf = [],
     node_ports = [], sd_ptr = 0, node_busy = 0, passed_packs = 0 \<rparr>"

definition add_default :: "'k \<Rightarrow> 'v \<Rightarrow> ('k \<times> 'v) list \<Rightarrow> ('k \<times> 'v) list" where
  "add_default k v m = (case map_of m k of None \<Rightarrow> m @ [(k, v)] | Some _ \<Rightarrow> m)"

definition map_at :: "'k \<Rightarrow> ('v \<Rightarrow> 'v) \<Rightarrow> ('k \<times> 'v) list \<Rightarrow> ('k \<times> 'v) list" where
  "map_at k f m = map (\<lambda>(k', v). if k' = k then (k', f v) else (k', v)) m"

definition all_edges :: "BusRouteTable \<Rightarrow> (u32 \<times> u32) list" where
  "all_edges rt = sort (remdups (concat (map (\<lambda>src.
     (case Mapping.lookup rt src of None \<Rightarrow> [] | Some row \<Rightarrow>
        concat (map (\<lambda>dst. case Mapping.lookup row dst of None \<Rightarrow> [] | Some conn \<Rightarrow> [(src, conn), (conn, src)])
          (Mapping.ordered_keys row)))) (Mapping.ordered_keys rt))))"

definition connect_edge :: "nat \<Rightarrow> (u32 \<times> u32) \<Rightarrow> (u32 \<times> NodeStruct) list \<Rightarrow> (u32 \<times> NodeStruct) list" where
  "connect_edge i e ns =
     map_at (snd e) (\<lambda>n. n\<lparr>rxs := rxs n @ [i]\<rparr>) (add_default (snd e) (empty_node 0)
       (map_at (fst e) (\<lambda>n. n\<lparr>txs := add_default (snd e) i (txs n)\<rparr>) (add_default (fst e) (empty_node 0) ns)))"

definition bus_new :: "u32 \<Rightarrow> nat \<Rightarrow> u32 list \<Rightarrow> u32 list \<Rightarrow> u32 list \<Rightarrow> BusRouteTable \<Rightarrow> bus_error + SymBus" where
  "bus_new wid latency port_ids port_to_node widths rt =
     (let nodeid = sort (remdups port_to_node); es = all_edges rt; cc = length widths in
      if length port_ids \<noteq> length port_to_node \<or> \<not> distinct port_ids then Inl BusAssert
      else if \<not> assert_route_table_valid nodeid rt then Inl BusAssert
      else if odd (length es) then Inl BusAssert
      else (let p2n = zip port_ids port_to_node;
                ns = map (\<lambda>n. (n, (empty_node n)\<lparr>node_ports := map fst (filter (\<lambda>(p, n'). n' = n) p2n)\<rparr>)) nodeid
            in Inr \<lparr> cha_cnt = cc, bus_width = wid, route_latency = latency, xmtid_alloc = 0, cha_widths = widths,
                 port2node = p2n, bus_route = rt,
                 bus_nodes = fold (\<lambda>(i, e). connect_edge i e) (zip [0..<length es] es) ns,
                 bus_ports = map (\<lambda>p. (p, \<lparr>recv_buf = replicate cc [], send_buf = replicate cc []\<rparr>)) port_ids,
                 bus_edges = map (\<lambda>(a, b). \<lparr> ed_input = replicate cc None, ed_output = replicate cc None,
                    ed_from = a, ed_to = b, ed_busy = 0 \<rparr>) es,
                 tx_pack_num = 0, tx_pack_cycle_sum = 0, transmit_cnt = [] \<rparr>))"

section \<open>Sending and receiving\<close>

definition can_send_all :: "SymBus \<Rightarrow> u32 \<Rightarrow> bus_error + bool list" where
  "can_send_all b port =
     (case map_of (bus_ports b) port of
        None \<Rightarrow> Inl BusAssert
      | Some p \<Rightarrow> Inr (map (\<lambda>c. send_buf p ! c = []) [0..<cha_cnt b]))"

definition can_send :: "SymBus \<Rightarrow> u32 \<Rightarrow> u32 \<Rightarrow> bus_error + bool" where
  "can_send b port channel =
     (if \<not> unat channel < length (cha_widths b) then Inl BusAssert
      else (case map_of (bus_ports b) port of
        None \<Rightarrow> Inl BusAssert
      | Some p \<Rightarrow> Inr (send_buf p ! unat channel = [])))"

text \<open>\<^verbatim>\<open>data.assign(cwid, 0)\<close> and the \<^verbatim>\<open>memcpy\<close> of the next at most cwid bytes over it.\<close>

definition pack_data :: "u32 \<Rightarrow> u8 list \<Rightarrow> u32 \<Rightarrow> u8 list" where
  "pack_data cwid data pos =
     (let chunk = take (min (unat cwid) (length data - unat pos)) (drop (unat pos) data)
      in chunk @ replicate (unat cwid - length chunk) 0)"

definition send_packs :: "u32 \<Rightarrow> u32 \<Rightarrow> u32 \<Rightarrow> u32 \<Rightarrow> u32 \<Rightarrow> u32 \<Rightarrow> u8 list \<Rightarrow> u64 \<Rightarrow> MsgPack list" where
  "send_packs port dst_port tgt channel xmt cwid data tick =
     (let len = ucast (ALIGN (of_nat (length data) :: u64) (ucast cwid)) :: u32; cnt = len div cwid in
      map (\<lambda>i. \<lparr> pk_src = port, pk_dst = dst_port, pk_tgt = tgt, pk_cha = channel, pk_xmtid = xmt,
            pk_len = of_nat (length data), pk_idx = of_nat i, pk_cnt = ucast cnt,
            pk_data = pack_data cwid data (of_nat i * cwid), pk_start = tick \<rparr>)
        [0..<unat cnt])"

definition bus_send :: "u64 \<Rightarrow> SymBus \<Rightarrow> u32 \<Rightarrow> u32 \<Rightarrow> u32 \<Rightarrow> u8 list \<Rightarrow> bus_error + (bool \<times> SymBus)" where
  "bus_send tick b port dst_port channel data =
     (if \<not> unat channel < length (cha_widths b) then Inl BusAssert
      else (case map_of (bus_ports b) port of
        None \<Rightarrow> Inl BusAssert
      | Some p \<Rightarrow>
          if send_buf p ! unat channel \<noteq> [] then Inr (False, b)
          else if cha_widths b ! unat channel = 0 then Inl BusCrash
          else (let packs = send_packs port dst_port (map_or_zero (port2node b) dst_port) channel
                       (xmtid_alloc b) (cha_widths b ! unat channel) data tick;
                    p' = p\<lparr>send_buf := (send_buf p)[unat channel := packs]\<rparr>
                in Inr (True, b\<lparr>xmtid_alloc := xmtid_alloc b + 1,
                     port2node := (if packs = [] then port2node b else add_default dst_port 0 (port2node b)),
                     bus_ports := AList.update port p' (bus_ports b)\<rparr>))))"

definition recv_ready :: "MsgPack list \<Rightarrow> bool" where
  "recv_ready rbuf = (case rbuf of [] \<Rightarrow> False | h # _ \<Rightarrow> unat (pk_cnt h) \<le> length rbuf)"

definition can_recv_all :: "SymBus \<Rightarrow> u32 \<Rightarrow> bus_error + bool list" where
  "can_recv_all b port =
     (case map_of (bus_ports b) port of
        None \<Rightarrow> Inl BusAssert
      | Some p \<Rightarrow> Inr (map (\<lambda>c. recv_ready (recv_buf p ! c)) [0..<cha_cnt b]))"

definition can_recv :: "SymBus \<Rightarrow> u32 \<Rightarrow> u32 \<Rightarrow> bus_error + bool" where
  "can_recv b port channel =
     (if \<not> unat channel < length (cha_widths b) then Inl BusAssert
      else (case map_of (bus_ports b) port of
        None \<Rightarrow> Inl BusAssert
      | Some p \<Rightarrow> Inr (recv_ready (recv_buf p ! unat channel))))"

definition vec_resize :: "nat \<Rightarrow> u8 list \<Rightarrow> u8 list" where
  "vec_resize n buf = take n buf @ replicate (n - length buf) 0"

definition copy_at :: "nat \<Rightarrow> u8 list \<Rightarrow> u8 list \<Rightarrow> u8 list option" where
  "copy_at pos xs buf =
     (if pos + length xs \<le> length buf then Some (take pos buf @ xs @ drop (pos + length xs) buf) else None)"

text \<open>The receive loop takes one packet per round from the front of the buffer.\<close>

fun recv_loop :: "nat \<Rightarrow> nat \<Rightarrow> u32 \<Rightarrow> u32 \<Rightarrow> u8 list \<Rightarrow> MsgPack list \<Rightarrow> bus_error + (u8 list \<times> MsgPack list \<times> MsgPack list)" where
  "recv_loop i 0 cwid pos buf rbuf = Inr (buf, [], rbuf)"
| "recv_loop i (Suc k) cwid pos buf [] = Inl BusCrash"
| "recv_loop i (Suc k) cwid pos buf (p # rbuf) =
     (if i \<noteq> unat (pk_idx p) then Inl BusAssert
      else (case copy_at (unat pos) (take (unat cwid) (pk_data p)) buf of
        None \<Rightarrow> Inl BusCrash
      | Some buf' \<Rightarrow>
          (case recv_loop (Suc i) k cwid (pos + cwid) buf' rbuf of
             Inl e \<Rightarrow> Inl e
           | Inr (buf'', taken, rest) \<Rightarrow> Inr (buf'', p # taken, rest))))"

text \<open>The statistics of a received packet: number, latency sum and the count per port pair.\<close>

definition pack_key :: "MsgPack \<Rightarrow> u64" where
  "pack_key p = push_bit 32 (ucast (pk_src p)) OR ucast (pk_dst p)"

definition count_pack :: "u64 \<Rightarrow> MsgPack \<Rightarrow> SymBus \<Rightarrow> SymBus" where
  "count_pack tick p b =
     b\<lparr>tx_pack_num := tx_pack_num b + 1,
       tx_pack_cycle_sum := tx_pack_cycle_sum b + (tick - pk_start p),
       transmit_cnt := (case map_of (transmit_cnt b) (pack_key p) of
          None \<Rightarrow> AList.update (pack_key p) 1 (transmit_cnt b)
        | Some n \<Rightarrow> AList.update (pack_key p) (n + 1) (transmit_cnt b))\<rparr>"

definition bus_recv :: "u64 \<Rightarrow> SymBus \<Rightarrow> u32 \<Rightarrow> u32 \<Rightarrow> u8 list \<Rightarrow> bus_error + (bool \<times> u8 list \<times> SymBus)" where
  "bus_recv tick b port channel buf =
     (if \<not> unat channel < length (cha_widths b) then Inl BusAssert
      else (case map_of (bus_ports b) port of
        None \<Rightarrow> Inl BusAssert
      | Some p \<Rightarrow>
          (case recv_buf p ! unat channel of
             [] \<Rightarrow> Inr (False, buf, b)
           | h # t \<Rightarrow>
               if length (h # t) < unat (pk_cnt h) then Inr (False, buf, b)
               else (let cwid = cha_widths b ! unat channel in
                 if cwid = 0 then Inl BusCrash
                 else (case recv_loop 0 (unat (pk_cnt h)) cwid 0
                         (vec_resize (unat (ALIGN (pk_len h) cwid)) buf) (h # t) of
                    Inl e \<Rightarrow> Inl e
                  | Inr (buf', taken, rest) \<Rightarrow>
                      (let p' = p\<lparr>recv_buf := (recv_buf p)[unat channel := rest]\<rparr>
                       in Inr (True, vec_resize (unat (pk_len h)) buf',
                            (fold (count_pack tick) taken b)\<lparr>bus_ports := AList.update port p' (bus_ports b)\<rparr>)))))))"

section \<open>One tick\<close>

text \<open>The first occupied slot of an edge's output, the first non-empty send buffer of a port.\<close>

fun take_slot :: "'a option list \<Rightarrow> ('a \<times> 'a option list) option" where
  "take_slot [] = None"
| "take_slot (Some p # xs) = Some (p, None # xs)"
| "take_slot (None # xs) = (case take_slot xs of None \<Rightarrow> None | Some (p, ys) \<Rightarrow> Some (p, None # ys))"

fun take_front :: "'a list list \<Rightarrow> ('a \<times> 'a list list) option" where
  "take_front [] = None"
| "take_front ((p # l) # ls) = Some (p, l # ls)"
| "take_front ([] # ls) = (case take_front ls of None \<Rightarrow> None | Some (p, ls') \<Rightarrow> Some (p, [] # ls'))"

fun scan_rx :: "nat \<Rightarrow> NodeStruct \<Rightarrow> EdgeInChannel list \<Rightarrow> MsgPack option \<times> NodeStruct \<times> EdgeInChannel list" where
  "scan_rx 0 n es = (None, n, es)"
| "scan_rx (Suc k) n es =
     (let i = rxs n ! rx_ptr n; e = es ! i in
      case take_slot (ed_output e) of
        Some (p, out) \<Rightarrow> (Some p, n, es[i := e\<lparr>ed_output := out\<rparr>])
      | None \<Rightarrow> scan_rx k (n\<lparr>rx_ptr := (rx_ptr n + 1) mod length (rxs n)\<rparr>) es)"

fun scan_send :: "nat \<Rightarrow> NodeStruct \<Rightarrow> (u32 \<times> PortStruct) list
    \<Rightarrow> bus_error + (MsgPack option \<times> NodeStruct \<times> (u32 \<times> PortStruct) list)" where
  "scan_send 0 n ps = Inr (None, n, ps)"
| "scan_send (Suc k) n ps =
     (let pid = node_ports n ! sd_ptr n in
      case map_of ps pid of
        None \<Rightarrow> Inl BusCrash
      | Some p \<Rightarrow>
          (case take_front (send_buf p) of
             Some (m, bufs) \<Rightarrow> Inr (Some m, n, AList.update pid (p\<lparr>send_buf := bufs\<rparr>) ps)
           | None \<Rightarrow> scan_send k
               (n\<lparr>sd_ptr := (if sd_ptr n + 1 = length (node_ports n) then 0 else sd_ptr n + 1)\<rparr>) ps))"

text \<open>The order buffer of a message is kept sorted by packet index.\<close>

fun order_insert :: "MsgPack \<Rightarrow> MsgPack list \<Rightarrow> MsgPack list" where
  "order_insert p [] = [p]"
| "order_insert p (q # l) = (if pk_idx q < pk_idx p then q # order_insert p l else p # q # l)"

definition push_recv :: "NodeStruct \<Rightarrow> u32 \<Rightarrow> u32 \<Rightarrow> MsgPack list \<Rightarrow> (u32 \<times> PortStruct) list
    \<Rightarrow> bus_error + (u32 \<times> PortStruct) list" where
  "push_recv n dst cha ms ps =
     (if dst \<in> set (node_ports n)
      then (case map_of ps dst of
          None \<Rightarrow> Inl BusCrash
        | Some p \<Rightarrow>
            if unat cha < length (recv_buf p)
            then Inr (AList.update dst (p\<lparr>recv_buf := (recv_buf p)[unat cha := recv_buf p ! unat cha @ ms]\<rparr>) ps)
            else Inl BusCrash)
      else Inl BusCrash)"

definition node_deliver :: "MsgPack \<Rightarrow> NodeStruct \<Rightarrow> (u32 \<times> PortStruct) list
    \<Rightarrow> bus_error + (NodeStruct \<times> (u32 \<times> PortStruct) list)" where
  "node_deliver m n ps =
     (let n' = (if unat (pk_cnt m) = unat (pk_idx m) + 1 then n\<lparr>passed_packs := passed_packs n + 1\<rparr> else n) in
      if pk_cnt m \<le> 1
      then map_sum id (\<lambda>ps'. (n', ps')) (push_recv n (pk_dst m) (pk_cha m) [m] ps)
      else (let l = order_insert m (case map_of (order_buf n) (pk_xmtid m) of None \<Rightarrow> [] | Some l \<Rightarrow> l) in
        if length l = unat (pk_cnt m)
        then map_sum id (\<lambda>ps'. (n'\<lparr>order_buf := AList.delete (pk_xmtid m) (order_buf n)\<rparr>, ps'))
               (push_recv n (pk_dst m) (pk_cha m) l ps)
        else Inr (n'\<lparr>order_buf := AList.update (pk_xmtid m) l (order_buf n)\<rparr>, ps)))"

definition node_accept :: "nat \<Rightarrow> MsgPack \<Rightarrow> NodeStruct \<Rightarrow> (u32 \<times> PortStruct) list
    \<Rightarrow> bus_error + (NodeStruct \<times> (u32 \<times> PortStruct) list)" where
  "node_accept latency m n ps =
     (if pk_tgt m = myid n then node_deliver m n ps
      else Inr (n\<lparr>pipeline := pipeline n @ [(m, latency)]\<rparr>, ps))"

text \<open>
  The pipeline loop. A packet with more than one cycle left is decremented and \<^verbatim>\<open>continue\<close>
  starts the next round of the \<^verbatim>\<open>while\<close> at the same packet.
\<close>

function node_forward :: "BusRouteTable \<Rightarrow> NodeStruct \<Rightarrow> PipelinedPack list \<Rightarrow> EdgeInChannel list
    \<Rightarrow> bus_error + (PipelinedPack list \<times> EdgeInChannel list)" where
  "node_forward rt n [] es = Inr ([], es)"
| "node_forward rt n ((m, c) # pl) es =
     (if 1 < c then node_forward rt n ((m, c - 1) # pl) es
      else (let nxt = (case route_next rt (myid n) (pk_tgt m) of None \<Rightarrow> 0 | Some x \<Rightarrow> x) in
        case map_of (txs n) nxt of
          None \<Rightarrow> Inl BusCrash
        | Some i \<Rightarrow>
            (let e = es ! i; ch = unat (pk_cha m) in
             if \<not> ch < length (ed_input e) then Inl BusCrash
             else if ed_input e ! ch = None
             then node_forward rt n pl (es[i := e\<lparr>ed_input := (ed_input e)[ch := Some m]\<rparr>])
             else (case node_forward rt n pl es of
                 Inl x \<Rightarrow> Inl x
               | Inr (pl', es') \<Rightarrow> Inr ((m, 0) # pl', es')))))"
  by pat_completeness auto
termination
  by (relation "measure (\<lambda>(rt, n, pl, es). sum_list (map snd pl) + length pl)") auto

definition process_node :: "BusRouteTable \<Rightarrow> nat \<Rightarrow> NodeStruct \<Rightarrow> EdgeInChannel list \<Rightarrow> (u32 \<times> PortStruct) list
    \<Rightarrow> bus_error + (NodeStruct \<times> EdgeInChannel list \<times> (u32 \<times> PortStruct) list)" where
  "process_node rt latency n es ps =
     (case scan_rx (length (rxs n)) n es of (r, n1, es1) \<Rightarrow>
      (case (case r of Some m \<Rightarrow> Inr (Some m, n1, ps) | None \<Rightarrow> scan_send (length (node_ports n1)) n1 ps) of
         Inl x \<Rightarrow> Inl x
       | Inr (r', n2, ps2) \<Rightarrow>
           (case (case r' of None \<Rightarrow> Inr (n2, ps2) | Some m \<Rightarrow> node_accept latency m n2 ps2) of
              Inl x \<Rightarrow> Inl x
            | Inr (n3, ps3) \<Rightarrow>
                (case node_forward rt n3 (pipeline n3) es1 of
                   Inl x \<Rightarrow> Inl x
                 | Inr (pl, es2) \<Rightarrow>
                     (let busy = (r' \<noteq> None \<or> pipeline n3 \<noteq> []) in
                      Inr (n3\<lparr>pipeline := pl, node_busy := node_busy n3 + (if busy then 1 else 0)\<rparr>, es2, ps3))))))"

fun edge_loop :: "u32 \<Rightarrow> u32 \<Rightarrow> MsgPack option list \<Rightarrow> MsgPack option list
    \<Rightarrow> MsgPack option list \<times> MsgPack option list \<times> nat" where
  "edge_loop w tot (i # ins) (out # outs) =
     (if tot < w
      then (case (i, out) of
          (Some m, None) \<Rightarrow>
            (case edge_loop w (tot + of_nat (length (pk_data m))) ins outs of
               (ins', outs', k) \<Rightarrow> (None # ins', Some m # outs', Suc k))
        | _ \<Rightarrow> (case edge_loop w tot ins outs of (ins', outs', k) \<Rightarrow> (i # ins', out # outs', k)))
      else (i # ins, out # outs, 0))"
| "edge_loop w tot ins outs = (ins, outs, 0)"

definition process_edge :: "u32 \<Rightarrow> EdgeInChannel \<Rightarrow> EdgeInChannel" where
  "process_edge w e =
     (case edge_loop w 0 (ed_input e) (ed_output e) of
        (ins, outs, k) \<Rightarrow> e\<lparr>ed_input := ins, ed_output := outs, ed_busy := ed_busy e + of_nat k\<rparr>)"

fun process_nodes :: "BusRouteTable \<Rightarrow> nat \<Rightarrow> (u32 \<times> NodeStruct) list \<Rightarrow> EdgeInChannel list \<Rightarrow> (u32 \<times> PortStruct) list
    \<Rightarrow> bus_error + ((u32 \<times> NodeStruct) list \<times> EdgeInChannel list \<times> (u32 \<times> PortStruct) list)" where
  "process_nodes rt latency [] es ps = Inr ([], es, ps)"
| "process_nodes rt latency ((k, n) # ns) es ps =
     (case process_node rt latency n es ps of
        Inl x \<Rightarrow> Inl x
      | Inr (n', es', ps') \<Rightarrow>
          (case process_nodes rt latency ns es' ps' of
             Inl x \<Rightarrow> Inl x
           | Inr (ns', es'', ps'') \<Rightarrow> Inr ((k, n') # ns', es'', ps'')))"

definition bus_apply_next_tick :: "SymBus \<Rightarrow> bus_error + SymBus" where
  "bus_apply_next_tick b =
     (case process_nodes (bus_route b) (route_latency b) (bus_nodes b) (bus_edges b) (bus_ports b) of
        Inl x \<Rightarrow> Inl x
      | Inr (ns, es, ps) \<Rightarrow>
          Inr (b\<lparr>bus_nodes := ns, bus_edges := map (process_edge (bus_width b)) es, bus_ports := ps\<rparr>))"

section \<open>The latency setting\<close>

text \<open>The counters of the pipeline entries never matter: every entry leaves the loop with 0.\<close>

lemma node_forward_latency:
  "node_forward rt n (map (\<lambda>(m, c). (m, g m c)) pl) es = node_forward rt n pl es"
proof -
  have head: "node_forward rt n ((m, c) # pl) es = node_forward rt n ((m, 0) # pl) es" for m c pl es
    by (induction c) (simp_all del: node_forward.simps(2) add: node_forward.simps(2) [of rt n _ "Suc _"],
        simp add: node_forward.simps(2))
  show ?thesis
  proof (induction pl arbitrary: es)
    case Nil
    then show ?case by simp
  next
    case (Cons mc pl)
    obtain m c where mc: "mc = (m, c)" by (cases mc)
    have "node_forward rt n ((m, 0) # map (\<lambda>(m, c). (m, g m c)) pl) es = node_forward rt n ((m, 0) # pl) es"
      by (simp add: Cons.IH Let_def split: option.split)
    then show ?case using head [of m "g m c"] head [of m c] mc by simp
  qed
qed

lemma node_forward_same_node:
  "myid n = myid n' \<Longrightarrow> txs n = txs n' \<Longrightarrow> node_forward rt n pl es = node_forward rt n' pl es"
proof (induction rt n pl es rule: node_forward.induct)
  case (1 rt n es)
  then show ?case by simp
next
  case (2 rt n m c pl es)
  show ?case
  proof (cases "1 < c")
    case True
    with 2 show ?thesis by simp
  next
    case False
    note IH = 2(2) [OF False refl] and IH' = 2(3) [OF False refl]
    from False 2(4,5) show ?thesis
      by (simp add: Let_def split: option.split) (use IH IH' 2(4,5) in \<open>fastforce simp: Let_def\<close>)
  qed
qed

lemma process_node_latency: "process_node rt k n es ps = process_node rt k' n es ps"
proof -
  have acc: "(case (case r' of None \<Rightarrow> Inr (n2, ps2) | Some m \<Rightarrow> node_accept k m n2 ps2) of
              Inl x \<Rightarrow> Inl x
            | Inr (n3, ps3) \<Rightarrow>
                (case node_forward rt n3 (pipeline n3) es1 of
                   Inl x \<Rightarrow> Inl x
                 | Inr (pl, es2) \<Rightarrow>
                     (let busy = (r' \<noteq> None \<or> pipeline n3 \<noteq> []) in
                      Inr (n3\<lparr>pipeline := pl, node_busy := node_busy n3 + (if busy then 1 else 0)\<rparr>, es2, ps3))))
     = (case (case r' of None \<Rightarrow> Inr (n2, ps2) | Some m \<Rightarrow> node_accept k' m n2 ps2) of
              Inl x \<Rightarrow> Inl x
            | Inr (n3, ps3) \<Rightarrow>
                (case node_forward rt n3 (pipeline n3) es1 of
                   Inl x \<Rightarrow> Inl x
                 | Inr (pl, es2) \<Rightarrow>
                     (let busy = (r' \<noteq> None \<or> pipeline n3 \<noteq> []) in
                      Inr (n3\<lparr>pipeline := pl, node_busy := node_busy n3 + (if busy then 1 else 0)\<rparr>, es2, ps3))))"
    for r' n2 ps2 es1
  proof (cases "\<exists>m. r' = Some m \<and> pk_tgt m \<noteq> myid n2")
    case False
    then show ?thesis by (auto simp: node_accept_def split: option.split)
  next
    case True
    then obtain m where m: "r' = Some m" "pk_tgt m \<noteq> myid n2" by blast
    have "node_forward rt (n2\<lparr>pipeline := pipeline n2 @ [(m, q)]\<rparr>) (pipeline n2 @ [(m, q)]) es1
        = node_forward rt n2 (pipeline n2 @ [(m, 0)]) es1" for q
    proof -
      have "node_forward rt n2 (map (\<lambda>(m, c). (m, 0)) (pipeline n2 @ [(m, q)])) es1
          = node_forward rt n2 (map (\<lambda>(m, c). (m, 0)) (pipeline n2 @ [(m, 0)])) es1" by simp
      then have "node_forward rt n2 (pipeline n2 @ [(m, q)]) es1 = node_forward rt n2 (pipeline n2 @ [(m, 0)]) es1"
        using node_forward_latency [of rt n2 "\<lambda>_ _. 0"] by metis
      moreover have "node_forward rt (n2\<lparr>pipeline := pipeline n2 @ [(m, q)]\<rparr>) (pipeline n2 @ [(m, q)]) es1
          = node_forward rt n2 (pipeline n2 @ [(m, q)]) es1"
        by (rule node_forward_same_node) simp_all
      ultimately show ?thesis by simp
    qed
    then show ?thesis using m by (simp add: node_accept_def Let_def split: sum.split prod.split)
  qed
  show ?thesis unfolding process_node_def acc [of _ _ _] by simp
qed

lemma process_nodes_latency: "process_nodes rt k ns es ps = process_nodes rt k' ns es ps"
proof (induction rt k ns es ps rule: process_nodes.induct)
  case (1 rt latency es ps)
  then show ?case by simp
next
  case (2 rt latency k n ns es ps)
  then show ?case
    by (simp add: process_node_latency [of rt latency _ _ _ k'] split: sum.split prod.split)
qed

section \<open>Conservation of packets\<close>

definition slots :: "'a option list \<Rightarrow> 'a list" where
  "slots xs = concat (map (\<lambda>x. case x of None \<Rightarrow> [] | Some p \<Rightarrow> [p]) xs)"

definition edge_packs :: "EdgeInChannel \<Rightarrow> MsgPack list" where
  "edge_packs e = slots (ed_input e) @ slots (ed_output e)"

definition node_packs :: "NodeStruct \<Rightarrow> MsgPack list" where
  "node_packs n = map fst (pipeline n) @ concat (map snd (order_buf n))"

definition port_packs :: "PortStruct \<Rightarrow> MsgPack list" where
  "port_packs p = concat (recv_buf p) @ concat (send_buf p)"

definition edges_mset :: "EdgeInChannel list \<Rightarrow> MsgPack multiset" where
  "edges_mset es = mset (concat (map edge_packs es))"

definition ports_mset :: "(u32 \<times> PortStruct) list \<Rightarrow> MsgPack multiset" where
  "ports_mset ps = mset (concat (map (port_packs \<circ> snd) ps))"

definition nodes_mset :: "(u32 \<times> NodeStruct) list \<Rightarrow> MsgPack multiset" where
  "nodes_mset ns = mset (concat (map (node_packs \<circ> snd) ns))"

text \<open>Every packet the bus holds: in the ports, the nodes and on the edges.\<close>

definition bus_packs :: "SymBus \<Rightarrow> MsgPack multiset" where
  "bus_packs b = nodes_mset (bus_nodes b) + edges_mset (bus_edges b) + ports_mset (bus_ports b)"

definition node_wf :: "nat \<Rightarrow> NodeStruct \<Rightarrow> bool" where
  "node_wf k n \<longleftrightarrow> (\<forall>i\<in>set (rxs n). i < k) \<and> (\<forall>i\<in>snd ` set (txs n). i < k) \<and>
     (rxs n \<noteq> [] \<longrightarrow> rx_ptr n < length (rxs n)) \<and>
     (node_ports n \<noteq> [] \<longrightarrow> sd_ptr n < length (node_ports n)) \<and> distinct (map fst (order_buf n))"

definition bus_wf :: "SymBus \<Rightarrow> bool" where
  "bus_wf b \<longleftrightarrow> (\<forall>n\<in>snd ` set (bus_nodes b). node_wf (length (bus_edges b)) n)"

lemma mset_concat_update:
  "i < length xs \<Longrightarrow> mset (concat (map f (xs[i := y]))) + mset (f (xs ! i)) = mset (concat (map f xs)) + mset (f y)"
proof (induction xs arbitrary: i)
  case Nil
  then show ?case by simp
next
  case (Cons x xs)
  show ?case
  proof (cases i)
    case 0
    then show ?thesis by simp
  next
    case (Suc j)
    with Cons.IH [of j] Cons.prems show ?thesis by (simp add: add.assoc)
  qed
qed

lemma mset_concat_alist_update:
  "mset (concat (map (f \<circ> snd) (AList.update k v al))) + mset (case map_of al k of None \<Rightarrow> [] | Some w \<Rightarrow> f w)
     = mset (concat (map (f \<circ> snd) al)) + mset (f v)"
  by (induction al) (auto simp: add.assoc add.commute add.left_commute)

lemma mset_concat_alist_delete:
  "distinct (map fst al) \<Longrightarrow>
   mset (concat (map (f \<circ> snd) (AList.delete k al))) + mset (case map_of al k of None \<Rightarrow> [] | Some w \<Rightarrow> f w)
     = mset (concat (map (f \<circ> snd) al))"
proof (induction al)
  case Nil
  then show ?case by simp
next
  case (Cons p al)
  then have "fst p \<notin> fst ` set al" by auto
  then have "k = fst p \<Longrightarrow> AList.delete k al = al" by (simp add: delete_id)
  with Cons show ?case by (auto simp: add.assoc)
qed

lemma slots_put: "i < length xs \<Longrightarrow> xs ! i = None \<Longrightarrow> mset (slots (xs[i := Some m])) = add_mset m (mset (slots xs))"
  using mset_concat_update [of i xs "\<lambda>x. case x of None \<Rightarrow> [] | Some p \<Rightarrow> [p]" "Some m"] by (simp add: slots_def)

lemma take_slot_mset: "take_slot xs = Some (p, ys) \<Longrightarrow> mset (slots xs) = add_mset p (mset (slots ys))"
  by (induction xs arbitrary: ys rule: take_slot.induct) (auto simp: slots_def split: option.splits)

lemma take_front_mset: "take_front ls = Some (p, ls') \<Longrightarrow> mset (concat ls) = add_mset p (mset (concat ls'))"
  by (induction ls arbitrary: ls' rule: take_front.induct) (auto split: option.splits)

lemma edges_mset_update:
  "i < length es \<Longrightarrow> edges_mset (es[i := e]) + mset (edge_packs (es ! i)) = edges_mset es + mset (edge_packs e)"
  by (simp add: edges_mset_def mset_concat_update)

lemma ports_mset_update:
  "map_of ps k = Some p \<Longrightarrow> ports_mset (AList.update k p' ps) + mset (port_packs p) = ports_mset ps + mset (port_packs p')"
  using mset_concat_alist_update [of port_packs k p' ps] by (simp add: ports_mset_def)

definition opt_mset :: "'a option \<Rightarrow> 'a multiset" where
  "opt_mset r = (case r of None \<Rightarrow> {#} | Some m \<Rightarrow> {#m#})"

lemma scan_rx_conserves:
  assumes "scan_rx k n es = (r, n', es')" and "node_wf (length es) n" and "k \<le> length (rxs n)"
  shows "edges_mset es = edges_mset es' + opt_mset r" and "length es' = length es"
    and "node_wf (length es) n'" and "node_packs n' = node_packs n"
    and "myid n' = myid n" and "node_ports n' = node_ports n"
proof -
  have "edges_mset es = edges_mset es' + opt_mset r \<and> length es' = length es \<and>
    node_wf (length es) n' \<and> node_packs n' = node_packs n \<and> myid n' = myid n \<and> node_ports n' = node_ports n"
    using assms
  proof (induction k n es rule: scan_rx.induct)
    case (1 n es)
    then show ?case by (simp add: opt_mset_def)
  next
    case (2 k n es)
    let ?i = "rxs n ! rx_ptr n"
    have "rx_ptr n < length (rxs n)" using 2(3,4) by (auto simp: node_wf_def)
    then have i: "?i < length es" using 2(3) nth_mem by (auto simp: node_wf_def)
    show ?case
    proof (cases "take_slot (ed_output (es ! ?i))")
      case None
      have wf: "node_wf (length es) (n\<lparr>rx_ptr := (rx_ptr n + 1) mod length (rxs n)\<rparr>)"
        using 2(3) by (auto simp: node_wf_def)
      have "scan_rx k (n\<lparr>rx_ptr := (rx_ptr n + 1) mod length (rxs n)\<rparr>) es = (r, n', es')"
        using 2(2) None by (simp add: Let_def)
      from 2(1) [OF refl refl None this wf] 2(4) show ?thesis by (simp add: node_packs_def)
    next
      case (Some x)
      obtain p out where x: "x = (p, out)" by (cases x)
      let ?e = "(es ! ?i)\<lparr>ed_output := out\<rparr>"
      have r: "r = Some p" "n' = n" "es' = es[?i := ?e]" using 2(2) Some x by (auto simp: Let_def)
      have "mset (edge_packs (es ! ?i)) = add_mset p (mset (edge_packs ?e))"
        using take_slot_mset [of "ed_output (es ! ?i)" p out] Some x by (simp add: edge_packs_def)
      with edges_mset_update [OF i, of ?e] r 2(3) show ?thesis
        by (simp add: opt_mset_def)
    qed
  qed
  then show "edges_mset es = edges_mset es' + opt_mset r" and "length es' = length es"
    and "node_wf (length es) n'" and "node_packs n' = node_packs n"
    and "myid n' = myid n" and "node_ports n' = node_ports n" by simp_all
qed

lemma scan_send_conserves:
  assumes "scan_send k n ps = Inr (r, n', ps')" and "node_wf c n" and "k \<le> length (node_ports n)"
  shows "ports_mset ps = ports_mset ps' + opt_mset r \<and> node_wf c n' \<and> node_packs n' = node_packs n"
  using assms
proof (induction k n ps rule: scan_send.induct)
  case (1 n ps)
  then show ?case by (simp add: opt_mset_def)
next
  case (2 k n ps)
  let ?pid = "node_ports n ! sd_ptr n"
  obtain p where p: "map_of ps ?pid = Some p" using 2(2) by (cases "map_of ps ?pid") (simp_all add: Let_def)
  show ?case
  proof (cases "take_front (send_buf p)")
    case None
    let ?n = "n\<lparr>sd_ptr := (if sd_ptr n + 1 = length (node_ports n) then 0 else sd_ptr n + 1)\<rparr>"
    have wf: "node_wf c ?n" using 2(3) by (auto simp: node_wf_def)
    have "scan_send k ?n ps = Inr (r, n', ps')" using 2(2) p None by (simp add: Let_def)
    from 2(1) [OF refl p None this wf] 2(4) show ?thesis by (simp add: node_packs_def)
  next
    case (Some x)
    obtain m bufs where x: "x = (m, bufs)" by (cases x)
    have r: "r = Some m" "n' = n" "ps' = AList.update ?pid (p\<lparr>send_buf := bufs\<rparr>) ps"
      using 2(2) p Some x by (auto simp: Let_def)
    have "mset (port_packs p) = add_mset m (mset (port_packs (p\<lparr>send_buf := bufs\<rparr>)))"
      using take_front_mset [of "send_buf p" m bufs] Some x by (simp add: port_packs_def)
    with ports_mset_update [OF p, of "p\<lparr>send_buf := bufs\<rparr>"] r 2(3) show ?thesis
      by (simp add: opt_mset_def)
  qed
qed

lemma order_insert_mset: "mset (order_insert m l) = add_mset m (mset l)"
  by (induction l) auto

lemma push_recv_conserves:
  assumes "push_recv n dst cha ms ps = Inr ps'"
  shows "ports_mset ps' = ports_mset ps + mset ms"
proof -
  obtain p where p: "map_of ps dst = Some p" "unat cha < length (recv_buf p)"
    and ps': "ps' = AList.update dst (p\<lparr>recv_buf := (recv_buf p)[unat cha := recv_buf p ! unat cha @ ms]\<rparr>) ps"
    using assms by (auto simp: push_recv_def split: if_splits option.splits)
  have "mset (concat ((recv_buf p)[unat cha := recv_buf p ! unat cha @ ms])) = mset (concat (recv_buf p)) + mset ms"
    using mset_concat_update [OF p(2), of id "recv_buf p ! unat cha @ ms"] by simp
  then show ?thesis
    using ports_mset_update [OF p(1), of "p\<lparr>recv_buf := (recv_buf p)[unat cha := recv_buf p ! unat cha @ ms]\<rparr>"] ps'
    by (simp add: port_packs_def)
qed

lemma node_deliver_conserves:
  assumes "node_deliver m n ps = Inr (n', ps')" and "node_wf k n"
  shows "mset (node_packs n') + ports_mset ps' = add_mset m (mset (node_packs n) + ports_mset ps)"
    and "node_wf k n'" and "myid n' = myid n" and "txs n' = txs n"
proof -
  let ?o = "order_buf n" and ?x = "pk_xmtid m"
  let ?old = "case map_of ?o ?x of None \<Rightarrow> [] | Some l \<Rightarrow> l"
  let ?l = "order_insert m ?old"
  have d: "distinct (map fst ?o)" using assms(2) by (simp add: node_wf_def)
  have l: "mset ?l = add_mset m (mset ?old)" by (simp add: order_insert_mset)
  have old: "(case map_of ?o ?x of None \<Rightarrow> [] | Some w \<Rightarrow> id w) = ?old" by (simp split: option.split)
  consider (single) "pk_cnt m \<le> 1" "order_buf n' = ?o" "push_recv n (pk_dst m) (pk_cha m) [m] ps = Inr ps'"
    | (complete) "order_buf n' = AList.delete ?x ?o" "push_recv n (pk_dst m) (pk_cha m) ?l ps = Inr ps'"
    | (wait) "order_buf n' = AList.update ?x ?l ?o" "ps' = ps"
    using assms(1) by (auto simp: node_deliver_def Let_def map_sum_def split: if_splits sum.splits)
  then have c: "mset (concat (map snd (order_buf n'))) + ports_mset ps' = add_mset m (mset (concat (map snd ?o)) + ports_mset ps)
      \<and> distinct (map fst (order_buf n'))"
  proof cases
    case single
    then show ?thesis using push_recv_conserves [OF single(3)] d by simp
  next
    case complete
    then show ?thesis
      using push_recv_conserves [OF complete(2)] mset_concat_alist_delete [OF d, of id ?x] d
      by (simp add: l old distinct_delete)
  next
    case wait
    then show ?thesis
      using mset_concat_alist_update [of id ?x ?l ?o] d
      by (simp add: l old distinct_update)
  qed
  have rest: "pipeline n' = pipeline n" "rxs n' = rxs n" "rx_ptr n' = rx_ptr n" "node_ports n' = node_ports n"
    "sd_ptr n' = sd_ptr n" "myid n' = myid n" "txs n' = txs n"
    using assms(1) by (auto simp: node_deliver_def Let_def map_sum_def split: if_splits sum.splits)
  show "mset (node_packs n') + ports_mset ps' = add_mset m (mset (node_packs n) + ports_mset ps)"
    using c by (simp add: node_packs_def rest add.assoc)
  show "node_wf k n'" using assms(2) c by (simp add: node_wf_def rest)
  show "myid n' = myid n" "txs n' = txs n" using rest by simp_all
qed

lemma node_accept_conserves:
  assumes "node_accept q m n ps = Inr (n', ps')" and "node_wf k n"
  shows "mset (node_packs n') + ports_mset ps' = add_mset m (mset (node_packs n) + ports_mset ps) \<and> node_wf k n'"
  using assms node_deliver_conserves [of m n ps n' ps' k]
  by (auto simp: node_accept_def node_packs_def node_wf_def split: if_splits)

lemma node_forward_conserves:
  assumes "node_forward rt n pl es = Inr (pl', es')" and "node_wf (length es) n"
  shows "mset (map fst pl') + edges_mset es' = mset (map fst pl) + edges_mset es \<and> length es' = length es"
  using assms
proof (induction rt n pl es arbitrary: pl' es' rule: node_forward.induct)
  case (1 rt n es)
  then show ?case by simp
next
  case (2 rt n m c pl es)
  show ?case
  proof (cases "1 < c")
    case True
    with 2 show ?thesis by simp
  next
    case False
    let ?nxt = "case route_next rt (myid n) (pk_tgt m) of None \<Rightarrow> 0 | Some x \<Rightarrow> x"
    let ?ch = "unat (pk_cha m)"
    obtain i where i: "map_of (txs n) ?nxt = Some i"
      using 2(4) False by (cases "map_of (txs n) ?nxt") (simp_all add: Let_def)
    have il: "i < length es" using map_of_SomeD [OF i] 2(5) by (force simp: node_wf_def)
    have ch: "?ch < length (ed_input (es ! i))"
      using 2(4) False i by (auto simp: Let_def split: if_splits)
    show ?thesis
    proof (cases "ed_input (es ! i) ! ?ch = None")
      case True
      let ?e = "(es ! i)\<lparr>ed_input := (ed_input (es ! i))[?ch := Some m]\<rparr>"
      have r: "node_forward rt n pl (es[i := ?e]) = Inr (pl', es')"
        using 2(4) False i ch True by (simp add: Let_def)
      have "mset (edge_packs ?e) = add_mset m (mset (edge_packs (es ! i)))"
        using slots_put [OF ch True] by (simp add: edge_packs_def)
      with 2(2) [OF False refl i refl refl _ True r] edges_mset_update [OF il, of ?e] 2(5) ch
      show ?thesis by simp
    next
      case nn: False
      obtain pl1 where r: "node_forward rt n pl es = Inr (pl1, es')" "pl' = (m, 0) # pl1"
        using 2(4) False i ch nn by (auto simp: Let_def split: sum.splits)
      with 2(3) [OF False refl i refl refl _ nn r(1) 2(5)] ch show ?thesis by simp
    qed
  qed
qed

lemma edge_loop_conserves:
  "edge_loop w t ins outs = (ins', outs', k) \<Longrightarrow>
   mset (slots ins') + mset (slots outs') = mset (slots ins) + mset (slots outs)"
proof (induction ins arbitrary: t outs ins' outs' k)
  case Nil
  then show ?case by simp
next
  case (Cons i ins)
  show ?case
  proof (cases outs)
    case Nil
    with Cons show ?thesis by simp
  next
    case (Cons out os)
    show ?thesis
    proof (cases "t < w \<and> (\<exists>m. i = Some m) \<and> out = None")
      case True
      then obtain m where m: "t < w" "i = Some m" "out = None" by blast
      obtain a b c where r: "edge_loop w (t + of_nat (length (pk_data m))) ins os = (a, b, c)"
        by (cases "edge_loop w (t + of_nat (length (pk_data m))) ins os") auto
      from Cons.IH [OF r] m r Cons.prems Cons show ?thesis by (auto simp: slots_def)
    next
      case False
      obtain a b c where r: "edge_loop w t ins os = (a, b, c)" by (cases "edge_loop w t ins os") auto
      from False Cons.IH [OF r] r Cons.prems Cons show ?thesis
        by (cases i; cases out; cases "t < w") (auto simp: slots_def)
    qed
  qed
qed

lemma process_edges_conserve: "edges_mset (map (process_edge w) es) = edges_mset es"
proof -
  have "mset (edge_packs (process_edge w e)) = mset (edge_packs e)" for e
    using edge_loop_conserves [of w 0 "ed_input e" "ed_output e"]
    by (cases "edge_loop w 0 (ed_input e) (ed_output e)") (simp add: process_edge_def edge_packs_def)
  then show ?thesis by (induction es) (simp_all add: edges_mset_def)
qed

lemma process_node_conserves:
  assumes "process_node rt q n es ps = Inr (n', es', ps')" and "node_wf (length es) n"
  shows "mset (node_packs n') + edges_mset es' + ports_mset ps' = mset (node_packs n) + edges_mset es + ports_mset ps"
    and "length es' = length es" and "node_wf (length es) n'"
proof -
  obtain r n1 es1 where 1: "scan_rx (length (rxs n)) n es = (r, n1, es1)"
    by (cases "scan_rx (length (rxs n)) n es") auto
  note c1 = scan_rx_conserves [OF 1 assms(2) order_refl]
  obtain r' n2 ps2 where 2: "(case r of Some m \<Rightarrow> Inr (Some m, n1, ps) | None \<Rightarrow> scan_send (length (node_ports n1)) n1 ps) = Inr (r', n2, ps2)"
    using assms(1) 1 by (auto simp: process_node_def split: sum.splits)
  have c2: "ports_mset ps + opt_mset r = ports_mset ps2 + opt_mset r' \<and> node_wf (length es) n2 \<and> node_packs n2 = node_packs n1"
    using scan_send_conserves [of "length (node_ports n1)" n1 ps r' n2 ps2 "length es"] 2 c1(3)
    by (auto simp: opt_mset_def split: option.splits)
  obtain n3 ps3 where 3: "(case r' of None \<Rightarrow> Inr (n2, ps2) | Some m \<Rightarrow> node_accept q m n2 ps2) = Inr (n3, ps3)"
    using assms(1) 1 2 by (auto simp: process_node_def split: sum.splits)
  have c3: "mset (node_packs n3) + ports_mset ps3 = mset (node_packs n2) + ports_mset ps2 + opt_mset r' \<and> node_wf (length es) n3"
    using node_accept_conserves [of q _ n2 ps2 n3 ps3 "length es"] 3 c2
    by (auto simp: opt_mset_def split: option.splits)
  obtain pl es2 where 4: "node_forward rt n3 (pipeline n3) es1 = Inr (pl, es2)"
    using assms(1) 1 2 3 by (auto simp: process_node_def split: sum.splits)
  have r: "n' = n3\<lparr>pipeline := pl, node_busy := node_busy n3 + (if r' \<noteq> None \<or> pipeline n3 \<noteq> [] then 1 else 0)\<rparr>"
    "es' = es2" "ps' = ps3"
    using assms(1) 1 2 3 4 by (simp_all add: process_node_def Let_def)
  have c4: "mset (map fst pl) + edges_mset es2 = mset (map fst (pipeline n3)) + edges_mset es1 \<and> length es2 = length es1"
    using node_forward_conserves [OF 4] c3 c1(2) by simp
  have p4: "mset (node_packs n') + edges_mset es' = mset (node_packs n3) + edges_mset es1"
    using c4 r by (simp add: node_packs_def add.assoc add.left_commute)
  show "length es' = length es" using c4 c1(2) r by simp
  show "node_wf (length es) n'" using c3 r by (simp add: node_wf_def)
  have "mset (node_packs n') + edges_mset es' + ports_mset ps' = (mset (node_packs n3) + ports_mset ps3) + edges_mset es1"
    unfolding p4 r(3) by (simp only: ac_simps)
  also have "\<dots> = mset (node_packs n) + (ports_mset ps2 + opt_mset r') + edges_mset es1"
    unfolding conjunct1 [OF c3] using c2 c1(4) by (simp add: ac_simps)
  also have "\<dots> = mset (node_packs n) + ports_mset ps + (edges_mset es1 + opt_mset r)"
    unfolding conjunct1 [OF c2, symmetric] by (simp only: ac_simps)
  also have "\<dots> = mset (node_packs n) + edges_mset es + ports_mset ps"
    unfolding c1(1) [symmetric] by (simp only: ac_simps)
  finally show "mset (node_packs n') + edges_mset es' + ports_mset ps' = mset (node_packs n) + edges_mset es + ports_mset ps" .
qed

lemma process_nodes_conserve:
  assumes "process_nodes rt q ns es ps = Inr (ns', es', ps')" and "\<forall>n\<in>snd ` set ns. node_wf (length es) n"
  shows "nodes_mset ns' + edges_mset es' + ports_mset ps' = nodes_mset ns + edges_mset es + ports_mset ps
    \<and> length es' = length es \<and> (\<forall>n\<in>snd ` set ns'. node_wf (length es) n)"
  using assms
proof (induction rt q ns es ps arbitrary: ns' es' ps' rule: process_nodes.induct)
  case (1 rt q es ps)
  then show ?case by simp
next
  case (2 rt q k n ns es ps)
  obtain n1 es1 ps1 where 3: "process_node rt q n es ps = Inr (n1, es1, ps1)"
    using 2(2) by (auto split: sum.splits)
  obtain ns2 where 4: "process_nodes rt q ns es1 ps1 = Inr (ns2, es', ps')" and ns': "ns' = (k, n1) # ns2"
    using 2(2) 3 by (auto split: sum.splits)
  have wf: "node_wf (length es) n" using 2(3) by simp
  note c = process_node_conserves [OF 3 wf]
  have IH: "nodes_mset ns2 + edges_mset es' + ports_mset ps' = nodes_mset ns + edges_mset es1 + ports_mset ps1
    \<and> length es' = length es1 \<and> (\<forall>n\<in>snd ` set ns2. node_wf (length es1) n)"
    using 2(1) [OF 3 refl refl 4] 2(3) c(2) by simp
  have "nodes_mset ns' + edges_mset es' + ports_mset ps' = mset (node_packs n1) + (nodes_mset ns2 + edges_mset es' + ports_mset ps')"
    by (simp add: nodes_mset_def ns' ac_simps)
  also have "\<dots> = nodes_mset ns + (mset (node_packs n1) + edges_mset es1 + ports_mset ps1)"
    unfolding conjunct1 [OF IH] by (simp only: ac_simps)
  also have "\<dots> = nodes_mset ((k, n) # ns) + edges_mset es + ports_mset ps"
    unfolding c(1) by (simp add: nodes_mset_def ac_simps)
  finally show ?case using IH c(2,3) ns' by simp
qed

lemma tick_conserves:
  assumes "bus_wf b" and "bus_apply_next_tick b = Inr b'"
  shows "bus_packs b' = bus_packs b" and "bus_wf b'"
proof -
  obtain ns es ps where p: "process_nodes (bus_route b) (route_latency b) (bus_nodes b) (bus_edges b) (bus_ports b) = Inr (ns, es, ps)"
    using assms(2) by (auto simp: bus_apply_next_tick_def split: sum.splits)
  then have b': "b' = b\<lparr>bus_nodes := ns, bus_edges := map (process_edge (bus_width b)) es, bus_ports := ps\<rparr>"
    using assms(2) by (simp add: bus_apply_next_tick_def)
  note c = process_nodes_conserve [OF p assms(1) [unfolded bus_wf_def]]
  show "bus_packs b' = bus_packs b" using c by (simp add: bus_packs_def b' process_edges_conserve)
  show "bus_wf b'" using c by (simp add: bus_wf_def b')
qed

lemma map_at_all:
  assumes "\<forall>v\<in>snd ` set m. P v" and "\<And>v. P v \<Longrightarrow> P (f v)"
  shows "\<forall>v\<in>snd ` set (map_at k f m). P v"
proof
  fix v assume "v \<in> snd ` set (map_at k f m)"
  then obtain k' w where "(k', w) \<in> set m" "v = (if k' = k then f w else w)"
    by (auto simp: map_at_def split: if_splits)
  then show "P v" using assms by (force split: if_splits)
qed

lemma add_default_all:
  assumes "\<forall>v\<in>snd ` set m. P v" and "P d"
  shows "\<forall>v\<in>snd ` set (add_default k d m). P v"
  using assms by (auto simp: add_default_def split: option.split)

definition fresh_node_wf :: "nat \<Rightarrow> NodeStruct \<Rightarrow> bool" where
  "fresh_node_wf k n \<longleftrightarrow> node_wf k n \<and> rx_ptr n = 0"

lemma connect_edge_all:
  assumes "\<forall>n\<in>snd ` set ns. P n" and "P (empty_node 0)"
    and "\<And>n. P n \<Longrightarrow> P (n\<lparr>txs := add_default (snd e) i (txs n)\<rparr>)" and "\<And>n. P n \<Longrightarrow> P (n\<lparr>rxs := rxs n @ [i]\<rparr>)"
  shows "\<forall>n\<in>snd ` set (connect_edge i e ns). P n"
  unfolding connect_edge_def
  by (intro map_at_all [where P = P] add_default_all [where P = P]; (rule assms; assumption)?)

lemma connect_edge_wf:
  assumes "\<forall>n\<in>snd ` set ns. fresh_node_wf k n" and "i < k"
  shows "\<forall>n\<in>snd ` set (connect_edge i e ns). fresh_node_wf k n"
proof (rule connect_edge_all [OF assms(1)])
  show "fresh_node_wf k (empty_node 0)" by (simp add: fresh_node_wf_def node_wf_def empty_node_def)
next
  fix n assume n: "fresh_node_wf k n"
  have "\<forall>j\<in>snd ` set (add_default (snd e) i (txs n)). j < k"
    using n assms(2) by (intro add_default_all) (auto simp: fresh_node_wf_def node_wf_def)
  with n show "fresh_node_wf k (n\<lparr>txs := add_default (snd e) i (txs n)\<rparr>)"
    by (simp add: fresh_node_wf_def node_wf_def)
next
  fix n assume "fresh_node_wf k n"
  with assms(2) show "fresh_node_wf k (n\<lparr>rxs := rxs n @ [i]\<rparr>)"
    by (auto simp: fresh_node_wf_def node_wf_def)
qed

lemma connect_edges_wf:
  assumes "\<forall>n\<in>snd ` set ns. fresh_node_wf k n" and "\<forall>i\<in>fst ` set ies. i < k"
  shows "\<forall>n\<in>snd ` set (fold (\<lambda>(i, e). connect_edge i e) ies ns). fresh_node_wf k n"
  using assms
proof (induction ies arbitrary: ns)
  case Nil
  then show ?case by simp
next
  case (Cons ie ies)
  obtain i e where ie: "ie = (i, e)" by (cases ie)
  have "\<forall>n\<in>snd ` set (connect_edge i e ns). fresh_node_wf k n"
    using Cons.prems ie by (intro connect_edge_wf) simp_all
  from Cons.IH [OF this] Cons.prems(2) show ?case by (simp add: ie)
qed

lemma bus_new_wf:
  assumes "bus_new wid latency port_ids port_to_node widths rt = Inr b"
  shows "bus_wf b"
proof -
  let ?es = "all_edges rt" and ?ns = "map (\<lambda>n. (n, (empty_node n)\<lparr>node_ports := map fst (filter (\<lambda>(p, n'). n' = n) (zip port_ids port_to_node))\<rparr>)) (sort (remdups port_to_node))"
  have b: "bus_nodes b = fold (\<lambda>(i, e). connect_edge i e) (zip [0..<length ?es] ?es) ?ns" "length (bus_edges b) = length ?es"
    using assms by (auto simp: bus_new_def Let_def split: if_splits)
  have "\<forall>n\<in>snd ` set ?ns. fresh_node_wf (length ?es) n"
    by (auto simp: fresh_node_wf_def node_wf_def empty_node_def)
  moreover have "\<forall>i\<in>fst ` set (zip [0..<length ?es] ?es). i < length ?es" by (auto dest: set_zip_leftD)
  ultimately show ?thesis
    using connect_edges_wf [of ?ns "length ?es" "zip [0..<length ?es] ?es"] unfolding bus_wf_def b
    by (auto simp: fresh_node_wf_def)
qed

section \<open>Runs of the bus\<close>

definition port_recv :: "SymBus \<Rightarrow> u32 \<Rightarrow> u32 \<Rightarrow> MsgPack list" where
  "port_recv b port ch = (case map_of (bus_ports b) port of None \<Rightarrow> [] | Some p \<Rightarrow> recv_buf p ! unat ch)"

definition sent_packs :: "u64 \<Rightarrow> SymBus \<Rightarrow> u32 \<Rightarrow> u32 \<Rightarrow> u32 \<Rightarrow> u8 list \<Rightarrow> MsgPack list" where
  "sent_packs tick b port dst ch data =
     send_packs port dst (map_or_zero (port2node b) dst) ch (xmtid_alloc b) (cha_widths b ! unat ch) data tick"

definition received_packs :: "SymBus \<Rightarrow> u32 \<Rightarrow> u32 \<Rightarrow> MsgPack list" where
  "received_packs b port ch = take (unat (pk_cnt (hd (port_recv b port ch)))) (port_recv b port ch)"

text \<open>
  The states a bus can reach from its construction by accepted sends, completed receives and ticks,
  with the packets that went in and the packets that came out.
\<close>

inductive bus_reach :: "SymBus \<Rightarrow> MsgPack multiset \<Rightarrow> MsgPack multiset \<Rightarrow> bool" where
  reach_new: "bus_new wid latency port_ids port_to_node widths rt = Inr b \<Longrightarrow> bus_reach b {#} {#}"
| reach_send: "bus_reach b ins outs \<Longrightarrow> bus_send t b port dst ch data = Inr (True, b') \<Longrightarrow>
    bus_reach b' (ins + mset (sent_packs t b port dst ch data)) outs"
| reach_recv: "bus_reach b ins outs \<Longrightarrow> bus_recv t b port ch buf = Inr (True, data, b') \<Longrightarrow>
    bus_reach b' ins (outs + mset (received_packs b port ch))"
| reach_tick: "bus_reach b ins outs \<Longrightarrow> bus_apply_next_tick b = Inr b' \<Longrightarrow> bus_reach b' ins outs"

lemma recv_loop_takes:
  "recv_loop i k cwid pos buf rbuf = Inr (buf', taken, rest) \<Longrightarrow> k \<le> length rbuf \<and> taken = take k rbuf \<and> rest = drop k rbuf"
proof (induction i k cwid pos buf rbuf arbitrary: buf' taken rest rule: recv_loop.induct)
  case (3 i k cwid pos buf p rbuf)
  then show ?case by (auto split: if_splits option.splits sum.splits)
qed simp_all

lemma count_packs_frame:
  "bus_nodes (fold (count_pack t) ms b) = bus_nodes b \<and> bus_edges (fold (count_pack t) ms b) = bus_edges b
   \<and> bus_ports (fold (count_pack t) ms b) = bus_ports b"
  by (induction ms arbitrary: b) (simp_all add: count_pack_def)

subsection \<open>The ports keep one buffer per channel\<close>

definition ports_len :: "nat \<Rightarrow> (u32 \<times> PortStruct) list \<Rightarrow> bool" where
  "ports_len k ps \<longleftrightarrow> (\<forall>p\<in>snd ` set ps. length (recv_buf p) = k \<and> length (send_buf p) = k)"

lemma ports_len_lookup: "ports_len k ps \<Longrightarrow> map_of ps d = Some p \<Longrightarrow> length (recv_buf p) = k \<and> length (send_buf p) = k"
  by (force simp: ports_len_def dest: map_of_SomeD)

lemma ports_len_update:
  "ports_len k ps \<Longrightarrow> length (recv_buf p) = k \<Longrightarrow> length (send_buf p) = k \<Longrightarrow> ports_len k (AList.update d p ps)"
  by (induction ps) (auto simp: ports_len_def)

lemma take_front_length: "take_front ls = Some (m, ls') \<Longrightarrow> length ls' = length ls"
  by (induction ls arbitrary: ls' rule: take_front.induct) (auto split: option.splits)

lemma scan_send_ports_len: "scan_send j n ps = Inr (r, n', ps') \<Longrightarrow> ports_len k ps \<Longrightarrow> ports_len k ps'"
proof (induction j n ps rule: scan_send.induct)
  case (1 n ps)
  then show ?case by simp
next
  case (2 j n ps)
  then show ?case
    by (auto simp: Let_def split: option.splits dest!: take_front_length
        intro!: ports_len_update dest: ports_len_lookup)
qed

lemma push_recv_ports_len: "push_recv n d c ms ps = Inr ps' \<Longrightarrow> ports_len k ps \<Longrightarrow> ports_len k ps'"
  by (auto simp: push_recv_def split: if_splits option.splits dest: ports_len_lookup intro!: ports_len_update)

lemma node_accept_ports_len: "node_accept q m n ps = Inr (n', ps') \<Longrightarrow> ports_len k ps \<Longrightarrow> ports_len k ps'"
  by (auto simp: node_accept_def node_deliver_def Let_def map_sum_def split: if_splits sum.splits
      dest: push_recv_ports_len)

lemma process_node_ports_len:
  assumes "process_node rt q n es ps = Inr (n', es', ps')" and "ports_len k ps"
  shows "ports_len k ps'"
  using assms
  by (auto simp: process_node_def Let_def split: sum.splits prod.splits option.splits
      dest!: node_accept_ports_len scan_send_ports_len)

lemma process_nodes_ports_len:
  "process_nodes rt q ns es ps = Inr (ns', es', ps') \<Longrightarrow> ports_len k ps \<Longrightarrow> ports_len k ps'"
proof (induction rt q ns es ps arbitrary: ns' es' ps' rule: process_nodes.induct)
  case (1 rt q es ps)
  then show ?case by simp
next
  case (2 rt q i n ns es ps)
  obtain n1 es1 ps1 where 3: "process_node rt q n es ps = Inr (n1, es1, ps1)"
    using 2(2) by (auto split: sum.splits)
  obtain ns2 where 4: "process_nodes rt q ns es1 ps1 = Inr (ns2, es', ps')"
    using 2(2) 3 by (auto split: sum.splits)
  show ?case by (rule 2(1) [OF 3 refl refl 4 process_node_ports_len [OF 3 2(3)]])
qed

definition bus_inv :: "SymBus \<Rightarrow> bool" where
  "bus_inv b \<longleftrightarrow> bus_wf b \<and> ports_len (length (cha_widths b)) (bus_ports b)"

lemma bus_inv_new: "bus_new wid latency port_ids port_to_node widths rt = Inr b \<Longrightarrow> bus_inv b \<and> bus_packs b = {#}"
proof -
  assume b: "bus_new wid latency port_ids port_to_node widths rt = Inr b"
  let ?es = "all_edges rt" and ?ns = "map (\<lambda>n. (n, (empty_node n)\<lparr>node_ports := map fst (filter (\<lambda>(p, n'). n' = n) (zip port_ids port_to_node))\<rparr>)) (sort (remdups port_to_node))"
  have p: "bus_nodes b = fold (\<lambda>(i, e). connect_edge i e) (zip [0..<length ?es] ?es) ?ns"
    "bus_ports b = map (\<lambda>p. (p, \<lparr>recv_buf = replicate (length widths) [], send_buf = replicate (length widths) []\<rparr>)) port_ids"
    "bus_edges b = map (\<lambda>(a, b). \<lparr> ed_input = replicate (length widths) None, ed_output = replicate (length widths) None,
                    ed_from = a, ed_to = b, ed_busy = 0 \<rparr>) ?es" "cha_widths b = widths"
    using b by (auto simp: bus_new_def Let_def split: if_splits)
  have rep: "concat (replicate k []) = []" "slots (replicate k None) = []" for k
    by (induction k) (simp_all add: slots_def)
  have "\<forall>n\<in>snd ` set (fold (\<lambda>(i, e). connect_edge i e) ies ns). node_packs n = []"
    if "\<forall>n\<in>snd ` set ns. node_packs n = []" for ies ns
    using that
  proof (induction ies arbitrary: ns)
    case (Cons ie ies)
    have "\<forall>n\<in>snd ` set (connect_edge (fst ie) (snd ie) ns). node_packs n = []"
      by (rule connect_edge_all [OF Cons.prems]) (simp_all add: node_packs_def empty_node_def)
    from Cons.IH [OF this] show ?case by (simp add: case_prod_unfold)
  qed simp
  moreover have "\<forall>n\<in>snd ` set ?ns. node_packs n = []" by (auto simp: node_packs_def empty_node_def)
  ultimately have "\<forall>n\<in>snd ` set (bus_nodes b). node_packs n = []" unfolding p(1) by blast
  then have "concat (map (node_packs \<circ> snd) (bus_nodes b)) = []" by auto
  moreover have "concat (map (port_packs \<circ> snd) (bus_ports b)) = []" unfolding p(2) by (simp add: port_packs_def rep o_def)
  moreover have "concat (map edge_packs (bus_edges b)) = []" unfolding p(3) by (auto simp: edge_packs_def rep)
  ultimately have "bus_packs b = {#}" by (simp only: bus_packs_def nodes_mset_def edges_mset_def ports_mset_def) simp
  moreover have "ports_len (length widths) (bus_ports b)" unfolding p(2) by (auto simp: ports_len_def)
  ultimately show ?thesis using bus_new_wf [OF b] p(4) by (simp add: bus_inv_def)
qed

lemma bus_inv_send:
  assumes "bus_inv b" and "bus_send t b port dst ch data = Inr (True, b')"
  shows "bus_inv b' \<and> bus_packs b' = bus_packs b + mset (sent_packs t b port dst ch data)"
proof -
  obtain p where p: "map_of (bus_ports b) port = Some p" and e: "send_buf p ! unat ch = []"
    and c: "unat ch < length (cha_widths b)"
    and nz: "cha_widths b ! unat ch \<noteq> 0"
    using assms(2) by (auto simp: bus_send_def split: if_splits option.splits)
  let ?p = "p\<lparr>send_buf := (send_buf p)[unat ch := sent_packs t b port dst ch data]\<rparr>"
  have b': "bus_nodes b' = bus_nodes b" "bus_edges b' = bus_edges b" "cha_widths b' = cha_widths b"
    "bus_ports b' = AList.update port ?p (bus_ports b)"
    using assms(2) p e c nz by (auto simp: bus_send_def sent_packs_def Let_def)
  have len: "length (recv_buf p) = length (cha_widths b)" "length (send_buf p) = length (cha_widths b)"
    using assms(1) ports_len_lookup [OF _ p] by (auto simp: bus_inv_def)
  have "mset (port_packs ?p) = mset (port_packs p) + mset (sent_packs t b port dst ch data)"
    using mset_concat_update [of "unat ch" "send_buf p" id "sent_packs t b port dst ch data"] c len e
    by (simp add: port_packs_def)
  then have "ports_mset (bus_ports b') = ports_mset (bus_ports b) + mset (sent_packs t b port dst ch data)"
    using ports_mset_update [OF p, of ?p] by (simp add: b')
  moreover have "bus_inv b'"
    using assms(1) len by (auto simp: bus_inv_def bus_wf_def b' intro!: ports_len_update)
  ultimately show ?thesis by (simp add: bus_packs_def b')
qed

lemma bus_inv_recv:
  assumes "bus_inv b" and "bus_recv t b port ch buf = Inr (True, data, b')"
  shows "bus_inv b' \<and> bus_packs b = bus_packs b' + mset (received_packs b port ch)"
proof -
  obtain p h tl where p: "map_of (bus_ports b) port = Some p" and r: "recv_buf p ! unat ch = h # tl"
    and c: "unat ch < length (cha_widths b)"
    using assms(2) by (auto simp: bus_recv_def split: if_splits option.splits list.splits)
  obtain buf' taken rest where l: "recv_loop 0 (unat (pk_cnt h)) (cha_widths b ! unat ch) 0
      (vec_resize (unat (ALIGN (pk_len h) (cha_widths b ! unat ch))) buf) (h # tl) = Inr (buf', taken, rest)"
    and b: "b' = (fold (count_pack t) taken b)\<lparr>bus_ports := AList.update port (p\<lparr>recv_buf := (recv_buf p)[unat ch := rest]\<rparr>) (bus_ports b)\<rparr>"
    using assms(2) p r c by (auto simp: bus_recv_def Let_def split: if_splits sum.splits)
  let ?p = "p\<lparr>recv_buf := (recv_buf p)[unat ch := rest]\<rparr>"
  have cw: "cha_widths (fold (count_pack t) ms b) = cha_widths b" for ms
    by (induction ms arbitrary: b) (simp_all add: count_pack_def)
  note fr = count_packs_frame [of t taken b]
  have len: "length (recv_buf p) = length (cha_widths b)" "length (send_buf p) = length (cha_widths b)"
    using assms(1) ports_len_lookup [OF _ p] by (auto simp: bus_inv_def)
  have tk: "taken = received_packs b port ch" "h # tl = taken @ rest"
    using recv_loop_takes [OF l] p r by (simp_all add: received_packs_def port_recv_def)
  have "mset (port_packs ?p) + mset taken = mset (port_packs p)"
    using mset_concat_update [of "unat ch" "recv_buf p" id rest] c len tk(2) r
    by (simp add: port_packs_def ac_simps)
  then have X: "mset (port_packs p) = mset (port_packs ?p) + mset taken" by simp
  have "bus_ports b' = AList.update port ?p (bus_ports b)" by (simp add: b)
  then have "ports_mset (bus_ports b') + mset (port_packs p) = ports_mset (bus_ports b) + mset (port_packs ?p)"
    using ports_mset_update [OF p, of ?p] by simp
  then have "ports_mset (bus_ports b') + mset taken + mset (port_packs ?p) = ports_mset (bus_ports b) + mset (port_packs ?p)"
    unfolding X by (simp only: ac_simps)
  then have "ports_mset (bus_ports b') + mset taken = ports_mset (bus_ports b)" by (rule add_right_imp_eq)
  moreover have "bus_inv b'"
    using assms(1) len fr cw by (auto simp: bus_inv_def bus_wf_def b intro!: ports_len_update)
  ultimately show ?thesis using fr tk(1) by (simp add: bus_packs_def b ac_simps)
qed

lemma bus_inv_tick:
  assumes "bus_inv b" and "bus_apply_next_tick b = Inr b'"
  shows "bus_inv b' \<and> bus_packs b' = bus_packs b"
proof -
  obtain ns es ps where p: "process_nodes (bus_route b) (route_latency b) (bus_nodes b) (bus_edges b) (bus_ports b) = Inr (ns, es, ps)"
    using assms(2) by (auto simp: bus_apply_next_tick_def split: sum.splits)
  then have "b' = b\<lparr>bus_nodes := ns, bus_edges := map (process_edge (bus_width b)) es, bus_ports := ps\<rparr>"
    using assms(2) by (simp add: bus_apply_next_tick_def)
  then show ?thesis
    using process_nodes_ports_len [OF p] tick_conserves [OF _ assms(2)] assms(1) by (simp add: bus_inv_def)
qed

text \<open>
  C13. No packet is lost, duplicated or invented: in every state a bus can reach by accepted sends,
  completed receives and ticks, the packets that were put in are exactly the packets that were
  taken out together with those still held by ports, nodes and edges.
\<close>

theorem bus_packets_conserved:
  assumes "bus_reach b ins outs"
  shows "ins = outs + bus_packs b"
proof -
  have "bus_inv b \<and> ins = outs + bus_packs b"
    using assms
  proof (induction rule: bus_reach.induct)
    case (reach_new wid latency port_ids port_to_node widths rt b)
    then show ?case using bus_inv_new by simp
  next
    case (reach_send b ins outs t port dst ch data b')
    then show ?case using bus_inv_send [of b t port dst ch data b'] by (simp add: add.assoc)
  next
    case (reach_recv b ins outs t port ch buf data b')
    then show ?case using bus_inv_recv [of b t port ch buf data b'] by (simp add: ac_simps)
  next
    case (reach_tick b ins outs b')
    then show ?case using bus_inv_tick [of b b'] by simp
  qed
  then show ?thesis ..
qed

definition ring_start :: "bus_error + SymBus" where
  "ring_start = (case genroute_double_ring [1, 3] of
      None \<Rightarrow> Inl BusAssert
    | Some rt \<Rightarrow> bus_new 64 3 [10, 30] [1, 3] [2] rt)"

definition ring_accepts :: bool where
  "ring_accepts = (case ring_start of
      Inl e \<Rightarrow> False
    | Inr b \<Rightarrow> (case bus_send 0 b 10 30 0 [1, 2, 3] of
        Inl e \<Rightarrow> False
      | Inr (ok, b1) \<Rightarrow> ok \<and> (case bus_apply_next_tick b1 of Inl e \<Rightarrow> False | Inr b2 \<Rightarrow> True)))"

lemma bus_packets_conserved_witness:
  "\<exists>b b1 b2. ring_start = Inr b \<and> bus_send 0 b 10 30 0 [1, 2, 3] = Inr (True, b1) \<and>
    bus_apply_next_tick b1 = Inr b2 \<and> bus_packs b2 = mset (sent_packs 0 b 10 30 0 [1, 2, 3])"
proof -
  have acc: "ring_accepts" by code_simp
  then obtain b b1 b2 where r: "ring_start = Inr b" "bus_send 0 b 10 30 0 [1, 2, 3] = Inr (True, b1)"
    "bus_apply_next_tick b1 = Inr b2"
    unfolding ring_accepts_def by (auto split: sum.split_asm prod.split_asm) (metis old.sum.exhaust)+
  obtain rt where "bus_new 64 3 [10, 30] [1, 3] [2] rt = Inr b"
    using r(1) by (auto simp: ring_start_def split: option.splits)
  from reach_tick [OF reach_send [OF reach_new [OF this] r(2)] r(3)]
  show ?thesis using r bus_packets_conserved by fastforce
qed

section \<open>Reassembly at the target node\<close>

text \<open>The packets of one message, in order: numbered from 0, all with the same id, count and address.\<close>

definition complete_msg :: "u32 \<Rightarrow> MsgPack list \<Rightarrow> bool" where
  "complete_msg x ms \<longleftrightarrow> ms \<noteq> [] \<and> length ms < 2 ^ 16 \<and>
     (\<forall>i<length ms. pk_idx (ms ! i) = of_nat i \<and> pk_cnt (ms ! i) = of_nat (length ms) \<and> pk_xmtid (ms ! i) = x \<and>
        pk_dst (ms ! i) = pk_dst (hd ms) \<and> pk_cha (ms ! i) = pk_cha (hd ms))"

fun deliver_all :: "MsgPack list \<Rightarrow> NodeStruct \<Rightarrow> (u32 \<times> PortStruct) list
    \<Rightarrow> bus_error + (NodeStruct \<times> (u32 \<times> PortStruct) list)" where
  "deliver_all [] n ps = Inr (n, ps)"
| "deliver_all (m # ms) n ps =
     (case node_deliver m n ps of Inl e \<Rightarrow> Inl e | Inr (n', ps') \<Rightarrow> deliver_all ms n' ps')"

definition rbuf :: "(u32 \<times> PortStruct) list \<Rightarrow> u32 \<Rightarrow> u32 \<Rightarrow> MsgPack list option" where
  "rbuf ps d c = (case map_of ps d of None \<Rightarrow> None
     | Some p \<Rightarrow> if unat c < length (recv_buf p) then Some (recv_buf p ! unat c) else None)"

definition sorted_msg :: "MsgPack list \<Rightarrow> bool" where
  "sorted_msg ms \<longleftrightarrow> sorted_wrt (\<lambda>p q. pk_idx p < pk_idx q) ms"

lemma complete_msg_sorted: "complete_msg x ms \<Longrightarrow> sorted_msg ms"
proof -
  assume c: "complete_msg x ms"
  have "pk_idx (ms ! i) < pk_idx (ms ! j)" if "i < j" "j < length ms" for i j
  proof -
    have "take_bit 16 i = i" "take_bit 16 j = j"
      using c that by (simp_all add: complete_msg_def take_bit_nat_eq_self)
    then have "(of_nat i :: u16) < of_nat j" using that by (simp add: word_less_nat_alt unsigned_of_nat)
    then show ?thesis using c that by (simp add: complete_msg_def)
  qed
  then show ?thesis by (simp add: sorted_msg_def sorted_wrt_iff_nth_less)
qed

lemma order_insert_filter:
  "sorted_msg ms \<Longrightarrow> m \<in> set ms \<Longrightarrow> m \<notin> S \<Longrightarrow>
   order_insert m (filter (\<lambda>p. p \<in> S) ms) = filter (\<lambda>p. p \<in> insert m S) ms"
proof (induction ms)
  case Nil
  then show ?case by simp
next
  case (Cons q ms)
  have s: "sorted_msg ms" "\<forall>p\<in>set ms. pk_idx q < pk_idx p" using Cons.prems(1) by (simp_all add: sorted_msg_def)
  show ?case
  proof (cases "q = m")
    case True
    then have nm: "m \<notin> set ms" using s(2) by auto
    have "order_insert m l = m # l" if "\<forall>p\<in>set l. pk_idx m < pk_idx p" for l
      using that by (cases l) auto
    moreover have "filter (\<lambda>p. p = m \<or> p \<in> S) ms = filter (\<lambda>p. p \<in> S) ms"
      using nm by (intro filter_cong) auto
    ultimately show ?thesis using True Cons.prems(3) s(2) by simp
  next
    case False
    then have "m \<in> set ms" "pk_idx q < pk_idx m" using Cons.prems(2) s(2) by auto
    with Cons.IH [OF s(1) _ Cons.prems(3)] False show ?thesis by simp
  qed
qed

lemma push_recv_rbuf:
  assumes "dst \<in> set (node_ports n)" and "rbuf ps dst cha = Some l"
  shows "\<exists>ps'. push_recv n dst cha ms ps = Inr ps' \<and>
    (\<forall>d c. rbuf ps' d c = (if d = dst \<and> c = cha then Some (l @ ms) else rbuf ps d c))"
proof -
  obtain p where p: "map_of ps dst = Some p" "unat cha < length (recv_buf p)" "recv_buf p ! unat cha = l"
    using assms(2) by (auto simp: rbuf_def split: option.splits if_splits)
  let ?p = "p\<lparr>recv_buf := (recv_buf p)[unat cha := l @ ms]\<rparr>"
  have "push_recv n dst cha ms ps = Inr (AList.update dst ?p ps)"
    using assms(1) p by (simp add: push_recv_def)
  moreover have "unat cha = unat c \<longleftrightarrow> cha = c" for c :: u32 by (metis word_unat_eq_iff)
  then have "rbuf (AList.update dst ?p ps) d c = (if d = dst \<and> c = cha then Some (l @ ms) else rbuf ps d c)" for d c
    using p by (auto simp: rbuf_def update_conv' nth_list_update split: option.splits)
  ultimately show ?thesis by blast
qed

definition msg_part :: "(u32 \<Rightarrow> MsgPack list) \<Rightarrow> MsgPack set \<Rightarrow> u32 \<Rightarrow> MsgPack list" where
  "msg_part msgs S x = filter (\<lambda>p. p \<in> S) (msgs x)"

definition msgs_for :: "(u32 \<Rightarrow> MsgPack list) \<Rightarrow> u32 \<Rightarrow> u32 \<Rightarrow> u32 list \<Rightarrow> MsgPack list" where
  "msgs_for msgs d c Y = concat (map msgs (filter (\<lambda>x. pk_dst (hd (msgs x)) = d \<and> pk_cha (hd (msgs x)) = c) Y))"

text \<open>
  The state after the packets of the set S have arrived: the order buffers hold the incomplete
  messages sorted, the receive buffers have got the complete ones as wholes, in the order Y.
\<close>

definition arrived :: "(u32 \<Rightarrow> MsgPack list) \<Rightarrow> u32 set \<Rightarrow> MsgPack set \<Rightarrow> u32 list
    \<Rightarrow> NodeStruct \<Rightarrow> (u32 \<times> PortStruct) list \<Rightarrow> NodeStruct \<Rightarrow> (u32 \<times> PortStruct) list \<Rightarrow> bool" where
  "arrived msgs X S Y n0 ps0 n ps \<longleftrightarrow>
     (\<forall>x. map_of (order_buf n) x =
        (if x \<in> X then (let l = msg_part msgs S x in if l = [] \<or> l = msgs x then None else Some l)
         else map_of (order_buf n0) x)) \<and>
     node_ports n = node_ports n0 \<and> distinct Y \<and> set Y = {x \<in> X. msg_part msgs S x = msgs x} \<and>
     (\<forall>d c l. rbuf ps0 d c = Some l \<longrightarrow> rbuf ps d c = Some (l @ msgs_for msgs d c Y))"

lemma msg_part_other: "m \<notin> set (msgs x) \<Longrightarrow> msg_part msgs (insert m S) x = msg_part msgs S x"
  unfolding msg_part_def by (intro filter_cong) auto

lemma deliver_step:
  assumes inv: "arrived msgs X S Y n0 ps0 n ps" and X: "\<forall>x\<in>X. complete_msg x (msgs x)"
    and x: "x \<in> X" and m: "m \<in> set (msgs x)" "m \<notin> S"
    and dst: "pk_dst (hd (msgs x)) \<in> set (node_ports n0)"
    and buf: "rbuf ps0 (pk_dst (hd (msgs x))) (pk_cha (hd (msgs x))) = Some l0"
  shows "\<exists>n' ps' Y'. node_deliver m n ps = Inr (n', ps') \<and> arrived msgs X (insert m S) Y' n0 ps0 n' ps'"
proof -
  let ?ms = "msgs x" and ?d = "pk_dst (hd (msgs x))" and ?c = "pk_cha (hd (msgs x))"
  note c = X [rule_format, OF x]
  obtain i where i: "i < length ?ms" "m = ?ms ! i" using m(1) by (metis in_set_conv_nth)
  have f: "pk_cnt m = of_nat (length ?ms)" "pk_xmtid m = x" "pk_dst m = ?d" "pk_cha m = ?c"
    using c i unfolding complete_msg_def by blast+
  have cnt: "unat (pk_cnt m) = length ?ms"
    using c by (simp add: f(1) complete_msg_def unsigned_of_nat take_bit_nat_eq_self)
  have other: "msg_part msgs (insert m S) y = msg_part msgs S y" if "y \<in> X" "y \<noteq> x" for y
  proof (rule msg_part_other)
    show "m \<notin> set (msgs y)"
    proof
      assume "m \<in> set (msgs y)"
      then obtain j where "j < length (msgs y)" "m = msgs y ! j" by (metis in_set_conv_nth)
      then have "pk_xmtid m = y" using X [rule_format, OF that(1)] by (simp add: complete_msg_def)
      with f(2) that(2) show False by simp
    qed
  qed
  have notall: "msg_part msgs S x \<noteq> ?ms"
    using m by (auto simp: msg_part_def filter_id_conv)
  have l: "order_insert m (msg_part msgs S x) = msg_part msgs (insert m S) x"
    unfolding msg_part_def by (rule order_insert_filter [OF complete_msg_sorted [OF c] m])
  have ne: "msg_part msgs (insert m S) x \<noteq> []" using m(1) by (auto simp: msg_part_def filter_empty_conv)
  have ob: "(case map_of (order_buf n) x of None \<Rightarrow> [] | Some l \<Rightarrow> l) = msg_part msgs S x"
    using inv x notall by (simp add: arrived_def Let_def)
  have lencomp: "length (msg_part msgs (insert m S) x) = length ?ms \<longleftrightarrow> msg_part msgs (insert m S) x = ?ms"
    unfolding msg_part_def by (metis length_filter_less filter_id_conv nat_neq_iff)
  have nY: "x \<notin> set Y" using inv notall by (simp add: arrived_def)
  let ?np = "if unat (pk_cnt m) = unat (pk_idx m) + 1 then n\<lparr>passed_packs := passed_packs n + 1\<rparr> else n"
  have np: "node_ports ?np = node_ports n0" "order_buf ?np = order_buf n" using inv by (simp_all add: arrived_def)
  have rb: "rbuf ps ?d ?c = Some (l0 @ msgs_for msgs ?d ?c Y)" using inv buf by (simp add: arrived_def)
  obtain ps' where ps': "push_recv n ?d ?c ?ms ps = Inr ps'"
    "\<And>d c. rbuf ps' d c = (if d = ?d \<and> c = ?c then Some ((l0 @ msgs_for msgs ?d ?c Y) @ ?ms) else rbuf ps d c)"
    using push_recv_rbuf [of ?d n ps ?c _ ?ms, OF _ rb] dst inv by (auto simp: arrived_def)
  have Ycomplete: "msg_part msgs (insert m S) y = msgs y \<longleftrightarrow> y = x \<or> msg_part msgs S y = msgs y"
    if "y \<in> X" "msg_part msgs (insert m S) x = ?ms" for y
    using that other [of y] by (cases "y = x") simp_all
  have Ywait: "msg_part msgs (insert m S) y = msgs y \<longleftrightarrow> msg_part msgs S y = msgs y"
    if "y \<in> X" "msg_part msgs (insert m S) x \<noteq> ?ms" for y
    using that other [of y] notall by (cases "y = x") simp_all
  have complete: "arrived msgs X (insert m S) (Y @ [x]) n0 ps0 n' ps'"
    if "msg_part msgs (insert m S) x = ?ms" "node_ports n' = node_ports n0"
      "map_of (order_buf n') = (map_of (order_buf n))(x := None)" for n'
    unfolding arrived_def
  proof (intro conjI allI impI)
    fix y show "map_of (order_buf n') y =
        (if y \<in> X then let l = msg_part msgs (insert m S) y in if l = [] \<or> l = msgs y then None else Some l
         else map_of (order_buf n0) y)"
      using inv that x other [of y] by (cases "y = x") (simp_all add: arrived_def)
  next
    show "distinct (Y @ [x])" using inv nY by (simp add: arrived_def)
    show "set (Y @ [x]) = {y \<in> X. msg_part msgs (insert m S) y = msgs y}"
      using inv Ycomplete [OF _ that(1)] x by (auto simp: arrived_def)
    fix d c l assume "rbuf ps0 d c = Some l"
    then show "rbuf ps' d c = Some (l @ msgs_for msgs d c (Y @ [x]))"
      using inv buf ps'(2) [of d c] by (auto simp: arrived_def msgs_for_def)
  qed (rule that(2))
  show ?thesis
  proof (cases "pk_cnt m \<le> 1")
    case True
    then have "length ?ms \<le> 1" using cnt by (simp add: word_le_nat_alt)
    then have one: "?ms = [m]" using i by (cases ?ms) auto
    have "push_recv n (pk_dst m) (pk_cha m) [m] ps = Inr ps'" using ps'(1) unfolding one by simp
    then have "node_deliver m n ps = Inr (?np, ps')"
      using True by (simp add: node_deliver_def Let_def)
    moreover have "arrived msgs X (insert m S) (Y @ [x]) n0 ps0 ?np ps'"
    proof (rule complete)
      show "msg_part msgs (insert m S) x = ?ms" by (simp add: msg_part_def one)
      have "msg_part msgs S x = []" using m(2) by (simp add: msg_part_def one)
      then have "map_of (order_buf n) x = None" using inv x by (simp add: arrived_def)
      then show "map_of (order_buf ?np) = (map_of (order_buf n))(x := None)" using np by auto
    qed (rule np)
    ultimately show ?thesis by blast
  next
    case False
    show ?thesis
    proof (cases "msg_part msgs (insert m S) x = ?ms")
      case True
      have "node_deliver m n ps = Inr (?np\<lparr>order_buf := AList.delete x (order_buf n)\<rparr>, ps')"
        using False True ps'(1) by (simp add: node_deliver_def Let_def f(2-4) ob l cnt)
      moreover have "arrived msgs X (insert m S) (Y @ [x]) n0 ps0 (?np\<lparr>order_buf := AList.delete x (order_buf n)\<rparr>) ps'"
        using np by (intro complete True) (simp_all add: delete_conv')
      ultimately show ?thesis by blast
    next
      case nc: False
      let ?n' = "?np\<lparr>order_buf := AList.update x (msg_part msgs (insert m S) x) (order_buf n)\<rparr>"
      have "node_deliver m n ps = Inr (?n', ps)"
        using False nc lencomp by (simp add: node_deliver_def Let_def f(2-4) ob l cnt)
      moreover have "arrived msgs X (insert m S) Y n0 ps0 ?n' ps"
        unfolding arrived_def
      proof (intro conjI allI impI)
        fix y show "map_of (order_buf ?n') y =
            (if y \<in> X then let l = msg_part msgs (insert m S) y in if l = [] \<or> l = msgs y then None else Some l
             else map_of (order_buf n0) y)"
          using inv x ne nc other [of y] by (cases "y = x") (simp_all add: arrived_def update_conv')
      next
        show "node_ports ?n' = node_ports n0" using np by simp
        show "distinct Y" using inv by (simp add: arrived_def)
        show "set Y = {y \<in> X. msg_part msgs (insert m S) y = msgs y}"
          using inv Ywait [OF _ nc] by (auto simp: arrived_def)
        fix d c l assume "rbuf ps0 d c = Some l"
        then show "rbuf ps d c = Some (l @ msgs_for msgs d c Y)" using inv by (simp add: arrived_def)
      qed
      ultimately show ?thesis by blast
    qed
  qed
qed

lemma deliver_all_arrived:
  assumes "arrived msgs X S Y n0 ps0 n ps" and "\<forall>x\<in>X. complete_msg x (msgs x)"
    and "\<forall>x\<in>X. pk_dst (hd (msgs x)) \<in> set (node_ports n0) \<and> rbuf ps0 (pk_dst (hd (msgs x))) (pk_cha (hd (msgs x))) \<noteq> None"
    and "distinct arr" and "set arr \<inter> S = {}" and "\<forall>m\<in>set arr. \<exists>x\<in>X. m \<in> set (msgs x)"
  shows "\<exists>n' ps' Y'. deliver_all arr n ps = Inr (n', ps') \<and> arrived msgs X (S \<union> set arr) Y' n0 ps0 n' ps'"
  using assms
proof (induction arr arbitrary: S Y n ps)
  case Nil
  then show ?case by auto
next
  case (Cons m arr)
  obtain x where x: "x \<in> X" "m \<in> set (msgs x)" using Cons.prems(6) by auto
  obtain l0 where l0: "rbuf ps0 (pk_dst (hd (msgs x))) (pk_cha (hd (msgs x))) = Some l0"
    using Cons.prems(3) x(1) by blast
  obtain n1 ps1 Y1 where 1: "node_deliver m n ps = Inr (n1, ps1)" "arrived msgs X (insert m S) Y1 n0 ps0 n1 ps1"
    using deliver_step [OF Cons.prems(1,2) x _ _ l0] Cons.prems(3,5) x(1) by auto
  have "\<exists>n' ps' Y'. deliver_all arr n1 ps1 = Inr (n', ps') \<and> arrived msgs X (insert m S \<union> set arr) Y' n0 ps0 n' ps'"
    using Cons.prems by (intro Cons.IH [OF 1(2)]) auto
  then show ?case using 1(1) by auto
qed

lemma distinct_messages:
  assumes "distinct X" and "\<forall>x\<in>set X. complete_msg x (msgs x)"
  shows "distinct (concat (map msgs X))"
  using assms
proof (induction X)
  case Nil
  then show ?case by simp
next
  case (Cons x X)
  have id: "pk_xmtid m = y" if "y \<in> set (x # X)" "m \<in> set (msgs y)" for y m
    using Cons.prems(2) that by (metis complete_msg_def in_set_conv_nth)
  have "distinct (msgs x)"
    using complete_msg_sorted [of x "msgs x"] Cons.prems(2)
    by (auto simp: sorted_msg_def sorted_wrt_iff_nth_less distinct_conv_nth) (metis less_irrefl nat_neq_iff)
  moreover have "set (msgs x) \<inter> set (concat (map msgs X)) = {}"
    using id Cons.prems(1) by auto
  ultimately show ?case using Cons by simp
qed

text \<open>
  C14. The target node reassembles messages whatever the order of arrival: when the packets of any
  set of messages arrive interleaved and out of order, none is refused, the order buffer is left
  as it was, and every receive buffer has got exactly its messages, each as one block in packet
  order, in some order of the messages.
\<close>

theorem bus_reassembles:
  assumes "distinct X" and "mset arr = mset (concat (map msgs X))"
    and "\<forall>x\<in>set X. complete_msg x (msgs x) \<and> map_of (order_buf n) x = None \<and>
      pk_dst (hd (msgs x)) \<in> set (node_ports n) \<and> rbuf ps (pk_dst (hd (msgs x))) (pk_cha (hd (msgs x))) \<noteq> None"
  shows "\<exists>n' ps' Y. deliver_all arr n ps = Inr (n', ps') \<and> mset Y = mset X \<and>
    map_of (order_buf n') = map_of (order_buf n) \<and>
    (\<forall>d c l. rbuf ps d c = Some l \<longrightarrow> rbuf ps' d c = Some (l @ concat (map msgs
       (filter (\<lambda>x. pk_dst (hd (msgs x)) = d \<and> pk_cha (hd (msgs x)) = c) Y))))"
proof -
  have c: "\<forall>x\<in>set X. complete_msg x (msgs x)" using assms(3) by blast
  have sa: "set arr = set (concat (map msgs X))" using assms(2) by (metis mset_eq_setD)
  have d: "distinct arr" using distinct_messages [OF assms(1) c] assms(2) by (metis mset_eq_imp_distinct_iff)
  have init: "arrived msgs (set X) {} [] n ps n ps"
    using assms(3) by (auto simp: arrived_def msg_part_def msgs_for_def complete_msg_def)
  obtain n' ps' Y where r: "deliver_all arr n ps = Inr (n', ps')" "arrived msgs (set X) (set arr) Y n ps n' ps'"
    using deliver_all_arrived [OF init c _ d] assms(3) sa by auto
  have all: "msg_part msgs (set arr) x = msgs x" if "x \<in> set X" for x
    using that sa by (auto simp: msg_part_def filter_id_conv)
  have "set Y = set X" "distinct Y" using r(2) all by (auto simp: arrived_def)
  then have "mset Y = mset X" using assms(1) by (metis set_eq_iff_mset_eq_distinct)
  moreover have "map_of (order_buf n') = map_of (order_buf n)"
  proof
    fix x show "map_of (order_buf n') x = map_of (order_buf n) x"
      using r(2) all [of x] assms(3) by (cases "x \<in> set X") (simp_all add: arrived_def)
  qed
  ultimately show ?thesis using r by (auto simp: arrived_def msgs_for_def)
qed

section \<open>Cutting and joining a message\<close>

lemma send_packs_count:
  fixes cwid :: u32
  assumes "0 < unat cwid" and "length data + unat cwid < 2 ^ 32"
  shows "unat ((ucast (ALIGN (of_nat (length data) :: u64) (ucast cwid)) :: u32) div cwid)
    = (length data + unat cwid - 1) div unat cwid"
proof -
  let ?L = "of_nat (length data) :: u64" and ?w = "ucast cwid :: u64"
  have L: "unat ?L = length data" using assms(2) by (simp add: unsigned_of_nat take_bit_nat_eq_self)
  have w: "unat ?w = unat cwid"
  proof -
    have "unat cwid < 2 ^ 64" using assms(2) by simp
    then show ?thesis by (simp add: unsigned_ucast_eq take_bit_nat_eq_self)
  qed
  have a: "unat (ALIGN ?L ?w) = unat cwid * ((length data + unat cwid - 1) div unat cwid)"
    using unat_ALIGN [of ?w ?L] assms by (simp add: L w)
  moreover have "unat cwid * ((length data + unat cwid - 1) div unat cwid) < 2 ^ 32"
    using nat_ceil_div_bounds(2) [OF assms(1), of "length data"] assms(2) by linarith
  ultimately have "unat (ucast (ALIGN ?L ?w) :: u32) = unat cwid * ((length data + unat cwid - 1) div unat cwid)"
    by (simp add: unsigned_ucast_eq take_bit_nat_eq_self)
  then show ?thesis using assms(1) by (simp add: unat_div)
qed

lemma concat_chunks:
  fixes data :: "u8 list"
  assumes "0 < cw" and "n = (length data + cw - 1) div cw" and "k \<le> n"
  shows "concat (map (\<lambda>i. let c = take (min cw (length data - i * cw)) (drop (i * cw) data) in c @ replicate (cw - length c) 0) [0..<k])
    = take (k * cw) (data @ replicate (n * cw - length data) 0)"
  using assms(3)
proof (induction k)
  case 0
  then show ?case by simp
next
  case (Suc k)
  let ?D = "data @ replicate (n * cw - length data) 0"
  have b: "length data \<le> n * cw" "n * cw < length data + cw"
    using nat_ceil_div_bounds [OF assms(1), of "length data"] assms(2) by (simp_all add: mult.commute)
  have k: "k * cw < length data"
  proof -
    have "Suc k * cw \<le> n * cw" using Suc.prems by (rule mult_le_mono1)
    with b show ?thesis by simp
  qed
  have k1: "k * cw + cw \<le> n * cw" using mult_le_mono1 [OF Suc.prems, of cw] by simp
  let ?c = "take (min cw (length data - k * cw)) (drop (k * cw) data)"
  have "take cw (drop (k * cw) ?D) = take cw (drop (k * cw) data) @ replicate (cw - (length data - k * cw)) 0"
    using k k1 by (auto simp: min_def)
  moreover have "?c = take cw (drop (k * cw) data)" by (simp add: min_def)
  moreover have "cw - length ?c = cw - (length data - k * cw)" by (simp add: min_def)
  ultimately have c: "?c @ replicate (cw - length ?c) 0 = take cw (drop (k * cw) ?D)" by simp
  have "take (Suc k * cw) ?D = take (k * cw) ?D @ take cw (drop (k * cw) ?D)"
    by (simp only: mult_Suc add.commute [of cw] take_add)
  with Suc.IH Suc.prems c show ?case by (simp add: Let_def del: take_append drop_append)
qed

lemma length_pack_data: "length (pack_data cwid data pos) = unat cwid"
  by (simp add: pack_data_def Let_def)

lemma recv_loop_block:
  fixes cwid :: u32
  assumes "\<forall>j<length ms. pk_idx (ms ! j) = of_nat (i + j) \<and> length (pk_data (ms ! j)) = unat cwid"
    and "i + length ms < 2 ^ 16" and "unat pos = i * unat cwid" and "(i + length ms) * unat cwid < 2 ^ 32"
    and "length buf = (i + length ms) * unat cwid"
  shows "recv_loop i (length ms) cwid pos buf (ms @ rest) = Inr (take (i * unat cwid) buf @ concat (map pk_data ms), ms, rest)"
  using assms
proof (induction ms arbitrary: i pos buf)
  case Nil
  then show ?case by simp
next
  case (Cons m ms)
  let ?cw = "unat cwid"
  have m: "pk_idx m = of_nat i" "length (pk_data m) = ?cw" using Cons.prems(1) by force+
  have idx: "unat (pk_idx m) = i" using m(1) Cons.prems(2) by (simp add: unsigned_of_nat take_bit_nat_eq_self)
  have b: "i * ?cw + ?cw \<le> length buf" using Cons.prems(5) by simp
  let ?buf = "take (i * ?cw) buf @ pk_data m @ drop (i * ?cw + ?cw) buf"
  have c: "copy_at (unat pos) (take ?cw (pk_data m)) buf = Some ?buf"
    using b m(2) Cons.prems(3) by (simp add: copy_at_def)
  have p: "unat (pos + cwid) = Suc i * ?cw"
  proof -
    have "Suc i * ?cw \<le> (i + length (m # ms)) * ?cw" by (intro mult_le_mono1) simp
    moreover have "unat pos + ?cw = Suc i * ?cw" using Cons.prems(3) by simp
    ultimately have "unat pos + ?cw < 2 ^ 32" using Cons.prems(4) by linarith
    then show ?thesis using Cons.prems(3) by (simp add: unat_word_ariths)
  qed
  have "recv_loop (Suc i) (length ms) cwid (pos + cwid) ?buf (ms @ rest)
      = Inr (take (Suc i * ?cw) ?buf @ concat (map pk_data ms), ms, rest)"
  proof (rule Cons.IH)
    show "\<forall>j<length ms. pk_idx (ms ! j) = of_nat (Suc i + j) \<and> length (pk_data (ms ! j)) = ?cw"
    proof (intro allI impI)
      fix j assume "j < length ms"
      then show "pk_idx (ms ! j) = of_nat (Suc i + j) \<and> length (pk_data (ms ! j)) = ?cw"
        using Cons.prems(1) [rule_format, of "Suc j"] by (simp add: ac_simps)
    qed
    show "length ?buf = (Suc i + length ms) * ?cw" using b m(2) Cons.prems(5) by (simp add: min_def)
  qed (use Cons.prems p in simp_all)
  moreover have "take (Suc i * ?cw) ?buf = take (i * ?cw) buf @ pk_data m"
    using b m(2) by (simp add: min_def)
  ultimately show ?case using idx c by simp
qed

lemma send_packs_message:
  fixes cwid :: u32
  assumes "data \<noteq> []" and "0 < unat cwid" and "length data + unat cwid < 2 ^ 32"
    and "(length data + unat cwid - 1) div unat cwid < 2 ^ 16"
  shows "complete_msg xmt (send_packs src dst tgt ch xmt cwid data tick)"
    and "length (send_packs src dst tgt ch xmt cwid data tick) = (length data + unat cwid - 1) div unat cwid"
    and "concat (map pk_data (send_packs src dst tgt ch xmt cwid data tick))
      = data @ replicate ((length data + unat cwid - 1) div unat cwid * unat cwid - length data) 0"
    and "\<forall>m\<in>set (send_packs src dst tgt ch xmt cwid data tick). pk_len m = of_nat (length data) \<and>
      pk_dst m = dst \<and> pk_tgt m = tgt \<and> pk_cha m = ch \<and> length (pk_data m) = unat cwid"
proof -
  let ?cw = "unat cwid" and ?n = "(length data + unat cwid - 1) div unat cwid"
  let ?cnt = "(ucast (ALIGN (of_nat (length data) :: u64) (ucast cwid)) :: u32) div cwid"
  have cnt: "unat ?cnt = ?n" by (rule send_packs_count [OF assms(2,3)])
  have cnt16: "(ucast ?cnt :: u16) = of_nat ?n" by (metis cnt of_nat_unat)
  note b = nat_ceil_div_bounds [OF assms(2), of "length data"]
  have n: "0 < ?n" using b(1) assms(1) by (cases ?n) auto
  show len: "length (send_packs src dst tgt ch xmt cwid data tick) = ?n"
    by (simp add: send_packs_def Let_def cnt)
  show "complete_msg xmt (send_packs src dst tgt ch xmt cwid data tick)"
  proof -
    have ne: "send_packs src dst tgt ch xmt cwid data tick \<noteq> []" using len n by auto
    have "pk_dst (hd (send_packs src dst tgt ch xmt cwid data tick)) = dst \<and>
      pk_cha (hd (send_packs src dst tgt ch xmt cwid data tick)) = ch"
      using hd_in_set [OF ne] by (auto simp: send_packs_def Let_def)
    then show ?thesis
      using ne len assms(4) by (auto simp: complete_msg_def) (auto simp: send_packs_def Let_def cnt cnt16)
  qed
  have pos: "unat (of_nat i * cwid) = i * ?cw" if "i < ?n" for i
  proof -
    have "i * ?cw \<le> ?n * ?cw" using that by (intro mult_le_mono1) simp
    also have "\<dots> = ?cw * ?n" by (rule mult.commute)
    finally have "i * ?cw < 2 ^ 32" using b(2) assms(3) by linarith
    moreover have "i < 2 ^ 32" using that assms(4) by simp
    ultimately show ?thesis by (simp add: unat_word_ariths unsigned_of_nat take_bit_nat_eq_self)
  qed
  have "concat (map pk_data (send_packs src dst tgt ch xmt cwid data tick)) = concat (map (\<lambda>i. pack_data cwid data (of_nat i * cwid)) [0..<?n])"
    by (simp add: send_packs_def Let_def cnt o_def)
  also have "\<dots> = concat (map (\<lambda>i. let c = take (min ?cw (length data - i * ?cw)) (drop (i * ?cw) data) in c @ replicate (?cw - length c) 0) [0..<?n])"
    by (rule arg_cong [where f = concat], rule map_cong [OF refl]) (simp only: pack_data_def pos atLeastLessThan_iff set_upt Let_def)
  also have "\<dots> = take (?n * ?cw) (data @ replicate (?n * ?cw - length data) 0)"
    by (rule concat_chunks [OF assms(2) refl order_refl])
  also have "\<dots> = data @ replicate (?n * ?cw - length data) 0"
    using b(1) by (simp add: mult.commute)
  finally show "concat (map pk_data (send_packs src dst tgt ch xmt cwid data tick)) = data @ replicate (?n * ?cw - length data) 0" .
  show "\<forall>m\<in>set (send_packs src dst tgt ch xmt cwid data tick). pk_len m = of_nat (length data) \<and>
      pk_dst m = dst \<and> pk_tgt m = tgt \<and> pk_cha m = ch \<and> length (pk_data m) = ?cw"
    by (auto simp: send_packs_def Let_def length_pack_data)
qed

text \<open>
  C20. Cutting a message into packets and joining them is the identity: for non-empty data of less
  than 2^16 packets (the counter is 16 bits wide), \<^verbatim>\<open>send\<close> produces one well-formed message, and
  \<^verbatim>\<open>recv\<close> on a port whose buffer starts with it returns exactly the data, whatever the caller's
  buffer held before, and leaves the rest of the buffer.
\<close>

theorem send_recv_roundtrip:
  fixes cwid :: u32
  assumes "data \<noteq> []" and "0 < unat cwid" and "length data + unat cwid < 2 ^ 32"
    and "(length data + unat cwid - 1) div unat cwid < 2 ^ 16"
    and "map_of (bus_ports b) port = Some p" and "unat ch < length (cha_widths b)" and "cha_widths b ! unat ch = cwid"
    and "unat ch < length (recv_buf p)"
    and "recv_buf p ! unat ch = send_packs src port tgt ch xmt cwid data t0 @ rest"
  shows "complete_msg xmt (send_packs src port tgt ch xmt cwid data t0) \<and>
    (\<exists>b'. bus_recv t b port ch buf = Inr (True, data, b') \<and> rbuf (bus_ports b') port ch = Some rest)"
proof -
  let ?cw = "unat cwid" and ?n = "(length data + unat cwid - 1) div unat cwid"
  let ?ms = "send_packs src port tgt ch xmt cwid data t0"
  note msg = send_packs_message [OF assms(1-4), where src = src and dst = port and tgt = tgt and ch = ch and xmt = xmt and tick = t0]
  note bnd = nat_ceil_div_bounds [OF assms(2), of "length data"]
  obtain h tl where h: "?ms = h # tl" using msg(1) by (cases ?ms) (auto simp: complete_msg_def)
  have hs: "pk_cnt h = of_nat ?n" "pk_len h = of_nat (length data)"
  proof -
    have "pk_cnt (?ms ! 0) = of_nat (length ?ms)" using msg(1) unfolding complete_msg_def by blast
    then show "pk_cnt h = of_nat ?n" by (simp only: h nth_Cons_0 msg(2) [unfolded h])
    show "pk_len h = of_nat (length data)" using msg(4) h by simp
  qed
  have cnt: "unat (pk_cnt h) = length ?ms" using hs msg(2) assms(4) by (simp add: unsigned_of_nat take_bit_nat_eq_self)
  have L: "unat (pk_len h) = length data" using hs assms(3) by (simp add: unsigned_of_nat take_bit_nat_eq_self)
  have al: "unat (ALIGN (pk_len h) cwid) = ?n * ?cw"
    using unat_ALIGN [of cwid "pk_len h"] assms(2,3) L by (simp add: mult.commute)
  let ?buf = "vec_resize (?n * ?cw) buf"
  have r: "recv_loop 0 (length ?ms) cwid 0 ?buf (?ms @ rest) = Inr (take (0 * ?cw) ?buf @ concat (map pk_data ?ms), ?ms, rest)"
  proof (rule recv_loop_block)
    show "\<forall>j<length ?ms. pk_idx (?ms ! j) = of_nat (0 + j) \<and> length (pk_data (?ms ! j)) = ?cw"
      using msg(1,4) by (simp add: complete_msg_def)
    show "(0 + length ?ms) * ?cw < 2 ^ 32" using bnd(2) assms(3) msg(2) by (simp add: mult.commute)
  qed (use msg(1,2) assms(4) in \<open>simp_all add: vec_resize_def\<close>)
  let ?p = "p\<lparr>recv_buf := (recv_buf p)[unat ch := rest]\<rparr>"
  let ?b = "(fold (count_pack t) ?ms b)\<lparr>bus_ports := AList.update port ?p (bus_ports b)\<rparr>"
  have out: "vec_resize (length data) (concat (map pk_data ?ms)) = data"
    unfolding msg(3) by (simp add: vec_resize_def)
  have nz: "cwid \<noteq> 0" using assms(2) by auto
  have rb: "recv_buf p ! unat ch = h # (tl @ rest)" using assms(9) h by simp
  have cond: "\<not> length (h # tl @ rest) < unat (pk_cnt h)" using cnt h by simp
  have "bus_recv t b port ch buf = Inr (True, data, ?b)"
    using r unfolding bus_recv_def
    by (simp add: assms(5,6,7) rb cond nz al L cnt out Let_def h del: recv_loop.simps) (use out h in simp)
  moreover have "rbuf (bus_ports ?b) port ch = Some rest"
    using assms(5,8) by (simp add: rbuf_def update_conv')
  ultimately show ?thesis using msg(1) by blast
qed

lemma send_recv_roundtrip_witness:
  "\<exists>b'. bus_recv 9 \<lparr> cha_cnt = 1, bus_width = 64, route_latency = 3, xmtid_alloc = 1, cha_widths = [2],
      port2node = [(7, 0)], bus_route = Mapping.empty, bus_nodes = [],
      bus_ports = [(7, \<lparr>recv_buf = [send_packs 6 7 0 0 0 2 [1, 2, 3] 4], send_buf = [[]]\<rparr>)], bus_edges = [],
      tx_pack_num = 0, tx_pack_cycle_sum = 0, transmit_cnt = [] \<rparr> 7 0 [] = Inr (True, [1, 2, 3], b')"
  using send_recv_roundtrip [of "[1, 2, 3]" 2 "\<lparr> cha_cnt = 1, bus_width = 64, route_latency = 3, xmtid_alloc = 1,
      cha_widths = [2], port2node = [(7, 0)], bus_route = Mapping.empty, bus_nodes = [],
      bus_ports = [(7, \<lparr>recv_buf = [send_packs 6 7 0 0 0 2 [1, 2, 3] 4], send_buf = [[]]\<rparr>)], bus_edges = [],
      tx_pack_num = 0, tx_pack_cycle_sum = 0, transmit_cnt = [] \<rparr>" 7
      "\<lparr>recv_buf = [send_packs 6 7 0 0 0 2 [1, 2, 3] 4], send_buf = [[]]\<rparr>" 0 6 0 0 4 "[]" 9 "[]"]
  by auto

lemma bus_reassembles_witness:
  "\<exists>n' ps'. deliver_all (rev (send_packs 6 7 0 0 5 2 [1, 2, 3] 4)) ((empty_node 0)\<lparr>node_ports := [7]\<rparr>)
      [(7, \<lparr>recv_buf = [[]], send_buf = [[]]\<rparr>)] = Inr (n', ps') \<and>
    rbuf ps' 7 0 = Some (send_packs 6 7 0 0 5 2 [1, 2, 3] 4)"
proof -
  let ?ms = "send_packs 6 7 0 0 5 2 [1, 2, 3] 4"
  note m = send_packs_message [of "[1, 2, 3]" 2, where src = 6 and dst = 7 and tgt = 0 and ch = 0 and xmt = 5 and tick = 4]
  have hd: "pk_dst (hd ?ms) = 7" "pk_cha (hd ?ms) = 0"
  proof -
    have "?ms \<noteq> []" using m(1) by (simp add: complete_msg_def)
    then have "hd ?ms \<in> set ?ms" by simp
    then show "pk_dst (hd ?ms) = 7" "pk_cha (hd ?ms) = 0" using m(4) by auto
  qed
  have "\<exists>n' ps' Y. deliver_all (rev ?ms) ((empty_node 0)\<lparr>node_ports := [7]\<rparr>) [(7, \<lparr>recv_buf = [[]], send_buf = [[]]\<rparr>)] = Inr (n', ps') \<and>
    mset Y = mset [5 :: u32] \<and>
    map_of (order_buf n') = map_of (order_buf ((empty_node 0)\<lparr>node_ports := [7]\<rparr>)) \<and>
    (\<forall>d c l. rbuf [(7, \<lparr>recv_buf = [[]], send_buf = [[]]\<rparr>)] d c = Some l \<longrightarrow>
      rbuf ps' d c = Some (l @ concat (map (\<lambda>_. ?ms) (filter (\<lambda>x. pk_dst (hd ?ms) = d \<and> pk_cha (hd ?ms) = c) Y))))"
    by (rule bus_reassembles) (use m(1) hd in \<open>simp_all add: rbuf_def empty_node_def\<close>)
  then obtain n' ps' Y where r: "deliver_all (rev ?ms) ((empty_node 0)\<lparr>node_ports := [7]\<rparr>) [(7, \<lparr>recv_buf = [[]], send_buf = [[]]\<rparr>)] = Inr (n', ps')"
    "mset Y = mset [5 :: u32]" "\<forall>d c l. rbuf [(7, \<lparr>recv_buf = [[]], send_buf = [[]]\<rparr>)] d c = Some l \<longrightarrow>
      rbuf ps' d c = Some (l @ concat (map (\<lambda>_. ?ms) (filter (\<lambda>x. pk_dst (hd ?ms) = d \<and> pk_cha (hd ?ms) = c) Y)))" by blast
  have "Y = [5]" using r(2) by simp
  then have "rbuf ps' 7 0 = Some ?ms" using r(3) [rule_format, of 7 0 "[]"] hd by (simp add: rbuf_def)
  with r(1) show ?thesis by blast
qed

text \<open>
  The configured route latency has no effect: the loop over the pipeline counts a packet's
  remaining cycles down within a single tick, so a bus ticks exactly like one with any other
  latency setting.
\<close>

theorem route_latency_ineffective:
  "bus_apply_next_tick (b\<lparr>route_latency := k\<rparr>) = map_sum id (\<lambda>b'. b'\<lparr>route_latency := k\<rparr>) (bus_apply_next_tick b)"
  using process_nodes_latency [of "bus_route b" k "bus_nodes b" "bus_edges b" "bus_ports b" "route_latency b"]
  by (simp add: bus_apply_next_tick_def map_sum_def split: sum.split prod.split)

definition line_route :: BusRouteTable where
  "line_route = route_insert 1 3 2 (route_insert 1 2 2 (route_insert 2 1 1 (route_insert 2 3 3
     (route_insert 3 1 2 (route_insert 3 2 2 Mapping.empty)))))"

definition line_run :: "bus_error + SymBus" where
  "line_run = (case bus_new 64 3 [10, 30] [1, 3] [8] line_route of
      Inl e \<Rightarrow> Inl BusAssert
    | Inr b \<Rightarrow> (case bus_send 0 b 10 30 0 [42] of
        Inl e \<Rightarrow> Inl BusAssert
      | Inr (ok, b1) \<Rightarrow> (case bus_apply_next_tick b1 of
          Inl e \<Rightarrow> Inl BusAssert
        | Inr b2 \<Rightarrow> bus_apply_next_tick b2)))"

text \<open>
  A router without ports breaks the bus although the construction check accepts it: the node is
  created as a side effect of wiring its edges and keeps node id 0, so it looks up the routes of
  node 0. In a line of nodes 1, 2, 3 with ports at 1 and 3 a message from 1 to 3 crashes the
  simulator in the tick in which it reaches node 2.
\<close>

theorem portless_router_crashes:
  "line_run = Inl BusCrash \<and> (\<exists>b. bus_new 64 3 [10, 30] [1, 3] [8] line_route = Inr b)"
proof
  show "line_run = Inl BusCrash" by code_simp
  then show "\<exists>b. bus_new 64 3 [10, 30] [1, 3] [8] line_route = Inr b"
    by (auto simp: line_run_def split: sum.splits)
qed

end
