(* ===== verification/CacheBlock.thy ===== *)
theory CacheBlock
  imports SimCommon "HOL-Library.AList"
begin

text \<open>
  The set-associative store all caches of the simulator are built on
  (\<^verbatim>\<open>GenericLRUCacheBlock\<close> of \<^verbatim>\<open>cache/cachecommon.h\<close>) and the table of outstanding misses
  (\<^verbatim>\<open>MSHRArray\<close>). A hash map is an association list with distinct keys; a pointer to a payload
  is the line index it was found under, and writing through it is \<^verbatim>\<open>set_payload\<close>. The locale
  \<^verbatim>\<open>line_store\<close> is what the caches rely on; it is interpreted here on the block. An operation that
  would read the back of an empty list or fail an assertion is None.
\<close>

section \<open>The block\<close>

record 'p CacheBlock =
  set_count :: u32
  line_per_set :: u32
  p_sets :: "(u64 \<times> 'p) list list"
  p_lrus :: "u64 list list"
  pinned_line :: "u64 set"

definition cb_new :: "nat \<Rightarrow> u32 \<Rightarrow> 'p CacheBlock" where
  "cb_new off ways =
     (let n = push_bit off 1 :: u32 in
      \<lparr> set_count = n, line_per_set = ways, p_sets = replicate (unat n) [], p_lrus = replicate (unat n) [],
        pinned_line = {} \<rparr>)"

definition line_index_to_set_index :: "'p CacheBlock \<Rightarrow> u64 \<Rightarrow> nat" where
  "line_index_to_set_index b lindex = unat (ucast (lindex AND ucast (set_count b - 1)) :: u32)"

definition cb_set :: "'p CacheBlock \<Rightarrow> u64 \<Rightarrow> (u64 \<times> 'p) list" where
  "cb_set b lindex = p_sets b ! line_index_to_set_index b lindex"

definition cb_lru :: "'p CacheBlock \<Rightarrow> u64 \<Rightarrow> u64 list" where
  "cb_lru b lindex = p_lrus b ! line_index_to_set_index b lindex"

definition tag_lru :: "u64 \<Rightarrow> 'p CacheBlock \<Rightarrow> 'p CacheBlock" where
  "tag_lru lindex b =
     b\<lparr>p_lrus := (p_lrus b)[line_index_to_set_index b lindex := lindex # removeAll lindex (cb_lru b lindex)]\<rparr>"

definition write_set :: "u64 \<Rightarrow> (u64 \<times> 'p) list \<Rightarrow> 'p CacheBlock \<Rightarrow> 'p CacheBlock" where
  "write_set lindex s b = b\<lparr>p_sets := (p_sets b)[line_index_to_set_index b lindex := s]\<rparr>"

definition get_line :: "u64 \<Rightarrow> bool \<Rightarrow> 'p CacheBlock \<Rightarrow> 'p option \<times> 'p CacheBlock" where
  "get_line lindex lru_tag b =
     (case map_of (cb_set b lindex) lindex of
        None \<Rightarrow> (None, b)
      | Some p \<Rightarrow> (Some p, if lru_tag then tag_lru lindex b else b))"

definition set_payload :: "u64 \<Rightarrow> 'p \<Rightarrow> 'p CacheBlock \<Rightarrow> 'p CacheBlock" where
  "set_payload lindex p b = write_set lindex (AList.update lindex p (cb_set b lindex)) b"

definition update_line :: "u64 \<Rightarrow> 'p \<Rightarrow> bool \<Rightarrow> 'p CacheBlock \<Rightarrow> bool \<times> 'p CacheBlock" where
  "update_line lindex buf lru_tag b =
     (case map_of (cb_set b lindex) lindex of
        None \<Rightarrow> (False, b)
      | Some _ \<Rightarrow> (let b' = set_payload lindex buf b in (True, if lru_tag then tag_lru lindex b' else b')))"

definition remove_line :: "u64 \<Rightarrow> 'p CacheBlock \<Rightarrow> 'p CacheBlock" where
  "remove_line lindex b =
     (write_set lindex (AList.delete lindex (cb_set b lindex)) b)
       \<lparr>p_lrus := (p_lrus b)[line_index_to_set_index b lindex := removeAll lindex (cb_lru b lindex)],
        pinned_line := pinned_line b - {lindex}\<rparr>"

definition insert_line :: "u64 \<Rightarrow> 'p \<Rightarrow> 'p CacheBlock \<Rightarrow> ((u64 \<times> 'p) option \<times> 'p CacheBlock) option" where
  "insert_line lindex buf b =
     (if map_of (cb_set b lindex) lindex \<noteq> None
      then Some (None, tag_lru lindex (set_payload lindex buf b))
      else if length (cb_set b lindex) < unat (line_per_set b)
      then Some (None, tag_lru lindex (write_set lindex ((lindex, buf) # cb_set b lindex) b))
      else if cb_lru b lindex = [] then None
      else (let victim = last (cb_lru b lindex) in
        case fst (get_line victim False b) of
          None \<Rightarrow> None
        | Some tmp \<Rightarrow>
            (let b' = remove_line victim b in
             Some (Some (victim, tmp), tag_lru lindex (write_set lindex ((lindex, buf) # cb_set b' lindex) b')))))"

definition cb_clear :: "'p CacheBlock \<Rightarrow> 'p CacheBlock" where
  "cb_clear b = b\<lparr>p_sets := map (\<lambda>_. []) (p_sets b), p_lrus := map (\<lambda>_. []) (p_lrus b)\<rparr>"

definition pin :: "u64 \<Rightarrow> 'p CacheBlock \<Rightarrow> 'p CacheBlock" where
  "pin lindex b =
     (if lindex \<in> set (cb_lru b lindex)
      then b\<lparr>p_lrus := (p_lrus b)[line_index_to_set_index b lindex := remove1 lindex (cb_lru b lindex)],
             pinned_line := insert lindex (pinned_line b)\<rparr>
      else b)"

definition unpin :: "u64 \<Rightarrow> 'p CacheBlock \<Rightarrow> 'p CacheBlock" where
  "unpin lindex b =
     (if lindex \<in> pinned_line b
      then b\<lparr>p_lrus := (p_lrus b)[line_index_to_set_index b lindex := lindex # cb_lru b lindex],
             pinned_line := pinned_line b - {lindex}\<rparr>
      else b)"

section \<open>Miss registers\<close>

record 'm MSHRArray =
  max_sz :: u16
  hashmap :: "(u64 \<times> 'm) list"

definition mshr_get :: "u64 \<Rightarrow> 'm MSHRArray \<Rightarrow> 'm option" where
  "mshr_get lindex a = map_of (hashmap a) lindex"

text \<open>A new entry is zeroed: \<^verbatim>\<open>zero\<close> is the payload with all bytes 0.\<close>

definition mshr_alloc :: "'m \<Rightarrow> u64 \<Rightarrow> 'm MSHRArray \<Rightarrow> bool \<times> 'm MSHRArray" where
  "mshr_alloc zero lindex a =
     (if map_of (hashmap a) lindex \<noteq> None then (False, a)
      else if length (hashmap a) < unat (max_sz a)
      then (True, a\<lparr>hashmap := (lindex, zero) # hashmap a\<rparr>)
      else (False, a))"

definition mshr_remove :: "u64 \<Rightarrow> 'm MSHRArray \<Rightarrow> 'm MSHRArray" where
  "mshr_remove lindex a = a\<lparr>hashmap := AList.delete lindex (hashmap a)\<rparr>"

definition mshr_clear :: "'m MSHRArray \<Rightarrow> 'm MSHRArray" where
  "mshr_clear a = a\<lparr>hashmap := []\<rparr>"

section \<open>The invariant\<close>

definition cb_lookup :: "'p CacheBlock \<Rightarrow> u64 \<Rightarrow> 'p option" where
  "cb_lookup b lindex = map_of (cb_set b lindex) lindex"

definition cb_keys :: "'p CacheBlock \<Rightarrow> nat \<Rightarrow> u64 set" where
  "cb_keys b i = fst ` set (p_sets b ! i)"

definition set_inv :: "'p CacheBlock \<Rightarrow> nat \<Rightarrow> bool" where
  "set_inv b i \<longleftrightarrow> distinct (map fst (p_sets b ! i)) \<and> distinct (p_lrus b ! i) \<and>
     set (p_lrus b ! i) = cb_keys b i - pinned_line b \<and>
     (\<forall>k\<in>cb_keys b i. line_index_to_set_index b k = i) \<and>
     length (p_sets b ! i) \<le> unat (line_per_set b)"

definition cb_inv :: "'p CacheBlock \<Rightarrow> bool" where
  "cb_inv b \<longleftrightarrow> 0 < unat (set_count b) \<and> length (p_sets b) = unat (set_count b) \<and>
     length (p_lrus b) = unat (set_count b) \<and> 0 < unat (line_per_set b) \<and>
     (\<forall>i<unat (set_count b). set_inv b i) \<and> (\<forall>k\<in>pinned_line b. cb_lookup b k \<noteq> None)"

lemma set_index_less:
  assumes "0 < unat (set_count b)"
  shows "line_index_to_set_index b l < unat (set_count b)"
proof -
  let ?m = "set_count b - 1"
  have m: "unat ?m < unat (set_count b)" using assms by (metis unat_gt_0 unat_minus_one diff_less zero_less_one)
  have "unat (l AND ucast ?m) \<le> unat (ucast ?m :: u64)" by (simp add: word_le_nat_alt [symmetric] word_and_le1)
  also have "\<dots> \<le> unat ?m" by (simp add: unsigned_ucast_eq)
  finally have "unat (l AND ucast ?m) \<le> unat ?m" .
  then have "unat (ucast (l AND ucast ?m) :: u32) \<le> unat ?m"
    by (metis le_trans take_bit_nat_less_eq_self unsigned_ucast_eq)
  with m show ?thesis by (simp add: line_index_to_set_index_def)
qed

section \<open>Every operation replaces one set\<close>

definition put_set :: "'p CacheBlock \<Rightarrow> u64 \<Rightarrow> (u64 \<times> 'p) list \<Rightarrow> u64 list \<Rightarrow> u64 set \<Rightarrow> 'p CacheBlock" where
  "put_set b l S L P = b\<lparr>p_sets := (p_sets b)[line_index_to_set_index b l := S],
     p_lrus := (p_lrus b)[line_index_to_set_index b l := L], pinned_line := P\<rparr>"

lemma idx_put_set [cache_simps]:
  "line_index_to_set_index (put_set b l S L P) k = line_index_to_set_index b k"
  by (simp add: line_index_to_set_index_def put_set_def)

lemma idx_frame [cache_simps]:
  "line_index_to_set_index (b\<lparr>p_sets := x\<rparr>) = line_index_to_set_index b"
  "line_index_to_set_index (b\<lparr>p_lrus := y\<rparr>) = line_index_to_set_index b"
  "line_index_to_set_index (b\<lparr>pinned_line := z\<rparr>) = line_index_to_set_index b"
  by (simp_all add: line_index_to_set_index_def fun_eq_iff)

lemma cb_inv_lengths:
  assumes "cb_inv b"
  shows "line_index_to_set_index b l < length (p_sets b)" and "line_index_to_set_index b l < length (p_lrus b)"
  using assms set_index_less [of b l] by (simp_all add: cb_inv_def)

lemma cb_inv_set:
  assumes "cb_inv b"
  shows "distinct (map fst (cb_set b l))" and "distinct (cb_lru b l)"
    and "set (cb_lru b l) = fst ` set (cb_set b l) - pinned_line b"
    and "k \<in> fst ` set (cb_set b l) \<Longrightarrow> line_index_to_set_index b k = line_index_to_set_index b l"
    and "length (cb_set b l) \<le> unat (line_per_set b)"
  using assms set_index_less [of b l] by (auto simp: cb_inv_def set_inv_def cb_set_def cb_lru_def cb_keys_def)

lemma lookup_put_set [cache_simps]:
  assumes "cb_inv b"
  shows "cb_lookup (put_set b l S L P) k =
    (if line_index_to_set_index b k = line_index_to_set_index b l then map_of S k else cb_lookup b k)"
  using cb_inv_lengths [OF assms, of l]
  by (simp add: cb_lookup_def cb_set_def idx_put_set) (simp add: put_set_def)

lemma cb_inv_put_set:
  assumes inv: "cb_inv b" and S: "distinct (map fst S)" "length S \<le> unat (line_per_set b)"
    "\<forall>k\<in>fst ` set S. line_index_to_set_index b k = line_index_to_set_index b l"
    and L: "distinct L" "set L = fst ` set S - P"
    and P: "\<forall>k. line_index_to_set_index b k \<noteq> line_index_to_set_index b l \<longrightarrow> (k \<in> P \<longleftrightarrow> k \<in> pinned_line b)"
    "\<forall>k\<in>P. line_index_to_set_index b k = line_index_to_set_index b l \<longrightarrow> k \<in> fst ` set S"
  shows "cb_inv (put_set b l S L P)"
proof -
  let ?b = "put_set b l S L P" and ?i = "line_index_to_set_index b l"
  note len = cb_inv_lengths [OF inv, of l]
  have "set_inv ?b j" if j: "j < unat (set_count b)" for j
  proof (cases "j = ?i")
    case True
    have "p_sets ?b ! j = S" "p_lrus ?b ! j = L" using len True by (simp_all add: put_set_def)
    then show ?thesis using S L True by (simp add: set_inv_def cb_keys_def idx_put_set) (simp add: put_set_def)
  next
    case False
    have old: "set_inv b j" using inv j by (simp add: cb_inv_def)
    have e: "p_sets ?b ! j = p_sets b ! j" "p_lrus ?b ! j = p_lrus b ! j" using False by (simp_all add: put_set_def)
    have "k \<in> P \<longleftrightarrow> k \<in> pinned_line b" if "k \<in> cb_keys b j" for k
      using P(1) old that False by (simp add: set_inv_def)
    then have "cb_keys b j - P = cb_keys b j - pinned_line b" by auto
    with old show ?thesis by (simp add: set_inv_def cb_keys_def idx_put_set e) (simp add: put_set_def)
  qed
  moreover have "\<forall>k\<in>P. cb_lookup ?b k \<noteq> None"
  proof
    fix k assume k: "k \<in> P"
    show "cb_lookup ?b k \<noteq> None"
    proof (cases "line_index_to_set_index b k = ?i")
      case True
      then have "k \<in> fst ` set S" using P(2) k by blast
      then show ?thesis using True by (simp add: lookup_put_set [OF inv] map_of_eq_None_iff)
    next
      case False
      then have "k \<in> pinned_line b" using P(1) k by blast
      then show ?thesis using inv False by (simp add: lookup_put_set [OF inv] cb_inv_def)
    qed
  qed
  moreover have "set_count ?b = set_count b" "length (p_sets ?b) = length (p_sets b)"
    "length (p_lrus ?b) = length (p_lrus b)" "line_per_set ?b = line_per_set b" "pinned_line ?b = P"
    by (simp_all add: put_set_def)
  ultimately show ?thesis using inv by (simp add: cb_inv_def)
qed

lemma tag_lru_put: "cb_inv b \<Longrightarrow> tag_lru l b = put_set b l (cb_set b l) (l # removeAll l (cb_lru b l)) (pinned_line b)"
  by (simp add: tag_lru_def put_set_def cb_set_def)

lemma set_payload_put: "cb_inv b \<Longrightarrow> set_payload l p b = put_set b l (AList.update l p (cb_set b l)) (cb_lru b l) (pinned_line b)"
  by (simp add: set_payload_def write_set_def put_set_def cb_lru_def)

lemma remove_line_put:
  "remove_line l b = put_set b l (AList.delete l (cb_set b l)) (removeAll l (cb_lru b l)) (pinned_line b - {l})"
  by (simp add: remove_line_def write_set_def put_set_def cache_simps)

lemma put_set_put_set:
  "put_set (put_set b l S L P) l S' L' P' = put_set b l S' L' P'"
  unfolding put_set_def by (simp add: cache_simps)

lemma put_set_get:
  assumes "cb_inv b"
  shows "cb_set (put_set b l S L P) l = S" and "cb_lru (put_set b l S L P) l = L"
    and "pinned_line (put_set b l S L P) = P" and "line_per_set (put_set b l S L P) = line_per_set b"
  using cb_inv_lengths [OF assms, of l] by (simp_all add: cb_set_def cb_lru_def idx_put_set) (simp_all add: put_set_def)

lemma set_same_index: "line_index_to_set_index b k = line_index_to_set_index b l \<Longrightarrow> cb_set b k = cb_set b l \<and> cb_lru b k = cb_lru b l"
  by (simp add: cb_set_def cb_lru_def)

lemma put_set_same_index:
  "line_index_to_set_index b k = line_index_to_set_index b l \<Longrightarrow> put_set b k S L P = put_set b l S L P"
  by (simp add: put_set_def)

section \<open>Preservation\<close>

lemma pinned_in_set:
  assumes "cb_inv b" and "k \<in> pinned_line b" and "line_index_to_set_index b k = line_index_to_set_index b l"
  shows "k \<in> fst ` set (cb_set b l)"
proof -
  have "cb_lookup b k \<noteq> None" using assms(1,2) by (simp add: cb_inv_def)
  then show ?thesis using set_same_index [OF assms(3)] by (simp add: cb_lookup_def map_of_eq_None_iff)
qed

lemma tag_lru_inv:
  assumes "cb_inv b" and "cb_lookup b l \<noteq> None" and "l \<notin> pinned_line b"
  shows "cb_inv (tag_lru l b)"
  unfolding tag_lru_put [OF assms(1)]
proof (rule cb_inv_put_set [OF assms(1)])
  note S = cb_inv_set [OF assms(1), where l = l]
  have l: "l \<in> fst ` set (cb_set b l)" using assms(2) by (simp add: cb_lookup_def map_of_eq_None_iff)
  show "set (l # removeAll l (cb_lru b l)) = fst ` set (cb_set b l) - pinned_line b"
    using S(3) l assms(3) by auto
  show "\<forall>k\<in>fst ` set (cb_set b l). line_index_to_set_index b k = line_index_to_set_index b l"
    using S(4) by blast
  show "\<forall>k\<in>pinned_line b. line_index_to_set_index b k = line_index_to_set_index b l \<longrightarrow> k \<in> fst ` set (cb_set b l)"
    using pinned_in_set [OF assms(1)] by blast
qed (use cb_inv_set [OF assms(1), of l] in \<open>simp_all add: distinct_removeAll\<close>)

lemma set_payload_inv:
  assumes "cb_inv b" and "cb_lookup b l \<noteq> None"
  shows "cb_inv (set_payload l p b)"
  unfolding set_payload_put [OF assms(1)]
proof (rule cb_inv_put_set [OF assms(1)])
  note S = cb_inv_set [OF assms(1), where l = l]
  have l: "l \<in> fst ` set (cb_set b l)" using assms(2) by (simp add: cb_lookup_def map_of_eq_None_iff)
  have k: "fst ` set (AList.update l p (cb_set b l)) = fst ` set (cb_set b l)"
    using l by (simp add: dom_update [symmetric] dom_map_of_conv_image_fst [symmetric] update_conv' insert_absorb)
  show "distinct (map fst (AList.update l p (cb_set b l)))" using S(1) by (rule distinct_update)
  have "map fst (AList.update l p (cb_set b l)) = map fst (cb_set b l)" using l by (simp add: update_keys)
  then show "length (AList.update l p (cb_set b l)) \<le> unat (line_per_set b)" using S(5) by (metis length_map)
  show "\<forall>k\<in>fst ` set (AList.update l p (cb_set b l)). line_index_to_set_index b k = line_index_to_set_index b l"
    using S(4) k by blast
  show "set (cb_lru b l) = fst ` set (AList.update l p (cb_set b l)) - pinned_line b" using S(3) k by simp
  show "\<forall>k\<in>pinned_line b. line_index_to_set_index b k = line_index_to_set_index b l \<longrightarrow> k \<in> fst ` set (AList.update l p (cb_set b l))"
    using pinned_in_set [OF assms(1)] k by blast
qed (use cb_inv_set [OF assms(1), of l] in simp_all)

lemma remove_line_inv:
  assumes "cb_inv b"
  shows "cb_inv (remove_line l b)"
  unfolding remove_line_put
proof (rule cb_inv_put_set [OF assms])
  note S = cb_inv_set [OF assms, where l = l]
  have k: "fst ` set (AList.delete l (cb_set b l)) = fst ` set (cb_set b l) - {l}" by (simp add: delete_keys flip: set_map)
  show "distinct (map fst (AList.delete l (cb_set b l)))" using S(1) by (rule distinct_delete)
  show "length (AList.delete l (cb_set b l)) \<le> unat (line_per_set b)"
    using S(5) length_delete_le [of l "cb_set b l"] by linarith
  show "\<forall>k\<in>fst ` set (AList.delete l (cb_set b l)). line_index_to_set_index b k = line_index_to_set_index b l"
    using S(4) k by blast
  show "distinct (removeAll l (cb_lru b l))" using S(2) by (rule distinct_removeAll)
  show "set (removeAll l (cb_lru b l)) = fst ` set (AList.delete l (cb_set b l)) - (pinned_line b - {l})"
    using S(3) k by auto
  show "\<forall>k\<in>pinned_line b - {l}. line_index_to_set_index b k = line_index_to_set_index b l \<longrightarrow> k \<in> fst ` set (AList.delete l (cb_set b l))"
    using pinned_in_set [OF assms] k by blast
qed auto

lemma remove_line_lookup: "cb_inv b \<Longrightarrow> cb_lookup (remove_line l b) = (cb_lookup b)(l := None)"
proof
  fix k assume inv: "cb_inv b"
  show "cb_lookup (remove_line l b) k = ((cb_lookup b)(l := None)) k"
    using set_same_index [of b k l]
    by (simp only: remove_line_put lookup_put_set [OF inv]) (auto simp: cb_lookup_def delete_conv')
qed

lemma tag_lru_lookup: "cb_inv b \<Longrightarrow> cb_lookup (tag_lru l b) = cb_lookup b"
proof
  fix k assume inv: "cb_inv b"
  show "cb_lookup (tag_lru l b) k = cb_lookup b k"
    using set_same_index [of b k l]
    by (simp only: tag_lru_put [OF inv] lookup_put_set [OF inv]) (simp add: cb_lookup_def)
qed

lemma set_payload_lookup: "cb_inv b \<Longrightarrow> cb_lookup (set_payload l p b) = (cb_lookup b)(l \<mapsto> p)"
proof
  fix k assume inv: "cb_inv b"
  show "cb_lookup (set_payload l p b) k = ((cb_lookup b)(l \<mapsto> p)) k"
    using set_same_index [of b k l]
    by (simp only: set_payload_put [OF inv] lookup_put_set [OF inv]) (auto simp: cb_lookup_def update_conv')
qed

text \<open>The three ways an insertion ends: overwrite, fill a free way, evict the back of the LRU list.\<close>

lemma insert_line_cases:
  assumes "cb_inv b" and "insert_line l p b = Some (ev, b')"
  obtains (hit) "cb_lookup b l \<noteq> None" "ev = None"
      "b' = put_set b l (AList.update l p (cb_set b l)) (l # removeAll l (cb_lru b l)) (pinned_line b)"
  | (fill) "cb_lookup b l = None" "length (cb_set b l) < unat (line_per_set b)" "ev = None"
      "b' = put_set b l ((l, p) # cb_set b l) (l # removeAll l (cb_lru b l)) (pinned_line b)"
  | (evict) v q where "cb_lookup b l = None" "\<not> length (cb_set b l) < unat (line_per_set b)"
      "cb_lru b l \<noteq> []" "v = last (cb_lru b l)" "cb_lookup b v = Some q" "ev = Some (v, q)"
      "line_index_to_set_index b v = line_index_to_set_index b l"
      "b' = put_set b l ((l, p) # AList.delete v (cb_set b l)) (l # removeAll l (removeAll v (cb_lru b l))) (pinned_line b - {v})"
proof -
  note S = cb_inv_set [OF assms(1), where l = l]
  have pinv: "tag_lru l (write_set l X c) = put_set c l X (l # removeAll l (cb_lru c l)) (pinned_line c)" for X and c :: "'a CacheBlock"
    unfolding tag_lru_def write_set_def put_set_def cb_lru_def by (simp add: cache_simps)
  consider "cb_lookup b l \<noteq> None"
    | "cb_lookup b l = None" "length (cb_set b l) < unat (line_per_set b)"
    | "cb_lookup b l = None" "\<not> length (cb_set b l) < unat (line_per_set b)" by blast
  then show ?thesis
  proof cases
    case 1
    then have "(ev, b') = (None, tag_lru l (set_payload l p b))"
      using assms(2) by (simp add: insert_line_def cb_lookup_def)
    then show ?thesis using 1 by (intro hit) (simp_all add: set_payload_def pinv)
  next
    case 2
    then have "(ev, b') = (None, tag_lru l (write_set l ((l, p) # cb_set b l) b))"
      using assms(2) by (simp add: insert_line_def cb_lookup_def)
    then show ?thesis using 2 by (intro fill) (simp_all add: pinv)
  next
    case 3
    let ?v = "last (cb_lru b l)"
    have ne: "cb_lru b l \<noteq> []" using assms(2) 3 by (auto simp: insert_line_def cb_lookup_def)
    then have "?v \<in> fst ` set (cb_set b l)" using S(3) last_in_set [OF ne] by auto
    then have idx: "line_index_to_set_index b ?v = line_index_to_set_index b l" by (rule S(4))
    obtain q where q: "cb_lookup b ?v = Some q" and r: "(ev, b') = (Some (?v, q),
        tag_lru l (write_set l ((l, p) # cb_set (remove_line ?v b) l) (remove_line ?v b)))"
      using assms(2) 3 ne
      by (auto simp: insert_line_def cb_lookup_def get_line_def Let_def split: option.splits)
    have rm: "remove_line ?v b = put_set b l (AList.delete ?v (cb_set b l)) (removeAll ?v (cb_lru b l)) (pinned_line b - {?v})"
      unfolding remove_line_put using put_set_same_index [OF idx] set_same_index [OF idx] by simp
    have be: "b' = put_set b l ((l, p) # AList.delete ?v (cb_set b l)) (l # removeAll l (removeAll ?v (cb_lru b l))) (pinned_line b - {?v})"
      using r by (simp add: pinv rm put_set_put_set put_set_get [OF assms(1)])
    have "ev = Some (?v, q)" using r by simp
    from evict [OF 3 ne refl q this idx be] show ?thesis .
  qed
qed

lemma insert_line_inv:
  assumes inv: "cb_inv b" and l: "l \<notin> pinned_line b" and ins: "insert_line l p b = Some (ev, b')"
  shows "cb_inv b' \<and> pinned_line b' \<subseteq> pinned_line b"
proof -
  note S = cb_inv_set [OF inv, where l = l]
  have P: "\<forall>k\<in>pinned_line b. line_index_to_set_index b k = line_index_to_set_index b l \<longrightarrow> k \<in> fst ` set (cb_set b l)"
    using pinned_in_set [OF inv] by blast
  have mem: "cb_lookup b l = None \<longleftrightarrow> l \<notin> fst ` set (cb_set b l)" by (simp add: cb_lookup_def map_of_eq_None_iff)
  from inv ins show ?thesis
  proof (cases rule: insert_line_cases)
    case hit
    have k: "fst ` set (AList.update l p (cb_set b l)) = fst ` set (cb_set b l)"
      using hit(1) mem by (simp add: dom_update [symmetric] dom_map_of_conv_image_fst [symmetric] update_conv' insert_absorb)
    have "map fst (AList.update l p (cb_set b l)) = map fst (cb_set b l)" using hit(1) mem by (simp add: update_keys)
    then have len: "length (AList.update l p (cb_set b l)) = length (cb_set b l)" by (metis length_map)
    have "cb_inv b'"
      unfolding hit(3)
    proof (rule cb_inv_put_set [OF inv])
      show "set (l # removeAll l (cb_lru b l)) = fst ` set (AList.update l p (cb_set b l)) - pinned_line b"
        using S(3) k l hit(1) mem by auto
      show "\<forall>k\<in>fst ` set (AList.update l p (cb_set b l)). line_index_to_set_index b k = line_index_to_set_index b l"
        unfolding k using S(4) by blast
      show "distinct (map fst (AList.update l p (cb_set b l)))" using S(1) by (rule distinct_update)
      show "length (AList.update l p (cb_set b l)) \<le> unat (line_per_set b)" unfolding len by (rule S(5))
      show "distinct (l # removeAll l (cb_lru b l))" using S(2) by (simp add: distinct_removeAll)
      show "\<forall>k\<in>pinned_line b. line_index_to_set_index b k = line_index_to_set_index b l \<longrightarrow> k \<in> fst ` set (AList.update l p (cb_set b l))"
        unfolding k by (rule P)
    qed simp
    then show ?thesis using hit(3) put_set_get(3) [OF inv] by auto
  next
    case fill
    have "cb_inv b'"
      unfolding fill(4)
    proof (rule cb_inv_put_set [OF inv])
      show "set (l # removeAll l (cb_lru b l)) = fst ` set ((l, p) # cb_set b l) - pinned_line b"
        using S(3) l by auto
      show "\<forall>k\<in>fst ` set ((l, p) # cb_set b l). line_index_to_set_index b k = line_index_to_set_index b l"
        using S(4) by auto
      show "distinct (map fst ((l, p) # cb_set b l))" using S(1) fill(1) mem by simp
      show "length ((l, p) # cb_set b l) \<le> unat (line_per_set b)" using fill(2) by simp
      show "distinct (l # removeAll l (cb_lru b l))" using S(2) by (simp add: distinct_removeAll)
      show "\<forall>k\<in>pinned_line b. line_index_to_set_index b k = line_index_to_set_index b l \<longrightarrow> k \<in> fst ` set ((l, p) # cb_set b l)"
        using P by auto
    qed simp
    then show ?thesis using fill(4) put_set_get(3) [OF inv] by auto
  next
    case (evict v q)
    have v: "v \<in> fst ` set (cb_set b l)"
      using S(3) last_in_set [OF evict(3)] evict(4) by blast
    have k: "fst ` set (AList.delete v (cb_set b l)) = fst ` set (cb_set b l) - {v}"
      by (simp add: delete_keys flip: set_map)
    have len: "length (AList.delete v (cb_set b l)) < length (cb_set b l)"
      using v S(1) k by (metis card_Diff1_less distinct_card distinct_delete finite_imageI finite_set length_map set_map)
    have "cb_inv b'"
      unfolding evict(8)
    proof (rule cb_inv_put_set [OF inv])
      show "set (l # removeAll l (removeAll v (cb_lru b l))) = fst ` set ((l, p) # AList.delete v (cb_set b l)) - (pinned_line b - {v})"
        using S(3) l k by auto
      show "\<forall>k\<in>fst ` set ((l, p) # AList.delete v (cb_set b l)). line_index_to_set_index b k = line_index_to_set_index b l"
        using S(4) k by auto
      show "distinct (map fst ((l, p) # AList.delete v (cb_set b l)))"
        using S(1) evict(1) mem k by (simp add: distinct_delete)
      show "length ((l, p) # AList.delete v (cb_set b l)) \<le> unat (line_per_set b)" using len S(5) by simp
      show "\<forall>k\<in>pinned_line b - {v}. line_index_to_set_index b k = line_index_to_set_index b l \<longrightarrow> k \<in> fst ` set ((l, p) # AList.delete v (cb_set b l))"
        using P k by auto
      show "\<forall>k. line_index_to_set_index b k \<noteq> line_index_to_set_index b l \<longrightarrow> (k \<in> pinned_line b - {v}) = (k \<in> pinned_line b)"
        using evict(7) by auto
      show "distinct (l # removeAll l (removeAll v (cb_lru b l)))" using S(2) by (simp add: distinct_removeAll)
    qed
    then show ?thesis using evict(8) put_set_get(3) [OF inv] by auto
  qed
qed

lemma insert_line_lookup:
  assumes inv: "cb_inv b" and ins: "insert_line l p b = Some (ev, b')"
  shows "case ev of None \<Rightarrow> cb_lookup b' = (cb_lookup b)(l \<mapsto> p)
    | Some (v, q) \<Rightarrow> v \<noteq> l \<and> cb_lookup b l = None \<and> cb_lookup b v = Some q \<and> cb_lookup b' = (cb_lookup b)(v := None, l \<mapsto> p)"
  using inv ins
proof (cases rule: insert_line_cases)
  case hit
  have "cb_lookup b' k = ((cb_lookup b)(l \<mapsto> p)) k" for k
    using set_same_index [of b k l]
    by (simp only: hit lookup_put_set [OF inv]) (auto simp: cb_lookup_def update_conv')
  then show ?thesis using hit(2) by auto
next
  case fill
  have "cb_lookup b' k = ((cb_lookup b)(l \<mapsto> p)) k" for k
    using set_same_index [of b k l]
    by (simp only: fill lookup_put_set [OF inv]) (auto simp: cb_lookup_def)
  then show ?thesis using fill(3) by auto
next
  case (evict v q)
  have "cb_lookup b' k = ((cb_lookup b)(v := None, l \<mapsto> p)) k" for k
    using set_same_index [of b k l] evict(7)
    by (simp only: evict(8) lookup_put_set [OF inv]) (auto simp: cb_lookup_def delete_conv')
  moreover have "v \<noteq> l" using evict(1,5) by auto
  ultimately show ?thesis using evict(1,5,6) by auto
qed

definition cb_ok :: "'p CacheBlock \<Rightarrow> bool" where
  "cb_ok b \<longleftrightarrow> cb_inv b \<and> pinned_line b = {}"

lemma lru_length:
  assumes "cb_ok b"
  shows "length (cb_lru b l) = length (cb_set b l)"
  using cb_inv_set [of b l] assms
  by (metis cb_ok_def Diff_empty distinct_card length_map set_map)

lemma insert_line_total:
  assumes "cb_ok b"
  shows "insert_line l p b \<noteq> None"
proof -
  have inv: "cb_inv b" and pin: "pinned_line b = {}" using assms by (simp_all add: cb_ok_def)
  note S = cb_inv_set [OF inv, where l = l]
  have "0 < unat (line_per_set b)" using inv by (simp add: cb_inv_def)
  then have full: "cb_lru b l \<noteq> []" if "\<not> length (cb_set b l) < unat (line_per_set b)"
    using lru_length [OF assms, of l] that by auto
  have hit: "\<exists>q. map_of (cb_set b (last (cb_lru b l))) (last (cb_lru b l)) = Some q" if "cb_lru b l \<noteq> []"
  proof -
    have k: "last (cb_lru b l) \<in> fst ` set (cb_set b l)" using S(3) last_in_set [OF that] by auto
    then have "cb_set b (last (cb_lru b l)) = cb_set b l" using S(4) set_same_index by blast
    with k show ?thesis by (metis map_of_eq_None_iff not_Some_eq)
  qed
  show ?thesis
    using full hit by (auto simp: insert_line_def get_line_def Let_def split: option.split)
qed

section \<open>The store the caches rely on\<close>

text \<open>
  The contract between a cache and its block: an insertion makes the line readable with the new
  contents, changes no other line except for at most one victim, and hands the victim's contents
  out. \<^verbatim>\<open>total_line_store\<close> adds that an insertion always finds a place.
\<close>

locale line_store =
  fixes lookup :: "'s \<Rightarrow> u64 \<Rightarrow> 'p option"
    and insert :: "u64 \<Rightarrow> 'p \<Rightarrow> 's \<Rightarrow> ((u64 \<times> 'p) option \<times> 's) option"
    and touch :: "u64 \<Rightarrow> 's \<Rightarrow> 's"
    and inv :: "'s \<Rightarrow> bool"
  assumes insert_inv: "inv s \<Longrightarrow> insert l p s = Some (ev, s') \<Longrightarrow> inv s'"
    and insert_keep: "inv s \<Longrightarrow> insert l p s = Some (None, s') \<Longrightarrow> lookup s' = (lookup s)(l \<mapsto> p)"
    and insert_evict: "inv s \<Longrightarrow> insert l p s = Some (Some (v, q), s') \<Longrightarrow>
      v \<noteq> l \<and> lookup s v = Some q \<and> lookup s' = (lookup s)(v := None, l \<mapsto> p)"
    and touch_inv: "inv s \<Longrightarrow> lookup s l \<noteq> None \<Longrightarrow> inv (touch l s)"
    and touch_lookup: "inv s \<Longrightarrow> lookup (touch l s) = lookup s"
begin

text \<open>The contents of a line as seen through the store and a backing memory.\<close>

definition backed :: "'s \<Rightarrow> (u64 \<Rightarrow> 'p) \<Rightarrow> u64 \<Rightarrow> 'p" where
  "backed s m l = (case lookup s l of None \<Rightarrow> m l | Some p \<Rightarrow> p)"

definition write_back :: "(u64 \<times> 'p) option \<Rightarrow> (u64 \<Rightarrow> 'p) \<Rightarrow> u64 \<Rightarrow> 'p" where
  "write_back ev m = (case ev of None \<Rightarrow> m | Some (v, q) \<Rightarrow> m(v := q))"

lemma insert_backed:
  assumes "inv s" and "insert l p s = Some (ev, s')"
  shows "backed s' (write_back ev m) = (backed s m)(l := p)"
proof (cases ev)
  case None
  then show ?thesis using insert_keep [OF assms(1)] assms(2) by (auto simp: backed_def write_back_def fun_eq_iff)
next
  case (Some vq)
  obtain v q where "vq = (v, q)" by (cases vq)
  then show ?thesis using insert_evict [OF assms(1)] assms(2) Some
    by (auto simp: backed_def write_back_def fun_eq_iff split: option.split)
qed

lemma touch_backed: "inv s \<Longrightarrow> backed (touch l s) m = backed s m"
  by (simp add: backed_def fun_eq_iff touch_lookup)

end

locale total_line_store = line_store +
  assumes insert_total: "inv s \<Longrightarrow> insert l p s \<noteq> None"
begin

lemma insert_stores:
  assumes "inv s"
  shows "\<exists>ev s'. insert l p s = Some (ev, s') \<and> inv s' \<and> lookup s' l = Some p"
proof -
  obtain ev s' where r: "insert l p s = Some (ev, s')" using insert_total [OF assms] by fastforce
  then have "lookup s' l = Some p"
    using insert_keep [OF assms] insert_evict [OF assms] by (cases ev) auto
  with r insert_inv [OF assms r] show ?thesis by blast
qed

end

interpretation cb: total_line_store cb_lookup insert_line tag_lru cb_ok
proof
  fix s s' :: "'a CacheBlock" and l p ev v q
  assume ok: "cb_ok s"
  then have inv: "cb_inv s" and np: "l \<notin> pinned_line s" by (simp_all add: cb_ok_def)
  show "insert_line l p s \<noteq> None" by (rule insert_line_total [OF ok])
  show "cb_lookup (tag_lru l s) = cb_lookup s" by (rule tag_lru_lookup [OF inv])
  show "cb_ok s'" if "insert_line l p s = Some (ev, s')"
    using insert_line_inv [OF inv np that] ok by (auto simp: cb_ok_def)
  show "cb_lookup s' = (cb_lookup s)(l \<mapsto> p)" if "insert_line l p s = Some (None, s')"
    using insert_line_lookup [OF inv that] by simp
  show "v \<noteq> l \<and> cb_lookup s v = Some q \<and> cb_lookup s' = (cb_lookup s)(v := None, l \<mapsto> p)"
    if "insert_line l p s = Some (Some (v, q), s')"
    using insert_line_lookup [OF inv that] by simp
  show "cb_ok (tag_lru l s)" if "cb_lookup s l \<noteq> None"
    using tag_lru_inv [OF inv that np] ok by (simp add: cb_ok_def tag_lru_def)
qed

lemma cb_new_ok:
  assumes "off < 32" and "0 < unat ways"
  shows "cb_ok (cb_new off ways)"
proof -
  have "(2 :: nat) ^ off < 2 ^ 32" using assms(1) by (intro power_strict_increasing) simp_all
  then have "unat (of_nat (2 ^ off) :: u32) = 2 ^ off" using assms(1) by (simp add: unsigned_of_nat take_bit_nat_eq_self del: of_nat_power)
  then have "unat (push_bit off 1 :: u32) = 2 ^ off" by simp
  then show ?thesis using assms(2)
    by (simp add: cb_ok_def cb_inv_def cb_new_def Let_def set_inv_def cb_keys_def)
qed

lemma remove_line_ok: "cb_ok b \<Longrightarrow> cb_ok (remove_line l b)"
  using remove_line_inv [of b l] by (auto simp: cb_ok_def remove_line_def)

lemma set_payload_ok: "cb_ok b \<Longrightarrow> cb_lookup b l \<noteq> None \<Longrightarrow> cb_ok (set_payload l p b)"
  using set_payload_inv [of b l p] by (auto simp: cb_ok_def set_payload_def write_set_def)

lemma get_line_spec:
  "cb_ok b \<Longrightarrow> get_line l t b = (cb_lookup b l, if t \<and> cb_lookup b l \<noteq> None then tag_lru l b else b)"
  by (auto simp: get_line_def cb_lookup_def split: option.split)

section \<open>Least recently used\<close>

text \<open>The abstract set: its lines with their contents, the most recently used first.\<close>

definition cb_recency :: "'p CacheBlock \<Rightarrow> u64 \<Rightarrow> (u64 \<times> 'p) list" where
  "cb_recency b l = map (\<lambda>k. (k, the (cb_lookup b k))) (cb_lru b l)"

definition lru_access :: "nat \<Rightarrow> u64 \<Rightarrow> 'p \<Rightarrow> (u64 \<times> 'p) list \<Rightarrow> (u64 \<times> 'p) list" where
  "lru_access cap l p xs = take cap ((l, p) # filter (\<lambda>(k, _). k \<noteq> l) xs)"

lemma removeAll_last: "distinct xs \<Longrightarrow> xs \<noteq> [] \<Longrightarrow> removeAll (last xs) xs = butlast xs"
  by (induction xs rule: rev_induct) auto

lemma cb_lru_in_lookup:
  assumes "cb_ok b" and "k \<in> set (cb_lru b l)"
  shows "cb_lookup b k \<noteq> None \<and> line_index_to_set_index b k = line_index_to_set_index b l"
proof -
  have inv: "cb_inv b" using assms(1) by (simp add: cb_ok_def)
  have k: "k \<in> fst ` set (cb_set b l)" using cb_inv_set(3) [OF inv] assms(2) by blast
  note i = cb_inv_set(4) [OF inv k]
  then show ?thesis using k set_same_index [OF i] by (simp add: cb_lookup_def map_of_eq_None_iff)
qed

lemma recency_put:
  assumes inv: "cb_inv b" and L: "cb_lru b' l = l # removeAll l L" and "cb_lookup b' l = Some p"
    and "\<And>k. k \<in> set L \<Longrightarrow> k \<noteq> l \<Longrightarrow> cb_lookup b' k = cb_lookup b k"
  shows "cb_recency b' l = (l, p) # filter (\<lambda>(k, _). k \<noteq> l) (map (\<lambda>k. (k, the (cb_lookup b k))) L)"
proof -
  have "map (\<lambda>k. (k, the (cb_lookup b' k))) (removeAll l L) = filter (\<lambda>(k, _). k \<noteq> l) (map (\<lambda>k. (k, the (cb_lookup b k))) L)"
    using assms(4) by (induction L) auto
  then show ?thesis using L assms(3) by (simp add: cb_recency_def)
qed

lemma insert_line_recency:
  assumes ok: "cb_ok b" and ins: "insert_line l p b = Some (ev, b')"
  shows "cb_recency b' l = lru_access (unat (line_per_set b)) l p (cb_recency b l)"
proof -
  have inv: "cb_inv b" using ok by (simp add: cb_ok_def)
  note S = cb_inv_set [OF inv, where l = l] and lk = insert_line_lookup [OF inv ins]
  have len: "length (cb_lru b l) = length (cb_set b l)" by (rule lru_length [OF ok])
  have lp: "cb_lookup b' l = Some p" using lk by (auto split: option.splits)
  have filt: "length (filter (\<lambda>(k, _). k \<noteq> l) (map (\<lambda>k. (k, the (cb_lookup b k))) L)) = length (removeAll l L)" for L
    by (induction L) auto
  from inv ins show ?thesis
  proof (cases rule: insert_line_cases)
    case hit
    have L: "cb_lru b' l = l # removeAll l (cb_lru b l)" unfolding hit(3) by (rule put_set_get(2) [OF inv])
    have r: "cb_recency b' l = (l, p) # filter (\<lambda>(k, _). k \<noteq> l) (cb_recency b l)"
      unfolding cb_recency_def [of b l] by (rule recency_put [OF inv L lp]) (use lk hit(2) in auto)
    have "l \<in> set (cb_lru b l)"
      using S(3) ok hit(1) by (simp add: cb_ok_def cb_lookup_def map_of_eq_None_iff)
    then have "length (removeAll l (cb_lru b l)) < length (cb_lru b l)" by (rule length_removeAll_less)
    then have "Suc (length (filter (\<lambda>(k, _). k \<noteq> l) (cb_recency b l))) \<le> unat (line_per_set b)"
      unfolding cb_recency_def filt using S(5) len by linarith
    then show ?thesis unfolding r lru_access_def by simp
  next
    case fill
    have L: "cb_lru b' l = l # removeAll l (cb_lru b l)" unfolding fill(4) by (rule put_set_get(2) [OF inv])
    have r: "cb_recency b' l = (l, p) # filter (\<lambda>(k, _). k \<noteq> l) (cb_recency b l)"
      unfolding cb_recency_def [of b l] by (rule recency_put [OF inv L lp]) (use lk fill(3) in auto)
    have "Suc (length (filter (\<lambda>(k, _). k \<noteq> l) (cb_recency b l))) \<le> unat (line_per_set b)"
      unfolding cb_recency_def filt using fill(2) len length_removeAll_less_eq [of l "cb_lru b l"] by linarith
    then show ?thesis unfolding r lru_access_def by simp
  next
    case (evict v q)
    have rv: "removeAll v (cb_lru b l) = butlast (cb_lru b l)"
      unfolding evict(4) by (rule removeAll_last [OF S(2) evict(3)])
    have L: "cb_lru b' l = l # removeAll l (butlast (cb_lru b l))"
      unfolding evict(8) rv [symmetric] by (rule put_set_get(2) [OF inv])
    have vn: "k \<noteq> v" if "k \<in> set (butlast (cb_lru b l))" for k using that rv by (metis removeAll.simps(1) set_removeAll DiffE singletonI)
    have r: "cb_recency b' l = (l, p) # filter (\<lambda>(k, _). k \<noteq> l) (map (\<lambda>k. (k, the (cb_lookup b k))) (butlast (cb_lru b l)))"
      by (rule recency_put [OF inv L lp]) (use lk evict(6) vn in auto)
    have nl: "l \<notin> set (cb_lru b l)" using S(3) evict(1) by (simp add: cb_lookup_def map_of_eq_None_iff)
    have f: "filter (\<lambda>(k, _). k \<noteq> l) (map (\<lambda>k. (k, the (cb_lookup b k))) xs) = map (\<lambda>k. (k, the (cb_lookup b k))) xs"
      if "l \<notin> set xs" for xs using that by (induction xs) auto
    have "length (cb_lru b l) = unat (line_per_set b)" using evict(2) S(5) len by linarith
    then show ?thesis
      using r nl f [of "cb_lru b l"] f [of "butlast (cb_lru b l)"] in_set_butlastD [of l "cb_lru b l"] evict(3)
      unfolding lru_access_def cb_recency_def [of b l]
      by (cases "unat (line_per_set b)") (auto simp: take_map butlast_conv_take)
  qed
qed

lemma cb_lru_put_other:
  "line_index_to_set_index b k \<noteq> line_index_to_set_index b l \<Longrightarrow> cb_lru (put_set b l S L P) k = cb_lru b k"
  by (simp add: cb_lru_def idx_put_set) (simp add: put_set_def)

text \<open>The recency list of a set only depends on its LRU list and on what its lines hold.\<close>

lemma cb_recency_cong:
  "cb_lru b' k = cb_lru b k \<Longrightarrow> (\<And>j. j \<in> set (cb_lru b k) \<Longrightarrow> cb_lookup b' j = cb_lookup b j) \<Longrightarrow> cb_recency b' k = cb_recency b k"
  by (simp add: cb_recency_def)

lemma insert_line_other_sets:
  assumes ok: "cb_ok b" and ins: "insert_line l p b = Some (ev, b')"
    and k: "line_index_to_set_index b k \<noteq> line_index_to_set_index b l"
  shows "cb_recency b' k = cb_recency b k"
proof -
  have inv: "cb_inv b" using ok by (simp add: cb_ok_def)
  have j: "line_index_to_set_index b j \<noteq> line_index_to_set_index b l" if "j \<in> set (cb_lru b k)" for j
    using cb_lru_in_lookup [OF ok that] k by simp
  have "cb_recency (put_set b l S L P) k = cb_recency b k" for S L P
    by (rule cb_recency_cong [OF cb_lru_put_other [OF k]]) (simp add: lookup_put_set [OF inv] j)
  with inv ins show ?thesis by (cases rule: insert_line_cases) simp_all
qed

text \<open>A tagged lookup that hits moves the line to the front.\<close>

lemma tag_lru_recency:
  assumes ok: "cb_ok b" and p: "cb_lookup b l = Some p"
  shows "cb_recency (tag_lru l b) k =
    (if line_index_to_set_index b k = line_index_to_set_index b l then lru_access (unat (line_per_set b)) l p (cb_recency b k) else cb_recency b k)"
proof (cases "line_index_to_set_index b k = line_index_to_set_index b l")
  case False
  have inv: "cb_inv b" using ok by (simp add: cb_ok_def)
  have "cb_lru (tag_lru l b) k = cb_lru b k" unfolding tag_lru_put [OF inv] by (rule cb_lru_put_other [OF False])
  then have "cb_recency (tag_lru l b) k = cb_recency b k" by (rule cb_recency_cong) (simp add: tag_lru_lookup [OF inv])
  then show ?thesis using False by simp
next
  case True
  have inv: "cb_inv b" using ok by (simp add: cb_ok_def)
  have ins: "insert_line l p b = Some (None, tag_lru l (set_payload l p b))"
    using p by (simp add: insert_line_def cb_lookup_def)
  note r = insert_line_recency [OF ok ins] and lk = insert_line_lookup [OF inv ins]
  have e: "cb_lookup (tag_lru l (set_payload l p b)) = cb_lookup (tag_lru l b)"
    using lk p by (simp add: tag_lru_lookup [OF inv] fun_upd_idem)
  have "cb_lru (tag_lru l (set_payload l p b)) l = cb_lru (tag_lru l b) l"
    by (simp add: tag_lru_def set_payload_def write_set_def cb_lru_def cache_simps)
  then have "cb_recency (tag_lru l b) l = cb_recency (tag_lru l (set_payload l p b)) l" by (simp add: cb_recency_def e)
  moreover have "cb_recency b k = cb_recency b l" using set_same_index [OF True] by (simp add: cb_recency_def)
  moreover have "cb_recency (tag_lru l b) k = cb_recency (tag_lru l b) l"
    using set_same_index [of "tag_lru l b" k l] True by (simp add: cb_recency_def tag_lru_def cache_simps)
  ultimately show ?thesis using r True by simp
qed

section \<open>Pins\<close>

lemma tag_lru_raw:
  "cb_lookup (tag_lru k b) = cb_lookup b" "cb_set (tag_lru k b) = cb_set b" "line_per_set (tag_lru k b) = line_per_set b" "pinned_line (tag_lru k b) = pinned_line b"
  "line_index_to_set_index (tag_lru k b) = line_index_to_set_index b" "length (p_lrus (tag_lru k b)) = length (p_lrus b)"
  by (simp_all add: tag_lru_def cb_lookup_def cb_set_def cache_simps fun_eq_iff)

lemma tag_lru_list:
  "line_index_to_set_index b l < length (p_lrus b) \<Longrightarrow> line_index_to_set_index b k = line_index_to_set_index b l \<Longrightarrow>
   cb_lru (tag_lru k b) l = k # removeAll k (cb_lru b l)"
  by (simp add: tag_lru_def cb_lru_def cache_simps)

lemma insert_evicts_last:
  "cb_lookup b k = None \<Longrightarrow> length (cb_set b k) = unat (line_per_set b) \<Longrightarrow> cb_lru b k = xs @ [v] \<Longrightarrow> cb_lookup b v = Some x \<Longrightarrow>
   map_option fst (insert_line k q b) = Some (Some (v, x))"
  by (simp add: insert_line_def cb_lookup_def get_line_def Let_def)

text \<open>Tagged lookups of the lines \<open>ks\<close>, one after the other.\<close>

definition touch_all :: "u64 list \<Rightarrow> 'p CacheBlock \<Rightarrow> 'p CacheBlock" where
  "touch_all ks b = fold (\<lambda>k b. snd (get_line k True b)) ks b"

lemma touch_all_lru:
  assumes "\<forall>k\<in>set ks. cb_lookup b k \<noteq> None \<and> line_index_to_set_index b k = line_index_to_set_index b l"
    and "line_index_to_set_index b l < length (p_lrus b)" and "cb_lru b l = xs @ l # ys" and "l \<notin> set ks \<union> set ys"
  shows "(\<exists>xs'. cb_lru (touch_all ks b) l = xs' @ l # filter (\<lambda>y. y \<notin> set ks) ys) \<and> cb_set (touch_all ks b) = cb_set b \<and> line_per_set (touch_all ks b) = line_per_set b
    \<and> cb_lookup (touch_all ks b) = cb_lookup b \<and> line_index_to_set_index (touch_all ks b) = line_index_to_set_index b"
  using assms
proof (induction ks arbitrary: b xs ys)
  case Nil
  then show ?case by (auto simp: touch_all_def)
next
  case (Cons k ks)
  let ?b = "tag_lru k b"
  have g: "touch_all (k # ks) b = touch_all ks ?b" using Cons.prems(1) by (auto simp: touch_all_def get_line_def cb_lookup_def)
  have lru: "cb_lru ?b l = (k # removeAll k xs) @ l # removeAll k ys" using Cons.prems tag_lru_list [of b l k] by auto
  have "\<exists>xs'. cb_lru (touch_all ks ?b) l = xs' @ l # filter (\<lambda>y. y \<notin> set ks) (removeAll k ys)" and
    rest: "cb_set (touch_all ks ?b) = cb_set ?b \<and> line_per_set (touch_all ks ?b) = line_per_set ?b
    \<and> cb_lookup (touch_all ks ?b) = cb_lookup ?b \<and> line_index_to_set_index (touch_all ks ?b) = line_index_to_set_index ?b"
    using Cons.IH [of ?b "k # removeAll k xs" "removeAll k ys"] Cons.prems lru by (simp_all add: tag_lru_raw)
  moreover have "filter (\<lambda>y. y \<notin> set ks) (removeAll k ys) = filter (\<lambda>y. y \<notin> set (k # ks)) ys" by (induction ys) auto
  ultimately show ?case unfolding g by (simp add: tag_lru_raw)
qed

section \<open>Properties\<close>

text \<open>
  C7. Without pins the cache block is an exact LRU cache with write-out of the victim. In a well-formed block
  that has no pinned line, inserting a line always succeeds; seen as a recency list, the line's set
  becomes the new line followed by the other lines in their order, cut to the associativity; the
  line that falls off, and only that one, is handed out with its contents; all other lines read
  as before. A lookup returns what the line holds and changes no contents; a lookup with the tag that hits moves the line to the
  front of its set, any other lookup leaves the order. Neither touches the order of another set.
\<close>

theorem cache_block_lru:
  assumes "cb_ok b"
  shows "(\<exists>ev b'. insert_line l p b = Some (ev, b') \<and> cb_ok b' \<and>
      cb_recency b' l = lru_access (unat (line_per_set b)) l p (cb_recency b l) \<and>
      (\<forall>k. line_index_to_set_index b k \<noteq> line_index_to_set_index b l \<longrightarrow> cb_recency b' k = cb_recency b k) \<and>
      (case ev of None \<Rightarrow> cb_lookup b' = (cb_lookup b)(l \<mapsto> p)
       | Some (v, q) \<Rightarrow> v \<noteq> l \<and> cb_lookup b l = None \<and> (v, q) = last (cb_recency b l) \<and> cb_lookup b v = Some q \<and>
           cb_lookup b' = (cb_lookup b)(v := None, l \<mapsto> p))) \<and>
    (\<exists>b'. get_line l tag b = (cb_lookup b l, b') \<and> cb_ok b' \<and> cb_lookup b' = cb_lookup b \<and>
      (\<forall>k. cb_recency b' k = (case cb_lookup b l of
         Some q \<Rightarrow> if tag \<and> line_index_to_set_index b k = line_index_to_set_index b l then lru_access (unat (line_per_set b)) l q (cb_recency b k) else cb_recency b k
       | None \<Rightarrow> cb_recency b k)))"
proof (rule conjI)
  have inv: "cb_inv b" using assms by (simp add: cb_ok_def)
  obtain ev b' where r: "insert_line l p b = Some (ev, b')" "cb_ok b'" using cb.insert_stores [OF assms] by blast
  have e: "(v, q) = last (cb_recency b l)" if "ev = Some (v, q)" for v q
    using inv r(1)
  proof (cases rule: insert_line_cases)
    case (evict w x)
    then show ?thesis using that by (simp add: cb_recency_def last_map)
  qed (use that in simp_all)
  show "\<exists>ev b'. insert_line l p b = Some (ev, b') \<and> cb_ok b' \<and>
      cb_recency b' l = lru_access (unat (line_per_set b)) l p (cb_recency b l) \<and>
      (\<forall>k. line_index_to_set_index b k \<noteq> line_index_to_set_index b l \<longrightarrow> cb_recency b' k = cb_recency b k) \<and>
      (case ev of None \<Rightarrow> cb_lookup b' = (cb_lookup b)(l \<mapsto> p)
       | Some (v, q) \<Rightarrow> v \<noteq> l \<and> cb_lookup b l = None \<and> (v, q) = last (cb_recency b l) \<and> cb_lookup b v = Some q \<and>
           cb_lookup b' = (cb_lookup b)(v := None, l \<mapsto> p))"
    using r insert_line_recency [OF assms r(1)] insert_line_lookup [OF inv r(1)] insert_line_other_sets [OF assms r(1)] e by (auto split: option.splits)
  show "\<exists>b'. get_line l tag b = (cb_lookup b l, b') \<and> cb_ok b' \<and> cb_lookup b' = cb_lookup b \<and>
      (\<forall>k. cb_recency b' k = (case cb_lookup b l of
         Some q \<Rightarrow> if tag \<and> line_index_to_set_index b k = line_index_to_set_index b l then lru_access (unat (line_per_set b)) l q (cb_recency b k) else cb_recency b k
       | None \<Rightarrow> cb_recency b k))"
    using assms cb.touch_inv [OF assms, of l] cb.touch_lookup [OF assms, of l] tag_lru_recency [OF assms, of l]
    by (cases "cb_lookup b l") (simp_all add: get_line_spec [OF assms])
qed

lemma cache_block_lru_witness:
  "\<exists>ev b'. insert_line 5 (1 :: nat) (cb_new 2 4) = Some (ev, b') \<and> cb_ok b' \<and> cb_recency b' 5 = [(5, 1)]"
proof -
  have ok: "cb_ok (cb_new 2 4 :: nat CacheBlock)" by (rule cb_new_ok) simp_all
  have "cb_recency (cb_new 2 4 :: nat CacheBlock) 5 = []"
    using set_index_less [of "cb_new 2 4 :: nat CacheBlock" 5]
    by (simp add: cb_recency_def cb_lru_def cb_new_def Let_def)
  moreover have "line_per_set (cb_new 2 4 :: nat CacheBlock) = 4" by (simp add: cb_new_def Let_def)
  ultimately have "lru_access (unat (line_per_set (cb_new 2 4 :: nat CacheBlock))) 5 1 (cb_recency (cb_new 2 4) 5) = [(5, 1 :: nat)]"
    by (simp add: lru_access_def)
  with cache_block_lru [OF ok, of 5 1 True] show ?thesis by metis
qed

text \<open>
  C38. Pins do not work, in any block. Take a well-formed block with a full set, a line \<open>l\<close> of the set and a line \<open>k\<close> that would belong to it. Pinning
  \<open>l\<close> does not protect it: a tagged lookup puts it back on the LRU list, and after tagged lookups of all the other lines the insertion of \<open>k\<close> evicts \<open>l\<close>. When
  all lines of the set are pinned, the insertion reads the back of an empty list. And clearing a block forgets the lines but not the pins, so that
  unpinning \<open>l\<close> afterwards leaves a line on the LRU list that is not stored.
\<close>

theorem pins_not_respected:
  assumes inv: "cb_inv b" and l: "cb_lookup b l = Some p" and k: "cb_lookup b k = None" "line_index_to_set_index b k = line_index_to_set_index b l"
    and full: "length (cb_set b l) = unat (line_per_set b)" and others: "set ks = fst ` set (cb_set b l) - {l}"
  shows "map_option fst (insert_line k q (touch_all ks (snd (get_line l True (pin l b))))) = Some (Some (l, p)) \<and>
    l \<in> pinned_line (pin l b) \<and>
    (fst ` set (cb_set b l) \<subseteq> pinned_line b \<longrightarrow> insert_line k q b = None) \<and>
    l \<in> set (cb_lru (unpin l (cb_clear (pin l b))) l) \<and> cb_lookup (unpin l (cb_clear (pin l b))) l = None"
proof -
  note S = cb_inv_set [OF inv, where l = l] and len = cb_inv_lengths [OF inv, of l]
  let ?p = "pin l b"
  have mem: "l \<in> fst ` set (cb_set b l)" using l by (force simp: cb_lookup_def dest: map_of_SomeD)
  have idx: "line_index_to_set_index ?p = line_index_to_set_index b" by (simp add: pin_def cache_simps)
  have sets: "cb_set ?p = cb_set b" "cb_lookup ?p = cb_lookup b" "line_per_set ?p = line_per_set b" "length (p_lrus ?p) = length (p_lrus b)"
    by (simp_all add: pin_def cb_set_def cb_lookup_def cache_simps fun_eq_iff)
  have pinned: "l \<in> pinned_line ?p" using S(3) mem by (auto simp: pin_def)
  have lru: "cb_lru ?p l = remove1 l (cb_lru b l)"
    using len S(2) by (auto simp: pin_def cb_lru_def cache_simps remove1_idem)
  have g: "snd (get_line l True ?p) = tag_lru l ?p" using l by (simp add: get_line_def sets cb_lookup_def)
  have tl: "cb_lru (tag_lru l ?p) l = [] @ l # removeAll l (remove1 l (cb_lru b l))"
    using tag_lru_list [of ?p l l] len by (simp add: idx sets lru)
  have ks: "\<forall>j\<in>set ks. cb_lookup (tag_lru l ?p) j \<noteq> None \<and> line_index_to_set_index (tag_lru l ?p) j = line_index_to_set_index (tag_lru l ?p) l"
  proof
    fix j assume "j \<in> set ks"
    then have j: "j \<in> fst ` set (cb_set b l)" using others by blast
    then have i: "line_index_to_set_index b j = line_index_to_set_index b l" by (rule S(4))
    then have "cb_lookup b j \<noteq> None" using j set_same_index [OF i] by (simp add: cb_lookup_def map_of_eq_None_iff)
    with i show "cb_lookup (tag_lru l ?p) j \<noteq> None \<and> line_index_to_set_index (tag_lru l ?p) j = line_index_to_set_index (tag_lru l ?p) l"
      by (simp add: tag_lru_raw sets idx)
  qed
  let ?t = "touch_all ks (tag_lru l ?p)"
  have "filter (\<lambda>y. y \<notin> set ks) (removeAll l (remove1 l (cb_lru b l))) = []"
    using S(3) others by (auto simp: filter_empty_conv dest: notin_set_remove1)
  moreover have t: "(\<exists>xs'. cb_lru ?t l = xs' @ l # filter (\<lambda>y. y \<notin> set ks) (removeAll l (remove1 l (cb_lru b l)))) \<and> cb_set ?t = cb_set (tag_lru l ?p) \<and>
      line_per_set ?t = line_per_set (tag_lru l ?p) \<and> cb_lookup ?t = cb_lookup (tag_lru l ?p) \<and> line_index_to_set_index ?t = line_index_to_set_index (tag_lru l ?p)"
    by (rule touch_all_lru [OF ks _ tl]) (use len others in \<open>simp_all add: tag_lru_raw sets idx\<close>)
  ultimately obtain xs' where tl_end: "cb_lru ?t l = xs' @ [l]" by auto
  have same: "cb_lru ?t k = cb_lru ?t l" "cb_set b k = cb_set b l"
    using set_same_index [of ?t k l] set_same_index [of b k l] t k(2) by (simp_all add: tag_lru_raw idx)
  have lk: "cb_lookup ?t = cb_lookup b" "cb_set ?t = cb_set b" "line_per_set ?t = line_per_set b" using t by (simp_all add: tag_lru_raw sets)
  have "map_option fst (insert_line k q ?t) = Some (Some (l, p))"
    by (rule insert_evicts_last [where xs = xs']) (simp_all only: lk same tl_end k(1) l full)
  moreover have "insert_line k q b = None" if "fst ` set (cb_set b l) \<subseteq> pinned_line b"
  proof -
    have "set (cb_lru b l) = {}" unfolding S(3) using that by (simp only: Diff_eq_empty_iff)
    then have "cb_lru b l = []" by simp
    then have "cb_lru b k = []" using set_same_index [OF k(2)] by simp
    then show ?thesis using k(1) same(2) full by (simp add: insert_line_def cb_lookup_def)
  qed
  moreover have "l \<in> set (cb_lru (unpin l (cb_clear ?p)) l)" "cb_lookup (unpin l (cb_clear ?p)) l = None"
    using pinned len idx by (simp_all add: unpin_def cb_clear_def cb_lru_def cb_lookup_def cb_set_def cache_simps sets) (simp_all add: pin_def)
  ultimately show ?thesis using pinned g by simp
qed

definition two_way_block :: "nat CacheBlock" where
  "two_way_block = (case insert_line 4 40 (cb_new 1 2) of None \<Rightarrow> cb_new 1 2 | Some (_, b) \<Rightarrow> (case insert_line 6 60 b of None \<Rightarrow> b | Some (_, b') \<Rightarrow> b'))"

lemma pins_not_respected_witness:
  "map_option fst (insert_line 8 80 (touch_all [6] (snd (get_line 4 True (pin 4 two_way_block))))) = Some (Some (4, 40)) \<and>
   4 \<in> pinned_line (pin 4 two_way_block)"
proof -
  have ok: "cb_ok (cb_new 1 2 :: nat CacheBlock)" by (rule cb_new_ok) simp_all
  obtain e b where b: "insert_line 4 40 (cb_new 1 2 :: nat CacheBlock) = Some (e, b)" "cb_ok b" using cb.insert_stores [OF ok] by blast
  obtain e' b' where b': "insert_line 6 60 b = Some (e', b')" "cb_ok b'" using cb.insert_stores [OF b(2)] by blast
  have inv: "cb_inv two_way_block" using b b' by (simp add: two_way_block_def cb_ok_def)
  have v: "cb_lookup two_way_block 4 = Some 40" "cb_lookup two_way_block 8 = None"
    "line_index_to_set_index two_way_block 8 = line_index_to_set_index two_way_block 4"
    "length (cb_set two_way_block 4) = unat (line_per_set two_way_block)" by code_simp+
  have "cb_set two_way_block 4 = [(6, 60), (4, 40)]" by code_simp
  then have "set [6] = fst ` set (cb_set two_way_block 4) - {4 :: u64}" by auto
  from pins_not_respected [OF inv v this, of 80] show ?thesis by blast
qed

end
