(* ===== verification/MoesiProtocol.thy ===== *)
theory MoesiProtocol
  imports SimCommon
begin

text \<open>
  The vocabulary of the MOESI coherence protocol (\<^verbatim>\<open>cache/moesi/protocal.h\<close> and
  \<^verbatim>\<open>protocal.cpp\<close>): line and miss-register states, message types, channels, the message record,
  and the byte codec with which a message travels over the bus. The host is little endian.
\<close>

section \<open>States, messages and channels\<close>

definition CC_INVALID :: u32 where "CC_INVALID = 0"
definition CC_EXCLUSIVE :: u32 where "CC_EXCLUSIVE = 1"
definition CC_SHARED :: u32 where "CC_SHARED = 2"
definition CC_MODIFIED :: u32 where "CC_MODIFIED = 3"
definition CC_OWNED :: u32 where "CC_OWNED = 4"

definition MSHR_INVALID :: u32 where "MSHR_INVALID = 0"
definition MSHR_ITOI :: u32 where "MSHR_ITOI = 1"
definition MSHR_ITOS :: u32 where "MSHR_ITOS = 2"
definition MSHR_ITOM :: u32 where "MSHR_ITOM = 3"
definition MSHR_STOM :: u32 where "MSHR_STOM = 4"
definition MSHR_MTOI :: u32 where "MSHR_MTOI = 5"
definition MSHR_STOI :: u32 where "MSHR_STOI = 6"
definition MSHR_ETOI :: u32 where "MSHR_ETOI = 7"
definition MSHR_OTOM :: u32 where "MSHR_OTOM = 8"
definition MSHR_OTOI :: u32 where "MSHR_OTOI = 9"

definition MSG_INVALID :: u32 where "MSG_INVALID = 0"
definition MSG_INVALID_ACK :: u32 where "MSG_INVALID_ACK = 1"
definition MSG_GETS :: u32 where "MSG_GETS = 2"
definition MSG_GETS_FORWARD :: u32 where "MSG_GETS_FORWARD = 3"
definition MSG_GETM :: u32 where "MSG_GETM = 4"
definition MSG_GETM_FORWARD :: u32 where "MSG_GETM_FORWARD = 5"
definition MSG_GETM_ACK :: u32 where "MSG_GETM_ACK = 6"
definition MSG_GETS_RESP :: u32 where "MSG_GETS_RESP = 7"
definition MSG_GETM_RESP :: u32 where "MSG_GETM_RESP = 8"
definition MSG_GET_RESP_MEM :: u32 where "MSG_GET_RESP_MEM = 9"
definition MSG_GET_ACK :: u32 where "MSG_GET_ACK = 10"
definition MSG_PUTS :: u32 where "MSG_PUTS = 11"
definition MSG_PUTM :: u32 where "MSG_PUTM = 12"
definition MSG_PUTE :: u32 where "MSG_PUTE = 13"
definition MSG_PUTO :: u32 where "MSG_PUTO = 14"
definition MSG_PUT_ACK :: u32 where "MSG_PUT_ACK = 15"

lemmas msg_types = MSG_INVALID_def MSG_INVALID_ACK_def MSG_GETS_def MSG_GETS_FORWARD_def MSG_GETM_def MSG_GETM_FORWARD_def
  MSG_GETM_ACK_def MSG_GETS_RESP_def MSG_GETM_RESP_def MSG_GET_RESP_MEM_def MSG_GET_ACK_def MSG_PUTS_def MSG_PUTM_def MSG_PUTE_def
  MSG_PUTO_def MSG_PUT_ACK_def

definition CHANNEL_CNT :: nat where "CHANNEL_CNT = 3"
definition CHANNEL_ACK :: u32 where "CHANNEL_ACK = 0"
definition CHANNEL_RESP :: u32 where "CHANNEL_RESP = 1"
definition CHANNEL_REQ :: u32 where "CHANNEL_REQ = 2"

definition CACHE_LINE_LEN_BYTE :: nat where "CACHE_LINE_LEN_BYTE = 64"

text \<open>The printed names; those of the last two message types are exchanged in the code.\<close>

fun show_nat :: "nat \<Rightarrow> string" where
  "show_nat n = (if n < 10 then [char_of (48 + n)] else show_nat (n div 10) @ [char_of (48 + n mod 10)])"

declare show_nat.simps [simp del]

definition show_decimal :: "int \<Rightarrow> string" where
  "show_decimal i = (if i < 0 then ''-'' @ show_nat (nat (- i)) else show_nat (nat i))"

definition lookup_name :: "(u32 \<times> string) list \<Rightarrow> u32 \<Rightarrow> string" where
  "lookup_name tab n = (case map_of tab n of Some s \<Rightarrow> s | None \<Rightarrow> ''unknown'' @ show_decimal (sint n))"

definition get_cache_state_name_str :: "u32 \<Rightarrow> string" where
  "get_cache_state_name_str = lookup_name
     [(CC_INVALID, ''I''), (CC_EXCLUSIVE, ''E''), (CC_SHARED, ''S''), (CC_MODIFIED, ''M''), (CC_OWNED, ''O'')]"

definition get_cache_mshr_state_name_str :: "u32 \<Rightarrow> string" where
  "get_cache_mshr_state_name_str = lookup_name
     [(MSHR_INVALID, ''invalid''), (MSHR_ITOI, ''itoi''), (MSHR_ITOS, ''itos''), (MSHR_ITOM, ''itom''), (MSHR_STOM, ''stom''),
      (MSHR_MTOI, ''mtoi''), (MSHR_STOI, ''stoi''), (MSHR_ETOI, ''etoi''), (MSHR_OTOM, ''otom''), (MSHR_OTOI, ''otoi'')]"

definition get_cc_msg_type_name_str :: "u32 \<Rightarrow> string" where
  "get_cc_msg_type_name_str = lookup_name
     [(MSG_INVALID, ''invalid''), (MSG_INVALID_ACK, ''invalid_ack''), (MSG_GETS, ''gets''), (MSG_GETS_FORWARD, ''gets_forward''),
      (MSG_GETM, ''getm''), (MSG_GETM_FORWARD, ''getm_forward''), (MSG_GETM_ACK, ''getm_ack''), (MSG_GETS_RESP, ''gets_resp''),
      (MSG_GETM_RESP, ''getm_resp''), (MSG_GET_RESP_MEM, ''get_resp_mem''), (MSG_GET_ACK, ''get_ack''), (MSG_PUTS, ''puts''),
      (MSG_PUTM, ''putm''), (MSG_PUTE, ''pute''), (MSG_PUTO, ''put_ack''), (MSG_PUT_ACK, ''puto'')]"

section \<open>Messages and their bytes\<close>

record CacheCohenrenceMsg =
  mtype :: u32
  marg :: u32
  mtransid :: u32
  mline :: u64
  mdata :: "u8 list"

definition head_size :: nat where "head_size = 20"

text \<open>A store through a cast pointer writes the bytes of the value, low byte first.\<close>

definition le_bytes :: "nat \<Rightarrow> 'a::len word \<Rightarrow> u8 list" where
  "le_bytes n w = map (\<lambda>i. ucast (drop_bit (8 * i) w)) [0..<n]"

fun le_word :: "u8 list \<Rightarrow> 'a::len word" where
  "le_word [] = 0"
| "le_word (b # bs) = ucast b OR push_bit 8 (le_word bs)"

definition construct_msg_pack :: "CacheCohenrenceMsg \<Rightarrow> u8 list" where
  "construct_msg_pack m = le_bytes 4 (mtype m) @ le_bytes 4 (marg m) @ le_bytes 4 (mtransid m) @ le_bytes 8 (mline m) @ mdata m"

text \<open>A buffer shorter than the head is read out of bounds. The data of the record is left alone
  when the buffer holds none.\<close>

definition parse_msg_pack :: "u8 list \<Rightarrow> CacheCohenrenceMsg \<Rightarrow> CacheCohenrenceMsg option" where
  "parse_msg_pack buf m =
     (if length buf < head_size then None
      else Some (m\<lparr> mtype := le_word (take 4 buf), marg := le_word (take 4 (drop 4 buf)),
        mtransid := le_word (take 4 (drop 8 buf)), mline := le_word (take 8 (drop 12 buf)),
        mdata := (if length buf > head_size then drop head_size buf else mdata m) \<rparr>))"

lemma length_le_bytes [simp]: "length (le_bytes n w) = n"
  by (simp add: le_bytes_def)

lemma bit_le_word: "bit (le_word bs :: 'a::len word) k \<longleftrightarrow> k < LENGTH('a) \<and> k div 8 < length bs \<and> bit (bs ! (k div 8)) (k mod 8)"
proof (induction bs arbitrary: k)
  case Nil
  then show ?case by simp
next
  case (Cons b bs)
  show ?case
  proof (cases "k < 8")
    case True
    then show ?thesis by (auto simp: bit_or_iff bit_push_bit_iff bit_unsigned_iff)
  next
    case False
    have b: "\<not> bit b k" using False bit_imp_le_length [of b k] by auto
    have "k div 8 = Suc ((k - 8) div 8)" "k mod 8 = (k - 8) mod 8" using False by (simp_all add: div_if mod_if)
    then show ?thesis using False b Cons.IH [of "k - 8"] by (auto simp: bit_or_iff bit_push_bit_iff bit_unsigned_iff)
  qed
qed

lemma le_word_bytes:
  assumes "LENGTH('a) = 8 * n"
  shows "le_word (le_bytes n w) = (w :: 'a::len word)"
proof (rule bit_word_eqI)
  fix k assume k: "k < LENGTH('a)"
  then have "k div 8 < n" using assms by auto
  moreover have "8 * (k div 8) + k mod 8 = k" by simp
  ultimately show "bit (le_word (le_bytes n w) :: 'a word) k = bit w k"
    using k by (simp add: bit_le_word le_bytes_def bit_unsigned_iff bit_drop_bit_eq)
qed

text \<open>
  C25. Encoding a message and parsing the bytes gives back every field; the data comes back when the
  message carries any, and otherwise what the receiving record held before stays.
\<close>
theorem msg_roundtrip:
  "parse_msg_pack (construct_msg_pack m) r =
     Some (m\<lparr>mdata := (if mdata m = [] then mdata r else mdata m)\<rparr>)"
proof -
  have "drop 20 (construct_msg_pack m) = mdata m" "length (construct_msg_pack m) = 20 + length (mdata m)"
    by (simp_all add: construct_msg_pack_def)
  moreover have "take 4 (construct_msg_pack m) = le_bytes 4 (mtype m)" "take 4 (drop 4 (construct_msg_pack m)) = le_bytes 4 (marg m)"
    "take 4 (drop 8 (construct_msg_pack m)) = le_bytes 4 (mtransid m)" "take 8 (drop 12 (construct_msg_pack m)) = le_bytes 8 (mline m)"
    by (simp_all add: construct_msg_pack_def)
  ultimately show ?thesis by (cases m) (simp add: parse_msg_pack_def head_size_def le_word_bytes)
qed

end
