(* ===== verification/MemNode.thy ===== *)
theory MemNode
  imports MoesiProtocol SymMulChaBus
begin

text \<open>
  The memory controller on the bus (\<^verbatim>\<open>cache/moesi/memnode.cpp\<close>): it takes one request per tick into a
  short list of access buffers, moves at most one bus width of bytes of the oldest unfinished access
  between its buffer and the memory block, and answers a finished read. \<^verbatim>\<open>BusAssert\<close> is a failed
  assertion, \<^verbatim>\<open>BusCrash\<close> an access outside the memory block. The address map
  (\<^verbatim>\<open>MemCtrlLineAddrMap\<close>, an interface of the launcher) is a pair of functions: which lines the node
  is responsible for, and their offset in the block.
\<close>

section \<open>State\<close>

record MemoryAccessBuf =
  mb_lindex :: u64
  mb_hostoff :: u64
  mb_transid :: u32
  mb_op :: u16
  mb_src_port :: u32
  mb_processed :: u32
  mb_linebuf :: "u8 list"

record MemoryNode =
  memblk :: "u8 list"
  mn_port :: u32
  dwidth :: u32
  memory_access_buf_size :: u32
  membufs :: "MemoryAccessBuf list"
  request_precossed :: u64
  busy_cycles :: u64

type_synonym addr_map = "(u64 \<Rightarrow> bool) \<times> (u64 \<Rightarrow> u64)"

section \<open>Taking a request\<close>

definition mn_enter :: "addr_map \<Rightarrow> CacheCohenrenceMsg \<Rightarrow> bus_error + MemoryAccessBuf" where
  "mn_enter am msg =
     (let mb = \<lparr> mb_lindex = mline msg, mb_hostoff = snd am (mline msg), mb_transid = mtransid msg, mb_op = 0,
            mb_src_port = marg msg, mb_processed = 0, mb_linebuf = replicate CACHE_LINE_LEN_BYTE 0 \<rparr> in
      if \<not> fst am (mline msg) then Inl BusAssert
      else if mtype msg = MSG_GETS_FORWARD \<or> mtype msg = MSG_GETM_FORWARD then Inr mb
      else if mtype msg = MSG_PUTM \<or> mtype msg = MSG_PUTO
      then (if length (mdata msg) = CACHE_LINE_LEN_BYTE then Inr (mb\<lparr>mb_op := 1, mb_linebuf := mdata msg\<rparr>) else Inl BusAssert)
      else Inl BusAssert)"

definition mn_accept :: "addr_map \<Rightarrow> CacheCohenrenceMsg option \<Rightarrow> MemoryNode \<Rightarrow> bus_error + MemoryNode" where
  "mn_accept am msg n =
     (case msg of None \<Rightarrow> Inr n
      | Some m \<Rightarrow> (case mn_enter am m of Inl e \<Rightarrow> Inl e
          | Inr mb \<Rightarrow> Inr (n\<lparr>membufs := membufs n @ [mb], request_precossed := request_precossed n + 1\<rparr>)))"

section \<open>Moving data\<close>

definition copy_out :: "u8 list \<Rightarrow> nat \<Rightarrow> nat \<Rightarrow> u8 list option" where
  "copy_out mem off sz = (if off + sz \<le> length mem then Some (take sz (drop off mem)) else None)"

definition splice :: "nat \<Rightarrow> u8 list \<Rightarrow> u8 list \<Rightarrow> u8 list" where
  "splice off xs ys = take off ys @ xs @ drop (off + length xs) ys"

definition move_bytes :: "u32 \<Rightarrow> u8 list \<Rightarrow> MemoryAccessBuf \<Rightarrow> (u8 list \<times> MemoryAccessBuf) option" where
  "move_bytes dw mem mb =
     (let p = unat (mb_processed mb); sz = min (unat dw) (64 - p); off = unat (mb_hostoff mb + ucast (mb_processed mb)); done = mb\<lparr>mb_processed := of_nat (p + sz)\<rparr> in
      if mb_op mb \<noteq> 0
      then (if off + sz \<le> length mem then Some (splice off (take sz (drop p (mb_linebuf mb))) mem, done) else None)
      else (case copy_out mem off sz of None \<Rightarrow> None
            | Some bytes \<Rightarrow> Some (mem, done\<lparr>mb_linebuf := splice p bytes (mb_linebuf mb)\<rparr>)))"

fun mn_transfer :: "u32 \<Rightarrow> u8 list \<Rightarrow> MemoryAccessBuf list \<Rightarrow> (u8 list \<times> MemoryAccessBuf list) option" where
  "mn_transfer dw mem [] = Some (mem, [])"
| "mn_transfer dw mem (mb # mbs) =
     (if unat (mb_processed mb) < CACHE_LINE_LEN_BYTE
      then (case move_bytes dw mem mb of None \<Rightarrow> None
        | Some (mem', mb') \<Rightarrow>
            Some (mem', if CACHE_LINE_LEN_BYTE \<le> unat (mb_processed mb') \<and> mb_op mb' \<noteq> 0 then mbs else mb' # mbs))
      else map_option (\<lambda>(mem', r). (mem', mb # r)) (mn_transfer dw mem mbs))"

section \<open>Answering\<close>

fun mn_finished :: "MemoryAccessBuf list \<Rightarrow> (MemoryAccessBuf \<times> MemoryAccessBuf list) option" where
  "mn_finished [] = None"
| "mn_finished (mb # mbs) =
     (if CACHE_LINE_LEN_BYTE \<le> unat (mb_processed mb) then Some (mb, mbs)
      else map_option (\<lambda>(x, r). (x, mb # r)) (mn_finished mbs))"

definition mn_response :: "MemoryAccessBuf \<Rightarrow> CacheCohenrenceMsg" where
  "mn_response mb = \<lparr> mtype = MSG_GET_RESP_MEM, marg = 0, mtransid = mb_transid mb, mline = mb_lindex mb, mdata = mb_linebuf mb \<rparr>"

section \<open>The tick\<close>

text \<open>The tick between the receive and the send: the argument says whether the response channel is
  free; the result is the new node and the answer to send, with its destination.\<close>

definition mn_step :: "addr_map \<Rightarrow> CacheCohenrenceMsg option \<Rightarrow> bool \<Rightarrow> MemoryNode \<Rightarrow> bus_error + (MemoryNode \<times> (u32 \<times> CacheCohenrenceMsg) option)" where
  "mn_step am msg free n =
     (case mn_accept am msg n of Inl e \<Rightarrow> Inl e
      | Inr n1 \<Rightarrow>
          if membufs n1 = [] then Inr (n1, None)
          else (case mn_transfer (dwidth n1) (memblk n1) (membufs n1) of None \<Rightarrow> Inl BusCrash
            | Some (mem, mbs) \<Rightarrow>
                (let n2 = n1\<lparr>memblk := mem, membufs := mbs\<rparr>;
                     n3 = (if msg \<noteq> None then n2\<lparr>busy_cycles := busy_cycles n2 + 1\<rparr> else n2) in
                 if \<not> free then Inr (n2, None)
                 else (case mn_finished mbs of None \<Rightarrow> Inr (n3, None)
                   | Some (mb, rest) \<Rightarrow>
                       if mb_op mb \<noteq> 0 then Inl BusAssert
                       else Inr (n3\<lparr>membufs := rest\<rparr>, Some (mb_src_port mb, mn_response mb))))))"

text \<open>The receive: the first channel, from 0, with a complete message.\<close>

fun mn_recv :: "u64 \<Rightarrow> u32 \<Rightarrow> nat \<Rightarrow> nat \<Rightarrow> SymBus \<Rightarrow> bus_error + (CacheCohenrenceMsg option \<times> SymBus)" where
  "mn_recv tick port c 0 b = Inr (None, b)"
| "mn_recv tick port c (Suc k) b =
     (case can_recv b port (of_nat c) of Inl e \<Rightarrow> Inl e
      | Inr False \<Rightarrow> mn_recv tick port (Suc c) k b
      | Inr True \<Rightarrow>
          (case bus_recv tick b port (of_nat c) [] of Inl e \<Rightarrow> Inl e
           | Inr (ok, buf, b') \<Rightarrow>
               if \<not> ok then Inl BusAssert
               else (case parse_msg_pack buf \<lparr> mtype = 0, marg = 0, mtransid = 0, mline = 0, mdata = [] \<rparr> of
                   None \<Rightarrow> Inl BusCrash | Some m \<Rightarrow> Inr (Some m, b'))))"

definition mn_on_current_tick :: "u64 \<Rightarrow> addr_map \<Rightarrow> MemoryNode \<Rightarrow> SymBus \<Rightarrow> bus_error + (MemoryNode \<times> SymBus)" where
  "mn_on_current_tick tick am n b =
     (case (if length (membufs n) < unat (memory_access_buf_size n) then mn_recv tick (mn_port n) 0 CHANNEL_CNT b else Inr (None, b)) of
        Inl e \<Rightarrow> Inl e
      | Inr (msg, b1) \<Rightarrow>
          (case mn_accept am msg n of Inl e \<Rightarrow> Inl e
           | Inr n1 \<Rightarrow>
             (case (if membufs n1 = [] then Inr False else can_send b1 (mn_port n) CHANNEL_RESP) of Inl e \<Rightarrow> Inl e
              | Inr free \<Rightarrow>
                (case mn_step am msg free n of Inl e \<Rightarrow> Inl e
                 | Inr (n', None) \<Rightarrow> Inr (n', b1)
                 | Inr (n', Some (dst, m)) \<Rightarrow>
                     (case bus_send tick b1 (mn_port n) dst CHANNEL_RESP (construct_msg_pack m) of Inl e \<Rightarrow> Inl e
                      | Inr (ok, b2) \<Rightarrow> if ok then Inr (n', b2) else Inl BusAssert)))))"

section \<open>What the buffered accesses stand for\<close>

definition final_line :: "u8 list \<Rightarrow> MemoryAccessBuf \<Rightarrow> u8 list" where
  "final_line mem mb = (let p = unat (mb_processed mb) in
     take p (mb_linebuf mb) @ take (64 - p) (drop (unat (mb_hostoff mb) + p) mem))"

definition write_rest :: "MemoryAccessBuf \<Rightarrow> u8 list \<Rightarrow> u8 list" where
  "write_rest mb mem = (let p = unat (mb_processed mb) in splice (unat (mb_hostoff mb) + p) (drop p (mb_linebuf mb)) mem)"

definition answer :: "u8 list \<Rightarrow> MemoryAccessBuf \<Rightarrow> u32 \<times> CacheCohenrenceMsg" where
  "answer mem mb = (mb_src_port mb, (mn_response mb)\<lparr>mdata := final_line mem mb\<rparr>)"

fun pending :: "u8 list \<Rightarrow> MemoryAccessBuf list \<Rightarrow> (u32 \<times> CacheCohenrenceMsg) list \<times> u8 list" where
  "pending mem [] = ([], mem)"
| "pending mem (mb # mbs) =
     (if mb_op mb \<noteq> 0 then pending (write_rest mb mem) mbs
      else (answer mem mb # fst (pending mem mbs), snd (pending mem mbs)))"

definition mb_ok :: "nat \<Rightarrow> MemoryAccessBuf \<Rightarrow> bool" where
  "mb_ok len mb \<longleftrightarrow> length (mb_linebuf mb) = 64 \<and> unat (mb_hostoff mb) + 64 \<le> len \<and> unat (mb_processed mb) \<le> 64 \<and>
     (mb_op mb = 0 \<or> unat (mb_processed mb) < 64)"

definition node_ok :: "MemoryNode \<Rightarrow> bool" where
  "node_ok n \<longleftrightarrow> length (memblk n) < 2 ^ 64 \<and> (\<forall>mb\<in>set (membufs n). mb_ok (length (memblk n)) mb)"

lemma length_splice [simp]: "off + length xs \<le> length ys \<Longrightarrow> length (splice off xs ys) = length ys"
  by (simp add: splice_def)

lemma splice_splice: "splice (off + length xs) ys (splice off xs zs) = splice off (xs @ ys) zs" if "off + length xs \<le> length zs"
  using that by (simp add: splice_def ac_simps)

lemma unat_of_small: "n \<le> 64 \<Longrightarrow> unat (of_nat n :: u32) = n"
  by (simp add: unsigned_of_nat take_bit_nat_eq_self)

lemma splice_nil [simp]: "splice off [] ys = ys"
  by (simp add: splice_def)

lemma move_write:
  assumes ok: "mb_ok (length mem) mb" and len: "length mem < 2 ^ 64" and op: "mb_op mb \<noteq> 0"
  shows "\<exists>mem' mb'. move_bytes dw mem mb = Some (mem', mb') \<and> length mem' = length mem \<and>
    write_rest mb' mem' = write_rest mb mem \<and> mb_op mb' = mb_op mb \<and> unat (mb_processed mb') \<le> 64 \<and>
    mb_linebuf mb' = mb_linebuf mb \<and> mb_hostoff mb' = mb_hostoff mb"
proof -
  define p where "p = unat (mb_processed mb)"
  define sz where "sz = min (unat dw) (64 - p)"
  define off where "off = unat (mb_hostoff mb)"
  have p: "p \<le> 64" and o64: "off + 64 \<le> length mem" and lb: "length (mb_linebuf mb) = 64"
    using ok by (simp_all add: mb_ok_def p_def off_def)
  have sz: "p + sz \<le> 64" using p by (simp add: sz_def)
  have "unat (mb_hostoff mb + ucast (mb_processed mb)) = off + p"
    using o64 p len by (simp add: off_def p_def unat_word_ariths unsigned_ucast_eq take_bit_nat_eq_self)
  then have mv: "move_bytes dw mem mb = Some (splice (off + p) (take sz (drop p (mb_linebuf mb))) mem, mb\<lparr>mb_processed := of_nat (p + sz)\<rparr>)"
    using op o64 sz by (simp add: move_bytes_def p_def [symmetric] sz_def [symmetric] Let_def)
  have q: "unat (of_nat (p + sz) :: u32) = p + sz" by (rule unat_of_small [OF sz])
  have t: "length (take sz (drop p (mb_linebuf mb))) = sz" using lb sz by simp
  have "write_rest (mb\<lparr>mb_processed := of_nat (p + sz)\<rparr>) (splice (off + p) (take sz (drop p (mb_linebuf mb))) mem)
      = splice (off + p + sz) (drop (p + sz) (mb_linebuf mb)) (splice (off + p) (take sz (drop p (mb_linebuf mb))) mem)"
    using q by (simp add: write_rest_def Let_def off_def add.assoc)
  also have "\<dots> = splice (off + p) (take sz (drop p (mb_linebuf mb)) @ drop (p + sz) (mb_linebuf mb)) mem"
    using splice_splice [of "off + p" "take sz (drop p (mb_linebuf mb))" mem] t o64 sz by simp
  also have "take sz (drop p (mb_linebuf mb)) @ drop (p + sz) (mb_linebuf mb) = drop p (mb_linebuf mb)"
    by (metis append_take_drop_id drop_drop add.commute)
  finally have "write_rest (mb\<lparr>mb_processed := of_nat (p + sz)\<rparr>) (splice (off + p) (take sz (drop p (mb_linebuf mb))) mem) = write_rest mb mem"
    by (simp add: write_rest_def Let_def off_def p_def)
  then show ?thesis using mv t o64 sz q by auto
qed

lemma move_read:
  assumes ok: "mb_ok (length mem) mb" and len: "length mem < 2 ^ 64" and op: "mb_op mb = 0"
  shows "\<exists>mb'. move_bytes dw mem mb = Some (mem, mb') \<and> mb_ok (length mem) mb' \<and> answer mem mb' = answer mem mb \<and> mb_op mb' = 0"
proof -
  define p where "p = unat (mb_processed mb)"
  define sz where "sz = min (unat dw) (64 - p)"
  define off where "off = unat (mb_hostoff mb)"
  have p: "p \<le> 64" and o64: "off + 64 \<le> length mem" and lb: "length (mb_linebuf mb) = 64"
    using ok by (simp_all add: mb_ok_def p_def off_def)
  have sz: "p + sz \<le> 64" using p by (simp add: sz_def)
  have a: "unat (mb_hostoff mb + ucast (mb_processed mb)) = off + p"
    using o64 p len by (simp add: off_def p_def unat_word_ariths unsigned_ucast_eq take_bit_nat_eq_self)
  define new where "new = take sz (drop (off + p) mem)"
  define mb' where "mb' = mb\<lparr>mb_processed := of_nat (p + sz), mb_linebuf := splice p new (mb_linebuf mb)\<rparr>"
  have mv: "move_bytes dw mem mb = Some (mem, mb')"
    using op o64 sz a by (simp add: move_bytes_def p_def [symmetric] sz_def [symmetric] Let_def copy_out_def new_def mb'_def)
  have q: "unat (of_nat (p + sz) :: u32) = p + sz" by (rule unat_of_small [OF sz])
  have l: "length new = sz" using o64 sz by (simp add: new_def)
  have "final_line mem mb' = take (p + sz) (splice p new (mb_linebuf mb)) @ take (64 - (p + sz)) (drop (off + (p + sz)) mem)"
    using q by (simp add: final_line_def Let_def off_def mb'_def)
  also have "take (p + sz) (splice p new (mb_linebuf mb)) = take p (mb_linebuf mb) @ new"
    using l lb sz by (simp add: splice_def)
  also have "(take p (mb_linebuf mb) @ new) @ take (64 - (p + sz)) (drop (off + (p + sz)) mem) = take p (mb_linebuf mb) @ take (64 - p) (drop (off + p) mem)"
  proof -
    have "take (64 - p) (drop (off + p) mem) = take (sz + (64 - (p + sz))) (drop (off + p) mem)" using sz by simp
    also have "\<dots> = new @ take (64 - (p + sz)) (drop sz (drop (off + p) mem))" unfolding take_add new_def ..
    finally show ?thesis by (simp add: ac_simps)
  qed
  also have "\<dots> = final_line mem mb" by (simp add: final_line_def Let_def off_def p_def)
  finally have "answer mem mb' = answer mem mb" by (simp add: answer_def mn_response_def mb'_def)
  moreover have "mb_ok (length mem) mb'"
    using ok q sz l lb op by (simp add: mb_ok_def mb'_def)
  ultimately show ?thesis using mv op by (simp add: mb'_def)
qed

lemma transfer_keeps:
  assumes "length mem < 2 ^ 64" and "\<forall>mb\<in>set mbs. mb_ok (length mem) mb"
  shows "\<exists>mem' mbs'. mn_transfer dw mem mbs = Some (mem', mbs') \<and> length mem' = length mem \<and>
    (\<forall>mb\<in>set mbs'. mb_ok (length mem) mb) \<and> pending mem' mbs' = pending mem mbs"
  using assms(2)
proof (induction mbs)
  case Nil
  then show ?case by simp
next
  case (Cons mb mbs)
  have ok: "mb_ok (length mem) mb" using Cons.prems by simp
  show ?case
  proof (cases "unat (mb_processed mb) < CACHE_LINE_LEN_BYTE")
    case True
    show ?thesis
    proof (cases "mb_op mb = 0")
      case True
      obtain mb' where "move_bytes dw mem mb = Some (mem, mb')" "mb_ok (length mem) mb'" "answer mem mb' = answer mem mb" "mb_op mb' = 0"
        using move_read [OF ok assms(1) True] by blast
      then show ?thesis using Cons.prems True \<open>unat (mb_processed mb) < CACHE_LINE_LEN_BYTE\<close> by simp
    next
      case False
      obtain mem' mb' where m: "move_bytes dw mem mb = Some (mem', mb')" "length mem' = length mem" "write_rest mb' mem' = write_rest mb mem"
        "mb_op mb' = mb_op mb" "unat (mb_processed mb') \<le> 64" "mb_linebuf mb' = mb_linebuf mb" "mb_hostoff mb' = mb_hostoff mb"
        using move_write [OF ok assms(1) False] by blast
      show ?thesis
      proof (cases "CACHE_LINE_LEN_BYTE \<le> unat (mb_processed mb')")
        case True
        then have "write_rest mb' mem' = mem'"
          using ok m by (simp add: write_rest_def Let_def mb_ok_def CACHE_LINE_LEN_BYTE_def)
        then show ?thesis using m True False Cons.prems \<open>unat (mb_processed mb) < CACHE_LINE_LEN_BYTE\<close> by simp
      next
        case np: False
        then have "mb_ok (length mem) mb'" using ok m by (simp add: mb_ok_def CACHE_LINE_LEN_BYTE_def)
        then show ?thesis using m np False Cons.prems \<open>unat (mb_processed mb) < CACHE_LINE_LEN_BYTE\<close> by simp
      qed
    qed
  next
    case False
    then have op: "mb_op mb = 0" and p: "unat (mb_processed mb) = 64" using ok by (auto simp: mb_ok_def CACHE_LINE_LEN_BYTE_def)
    obtain mem' mbs' where r: "mn_transfer dw mem mbs = Some (mem', mbs')" "length mem' = length mem"
      "\<forall>mb\<in>set mbs'. mb_ok (length mem) mb" "pending mem' mbs' = pending mem mbs"
      using Cons by auto
    have "answer mem' mb = answer mem mb" using p by (simp add: answer_def final_line_def Let_def)
    then show ?thesis using r False op ok by simp
  qed
qed

lemma finished_answer:
  assumes "mn_finished mbs = Some (mb, rest)" and "\<forall>mb\<in>set mbs. mb_ok (length mem) mb"
  shows "mb_op mb = 0 \<and> (\<exists>A B. fst (pending mem mbs) = A @ (mb_src_port mb, mn_response mb) # B \<and> fst (pending mem rest) = A @ B) \<and>
    snd (pending mem rest) = snd (pending mem mbs) \<and> set rest \<subseteq> set mbs"
proof -
  have "\<forall>mem'. length mem' = length mem \<longrightarrow> mb_op mb = 0 \<and>
      (\<exists>A B. fst (pending mem' mbs) = A @ (mb_src_port mb, mn_response mb) # B \<and> fst (pending mem' rest) = A @ B) \<and>
      snd (pending mem' rest) = snd (pending mem' mbs) \<and> set rest \<subseteq> set mbs"
    using assms
  proof (induction mbs arbitrary: rest)
    case Nil
    then show ?case by simp
  next
    case (Cons x mbs)
    have ok: "mb_ok (length mem) x" using Cons.prems(2) by simp
    show ?case
    proof (cases "CACHE_LINE_LEN_BYTE \<le> unat (mb_processed x)")
      case True
      then have x: "mb = x" "rest = mbs" using Cons.prems(1) by simp_all
      have p: "unat (mb_processed x) = 64" "mb_op x = 0" "length (mb_linebuf x) = 64"
        using ok True by (auto simp: mb_ok_def CACHE_LINE_LEN_BYTE_def)
      have "answer mem' x = (mb_src_port x, mn_response x)" for mem'
        using p by (simp add: answer_def final_line_def Let_def mn_response_def)
      then show ?thesis using x p by auto
    next
      case False
      then obtain r where r: "mn_finished mbs = Some (mb, r)" "rest = x # r" using Cons.prems(1) by (auto split: option.splits)
      have IH: "mb_op mb = 0 \<and> (\<exists>A B. fst (pending mem' mbs) = A @ (mb_src_port mb, mn_response mb) # B \<and> fst (pending mem' r) = A @ B) \<and>
          snd (pending mem' r) = snd (pending mem' mbs) \<and> set r \<subseteq> set mbs" if "length mem' = length mem" for mem'
        using Cons.IH [OF r(1)] Cons.prems(2) that by simp
      show ?thesis
      proof (intro allI impI)
        fix mem' :: "u8 list" assume l: "length mem' = length mem"
        have wl: "length (write_rest x mem') = length mem"
          using ok l by (simp add: write_rest_def Let_def mb_ok_def)
        show "mb_op mb = 0 \<and> (\<exists>A B. fst (pending mem' (x # mbs)) = A @ (mb_src_port mb, mn_response mb) # B \<and> fst (pending mem' rest) = A @ B) \<and>
          snd (pending mem' rest) = snd (pending mem' (x # mbs)) \<and> set rest \<subseteq> set (x # mbs)"
        proof (cases "mb_op x = 0")
          case True
          obtain A B where "fst (pending mem' mbs) = A @ (mb_src_port mb, mn_response mb) # B" "fst (pending mem' r) = A @ B"
            using IH [OF l] by blast
          then have "fst (pending mem' (x # mbs)) = (answer mem' x # A) @ (mb_src_port mb, mn_response mb) # B" "fst (pending mem' rest) = (answer mem' x # A) @ B"
            using True r by simp_all
          then show ?thesis using IH [OF l] True r by (metis order.refl insert_mono list.simps(15) pending.simps(2) snd_conv)
        next
          case False
          then show ?thesis using IH [OF wl] r by auto
        qed
      qed
    qed
  qed
  then show ?thesis by simp
qed

lemma pending_snoc:
  "pending mem (mbs @ [mb]) =
     (if mb_op mb \<noteq> 0 then (fst (pending mem mbs), write_rest mb (snd (pending mem mbs)))
      else (fst (pending mem mbs) @ [answer (snd (pending mem mbs)) mb], snd (pending mem mbs)))"
  by (induction mbs arbitrary: mem) auto

definition contents :: "MemoryNode \<Rightarrow> u8 list" where "contents n = snd (pending (memblk n) (membufs n))"
definition promised :: "MemoryNode \<Rightarrow> (u32 \<times> CacheCohenrenceMsg) list" where "promised n = fst (pending (memblk n) (membufs n))"

text \<open>The abstract memory: a request acts at once.\<close>

definition request_ok :: "addr_map \<Rightarrow> nat \<Rightarrow> CacheCohenrenceMsg \<Rightarrow> bool" where
  "request_ok am len m \<longleftrightarrow> fst am (mline m) \<and> unat (snd am (mline m)) + 64 \<le> len \<and>
     (mtype m = MSG_GETS_FORWARD \<or> mtype m = MSG_GETM_FORWARD \<or> (mtype m = MSG_PUTM \<or> mtype m = MSG_PUTO) \<and> length (mdata m) = 64)"

definition mem_request :: "addr_map \<Rightarrow> CacheCohenrenceMsg \<Rightarrow> u8 list \<Rightarrow> u8 list \<times> (u32 \<times> CacheCohenrenceMsg) list" where
  "mem_request am m mem =
     (let off = unat (snd am (mline m)) in
      if mtype m = MSG_PUTM \<or> mtype m = MSG_PUTO then (splice off (mdata m) mem, [])
      else (mem, [(marg m, \<lparr> mtype = MSG_GET_RESP_MEM, marg = 0, mtransid = mtransid m, mline = mline m, mdata = take 64 (drop off mem) \<rparr>)]))"

lemma accept_ok:
  assumes "node_ok n" and "request_ok am (length (memblk n)) m"
  shows "\<exists>n1. mn_accept am (Some m) n = Inr n1 \<and> node_ok n1 \<and> memblk n1 = memblk n \<and> dwidth n1 = dwidth n \<and> membufs n1 \<noteq> [] \<and>
    contents n1 = fst (mem_request am m (contents n)) \<and> promised n1 = promised n @ snd (mem_request am m (contents n))"
  using assms
  by (auto simp: mn_accept_def mn_enter_def request_ok_def node_ok_def Let_def CACHE_LINE_LEN_BYTE_def msg_types contents_def promised_def
    pending_snoc mem_request_def mb_ok_def write_rest_def answer_def mn_response_def final_line_def)

lemma memory_node_step:
  assumes "node_ok n" and "\<forall>m. msg = Some m \<longrightarrow> request_ok am (length (memblk n)) m"
  shows "\<exists>n' out. mn_step am msg free n = Inr (n', out) \<and> node_ok n' \<and>
    (case msg of None \<Rightarrow> contents n' = contents n | Some m \<Rightarrow> contents n' = fst (mem_request am m (contents n))) \<and>
    (\<exists>A B. promised n @ (case msg of None \<Rightarrow> [] | Some m \<Rightarrow> snd (mem_request am m (contents n)))
             = A @ (case out of None \<Rightarrow> [] | Some r \<Rightarrow> [r]) @ B \<and> promised n' = A @ B)"
proof -
  define news where "news = (case msg of None \<Rightarrow> [] | Some m \<Rightarrow> snd (mem_request am m (contents n)))"
  define after where "after = (case msg of None \<Rightarrow> contents n | Some m \<Rightarrow> fst (mem_request am m (contents n)))"
  obtain n1 where n1: "mn_accept am msg n = Inr n1" "node_ok n1" "contents n1 = after" "promised n1 = promised n @ news"
  proof (cases msg)
    case None
    then show ?thesis using assms(1) that by (simp add: mn_accept_def news_def after_def)
  next
    case (Some m)
    then show ?thesis using accept_ok [OF assms(1), of am m] assms(2) that by (auto simp: news_def after_def)
  qed
  have "\<exists>n' out. mn_step am msg free n = Inr (n', out) \<and> node_ok n' \<and> contents n' = after \<and>
    (\<exists>A B. promised n1 = A @ (case out of None \<Rightarrow> [] | Some r \<Rightarrow> [r]) @ B \<and> promised n' = A @ B)"
  proof (cases "membufs n1 = []")
    case True
    then show ?thesis using n1 by (auto simp: mn_step_def intro: exI [of _ "[]"])
  next
    case False
    obtain mem mbs where t: "mn_transfer (dwidth n1) (memblk n1) (membufs n1) = Some (mem, mbs)" "length mem = length (memblk n1)"
      "\<forall>mb\<in>set mbs. mb_ok (length mem) mb" "pending mem mbs = pending (memblk n1) (membufs n1)"
      using transfer_keeps [of "memblk n1" "membufs n1" "dwidth n1"] n1(2) unfolding node_ok_def by metis
    have len: "length mem < 2 ^ 64" using t(2) n1(2) by (simp add: node_ok_def)
    have c: "contents n1 = snd (pending mem mbs)" "promised n1 = fst (pending mem mbs)"
      using t(4) by (simp_all add: contents_def promised_def)
    show ?thesis
    proof (cases "free \<and> mn_finished mbs \<noteq> None")
      case True
      then obtain mb rest where f: "mn_finished mbs = Some (mb, rest)" by auto
      obtain A B where r: "mb_op mb = 0" "fst (pending mem mbs) = A @ (mb_src_port mb, mn_response mb) # B"
        "fst (pending mem rest) = A @ B" "snd (pending mem rest) = snd (pending mem mbs)" "set rest \<subseteq> set mbs"
        using finished_answer [OF f t(3)] by blast
      then show ?thesis
        using n1(1,3) c False True f t len
        by (auto simp: mn_step_def Let_def node_ok_def contents_def promised_def)
    next
      case nf: False
      have "\<exists>n2. mn_step am msg free n = Inr (n2, None) \<and> memblk n2 = mem \<and> membufs n2 = mbs"
      proof (cases free)
        case True
        then have "mn_finished mbs = None" using nf by blast
        then show ?thesis using n1(1) False t(1) by (simp add: mn_step_def Let_def)
      next
        case nofree: False
        then show ?thesis using n1(1) False t(1) by (simp add: mn_step_def Let_def)
      qed
      then obtain n2 where n2: "mn_step am msg free n = Inr (n2, None)" "memblk n2 = mem" "membufs n2 = mbs" by blast
      have "node_ok n2" "contents n2 = after" "promised n2 = promised n1"
        using n2 t len c n1(3) by (simp_all add: node_ok_def contents_def promised_def)
      then show ?thesis using n2(1) by (intro exI [of _ n2] exI [of _ None]) (auto intro: exI [of _ "[]"])
    qed
  qed
  then show ?thesis unfolding n1(4) by (cases msg) (simp_all add: news_def after_def)
qed

text \<open>
  C4. The controller implements the abstract memory in which every request acts at the moment it is
  taken: in any well-formed state, a tick with or without an acceptable request, and with the
  response channel free or busy, succeeds; the memory that the buffered accesses will produce changes
  exactly as the abstract memory does; and the answers owed are those owed before, in order, plus the
  abstract answer to the new request, less the one sent. A read thus returns the data of all writes
  taken before it and of none taken after.
\<close>
theorem memory_node_linearizes:
  assumes "node_ok n" and "\<forall>m. msg = Some m \<longrightarrow> request_ok am (length (memblk n)) m"
  shows "\<exists>n' out. mn_step am msg free n = Inr (n', out) \<and> node_ok n' \<and>
    (case msg of None \<Rightarrow> contents n' = contents n | Some m \<Rightarrow> contents n' = fst (mem_request am m (contents n))) \<and>
    (\<exists>A B. promised n @ (case msg of None \<Rightarrow> [] | Some m \<Rightarrow> snd (mem_request am m (contents n)))
             = A @ (case out of None \<Rightarrow> [] | Some r \<Rightarrow> [r]) @ B \<and> promised n' = A @ B)"
  using memory_node_step [OF assms] .

definition sample_node :: MemoryNode where
  "sample_node = \<lparr> memblk = replicate 128 0, mn_port = 1, dwidth = 32, memory_access_buf_size = 4, membufs = [],
     request_precossed = 0, busy_cycles = 0 \<rparr>"

definition sample_map :: addr_map where "sample_map = (\<lambda>l. l < 2, \<lambda>l. l * 64)"

definition sample_write :: CacheCohenrenceMsg where
  "sample_write = \<lparr> mtype = MSG_PUTM, marg = 3, mtransid = 9, mline = 1, mdata = replicate 64 7 \<rparr>"

lemma sample_ok: "node_ok sample_node" "request_ok sample_map (length (memblk sample_node)) sample_write"
  by (simp_all add: node_ok_def sample_node_def request_ok_def sample_map_def sample_write_def msg_types)

lemma memory_node_linearizes_witness:
  "\<exists>n' out. mn_step sample_map (Some sample_write) True sample_node = Inr (n', out) \<and> contents n' = replicate 64 0 @ replicate 64 7"
proof -
  have "fst (mem_request sample_map sample_write (contents sample_node)) = replicate 64 0 @ replicate 64 7"
    by code_simp
  then show ?thesis
    using memory_node_linearizes [of sample_node "Some sample_write" sample_map True] sample_ok by auto
qed

section \<open>Draining\<close>

fun mn_idle :: "addr_map \<Rightarrow> nat \<Rightarrow> MemoryNode \<Rightarrow> bus_error + (MemoryNode \<times> (u32 \<times> CacheCohenrenceMsg) list)" where
  "mn_idle am 0 n = Inr (n, [])"
| "mn_idle am (Suc k) n =
     (case mn_step am None True n of Inl e \<Rightarrow> Inl e
      | Inr (n', out) \<Rightarrow> (case mn_idle am k n' of Inl e \<Rightarrow> Inl e
          | Inr (n'', outs) \<Rightarrow> Inr (n'', (case out of None \<Rightarrow> [] | Some r \<Rightarrow> [r]) @ outs)))"

definition work :: "MemoryAccessBuf list \<Rightarrow> nat" where
  "work mbs = sum_list (map (\<lambda>mb. 65 - unat (mb_processed mb)) mbs)"

lemma move_progress:
  assumes "mb_ok (length mem) mb" and "unat (mb_processed mb) < 64" and "0 < unat dw" and "move_bytes dw mem mb = Some (mem', mb')"
  shows "unat (mb_processed mb) < unat (mb_processed mb') \<and> unat (mb_processed mb') \<le> 64 \<and> mb_op mb' = mb_op mb"
proof -
  define p where "p = unat (mb_processed mb)"
  have "p + min (unat dw) (64 - p) \<le> 64" "p < p + min (unat dw) (64 - p)" using assms(2,3) by (simp_all add: p_def)
  then show ?thesis using assms(4) unat_of_small [of "p + min (unat dw) (64 - p)"]
    by (auto simp: move_bytes_def p_def Let_def split: if_splits option.splits)
qed

lemma transfer_work:
  assumes "\<forall>mb\<in>set mbs. mb_ok (length mem) mb" and "0 < unat dw" and "mn_transfer dw mem mbs = Some (mem', mbs')"
  shows "work mbs' < work mbs \<or> mbs' = mbs \<and> (\<forall>mb\<in>set mbs. 64 \<le> unat (mb_processed mb))"
  using assms
proof (induction mbs arbitrary: mbs')
  case Nil
  then show ?case by simp
next
  case (Cons mb mbs)
  show ?case
  proof (cases "unat (mb_processed mb) < 64")
    case True
    then obtain mb' where m: "move_bytes dw mem mb = Some (mem', mb')"
      "mbs' = (if 64 \<le> unat (mb_processed mb') \<and> mb_op mb' \<noteq> 0 then mbs else mb' # mbs)"
      using Cons.prems(3) by (auto simp: CACHE_LINE_LEN_BYTE_def split: option.splits)
    then show ?thesis using move_progress [OF _ True Cons.prems(2) m(1)] Cons.prems(1) True
      by (auto simp: work_def)
  next
    case False
    then obtain r where r: "mn_transfer dw mem mbs = Some (mem', r)" "mbs' = mb # r"
      using Cons.prems(3) by (auto simp: CACHE_LINE_LEN_BYTE_def)
    then show ?thesis using Cons.IH [OF _ Cons.prems(2) r(1)] Cons.prems(1) False by (auto simp: work_def)
  qed
qed

lemma finished_work:
  assumes "\<forall>mb\<in>set mbs. mb_ok (length mem) mb"
  shows "mn_finished mbs = Some (mb, rest) \<Longrightarrow> work rest < work mbs"
    and "mn_finished mbs = None \<Longrightarrow> \<forall>mb\<in>set mbs. unat (mb_processed mb) < 64"
  using assms
  by (induction mbs arbitrary: rest) (auto simp: work_def CACHE_LINE_LEN_BYTE_def mb_ok_def split: if_splits)

lemma idle_step:
  assumes "node_ok n" and "0 < unat (dwidth n)" and "membufs n \<noteq> []"
  shows "\<exists>n' out. mn_step am None True n = Inr (n', out) \<and> node_ok n' \<and> dwidth n' = dwidth n \<and> contents n' = contents n \<and>
    work (membufs n') < work (membufs n) \<and>
    (\<exists>A B. promised n = A @ (case out of None \<Rightarrow> [] | Some r \<Rightarrow> [r]) @ B \<and> promised n' = A @ B)"
proof -
  obtain n' out where s: "mn_step am None True n = Inr (n', out)" "node_ok n'" "contents n' = contents n"
    "\<exists>A B. promised n = A @ (case out of None \<Rightarrow> [] | Some r \<Rightarrow> [r]) @ B \<and> promised n' = A @ B"
    using memory_node_step [OF assms(1), of None am True] by auto
  obtain mem mbs where t: "mn_transfer (dwidth n) (memblk n) (membufs n) = Some (mem, mbs)" "length mem = length (memblk n)"
      "\<forall>mb\<in>set mbs. mb_ok (length mem) mb"
    using transfer_keeps [of "memblk n" "membufs n" "dwidth n"] assms(1) unfolding node_ok_def by metis
  have w: "work mbs < work (membufs n) \<or> mbs = membufs n \<and> (\<forall>mb\<in>set mbs. 64 \<le> unat (mb_processed mb))"
    using transfer_work [OF _ assms(2) t(1)] assms(1) by (auto simp: node_ok_def)
  note F = finished_work [OF t(3)]
  have nw: "dwidth n' = dwidth n \<and> work (membufs n') < work (membufs n)"
  proof (cases "mn_finished mbs")
    case None
    then have "work mbs < work (membufs n)" using w F(2) assms(3)
      by (metis leD list.set_intros(1) neq_Nil_conv)
    moreover have "membufs n' = mbs" "dwidth n' = dwidth n"
      using s(1) t(1) assms(3) None by (auto simp: mn_step_def mn_accept_def Let_def)
    ultimately show ?thesis by simp
  next
    case (Some x)
    then obtain mb rest where f: "mn_finished mbs = Some (mb, rest)" by (cases x) auto
    then have "membufs n' = rest" "dwidth n' = dwidth n"
      using s(1) t(1) assms(3) by (auto simp: mn_step_def mn_accept_def Let_def split: if_splits)
    moreover have "work rest < work (membufs n)" using F(1) [OF f] w by auto
    ultimately show ?thesis by simp
  qed
  then show ?thesis using s by blast
qed

text \<open>
  C23. No request waits for ever: with a non-zero data width and a free response channel, at most 65
  idle ticks per buffered access empty the list; the memory block is then the abstract memory and the
  answers sent are exactly those that were owed.
\<close>
theorem memory_node_drains:
  assumes "node_ok n" and "0 < unat (dwidth n)"
  shows "\<exists>k n' outs. k \<le> 65 * length (membufs n) \<and> mn_idle am k n = Inr (n', outs) \<and> membufs n' = [] \<and> memblk n' = contents n \<and>
    mset outs = mset (promised n)"
proof -
  have "\<exists>k n' outs. k \<le> work (membufs n) \<and> mn_idle am k n = Inr (n', outs) \<and> membufs n' = [] \<and> memblk n' = contents n \<and>
    mset outs = mset (promised n)"
    using assms
  proof (induction "work (membufs n)" arbitrary: n rule: less_induct)
    case less
    show ?case
    proof (cases "membufs n = []")
      case True
      then have "mn_idle am 0 n = Inr (n, []) \<and> memblk n = contents n \<and> promised n = []" by (simp add: contents_def promised_def)
      then show ?thesis using True by (metis le0)
    next
      case False
      obtain n1 out A B where s: "mn_step am None True n = Inr (n1, out)" "node_ok n1" "dwidth n1 = dwidth n" "contents n1 = contents n"
        "work (membufs n1) < work (membufs n)" "promised n = A @ (case out of None \<Rightarrow> [] | Some r \<Rightarrow> [r]) @ B" "promised n1 = A @ B"
        using idle_step [OF less.prems False, of am] by blast
      obtain k n2 outs where r: "k \<le> work (membufs n1)" "mn_idle am k n1 = Inr (n2, outs)" "membufs n2 = []" "memblk n2 = contents n1"
        "mset outs = mset (promised n1)"
        using less.hyps [OF s(5) s(2)] less.prems(2) s(3) by auto
      have "mn_idle am (Suc k) n = Inr (n2, (case out of None \<Rightarrow> [] | Some r \<Rightarrow> [r]) @ outs)" using s(1) r(2) by simp
      moreover have "mset ((case out of None \<Rightarrow> [] | Some r \<Rightarrow> [r]) @ outs) = mset (promised n)"
        using r(5) s(6,7) by (simp add: ac_simps)
      moreover have "Suc k \<le> work (membufs n)" using r(1) s(5) by simp
      ultimately show ?thesis using r s(4) by metis
    qed
  qed
  moreover have "work mbs \<le> 65 * length mbs" for mbs
    by (induction mbs) (auto simp: work_def)
  ultimately show ?thesis by (meson le_trans)
qed

definition sample_read :: MemoryAccessBuf where
  "sample_read = \<lparr> mb_lindex = 1, mb_hostoff = 64, mb_transid = 5, mb_op = 0, mb_src_port = 3, mb_processed = 32,
     mb_linebuf = replicate 64 0 \<rparr>"

lemma memory_node_drains_witness:
  "\<exists>k n' outs. k \<le> 65 \<and> mn_idle sample_map k (sample_node\<lparr>membufs := [sample_read]\<rparr>) = Inr (n', outs) \<and> membufs n' = [] \<and> length outs = 1"
proof -
  let ?n = "sample_node\<lparr>membufs := [sample_read]\<rparr>"
  have ok: "node_ok ?n" "0 < unat (dwidth ?n)" "length (membufs ?n) = 1"
    by (simp_all add: node_ok_def sample_node_def mb_ok_def sample_read_def)
  have "length (promised ?n) = 1" by (simp add: promised_def sample_read_def)
  then have "length outs = 1" if "mset outs = mset (promised ?n)" for outs
    using that by (metis size_mset)
  then show ?thesis using memory_node_drains [OF ok(1,2), of sample_map] ok(3) by fastforce
qed

end
