(* ===== verification/MoesiLLC.thy ===== *)
theory MoesiLLC
  imports MoesiProtocol SymMulChaBus TickQueue CacheBlock
begin

text \<open>
  The last level cache with its coherence directory (\<^verbatim>\<open>cache/moesi/lastlevelcache.cpp\<close> and its header).
  A request moves through \<^verbatim>\<open>recv_buf\<close>, \<^verbatim>\<open>queue_index\<close>, the index step \<^verbatim>\<open>p2_index\<close> that consults block and
  directory, \<^verbatim>\<open>queue_index_result\<close>, \<^verbatim>\<open>process_buf\<close> that sends its messages, and \<^verbatim>\<open>queue_writeback\<close>, from
  which the directory entry is written. A \<^verbatim>\<open>RequestPackage*\<close> has one owner at any time, so the pointer
  is the package itself; the mapping of cache indices to bus ports is a parameter. The failing
  assertions are told apart by \<^verbatim>\<open>llc_error\<close>. Trace events are left out.
\<close>

section \<open>State\<close>

datatype llc_error =
    FetchAssert | BusMapAssert | OwnerAssert | DirFullAssert | PutMissAssert | TypeAssert | LlcBus bus_error | LlcCrash

record BusPortMapping =
  get_homenode_port :: "u64 \<Rightarrow> u32 option"
  get_subnode_port :: "u64 \<Rightarrow> u32 option"
  get_reqnode_port :: "u32 \<Rightarrow> u32 option"
  get_reqnode_index :: "u32 \<Rightarrow> u32 option"

record DirEntry =
  exists :: "u32 set"
  owner :: u32
  dirty :: bool

record ReadyToSend =
  rs_msg :: "u8 list"
  rs_dst :: u32
  rs_cha :: u32

record RequestPackage =
  rp_type :: u32
  rp_lindex :: u64
  rp_arg :: u32
  rp_transid :: u32
  rp_index_cycle :: u32
  rp_blk_hit :: bool
  rp_line_buf :: "u8 list"
  rp_dir_hit :: bool
  rp_entry :: DirEntry
  rp_blk_replaced :: bool
  rp_lindex_replaced :: u64
  rp_need_send :: "ReadyToSend list"
  rp_delay_commit :: bool
  rp_dir_evict :: bool

record LLC =
  llc_port :: u32
  nuca_num :: u64
  nuca_index :: u64
  llc_index_cycle :: u32
  llc_recv_buf :: "CacheCohenrenceMsg list"
  recv_buf_size :: u32
  processing_lindex :: "u64 set"
  llc_block :: "u8 list CacheBlock"
  directory :: "DirEntry CacheBlock"
  queue_index :: "RequestPackage tick_queue"
  queue_writeback :: "RequestPackage tick_queue"
  queue_index_result :: "RequestPackage tick_queue"
  process_buf :: "RequestPackage list"
  process_buf_size :: u32
  llc_hit_count :: u64
  llc_miss_count :: u64

record CacheParam =
  set_offset :: nat
  way_cnt :: u32
  dir_set_offset :: nat
  dir_way_cnt :: u32
  mshr_num :: u32
  index_latency :: u32
  param_nuca_num :: u32
  param_nuca_index :: u32

definition empty_entry :: DirEntry where "empty_entry = \<lparr>exists = {}, owner = 0, dirty = False\<rparr>"

text \<open>A package before it is filled; the line buffer of a request without data is not read.\<close>

definition blank_package :: RequestPackage where
  "blank_package = \<lparr> rp_type = 0, rp_lindex = 0, rp_arg = 0, rp_transid = 0, rp_index_cycle = 0, rp_blk_hit = False,
     rp_line_buf = replicate CACHE_LINE_LEN_BYTE 0, rp_dir_hit = False, rp_entry = empty_entry, rp_blk_replaced = False,
     rp_lindex_replaced = 0, rp_need_send = [], rp_delay_commit = False, rp_dir_evict = False \<rparr>"

definition llc_new :: "CacheParam \<Rightarrow> u32 \<Rightarrow> LLC option" where
  "llc_new prm port =
     (case (tq_new blank_package 1 1 0, tq_new blank_package 1 1 4) of
        (Some q, Some qw) \<Rightarrow>
          if param_nuca_num prm = 0 \<or> \<not> param_nuca_index prm < param_nuca_num prm then None
          else Some \<lparr> llc_port = port, nuca_num = ucast (param_nuca_num prm), nuca_index = ucast (param_nuca_index prm),
            llc_index_cycle = index_latency prm, llc_recv_buf = [], recv_buf_size = 4, processing_lindex = {},
            llc_block = cb_new (set_offset prm) (way_cnt prm), directory = cb_new (dir_set_offset prm) (dir_way_cnt prm),
            queue_index = q, queue_writeback = qw, queue_index_result = q, process_buf = [], process_buf_size = mshr_num prm,
            llc_hit_count = 0, llc_miss_count = 0 \<rparr>
      | _ \<Rightarrow> None)"

definition nuca_check :: "LLC \<Rightarrow> u64 \<Rightarrow> bool" where
  "nuca_check l lindex \<longleftrightarrow> lindex mod nuca_num l = nuca_index l"

definition lindex_to_nuca_tag :: "LLC \<Rightarrow> u64 \<Rightarrow> u64" where
  "lindex_to_nuca_tag l lindex = lindex div nuca_num l"

definition nuca_tag_to_lindex :: "LLC \<Rightarrow> u64 \<Rightarrow> u64" where
  "nuca_tag_to_lindex l tag = tag * nuca_num l + nuca_index l"

section \<open>Messages of a request\<close>

definition push_send_buf :: "u32 \<Rightarrow> u32 \<Rightarrow> u32 \<Rightarrow> u64 \<Rightarrow> u32 \<Rightarrow> u32 \<Rightarrow> RequestPackage \<Rightarrow> RequestPackage" where
  "push_send_buf dst channel ty line arg transid pak =
     pak\<lparr>rp_need_send := rp_need_send pak @
       [\<lparr>rs_msg = construct_msg_pack \<lparr>mtype = ty, marg = arg, mtransid = transid, mline = line, mdata = []\<rparr>, rs_dst = dst, rs_cha = channel\<rparr>]\<rparr>"

definition push_send_buf_with_line :: "u32 \<Rightarrow> u32 \<Rightarrow> u32 \<Rightarrow> u64 \<Rightarrow> u32 \<Rightarrow> u8 list \<Rightarrow> u32 \<Rightarrow> RequestPackage \<Rightarrow> RequestPackage" where
  "push_send_buf_with_line dst channel ty line arg linebuf transid pak =
     pak\<lparr>rp_need_send := rp_need_send pak @
       [\<lparr>rs_msg = construct_msg_pack \<lparr>mtype = ty, marg = arg, mtransid = transid, mline = line, mdata = linebuf\<rparr>, rs_dst = dst, rs_cha = channel\<rparr>]\<rparr>"

section \<open>Stage 1: receiving and issuing\<close>

definition llc_receive :: "CacheCohenrenceMsg \<Rightarrow> LLC \<Rightarrow> llc_error + LLC" where
  "llc_receive msg l =
     (let pushed = l\<lparr>llc_recv_buf := llc_recv_buf l @ [msg]\<rparr>; ty = mtype msg in
      if \<not> nuca_check l (mline msg) then Inl FetchAssert
      else if ty = MSG_INVALID_ACK then Inr l
      else if ty = MSG_GET_ACK
      then Inr (l\<lparr>processing_lindex := processing_lindex l - {mline msg},
                  llc_block := unpin (lindex_to_nuca_tag l (mline msg)) (llc_block l)\<rparr>)
      else if ty = MSG_PUTM \<or> ty = MSG_PUTO
      then (if length (mdata msg) = CACHE_LINE_LEN_BYTE then Inr pushed else Inl FetchAssert)
      else if ty = MSG_GETS \<or> ty = MSG_GETM \<or> ty = MSG_PUTS \<or> ty = MSG_PUTE then Inr pushed
      else Inl FetchAssert)"

fun llc_pick :: "u64 set \<Rightarrow> CacheCohenrenceMsg list \<Rightarrow> (CacheCohenrenceMsg \<times> CacheCohenrenceMsg list) option" where
  "llc_pick busy [] = None"
| "llc_pick busy (m # ms) =
     (if mline m \<in> busy then map_option (\<lambda>(x, r). (x, m # r)) (llc_pick busy ms) else Some (m, ms))"

definition new_package :: "LLC \<Rightarrow> CacheCohenrenceMsg \<Rightarrow> llc_error + RequestPackage" where
  "new_package l m =
     (let pak = blank_package\<lparr>rp_type := mtype m, rp_lindex := mline m, rp_arg := marg m, rp_transid := mtransid m,
            rp_index_cycle := llc_index_cycle l\<rparr> in
      if mdata m = [] then Inr pak
      else ebind (check FetchAssert (length (mdata m) = CACHE_LINE_LEN_BYTE)) (\<lambda>_. Inr (pak\<lparr>rp_line_buf := mdata m\<rparr>)))"

definition llc_issue :: "LLC \<Rightarrow> llc_error + LLC" where
  "llc_issue l =
     (if llc_recv_buf l = [] \<or> tq_can_push (queue_index l) = 0 then Inr l
      else (case llc_pick (processing_lindex l) (llc_recv_buf l) of
          None \<Rightarrow> Inr l
        | Some (m, rest) \<Rightarrow>
            ebind (new_package l m) (\<lambda>pak.
            ebind (require LlcCrash (tq_push pak (queue_index l))) (\<lambda>q.
              Inr (l\<lparr>queue_index := q, processing_lindex := insert (mline m) (processing_lindex l),
                     llc_block := pin (lindex_to_nuca_tag l (mline m)) (llc_block l), llc_recv_buf := rest\<rparr>)))))"

definition p1_fetch :: "CacheCohenrenceMsg option \<Rightarrow> LLC \<Rightarrow> llc_error + LLC" where
  "p1_fetch msg l = ebind (case msg of None \<Rightarrow> Inr l | Some m \<Rightarrow> llc_receive m l) llc_issue"

section \<open>Stage 2: block and directory\<close>

text \<open>The writeback of a finished request into the directory.\<close>

definition p2_writeback :: "LLC \<Rightarrow> llc_error + LLC" where
  "p2_writeback l =
     ebind (require LlcCrash (tq_top (queue_writeback l))) (\<lambda>wb.
     let tag = lindex_to_nuca_tag l (rp_lindex wb) in
     ebind (if rp_dir_evict wb then Inr (remove_line tag (directory l))
            else (case insert_line tag (rp_entry wb) (directory l) of
                None \<Rightarrow> Inl LlcCrash | Some (Some _, _) \<Rightarrow> Inl DirFullAssert | Some (None, d) \<Rightarrow> Inr d)) (\<lambda>d.
     ebind (require LlcCrash (tq_pop (queue_writeback l))) (\<lambda>q.
       let l1 = l\<lparr>directory := d, queue_writeback := q\<rparr> in
       Inr (if rp_delay_commit wb then l1
            else l1\<lparr>processing_lindex := processing_lindex l - {rp_lindex wb}, llc_block := unpin tag (llc_block l)\<rparr>))))"

definition own_entry :: "u32 \<Rightarrow> DirEntry" where
  "own_entry l1 = \<lparr>exists = {l1}, owner = l1, dirty = True\<rparr>"

definition lookup_request :: "LLC \<Rightarrow> RequestPackage \<Rightarrow> u8 list option \<times> DirEntry option \<times> RequestPackage \<times> LLC" where
  "lookup_request l pak =
     (let tag = lindex_to_nuca_tag l (rp_lindex pak); (pline, blk) = get_line tag True (llc_block l);
          (pentry, d) = get_line tag False (directory l)
      in (pline, pentry,
          pak\<lparr>rp_blk_hit := pline \<noteq> None, rp_dir_hit := pentry \<noteq> None,
              rp_entry := (case pentry of Some e \<Rightarrow> e | None \<Rightarrow> rp_entry pak), rp_blk_replaced := False\<rparr>,
          l\<lparr>llc_block := blk, directory := d\<rparr>))"

definition p2_gets :: "BusPortMapping \<Rightarrow> RequestPackage \<Rightarrow> LLC \<Rightarrow> llc_error + (RequestPackage \<times> LLC)" where
  "p2_gets bm pak0 l0 =
     (let (pline, pentry, pak, l) = lookup_request l0 pak0; line = rp_lindex pak; tr = rp_transid pak; src_port = rp_arg pak in
      ebind (require BusMapAssert (get_reqnode_index bm src_port)) (\<lambda>l1_index.
      case pentry of
        None \<Rightarrow> (case pline of
            None \<Rightarrow> ebind (require BusMapAssert (get_subnode_port bm line)) (\<lambda>dst.
              Inr ((push_send_buf dst CHANNEL_REQ MSG_GETS_FORWARD line (rp_arg pak) tr pak)
                     \<lparr>rp_entry := own_entry l1_index, rp_delay_commit := True\<rparr>,
                   l\<lparr>llc_miss_count := llc_miss_count l + 1\<rparr>))
          | Some data \<Rightarrow>
              Inr ((push_send_buf_with_line src_port CHANNEL_RESP MSG_GETS_RESP line 0 data tr pak)
                     \<lparr>rp_entry := own_entry l1_index\<rparr>,
                   l\<lparr>llc_hit_count := llc_hit_count l + 1\<rparr>))
      | Some e \<Rightarrow>
          ebind (check OwnerAssert (owner e \<in> exists e)) (\<lambda>_.
          ebind (require BusMapAssert (get_reqnode_port bm (owner e))) (\<lambda>dst.
            Inr ((push_send_buf dst CHANNEL_REQ MSG_GETS_FORWARD line (rp_arg pak) tr pak)
                   \<lparr>rp_entry := e\<lparr>exists := insert l1_index (exists e)\<rparr>, rp_delay_commit := True\<rparr>,
                 l\<lparr>llc_hit_count := llc_hit_count l + 1\<rparr>)))))"

text \<open>The loop that invalidates the sharers of a line, with its count of the messages.\<close>

fun send_invalids :: "BusPortMapping \<Rightarrow> (u32 \<Rightarrow> bool) \<Rightarrow> u64 \<Rightarrow> u32 \<Rightarrow> u32 \<Rightarrow> u32 list \<Rightarrow> u32 \<Rightarrow> RequestPackage \<Rightarrow> llc_error + (u32 \<times> RequestPackage)" where
  "send_invalids bm skip line arg tr [] n pak = Inr (n, pak)"
| "send_invalids bm skip line arg tr (l1 # ls) n pak =
     (if skip l1 then send_invalids bm skip line arg tr ls n pak
      else ebind (require BusMapAssert (get_reqnode_port bm l1)) (\<lambda>dst.
        send_invalids bm skip line arg tr ls (n + 1) (push_send_buf dst CHANNEL_RESP MSG_INVALID line arg tr pak)))"

definition p2_getm :: "BusPortMapping \<Rightarrow> RequestPackage \<Rightarrow> LLC \<Rightarrow> llc_error + (RequestPackage \<times> LLC)" where
  "p2_getm bm pak0 l0 =
     (let (pline, pentry, pak, l) = lookup_request l0 pak0; line = rp_lindex pak; tr = rp_transid pak; src_port = rp_arg pak in
      ebind (require BusMapAssert (get_reqnode_index bm src_port)) (\<lambda>l1_index.
      let missed = l\<lparr>llc_miss_count := llc_miss_count l + 1\<rparr> in
      case pentry of
        None \<Rightarrow> (case pline of
            None \<Rightarrow> ebind (require BusMapAssert (get_subnode_port bm line)) (\<lambda>dst.
              Inr ((push_send_buf dst CHANNEL_REQ MSG_GETM_FORWARD line (rp_arg pak) tr pak)
                     \<lparr>rp_entry := own_entry l1_index, rp_delay_commit := True\<rparr>, missed))
          | Some data \<Rightarrow>
              Inr ((push_send_buf_with_line src_port CHANNEL_RESP MSG_GETM_RESP line 1 data tr pak)
                     \<lparr>rp_entry := own_entry l1_index\<rparr>, missed))
      | Some e \<Rightarrow>
          let skip_owner = l1_index \<notin> exists e;
              gone = (if pline \<noteq> None then missed\<lparr>llc_block := remove_line (lindex_to_nuca_tag l line) (llc_block l)\<rparr> else missed) in
          ebind (if skip_owner
                 then ebind (require BusMapAssert (get_reqnode_port bm (owner e))) (\<lambda>dst.
                   Inr (push_send_buf dst CHANNEL_REQ MSG_GETM_FORWARD line (rp_arg pak) tr pak))
                 else Inr pak) (\<lambda>pak1.
          ebind (send_invalids bm (\<lambda>l1. l1 = l1_index \<or> skip_owner \<and> l1 = owner e) line (rp_arg pak) tr
                   (sorted_list_of_set (exists e)) 0 pak1) (\<lambda>(n, pak2).
            Inr ((push_send_buf src_port CHANNEL_RESP MSG_GETM_ACK line n tr pak2)
                   \<lparr>rp_entry := own_entry l1_index, rp_delay_commit := True\<rparr>, gone)))))"

definition p2_puts :: "BusPortMapping \<Rightarrow> RequestPackage \<Rightarrow> LLC \<Rightarrow> llc_error + (RequestPackage \<times> LLC)" where
  "p2_puts bm pak l =
     ebind (require BusMapAssert (get_reqnode_index bm (rp_arg pak))) (\<lambda>l1_index.
     let (pentry, d) = get_line (lindex_to_nuca_tag l (rp_lindex pak)) False (directory l);
         pak1 = (case pentry of
             None \<Rightarrow> pak\<lparr>rp_dir_hit := False, rp_dir_evict := True\<rparr>
           | Some e \<Rightarrow>
               let rest = exists e - {l1_index} in
               pak\<lparr>rp_dir_hit := True,
                   rp_entry := e\<lparr>exists := rest, owner := (if l1_index = owner e \<and> rest \<noteq> {} then Min rest else owner e)\<rparr>,
                   rp_dir_evict := (rest = {})\<rparr>)
     in Inr (push_send_buf (rp_arg pak) CHANNEL_ACK MSG_PUT_ACK (rp_lindex pak) 0 0 pak1, l\<lparr>directory := d\<rparr>))"

text \<open>The part of a dirty put that makes room in the block: the line it replaces goes to memory, and
  is invalidated in its sharers when the directory holds it clean.\<close>

definition put_replaced :: "BusPortMapping \<Rightarrow> u64 \<Rightarrow> u8 list \<Rightarrow> RequestPackage \<Rightarrow> LLC \<Rightarrow> llc_error + (RequestPackage \<times> LLC)" where
  "put_replaced bm tag data pak l =
     (let line = nuca_tag_to_lindex l tag; rep_tag = lindex_to_nuca_tag l line;
          (rep_ent, d) = get_line rep_tag False (directory l); pak1 = pak\<lparr>rp_blk_replaced := True, rp_lindex_replaced := line\<rparr> in
      ebind (case rep_ent of
          Some e \<Rightarrow> if dirty e then Inr (pak1, l)
            else ebind (send_invalids bm (\<lambda>_. False) line (llc_port l) 0 (sorted_list_of_set (exists e)) 0 pak1) (\<lambda>(_, p).
              Inr (p, l\<lparr>directory := remove_line rep_tag d\<rparr>))
        | None \<Rightarrow> Inr (pak1, l)) (\<lambda>(pak2, l2).
      ebind (require BusMapAssert (get_subnode_port bm line)) (\<lambda>dst.
        Inr (push_send_buf_with_line dst CHANNEL_REQ MSG_PUTM line (llc_port l) data 0 pak2, l2))))"

definition p2_putm :: "BusPortMapping \<Rightarrow> RequestPackage \<Rightarrow> LLC \<Rightarrow> llc_error + (RequestPackage \<times> LLC)" where
  "p2_putm bm pak l =
     (let tag = lindex_to_nuca_tag l (rp_lindex pak) in
      ebind (require PutMissAssert (fst (get_line tag False (directory l)))) (\<lambda>e.
      ebind (require BusMapAssert (get_reqnode_index bm (rp_arg pak))) (\<lambda>l1_index.
      let pak0 = pak\<lparr>rp_dir_hit := True, rp_entry := e\<rparr> in
      ebind (if owner e = l1_index
             then (case insert_line tag (rp_line_buf pak) (llc_block l) of
                 None \<Rightarrow> Inl LlcCrash
               | Some (None, blk) \<Rightarrow> Inr (pak0\<lparr>rp_blk_replaced := False\<rparr>, l\<lparr>llc_block := blk\<rparr>)
               | Some (Some (vtag, data), blk) \<Rightarrow> put_replaced bm vtag data pak0 (l\<lparr>llc_block := blk\<rparr>))
             else Inr (pak0, l)) (\<lambda>(pak1, l1).
      let rest = exists e - {l1_index} in
      Inr ((push_send_buf (rp_arg pak) CHANNEL_ACK MSG_PUT_ACK (rp_lindex pak) 0 0 pak1)
             \<lparr>rp_entry := e\<lparr>exists := rest, owner := (if rest \<noteq> {} then Min rest else owner e), dirty := (owner e \<noteq> l1_index)\<rparr>,
              rp_dir_evict := (rest = {})\<rparr>, l1)))))"

definition p2_request :: "BusPortMapping \<Rightarrow> RequestPackage \<Rightarrow> LLC \<Rightarrow> llc_error + (RequestPackage \<times> LLC)" where
  "p2_request bm pak l =
     (let ty = rp_type pak in
      if ty = MSG_GETS then p2_gets bm pak l
      else if ty = MSG_GETM then p2_getm bm pak l
      else if ty = MSG_PUTS \<or> ty = MSG_PUTE then p2_puts bm pak l
      else if ty = MSG_PUTM \<or> ty = MSG_PUTO then p2_putm bm pak l
      else Inl TypeAssert)"

definition tq_set_top :: "'a \<Rightarrow> 'a tick_queue \<Rightarrow> 'a tick_queue" where
  "tq_set_top v q = q\<lparr>tq_buf := (tq_buf q)[tq_bottom q := v]\<rparr>"

definition p2_index :: "BusPortMapping \<Rightarrow> LLC \<Rightarrow> llc_error + LLC" where
  "p2_index bm l =
     (if tq_can_pop (queue_writeback l) \<noteq> 0 then p2_writeback l
      else if tq_can_pop (queue_index l) = 0 \<or> tq_can_push (queue_index_result l) = 0 then Inr l
      else ebind (require LlcCrash (tq_top (queue_index l))) (\<lambda>pak.
        if 1 < rp_index_cycle pak
        then Inr (l\<lparr>queue_index := tq_set_top (pak\<lparr>rp_index_cycle := rp_index_cycle pak - 1\<rparr>) (queue_index l)\<rparr>)
        else ebind (require LlcCrash (tq_pop (queue_index l))) (\<lambda>q.
          ebind (p2_request bm pak (l\<lparr>queue_index := q\<rparr>)) (\<lambda>(pak', l').
          ebind (require LlcCrash (tq_push pak' (queue_index_result l'))) (\<lambda>qr.
            Inr (l'\<lparr>queue_index_result := qr\<rparr>))))))"

section \<open>Stage 3: sending\<close>

definition p3_take :: "LLC \<Rightarrow> llc_error + LLC" where
  "p3_take l =
     (if length (process_buf l) < unat (process_buf_size l) \<and> tq_can_pop (queue_index_result l) \<noteq> 0
      then ebind (require LlcCrash (tq_top (queue_index_result l))) (\<lambda>pak.
        ebind (require LlcCrash (tq_pop (queue_index_result l))) (\<lambda>q.
          Inr (l\<lparr>process_buf := process_buf l @ [pak], queue_index_result := q\<rparr>)))
      else Inr l)"

text \<open>At most one message per channel leaves per tick, the oldest first: the messages to send, those
  kept, and the channels still free.\<close>

fun pick_sends :: "bool list \<Rightarrow> ReadyToSend list \<Rightarrow> llc_error + (ReadyToSend list \<times> ReadyToSend list \<times> bool list)" where
  "pick_sends can [] = Inr ([], [], can)"
| "pick_sends can (s # ss) =
     (if \<not> unat (rs_cha s) < length can then Inl LlcCrash
      else if can ! unat (rs_cha s)
      then ebind (pick_sends (can[unat (rs_cha s) := False]) ss) (\<lambda>(sent, kept, can'). Inr (s # sent, kept, can'))
      else ebind (pick_sends can ss) (\<lambda>(sent, kept, can'). Inr (sent, s # kept, can')))"

fun send_all :: "bool list \<Rightarrow> RequestPackage list \<Rightarrow> llc_error + (ReadyToSend list \<times> RequestPackage list)" where
  "send_all can [] = Inr ([], [])"
| "send_all can (pak # paks) =
     ebind (pick_sends can (rp_need_send pak)) (\<lambda>(sent, kept, can').
     ebind (send_all can' paks) (\<lambda>(sents, paks').
       Inr (sent @ sents, pak\<lparr>rp_need_send := kept\<rparr> # paks')))"

fun take_sent :: "RequestPackage list \<Rightarrow> (RequestPackage \<times> RequestPackage list) option" where
  "take_sent [] = None"
| "take_sent (pak # paks) =
     (if rp_need_send pak = [] then Some (pak, paks) else map_option (\<lambda>(p, r). (p, pak # r)) (take_sent paks))"

definition p3_retire :: "LLC \<Rightarrow> llc_error + LLC" where
  "p3_retire l =
     (if tq_can_push (queue_writeback l) = 0 then Inr l
      else (case take_sent (process_buf l) of
          None \<Rightarrow> Inr l
        | Some (pak, rest) \<Rightarrow>
            ebind (require LlcCrash (tq_push pak (queue_writeback l))) (\<lambda>q.
              Inr (l\<lparr>queue_writeback := q, process_buf := rest\<rparr>))))"

definition p3_send :: "bool list \<Rightarrow> LLC \<Rightarrow> llc_error + (ReadyToSend list \<times> LLC)" where
  "p3_send can l =
     (if process_buf l = [] then Inr ([], l)
      else ebind (send_all can (process_buf l)) (\<lambda>(sents, paks).
        ebind (p3_retire (l\<lparr>process_buf := paks\<rparr>)) (\<lambda>l'. Inr (sents, l'))))"

section \<open>The tick\<close>

text \<open>One tick between the receive and the sends: the received message, the free channels; the
  result is the new cache and the messages handed to the bus.\<close>

definition llc_step :: "BusPortMapping \<Rightarrow> CacheCohenrenceMsg option \<Rightarrow> bool list \<Rightarrow> LLC \<Rightarrow> llc_error + (ReadyToSend list \<times> LLC)" where
  "llc_step bm msg can l =
     ebind (p1_fetch msg l) (\<lambda>l1. ebind (p2_index bm l1) (\<lambda>l2. ebind (p3_take l2) (p3_send can)))"

definition llc_apply_next_tick :: "LLC \<Rightarrow> LLC" where
  "llc_apply_next_tick l = l\<lparr>queue_index := tq_apply_next_tick (queue_index l),
     queue_writeback := tq_apply_next_tick (queue_writeback l), queue_index_result := tq_apply_next_tick (queue_index_result l)\<rparr>"

definition llc_bus :: "bus_error + 'a \<Rightarrow> llc_error + 'a" where
  "llc_bus r = (case r of Inl e \<Rightarrow> Inl (LlcBus e) | Inr x \<Rightarrow> Inr x)"

fun llc_scan :: "u64 \<Rightarrow> u32 \<Rightarrow> bool list \<Rightarrow> nat \<Rightarrow> nat \<Rightarrow> SymBus \<Rightarrow> llc_error + (CacheCohenrenceMsg option \<times> SymBus)" where
  "llc_scan tick port can c 0 b = Inr (None, b)"
| "llc_scan tick port can c (Suc k) b =
     (if \<not> c < length can then Inl LlcCrash
      else if \<not> can ! c then llc_scan tick port can (Suc c) k b
      else ebind (llc_bus (bus_recv tick b port (of_nat c) [])) (\<lambda>(ok, buf, b').
        ebind (check FetchAssert ok) (\<lambda>_.
        ebind (require LlcCrash (parse_msg_pack buf \<lparr>mtype = 0, marg = 0, mtransid = 0, mline = 0, mdata = []\<rparr>)) (\<lambda>m.
          Inr (Some m, b')))))"

definition llc_recv :: "u64 \<Rightarrow> LLC \<Rightarrow> SymBus \<Rightarrow> llc_error + (CacheCohenrenceMsg option \<times> SymBus)" where
  "llc_recv tick l b =
     (if length (llc_recv_buf l) < unat (recv_buf_size l)
      then ebind (llc_bus (can_recv_all b (llc_port l))) (\<lambda>can. llc_scan tick (llc_port l) can 0 CHANNEL_CNT b)
      else Inr (None, b))"

fun bus_send_all :: "u64 \<Rightarrow> u32 \<Rightarrow> ReadyToSend list \<Rightarrow> SymBus \<Rightarrow> llc_error + SymBus" where
  "bus_send_all tick port [] b = Inr b"
| "bus_send_all tick port (s # ss) b =
     ebind (llc_bus (bus_send tick b port (rs_dst s) (rs_cha s) (rs_msg s))) (\<lambda>(ok, b').
     ebind (check (LlcBus BusAssert) ok) (\<lambda>_. bus_send_all tick port ss b'))"

definition llc_on_current_tick :: "u64 \<Rightarrow> BusPortMapping \<Rightarrow> LLC \<Rightarrow> SymBus \<Rightarrow> llc_error + (LLC \<times> SymBus)" where
  "llc_on_current_tick tick bm l b =
     ebind (llc_recv tick l b) (\<lambda>(msg, b1).
     ebind (ebind (p1_fetch msg l) (\<lambda>l1. ebind (p2_index bm l1) p3_take)) (\<lambda>l3.
     ebind (if process_buf l3 = [] then Inr [] else llc_bus (can_send_all b1 (llc_port l))) (\<lambda>can.
     ebind (p3_send can l3) (\<lambda>(sents, l').
     ebind (bus_send_all tick (llc_port l) sents b1) (\<lambda>b2. Inr (l', b2))))))"

section \<open>Queues as sequences\<close>

lemma tq_top_pop:
  assumes "tq_inv q" and "tq_top q = Some x" and "tq_pop q = Some q'"
  shows "tq_contents q = x # tq_contents q' \<and> tq_inv q'"
  using tq_pop_contents [OF assms(1,3)] tq_pop_inv [OF assms(1,3)] assms(2)
  by (auto simp: tq_top_def split: if_splits)

lemma tq_set_top_inv: "tq_inv q \<Longrightarrow> tq_inv (tq_set_top v q)"
  by (simp add: tq_inv_def tq_set_top_def tq_size_def)

lemma tq_set_top_contents:
  assumes "tq_inv q" and "tq_top q = Some x"
  shows "\<exists>r. tq_contents q = x # r \<and> tq_contents (tq_set_top v q) = v # r"
proof -
  obtain p where p: "tq_pop q = Some p" and nz: "tq_pop_sz q \<noteq> 0" using assms(2) by (auto simp: tq_top_def tq_pop_def split: if_splits)
  have A: "tq_contents q = x # tq_contents p" using tq_top_pop [OF assms p] by simp
  define s where "s = tq_set_top v q"
  have si: "tq_inv s" using tq_set_top_inv [OF assms(1)] by (simp add: s_def)
  obtain p' where p': "tq_pop s = Some p'" using nz by (auto simp: s_def tq_set_top_def tq_pop_def)
  have top: "tq_top s = Some v" using assms(1) nz by (simp add: s_def tq_set_top_def tq_top_def tq_inv_def)
  have B: "tq_contents s = v # tq_contents p'" using tq_top_pop [OF si top p'] by simp
  have lt: "tq_size q < tq_len q" by (rule tq_size_less [OF assms(1)])
  have b: "tq_bottom q < tq_len q" using assms(1) by (simp add: tq_inv_def)
  have "tl (tq_contents s) = tl (tq_contents q)"
  proof (rule nth_equalityI)
    show "length (tl (tq_contents s)) = length (tl (tq_contents q))"
      by (simp add: tq_contents_def s_def tq_set_top_def tq_size_def)
    fix i assume i: "i < length (tl (tq_contents s))"
    then have si: "Suc i < tq_size q" by (simp add: tq_contents_def s_def tq_set_top_def tq_size_def)
    have "(tq_bottom q + Suc i) mod tq_len q \<noteq> tq_bottom q"
      using mod_add_inj [of "Suc i" "tq_len q" 0 "tq_bottom q"] si lt b by auto
    then show "tl (tq_contents s) ! i = tl (tq_contents q) ! i"
      using si by (simp add: nth_tl tq_contents_def s_def tq_set_top_def tq_size_def)
  qed
  then show ?thesis using A B by (simp add: s_def)
qed

section \<open>The requests in flight\<close>

text \<open>A package without its unsent messages; the packages past the index step; the lines of all requests in flight.\<close>

definition body :: "RequestPackage \<Rightarrow> RequestPackage" where
  "body pak = pak\<lparr>rp_need_send := []\<rparr>"

definition decided :: "LLC \<Rightarrow> RequestPackage multiset" where
  "decided l = image_mset body (mset (tq_contents (queue_index_result l)) + mset (process_buf l) + mset (tq_contents (queue_writeback l)))"

definition undecided :: "LLC \<Rightarrow> u64 multiset" where
  "undecided l = image_mset rp_lindex (mset (tq_contents (queue_index l)))"

definition lines_in_flight :: "LLC \<Rightarrow> u64 multiset" where
  "lines_in_flight l = undecided l + image_mset rp_lindex (decided l)"

definition queues_ok :: "LLC \<Rightarrow> bool" where
  "queues_ok l \<longleftrightarrow> tq_inv (queue_index l) \<and> tq_inv (queue_index_result l) \<and> tq_inv (queue_writeback l)"

lemma body_lindex [simp]: "rp_lindex (body p) = rp_lindex p" "rp_entry (body p) = rp_entry p"
    "rp_dir_evict (body p) = rp_dir_evict p" "rp_delay_commit (body p) = rp_delay_commit p"
    "body (p\<lparr>rp_need_send := ss\<rparr>) = body p"
  by (simp_all add: body_def)

lemma push_send_body [simp]: "body (push_send_buf dst ch ty line arg tr p) = body p"
    "body (push_send_buf_with_line dst ch ty line arg data tr p) = body p"
  by (simp_all add: push_send_buf_def push_send_buf_with_line_def)

lemma body_cong: "body p = body q \<Longrightarrow> rp_lindex p = rp_lindex q \<and> rp_entry p = rp_entry q \<and> rp_dir_evict p = rp_dir_evict q"
  by (metis body_lindex(1,2,3))

lemma send_invalids_body:
  "send_invalids bm skip line arg tr ls n p = Inr (n', p') \<Longrightarrow> body p' = body p"
  by (induction ls arbitrary: n p) (auto split: if_splits)

lemma pick_sends_parts:
  "pick_sends can ss = Inr (sent, kept, can') \<Longrightarrow> mset ss = mset sent + mset kept"
  by (induction ss arbitrary: can sent kept can') (auto split: if_splits)

lemma send_all_body:
  "send_all can paks = Inr (sents, paks') \<Longrightarrow> map body paks' = map body paks"
  by (induction paks arbitrary: can sents paks') (auto split: prod.splits)

lemma take_sent_parts:
  "take_sent paks = Some (p, rest) \<Longrightarrow> mset paks = add_mset p (mset rest)"
  by (induction paks arbitrary: rest) (auto split: if_splits)

lemma p3_take_frame:
  assumes "p3_take l = Inr l'" and "queues_ok l"
  shows "decided l' = decided l \<and> undecided l' = undecided l \<and> queues_ok l' \<and> directory l' = directory l \<and>
    processing_lindex l' = processing_lindex l \<and> llc_block l' = llc_block l \<and> nuca_num l' = nuca_num l"
proof -
  have "l' = l \<or> (\<exists>x q. tq_top (queue_index_result l) = Some x \<and> tq_pop (queue_index_result l) = Some q \<and>
      l' = l\<lparr>process_buf := process_buf l @ [x], queue_index_result := q\<rparr>)"
    using assms(1) by (simp add: p3_take_def split: if_splits) blast
  then consider "l' = l" | x q where "tq_top (queue_index_result l) = Some x" "tq_pop (queue_index_result l) = Some q"
      "l' = l\<lparr>process_buf := process_buf l @ [x], queue_index_result := q\<rparr>" by blast
  then show ?thesis
  proof cases
    case 2
    have "tq_contents (queue_index_result l) = x # tq_contents q \<and> tq_inv q"
      using tq_top_pop [OF _ 2(1,2)] assms(2) by (simp add: queues_ok_def)
    then show ?thesis using 2 assms(2) by (simp add: decided_def undecided_def queues_ok_def)
  qed (use assms(2) in simp)
qed

lemma p3_retire_frame:
  assumes "p3_retire l = Inr l'" and "queues_ok l"
  shows "decided l' = decided l \<and> undecided l' = undecided l \<and> queues_ok l' \<and> directory l' = directory l \<and>
    processing_lindex l' = processing_lindex l \<and> llc_block l' = llc_block l \<and> nuca_num l' = nuca_num l"
proof -
  have "l' = l \<or> (\<exists>p rest q. take_sent (process_buf l) = Some (p, rest) \<and> tq_push p (queue_writeback l) = Some q \<and>
      l' = l\<lparr>queue_writeback := q, process_buf := rest\<rparr>)"
    using assms(1) by (auto simp: p3_retire_def split: if_splits option.splits)
  then consider "l' = l" | p rest q where "take_sent (process_buf l) = Some (p, rest)" "tq_push p (queue_writeback l) = Some q"
      "l' = l\<lparr>queue_writeback := q, process_buf := rest\<rparr>" by blast
  then show ?thesis
  proof cases
    case 2
    have "tq_contents q = tq_contents (queue_writeback l) @ [p]" "tq_inv q"
      using tq_push_contents [OF _ 2(2)] tq_push_inv [OF _ 2(2)] assms(2) by (simp_all add: queues_ok_def)
    then show ?thesis using 2 take_sent_parts [OF 2(1)] assms(2) by (simp add: decided_def undecided_def queues_ok_def)
  qed (use assms(2) in simp)
qed

lemma p3_send_frame:
  assumes "p3_send can l = Inr (sents, l')" and "queues_ok l"
  shows "decided l' = decided l \<and> undecided l' = undecided l \<and> queues_ok l' \<and> directory l' = directory l \<and>
    processing_lindex l' = processing_lindex l \<and> llc_block l' = llc_block l \<and> nuca_num l' = nuca_num l"
proof (cases "process_buf l = []")
  case True
  then show ?thesis using assms by (simp add: p3_send_def)
next
  case False
  then obtain paks where p: "send_all can (process_buf l) = Inr (sents, paks)" "p3_retire (l\<lparr>process_buf := paks\<rparr>) = Inr l'"
    using assms(1) by (auto simp: p3_send_def)
  have "image_mset body (mset paks) = image_mset body (mset (process_buf l))"
    using send_all_body [OF p(1)] by (metis mset_map)
  then have "decided (l\<lparr>process_buf := paks\<rparr>) = decided l" "undecided (l\<lparr>process_buf := paks\<rparr>) = undecided l"
    "queues_ok (l\<lparr>process_buf := paks\<rparr>)" using assms(2) by (simp_all add: decided_def undecided_def queues_ok_def)
  then show ?thesis using p3_retire_frame [OF p(2)] by simp
qed

text \<open>What the index step leaves alone.\<close>

definition pipe_part :: "LLC \<Rightarrow> RequestPackage tick_queue \<times> RequestPackage tick_queue \<times> RequestPackage tick_queue \<times> RequestPackage list \<times> u64 set \<times> u64" where
  "pipe_part l = (queue_index l, queue_index_result l, queue_writeback l, process_buf l, processing_lindex l, nuca_num l)"

lemma lookup_request_frame:
  assumes "lookup_request l p = (pline, pentry, p', l')"
  shows "pipe_part l' = pipe_part l \<and> rp_lindex p' = rp_lindex p \<and> directory l' = directory l \<and> rp_arg p' = rp_arg p \<and> rp_dir_evict p' = rp_dir_evict p \<and>
    pentry = fst (get_line (lindex_to_nuca_tag l (rp_lindex p)) False (directory l)) \<and> rp_transid p' = rp_transid p \<and>
    pline = fst (get_line (lindex_to_nuca_tag l (rp_lindex p)) True (llc_block l)) \<and> rp_need_send p' = rp_need_send p \<and>
    llc_block l' = snd (get_line (lindex_to_nuca_tag l (rp_lindex p)) True (llc_block l))"
proof -
  have "snd (get_line t False d) = d" for t and d :: "DirEntry CacheBlock" by (simp add: get_line_def split: option.split)
  then have g: "get_line t False d = (x, y) \<Longrightarrow> y = d" for t x y and d :: "DirEntry CacheBlock" by (metis snd_conv)
  show ?thesis using assms by (auto simp: lookup_request_def pipe_part_def Let_def split: prod.splits dest: g)
qed

section \<open>The directory\<close>

definition entry_ok :: "DirEntry \<Rightarrow> bool" where
  "entry_ok e \<longleftrightarrow> finite (exists e) \<and> owner e \<in> exists e"

definition pak_ok :: "RequestPackage \<Rightarrow> bool" where
  "pak_ok p \<longleftrightarrow> rp_dir_evict p \<or> entry_ok (rp_entry p)"

definition dir_ok :: "DirEntry CacheBlock \<Rightarrow> bool" where
  "dir_ok d \<longleftrightarrow> cb_ok d \<and> (\<forall>t e. cb_lookup d t = Some e \<longrightarrow> entry_ok e)"

lemma entry_own [simp]: "entry_ok (own_entry r)"
  by (simp add: entry_ok_def own_entry_def)

lemma get_line_dir [simp]: "get_line t False d = (cb_lookup d t, d)"
  by (simp add: get_line_def cb_lookup_def split: option.split)

lemma dir_remove:
  assumes "dir_ok d"
  shows "dir_ok (remove_line t d)"
proof -
  have "cb_inv d" using assms by (simp add: dir_ok_def cb_ok_def)
  then show ?thesis using assms remove_line_ok remove_line_lookup by (fastforce simp: dir_ok_def split: if_splits)
qed

lemma dir_insert:
  assumes "dir_ok d" and "entry_ok e" and "insert_line t e d = Some (None, d')"
  shows "dir_ok d'"
proof -
  have ok: "cb_ok d" using assms(1) by (simp add: dir_ok_def)
  have "cb_ok d'" by (rule cb.insert_inv [OF ok assms(3)])
  moreover have "cb_lookup d' = (cb_lookup d)(t \<mapsto> e)" by (rule cb.insert_keep [OF ok assms(3)])
  ultimately show ?thesis using assms(1,2) by (simp add: dir_ok_def)
qed

lemma shrink_entry:
  assumes "entry_ok e" and "exists e - {r} \<noteq> {}"
  shows "entry_ok (e\<lparr>exists := exists e - {r}, owner := (if r = owner e \<and> exists e - {r} \<noteq> {} then Min (exists e - {r}) else owner e)\<rparr>)"
    and "entry_ok (e\<lparr>exists := exists e - {r}, owner := Min (exists e - {r}), dirty := x\<rparr>)"
proof -
  have "finite (exists e - {r})" using assms(1) by (simp add: entry_ok_def)
  with Min_in [OF this assms(2)] assms show "entry_ok (e\<lparr>exists := exists e - {r}, owner := (if r = owner e \<and> exists e - {r} \<noteq> {} then Min (exists e - {r}) else owner e)\<rparr>)"
      "entry_ok (e\<lparr>exists := exists e - {r}, owner := Min (exists e - {r}), dirty := x\<rparr>)"
    by (auto simp: entry_ok_def)
qed

text \<open>Every branch of the index step keeps the pipeline and the directory in order and decides an entry.\<close>

definition request_post :: "RequestPackage \<Rightarrow> LLC \<Rightarrow> RequestPackage \<Rightarrow> LLC \<Rightarrow> bool" where
  "request_post p l p' l' \<longleftrightarrow> pipe_part l' = pipe_part l \<and> rp_lindex p' = rp_lindex p \<and>
     (dir_ok (directory l) \<longrightarrow> dir_ok (directory l') \<and> pak_ok p')"

lemma pak_ok_body: "pak_ok (body p) = pak_ok p"
  by (simp add: pak_ok_def)

lemma push_send_simps [simp]:
    "rp_lindex (push_send_buf dst ch ty line arg tr p) = rp_lindex p"
    "rp_lindex (push_send_buf_with_line dst ch ty line arg data tr p) = rp_lindex p"
    "rp_entry (push_send_buf dst ch ty line arg tr p) = rp_entry p"
    "rp_dir_evict (push_send_buf dst ch ty line arg tr p) = rp_dir_evict p"
  by (simp_all add: push_send_buf_def push_send_buf_with_line_def)

lemma pipe_part_update [simp]:
    "pipe_part (l\<lparr>llc_miss_count := x\<rparr>) = pipe_part l" "pipe_part (l\<lparr>llc_hit_count := x\<rparr>) = pipe_part l"
    "pipe_part (l\<lparr>llc_block := b\<rparr>) = pipe_part l" "pipe_part (l\<lparr>directory := d\<rparr>) = pipe_part l"
  by (simp_all add: pipe_part_def)

lemma p2_gets_post:
  assumes "p2_gets bm p l = Inr (p', l')"
  shows "request_post p l p' l'"
proof -
  obtain pline pentry q m where L: "lookup_request l p = (pline, pentry, q, m)" by (metis prod_cases4)
  note F = lookup_request_frame [OF L]
  have e: "pentry = Some e \<Longrightarrow> dir_ok (directory l) \<Longrightarrow> entry_ok e" for e using F by (auto simp: dir_ok_def)
  have i: "entry_ok e \<Longrightarrow> entry_ok (e\<lparr>exists := insert r (exists e)\<rparr>)" for e r by (simp add: entry_ok_def)
  show ?thesis
    using assms F e i unfolding p2_gets_def L Let_def by (auto simp: request_post_def pak_ok_def split: option.splits)
qed

lemma p2_getm_post:
  assumes "p2_getm bm p l = Inr (p', l')"
  shows "request_post p l p' l'"
proof -
  obtain pline pentry q m where L: "lookup_request l p = (pline, pentry, q, m)" by (metis prod_cases4)
  note F = lookup_request_frame [OF L]
  have s: "send_invalids bm skip line arg tr ls 0 u = Inr (n, v) \<Longrightarrow> rp_lindex v = rp_lindex u" for skip line arg tr ls n u v
    using send_invalids_body body_cong by metis
  show ?thesis
    using assms F unfolding p2_getm_def L Let_def
    by (auto simp: request_post_def pak_ok_def split: option.splits if_splits dest!: s)
qed

lemma p2_puts_post:
  assumes "p2_puts bm p l = Inr (p', l')"
  shows "request_post p l p' l'"
proof (cases "cb_lookup (directory l) (lindex_to_nuca_tag l (rp_lindex p))")
  case None
  then show ?thesis using assms by (auto simp: p2_puts_def Let_def request_post_def pak_ok_def)
next
  case (Some e)
  then obtain r where p': "l' = l" "rp_lindex p' = rp_lindex p" "rp_dir_evict p' \<longleftrightarrow> exists e - {r} = {}"
      "rp_entry p' = e\<lparr>exists := exists e - {r}, owner := (if r = owner e \<and> exists e - {r} \<noteq> {} then Min (exists e - {r}) else owner e)\<rparr>"
    using assms by (auto simp: p2_puts_def Let_def)
  have "pak_ok p'" if "dir_ok (directory l)"
  proof (cases "exists e - {r} = {}")
    case True
    then have "rp_dir_evict p'" using p'(3) by blast
    then show ?thesis by (simp add: pak_ok_def)
  next
    case False
    have "entry_ok e" using Some that by (auto simp: dir_ok_def)
    then show ?thesis unfolding pak_ok_def p'(4) by (intro disjI2 shrink_entry(1) False)
  qed
  then show ?thesis using p'(1,2) by (simp add: request_post_def)
qed

lemma put_replaced_post:
  assumes "put_replaced bm tag data p l = Inr (p', l')"
  shows "pipe_part l' = pipe_part l \<and> rp_lindex p' = rp_lindex p \<and> llc_block l' = llc_block l \<and> (dir_ok (directory l) \<longrightarrow> dir_ok (directory l'))"
proof -
  have s: "send_invalids bm skip line arg tr ls 0 u = Inr (n, v) \<Longrightarrow> rp_lindex v = rp_lindex u" for skip line arg tr ls n u v
    using send_invalids_body body_cong by metis
  show ?thesis
    using assms by (auto simp: put_replaced_def Let_def dir_remove split: option.splits if_splits dest!: s)
qed

definition put_entry :: "u32 \<Rightarrow> DirEntry \<Rightarrow> DirEntry" where
  "put_entry r e = e\<lparr>exists := exists e - {r}, owner := (if exists e - {r} \<noteq> {} then Min (exists e - {r}) else owner e), dirty := (owner e \<noteq> r)\<rparr>"

lemma p2_putm_parts:
  assumes "p2_putm bm p l = Inr (p', l')"
  obtains e r q where "cb_lookup (directory l) (lindex_to_nuca_tag l (rp_lindex p)) = Some e" "get_reqnode_index bm (rp_arg p) = Some r"
    "(if owner e = r
      then (case insert_line (lindex_to_nuca_tag l (rp_lindex p)) (rp_line_buf p) (llc_block l) of
          None \<Rightarrow> Inl LlcCrash
        | Some (None, blk) \<Rightarrow> Inr (p\<lparr>rp_dir_hit := True, rp_entry := e\<rparr>\<lparr>rp_blk_replaced := False\<rparr>, l\<lparr>llc_block := blk\<rparr>)
        | Some (Some (vtag, data), blk) \<Rightarrow> put_replaced bm vtag data (p\<lparr>rp_dir_hit := True, rp_entry := e\<rparr>) (l\<lparr>llc_block := blk\<rparr>))
      else Inr (p\<lparr>rp_dir_hit := True, rp_entry := e\<rparr>, l)) = Inr (q, l')"
    "p' = (push_send_buf (rp_arg p) CHANNEL_ACK MSG_PUT_ACK (rp_lindex p) 0 0 q)\<lparr>rp_entry := put_entry r e, rp_dir_evict := (exists e - {r} = {})\<rparr>"
  using assms unfolding p2_putm_def put_entry_def Let_def by (auto simp: get_line_dir)

lemma p2_putm_post:
  assumes "p2_putm bm p l = Inr (p', l')"
  shows "request_post p l p' l'"
proof -
  obtain e r q where e: "cb_lookup (directory l) (lindex_to_nuca_tag l (rp_lindex p)) = Some e"
    and q: "(if owner e = r
      then (case insert_line (lindex_to_nuca_tag l (rp_lindex p)) (rp_line_buf p) (llc_block l) of
          None \<Rightarrow> Inl LlcCrash
        | Some (None, blk) \<Rightarrow> Inr (p\<lparr>rp_dir_hit := True, rp_entry := e\<rparr>\<lparr>rp_blk_replaced := False\<rparr>, l\<lparr>llc_block := blk\<rparr>)
        | Some (Some (vtag, data), blk) \<Rightarrow> put_replaced bm vtag data (p\<lparr>rp_dir_hit := True, rp_entry := e\<rparr>) (l\<lparr>llc_block := blk\<rparr>))
      else Inr (p\<lparr>rp_dir_hit := True, rp_entry := e\<rparr>, l)) = Inr (q, l')"
    and p': "p' = (push_send_buf (rp_arg p) CHANNEL_ACK MSG_PUT_ACK (rp_lindex p) 0 0 q)\<lparr>rp_entry := put_entry r e, rp_dir_evict := (exists e - {r} = {})\<rparr>"
    by (rule p2_putm_parts [OF assms])
  have "pipe_part l' = pipe_part l \<and> rp_lindex q = rp_lindex p \<and> (dir_ok (directory l) \<longrightarrow> dir_ok (directory l'))"
    using q by (auto split: option.splits if_splits dest!: put_replaced_post)
  moreover have "entry_ok e" if "dir_ok (directory l)" using that e by (auto simp: dir_ok_def)
  ultimately show ?thesis
    using shrink_entry(2) [of e r "owner e \<noteq> r"] by (auto simp: request_post_def pak_ok_def p' put_entry_def)
qed

lemma p2_request_post:
  "p2_request bm p l = Inr (p', l') \<Longrightarrow> request_post p l p' l'"
  using p2_gets_post p2_getm_post p2_puts_post p2_putm_post by (auto simp: p2_request_def Let_def split: if_splits)

section \<open>The invariants of a run\<close>

definition llc_inv :: "LLC \<Rightarrow> bool" where
  "llc_inv l \<longleftrightarrow> queues_ok l \<and> dir_ok (directory l) \<and> (\<forall>p\<in>#decided l. pak_ok p)"

text \<open>No two requests in flight are for the same line, and every line in flight is marked.\<close>

definition lines_exclusive :: "LLC \<Rightarrow> bool" where
  "lines_exclusive l \<longleftrightarrow> (\<forall>x. count (lines_in_flight l) x \<le> 1) \<and> set_mset (lines_in_flight l) \<subseteq> processing_lindex l"

lemma llc_receive_frame:
  assumes "llc_receive m l = Inr l'"
  shows "decided l' = decided l \<and> undecided l' = undecided l \<and> queues_ok l' = queues_ok l \<and> directory l' = directory l \<and>
    processing_lindex l' = (if mtype m = MSG_GET_ACK then processing_lindex l - {mline m} else processing_lindex l)"
  using assms by (auto simp: llc_receive_def decided_def undecided_def queues_ok_def Let_def msg_types split: if_splits)

lemma llc_pick_new: "llc_pick busy ms = Some (m, rest) \<Longrightarrow> mline m \<notin> busy"
  by (induction ms arbitrary: rest) (auto split: if_splits)

lemma new_package_line: "new_package l m = Inr pak \<Longrightarrow> rp_lindex pak = mline m"
  by (auto simp: new_package_def Let_def split: if_splits)

lemma llc_issue_frame:
  assumes "llc_issue l = Inr l'" and "queues_ok l"
  shows "decided l' = decided l \<and> queues_ok l' \<and> directory l' = directory l \<and>
    (undecided l' = undecided l \<and> processing_lindex l' = processing_lindex l \<or>
     (\<exists>x. x \<notin> processing_lindex l \<and> undecided l' = add_mset x (undecided l) \<and> processing_lindex l' = insert x (processing_lindex l)))"
proof -
  have "l' = l \<or> (\<exists>m rest pak q. llc_pick (processing_lindex l) (llc_recv_buf l) = Some (m, rest) \<and> new_package l m = Inr pak \<and>
      tq_push pak (queue_index l) = Some q \<and> l' = l\<lparr>queue_index := q, processing_lindex := insert (mline m) (processing_lindex l),
        llc_block := pin (lindex_to_nuca_tag l (mline m)) (llc_block l), llc_recv_buf := rest\<rparr>)"
    using assms(1) by (auto simp: llc_issue_def split: if_splits option.splits)
  then show ?thesis
  proof (elim disjE exE conjE)
    fix m rest pak q
    assume m: "llc_pick (processing_lindex l) (llc_recv_buf l) = Some (m, rest)" "new_package l m = Inr pak"
      "tq_push pak (queue_index l) = Some q" and l': "l' = l\<lparr>queue_index := q, processing_lindex := insert (mline m) (processing_lindex l),
        llc_block := pin (lindex_to_nuca_tag l (mline m)) (llc_block l), llc_recv_buf := rest\<rparr>"
    have "tq_contents q = tq_contents (queue_index l) @ [pak]" "tq_inv q"
      using tq_push_contents [OF _ m(3)] tq_push_inv [OF _ m(3)] assms(2) by (simp_all add: queues_ok_def)
    then show ?thesis
      using llc_pick_new [OF m(1)] new_package_line [OF m(2)] assms(2) by (auto simp: l' decided_def undecided_def queues_ok_def)
  qed (use assms(2) in simp)
qed

lemma p2_writeback_frame:
  assumes "p2_writeback l = Inr l'" and "queues_ok l"
  shows "\<exists>wb. decided l = add_mset (body wb) (decided l') \<and> undecided l' = undecided l \<and> queues_ok l' \<and>
    (dir_ok (directory l) \<longrightarrow> pak_ok wb \<longrightarrow> dir_ok (directory l')) \<and>
    processing_lindex l' = (if rp_delay_commit wb then processing_lindex l else processing_lindex l - {rp_lindex wb})"
proof -
  let ?t = "\<lambda>wb. lindex_to_nuca_tag l (rp_lindex wb)"
  obtain wb d q where w: "tq_top (queue_writeback l) = Some wb" "tq_pop (queue_writeback l) = Some q"
    and d': "(if rp_dir_evict wb then Inr (remove_line (?t wb) (directory l))
            else (case insert_line (?t wb) (rp_entry wb) (directory l) of
                None \<Rightarrow> Inl LlcCrash | Some (Some _, _) \<Rightarrow> Inl DirFullAssert | Some (None, d) \<Rightarrow> Inr d)) = Inr d"
    and l'': "(if rp_delay_commit wb then l\<lparr>directory := d, queue_writeback := q\<rparr>
        else l\<lparr>directory := d, queue_writeback := q, processing_lindex := processing_lindex l - {rp_lindex wb},
               llc_block := unpin (?t wb) (llc_block l)\<rparr>) = l'"
    using assms(1) [unfolded p2_writeback_def Let_def ebind_Inr_iff require_simps sum.inject LLC.update_convs]
    by (elim exE conjE) (rule that, assumption+)
  note l' = l'' [symmetric]
  have d: "if rp_dir_evict wb then d = remove_line (?t wb) (directory l) else insert_line (?t wb) (rp_entry wb) (directory l) = Some (None, d)"
    using d' by (simp split: if_splits option.splits prod.splits)
  have c: "tq_contents (queue_writeback l) = wb # tq_contents q" "tq_inv q"
    using tq_top_pop [OF _ w] assms(2) by (simp_all add: queues_ok_def)
  have "dir_ok (directory l) \<Longrightarrow> pak_ok wb \<Longrightarrow> dir_ok d"
    using d dir_remove dir_insert by (auto simp: pak_ok_def split: if_splits)
  then show ?thesis
    using c assms(2) by (intro exI [of _ wb]) (simp add: l' decided_def undecided_def queues_ok_def)
qed

lemma p2_index_frame:
  assumes "p2_index bm l = Inr l'" and "queues_ok l"
  shows "queues_ok l' \<and>
    ((\<exists>wb. decided l = add_mset (body wb) (decided l') \<and> undecided l' = undecided l \<and>
        (dir_ok (directory l) \<longrightarrow> pak_ok wb \<longrightarrow> dir_ok (directory l')) \<and>
        processing_lindex l' = (if rp_delay_commit wb then processing_lindex l else processing_lindex l - {rp_lindex wb})) \<or>
     (decided l' = decided l \<and> undecided l' = undecided l \<and> directory l' = directory l \<and> processing_lindex l' = processing_lindex l) \<or>
     (\<exists>p. decided l' = add_mset (body p) (decided l) \<and> undecided l = add_mset (rp_lindex p) (undecided l') \<and>
        (dir_ok (directory l) \<longrightarrow> dir_ok (directory l') \<and> pak_ok p) \<and> processing_lindex l' = processing_lindex l))"
proof -
  have "p2_writeback l = Inr l' \<or> l' = l \<or>
      (\<exists>pak. tq_top (queue_index l) = Some pak \<and> l' = l\<lparr>queue_index := tq_set_top (pak\<lparr>rp_index_cycle := rp_index_cycle pak - 1\<rparr>) (queue_index l)\<rparr>) \<or>
      (\<exists>pak q pak' m qr. tq_top (queue_index l) = Some pak \<and> tq_pop (queue_index l) = Some q \<and>
         p2_request bm pak (l\<lparr>queue_index := q\<rparr>) = Inr (pak', m) \<and> tq_push pak' (queue_index_result m) = Some qr \<and>
         l' = m\<lparr>queue_index_result := qr\<rparr>)"
    using assms(1) by (simp add: p2_index_def split: if_splits) blast+
  then show ?thesis
  proof (elim disjE exE conjE)
    assume "p2_writeback l = Inr l'"
    then show ?thesis using p2_writeback_frame [OF _ assms(2)] by blast
  next
    fix pak
    assume t: "tq_top (queue_index l) = Some pak" and l': "l' = l\<lparr>queue_index := tq_set_top (pak\<lparr>rp_index_cycle := rp_index_cycle pak - 1\<rparr>) (queue_index l)\<rparr>"
    have qi: "tq_inv (queue_index l)" using assms(2) by (simp add: queues_ok_def)
    obtain r where "tq_contents (queue_index l) = pak # r"
        "tq_contents (tq_set_top (pak\<lparr>rp_index_cycle := rp_index_cycle pak - 1\<rparr>) (queue_index l)) = pak\<lparr>rp_index_cycle := rp_index_cycle pak - 1\<rparr> # r"
      using tq_set_top_contents [OF qi t] by blast
    then show ?thesis using assms(2) tq_set_top_inv [OF qi] by (simp add: l' decided_def undecided_def queues_ok_def)
  next
    fix pak q pak' m qr
    assume t: "tq_top (queue_index l) = Some pak" "tq_pop (queue_index l) = Some q"
      and r: "p2_request bm pak (l\<lparr>queue_index := q\<rparr>) = Inr (pak', m)" and p: "tq_push pak' (queue_index_result m) = Some qr"
      and l': "l' = m\<lparr>queue_index_result := qr\<rparr>"
    have post: "request_post pak (l\<lparr>queue_index := q\<rparr>) pak' m" by (rule p2_request_post [OF r])
    then have m: "queue_index m = q" "queue_index_result m = queue_index_result l" "queue_writeback m = queue_writeback l"
        "process_buf m = process_buf l" "processing_lindex m = processing_lindex l" "rp_lindex pak' = rp_lindex pak"
        "dir_ok (directory l) \<Longrightarrow> dir_ok (directory m) \<and> pak_ok pak'"
      by (simp_all add: request_post_def pipe_part_def)
    have c: "tq_contents (queue_index l) = pak # tq_contents q" "tq_inv q"
      using tq_top_pop [OF _ t] assms(2) by (simp_all add: queues_ok_def)
    have d: "tq_contents qr = tq_contents (queue_index_result l) @ [pak']" "tq_inv qr"
      using tq_push_contents [OF _ p] tq_push_inv [OF _ p] assms(2) m(2) by (simp_all add: queues_ok_def)
    have "decided l' = add_mset (body pak') (decided l)" "undecided l = add_mset (rp_lindex pak') (undecided l')" "queues_ok l'"
      using c d m assms(2) by (simp_all add: l' decided_def undecided_def queues_ok_def)
    moreover have "dir_ok (directory l) \<longrightarrow> dir_ok (directory l') \<and> pak_ok pak'" "processing_lindex l' = processing_lindex l"
      using m by (simp_all add: l')
    ultimately show ?thesis by blast
  qed (use assms(2) in simp)
qed

end
