(* ===== verification/PinnedBlock.thy ===== *)
theory PinnedBlock
  imports CacheBlock
begin

text \<open>
  The cache block of \<^verbatim>\<open>CacheBlock\<close> as its users treat it: with lines pinned and looked up in any order. The
  theory adds no model, only the invariant that survives and the contract it still gives.
\<close>

section \<open>The block under pins\<close>

text \<open>
  The cache pins lines that its own lookups put back on the recency list, so a list may repeat a line
  or miss one and the invariant of \<^verbatim>\<open>CacheBlock\<close> fails. What remains is enough for the contract of
  \<^verbatim>\<open>line_store\<close>, which is interpreted a second time.
\<close>

definition cb_weak :: "'p CacheBlock \<Rightarrow> bool" where
  "cb_weak b \<longleftrightarrow> 0 < unat (set_count b) \<and> length (p_sets b) = unat (set_count b) \<and> length (p_lrus b) = unat (set_count b) \<and>
     (\<forall>i<unat (set_count b). distinct (map fst (p_sets b ! i)) \<and>
        (\<forall>k\<in>fst ` set (p_sets b ! i) \<union> set (p_lrus b ! i). line_index_to_set_index b k = i))"

lemma cb_ok_weak:
  assumes "cb_ok b"
  shows "cb_weak b"
proof -
  have inv: "cb_inv b" using assms by (simp add: cb_ok_def)
  then have "set_inv b i" if "i < unat (set_count b)" for i using that by (simp add: cb_inv_def)
  then have "distinct (map fst (p_sets b ! i)) \<and> (\<forall>k\<in>fst ` set (p_sets b ! i) \<union> set (p_lrus b ! i). line_index_to_set_index b k = i)"
    if "i < unat (set_count b)" for i
    using that unfolding set_inv_def cb_keys_def by blast
  then show ?thesis using inv by (simp add: cb_weak_def cb_inv_def)
qed

lemma weak_index:
  assumes "cb_weak b"
  shows "line_index_to_set_index b l < unat (set_count b)" "length (p_sets b) = unat (set_count b)" "length (p_lrus b) = unat (set_count b)"
proof -
  have w: "0 < unat (set_count b)" using assms unfolding cb_weak_def by blast
  show "line_index_to_set_index b l < unat (set_count b)" by (rule set_index_less [OF w])
  show "length (p_sets b) = unat (set_count b)" "length (p_lrus b) = unat (set_count b)" using assms unfolding cb_weak_def by blast+
qed

lemma weak_set:
  assumes "cb_weak b"
  shows "distinct (map fst (cb_set b l))"
    and "k \<in> fst ` set (cb_set b l) \<Longrightarrow> line_index_to_set_index b k = line_index_to_set_index b l"
    and "k \<in> set (cb_lru b l) \<Longrightarrow> line_index_to_set_index b k = line_index_to_set_index b l"
  using assms weak_index(1) [OF assms, of l] unfolding cb_weak_def cb_set_def cb_lru_def by blast+

lemma weak_lookup_put:
  assumes "cb_weak b"
  shows "cb_lookup (put_set b l S L P) k = (if line_index_to_set_index b k = line_index_to_set_index b l then map_of S k else cb_lookup b k)"
  using weak_index(1) [OF assms, of l] weak_index(2,3) [OF assms] by (simp add: cb_lookup_def cb_set_def idx_put_set) (simp add: put_set_def)

lemma weak_put:
  assumes b: "cb_weak b" and S: "distinct (map fst S)" "\<forall>k\<in>fst ` set S \<union> set L. line_index_to_set_index b k = line_index_to_set_index b l"
  shows "cb_weak (put_set b l S L P)"
proof -
  let ?b = "put_set b l S L P" and ?i = "line_index_to_set_index b l"
  have f: "set_count ?b = set_count b" "p_sets ?b = (p_sets b)[?i := S]" "p_lrus ?b = (p_lrus b)[?i := L]" by (simp_all add: put_set_def)
  have all: "distinct (map fst (p_sets ?b ! j)) \<and> (\<forall>k\<in>fst ` set (p_sets ?b ! j) \<union> set (p_lrus ?b ! j). line_index_to_set_index b k = j)"
    if "j < unat (set_count b)" for j
  proof (cases "j = ?i")
    case True
    then have "p_sets ?b ! j = S" "p_lrus ?b ! j = L" using weak_index(1) [OF b, of l] weak_index(2,3) [OF b] by (simp_all add: f)
    then show ?thesis using S True by simp
  next
    case False
    then have "p_sets ?b ! j = p_sets b ! j" "p_lrus ?b ! j = p_lrus b ! j" by (simp_all add: f)
    then show ?thesis using b that by (simp add: cb_weak_def)
  qed
  have len: "length (p_sets ?b) = length (p_sets b)" "length (p_lrus ?b) = length (p_lrus b)" by (simp_all add: f)
  show ?thesis using b all unfolding cb_weak_def idx_put_set len f(1) by blast
qed

lemma weak_put_same: "cb_weak b \<Longrightarrow> put_set b l (cb_set b l) L P = b\<lparr>p_lrus := (p_lrus b)[line_index_to_set_index b l := L], pinned_line := P\<rparr>"
  by (simp add: put_set_def cb_set_def)

lemma weak_lrus:
  assumes "cb_weak b" and "\<forall>k\<in>set L. line_index_to_set_index b k = line_index_to_set_index b l"
  shows "cb_weak (b\<lparr>p_lrus := (p_lrus b)[line_index_to_set_index b l := L], pinned_line := P\<rparr>) \<and>
    cb_lookup (b\<lparr>p_lrus := (p_lrus b)[line_index_to_set_index b l := L], pinned_line := P\<rparr>) = cb_lookup b"
proof -
  have e: "map_of (cb_set b l) k = cb_lookup b k" if "line_index_to_set_index b k = line_index_to_set_index b l" for k
    using set_same_index [OF that] by (simp add: cb_lookup_def)
  have "cb_weak (put_set b l (cb_set b l) L P)"
    using assms weak_set [OF assms(1), where l = l] by (intro weak_put) auto
  moreover have "cb_lookup (put_set b l (cb_set b l) L P) = cb_lookup b"
    using e by (auto simp: weak_lookup_put [OF assms(1)] fun_eq_iff)
  ultimately show ?thesis by (simp only: weak_put_same [OF assms(1)])
qed

lemma weak_touch: "cb_weak b \<Longrightarrow> cb_weak (tag_lru l b) \<and> cb_lookup (tag_lru l b) = cb_lookup b"
proof -
  assume b: "cb_weak b"
  have "tag_lru l b = b\<lparr>p_lrus := (p_lrus b)[line_index_to_set_index b l := l # removeAll l (cb_lru b l)], pinned_line := pinned_line b\<rparr>"
    by (simp add: tag_lru_def)
  moreover have "\<forall>k\<in>set (l # removeAll l (cb_lru b l)). line_index_to_set_index b k = line_index_to_set_index b l"
    using weak_set(3) [OF b] by auto
  ultimately show ?thesis using weak_lrus [OF b] by metis
qed

lemma weak_pin:
  assumes b: "cb_weak b"
  shows "cb_weak (pin l b) \<and> cb_lookup (pin l b) = cb_lookup b"
proof -
  have "\<forall>k\<in>set (remove1 l (cb_lru b l)). line_index_to_set_index b k = line_index_to_set_index b l"
    using weak_set(3) [OF b] set_remove1_subset by fastforce
  then show ?thesis using weak_lrus [OF b] b by (auto simp: pin_def)
qed

lemma weak_unpin:
  assumes b: "cb_weak b"
  shows "cb_weak (unpin l b) \<and> cb_lookup (unpin l b) = cb_lookup b"
proof -
  have "\<forall>k\<in>set (l # cb_lru b l). line_index_to_set_index b k = line_index_to_set_index b l"
    using weak_set(3) [OF b] by auto
  then show ?thesis using weak_lrus [OF b] b by (auto simp: unpin_def)
qed

lemma weak_get: "cb_weak b \<Longrightarrow> cb_weak (snd (get_line l t b)) \<and> cb_lookup (snd (get_line l t b)) = cb_lookup b \<and> fst (get_line l t b) = cb_lookup b l"
  using weak_touch by (auto simp: get_line_def cb_lookup_def split: option.split)

lemma delete_keys_set: "fst ` set (AList.delete v xs) = fst ` set xs - {v}"
  by (simp add: delete_keys flip: set_map)

lemma weak_remove:
  assumes b: "cb_weak b"
  shows "cb_weak (remove_line l b) \<and> cb_lookup (remove_line l b) = (cb_lookup b)(l := None)"
proof -
  note S = weak_set [OF b, where l = l]
  have "cb_weak (remove_line l b)"
    unfolding remove_line_put using S by (intro weak_put [OF b]) (auto simp: distinct_delete delete_keys_set)
  moreover have "cb_lookup (remove_line l b) k = ((cb_lookup b)(l := None)) k" for k
    unfolding remove_line_put weak_lookup_put [OF b] using set_same_index [of b k l]
    by (auto simp: delete_conv' cb_lookup_def)
  ultimately show ?thesis by blast
qed

lemma weak_insert_cases:
  assumes b: "cb_weak b" and "insert_line l p b = Some (ev, b')"
  obtains (hit) "cb_lookup b l \<noteq> None" "ev = None"
      "b' = put_set b l (AList.update l p (cb_set b l)) (l # removeAll l (cb_lru b l)) (pinned_line b)"
  | (fill) "cb_lookup b l = None" "ev = None"
      "b' = put_set b l ((l, p) # cb_set b l) (l # removeAll l (cb_lru b l)) (pinned_line b)"
  | (evict) v q where "cb_lookup b l = None" "cb_lookup b v = Some q" "ev = Some (v, q)" "v \<noteq> l" "line_index_to_set_index b v = line_index_to_set_index b l"
      "b' = put_set b l ((l, p) # AList.delete v (cb_set b l)) (l # removeAll l (removeAll v (cb_lru b l))) (pinned_line b - {v})"
proof -
  have pinv: "tag_lru l (write_set l X c) = put_set c l X (l # removeAll l (cb_lru c l)) (pinned_line c)" for X and c :: "'a CacheBlock"
    unfolding tag_lru_def write_set_def put_set_def cb_lru_def by (simp add: cache_simps)
  have get: "cb_set (put_set b l S L P) l = S" "cb_lru (put_set b l S L P) l = L" "pinned_line (put_set b l S L P) = P" for S L P
    using weak_index(1) [OF b, of l] weak_index(2,3) [OF b] by (simp_all add: cb_set_def cb_lru_def idx_put_set) (simp_all add: put_set_def)
  consider "cb_lookup b l \<noteq> None"
    | "cb_lookup b l = None" "length (cb_set b l) < unat (line_per_set b)"
    | "cb_lookup b l = None" "\<not> length (cb_set b l) < unat (line_per_set b)" by blast
  then show ?thesis
  proof cases
    case 1
    then have "(ev, b') = (None, tag_lru l (set_payload l p b))"
      using assms(2) by (simp add: insert_line_def cb_lookup_def)
    then show ?thesis using 1 by (intro hit) (simp_all add: set_payload_def pinv)
  next
    case 2
    then have "(ev, b') = (None, tag_lru l (write_set l ((l, p) # cb_set b l) b))"
      using assms(2) by (simp add: insert_line_def cb_lookup_def)
    then show ?thesis using 2 by (intro fill) (simp_all add: pinv)
  next
    case 3
    let ?v = "last (cb_lru b l)"
    have ne: "cb_lru b l \<noteq> []" using assms(2) 3 by (auto simp: insert_line_def cb_lookup_def)
    then have idx: "line_index_to_set_index b ?v = line_index_to_set_index b l" using weak_set(3) [OF b, of ?v l] by simp
    obtain q where q: "cb_lookup b ?v = Some q" and r: "(ev, b') = (Some (?v, q),
        tag_lru l (write_set l ((l, p) # cb_set (remove_line ?v b) l) (remove_line ?v b)))"
      using assms(2) 3 ne
      by (auto simp: insert_line_def cb_lookup_def get_line_def Let_def split: option.splits)
    have rm: "remove_line ?v b = put_set b l (AList.delete ?v (cb_set b l)) (removeAll ?v (cb_lru b l)) (pinned_line b - {?v})"
      unfolding remove_line_put using put_set_same_index [OF idx] set_same_index [OF idx] by simp
    have be: "b' = put_set b l ((l, p) # AList.delete ?v (cb_set b l)) (l # removeAll l (removeAll ?v (cb_lru b l))) (pinned_line b - {?v})"
      using r by (simp add: pinv rm put_set_put_set get)
    have "ev = Some (?v, q)" "?v \<noteq> l" using r q 3(1) by auto
    from evict [OF 3(1) q this idx be] show ?thesis .
  qed
qed

lemma weak_insert:
  assumes b: "cb_weak b" and "insert_line l p b = Some (ev, b')"
  shows "cb_weak b' \<and> (case ev of None \<Rightarrow> cb_lookup b' = (cb_lookup b)(l \<mapsto> p)
    | Some (v, q) \<Rightarrow> v \<noteq> l \<and> cb_lookup b v = Some q \<and> cb_lookup b' = (cb_lookup b)(v := None, l \<mapsto> p))"
proof -
  note S = weak_set [OF b, where l = l]
  have e: "map_of (cb_set b l) k = cb_lookup b k" if "line_index_to_set_index b k = line_index_to_set_index b l" for k
    using set_same_index [OF that] by (simp add: cb_lookup_def)
  have mem: "cb_lookup b l = None \<longleftrightarrow> l \<notin> fst ` set (cb_set b l)" by (simp add: cb_lookup_def map_of_eq_None_iff)
  from b assms(2) show ?thesis
  proof (cases rule: weak_insert_cases)
    case hit
    have "l \<in> fst ` set (cb_set b l)" using hit(1) mem by simp
    then have k: "fst ` set (AList.update l p (cb_set b l)) = fst ` set (cb_set b l)"
      by (simp add: dom_update [symmetric] dom_map_of_conv_image_fst [symmetric] update_conv' insert_absorb)
    have "cb_weak b'" unfolding hit(3) using S k by (intro weak_put [OF b] distinct_update) auto
    then show ?thesis using e by (auto simp: hit(2,3) weak_lookup_put [OF b] update_conv' fun_eq_iff)
  next
    case fill
    have "cb_weak b'" unfolding fill(3) using S fill(1) mem by (intro weak_put [OF b]) auto
    then show ?thesis using e by (auto simp: fill(2,3) weak_lookup_put [OF b] fun_eq_iff)
  next
    case (evict v q)
    have "cb_weak b'" unfolding evict(6) using S evict(1) mem
      by (intro weak_put [OF b]) (auto simp: distinct_delete delete_keys_set)
    then show ?thesis using e evict by (auto simp: evict(3,6) weak_lookup_put [OF b] delete_conv' fun_eq_iff)
  qed
qed

interpretation wk: line_store cb_lookup insert_line tag_lru cb_weak
proof
  fix s s' :: "'a CacheBlock" and l p ev v q
  assume w: "cb_weak s"
  show "cb_weak (tag_lru l s)" "cb_lookup (tag_lru l s) = cb_lookup s" using weak_touch [OF w] by simp_all
  show "cb_weak s'" if "insert_line l p s = Some (ev, s')" using weak_insert [OF w that] by simp
  show "cb_lookup s' = (cb_lookup s)(l \<mapsto> p)" if "insert_line l p s = Some (None, s')" using weak_insert [OF w that] by simp
  show "v \<noteq> l \<and> cb_lookup s v = Some q \<and> cb_lookup s' = (cb_lookup s)(v := None, l \<mapsto> p)"
    if "insert_line l p s = Some (Some (v, q), s')" using weak_insert [OF w that] by simp
qed

end
