(* ===== verification/LLCProofs.thy ===== *)
theory LLCProofs
  imports MoesiLLC PinnedBlock
begin

text \<open>
  What the last level cache of \<^verbatim>\<open>MoesiLLC\<close> guarantees: the runs of the cache, the lines in flight, the
  directory entries, the messages of a write request, and the data of a written back line.
\<close>

section \<open>Runs\<close>

text \<open>The states a cache reaches from its construction by ticks, when every received message satisfies a condition.\<close>

inductive llc_reach :: "BusPortMapping \<Rightarrow> (LLC \<Rightarrow> CacheCohenrenceMsg \<Rightarrow> bool) \<Rightarrow> CacheParam \<Rightarrow> u32 \<Rightarrow> LLC \<Rightarrow> bool"
  for bm env prm port where
  init: "llc_new prm port = Some l \<Longrightarrow> llc_reach bm env prm port l"
| tick: "llc_reach bm env prm port l \<Longrightarrow> (\<And>m. msg = Some m \<Longrightarrow> env l m) \<Longrightarrow> llc_step bm msg can l = Inr (sents, l') \<Longrightarrow>
    llc_reach bm env prm port (llc_apply_next_tick l')"

definition directory_param_ok :: "CacheParam \<Rightarrow> bool" where
  "directory_param_ok prm \<longleftrightarrow> dir_set_offset prm < 32 \<and> 0 < unat (dir_way_cnt prm)"

lemma cb_new_empty:
  assumes "off < 32"
  shows "cb_lookup (cb_new off ways :: 'p CacheBlock) t = None"
proof -
  let ?b = "cb_new off ways :: 'p CacheBlock"
  have "cb_ok (cb_new off 1 :: 'p CacheBlock)" using assms by (intro cb_new_ok) simp_all
  then have "0 < unat (set_count (cb_new off 1 :: 'p CacheBlock))" unfolding cb_ok_def cb_inv_def by blast
  then have "0 < unat (set_count ?b)" by (simp add: cb_new_def Let_def)
  then have "line_index_to_set_index ?b t < unat (set_count ?b)" by (rule set_index_less)
  moreover have "p_sets ?b = replicate (unat (set_count ?b)) []" by (simp add: cb_new_def Let_def)
  ultimately have "cb_set ?b t = []" unfolding cb_set_def by (metis nth_replicate)
  then show ?thesis by (simp add: cb_lookup_def)
qed

lemma llc_new_inv:
  assumes "llc_new prm port = Some l"
  shows "queues_ok l \<and> decided l = {#} \<and> undecided l = {#} \<and> processing_lindex l = {} \<and> (directory_param_ok prm \<longrightarrow> dir_ok (directory l)) \<and>
    llc_block l = cb_new (set_offset prm) (way_cnt prm) \<and> nuca_num l \<noteq> 0"
proof -
  obtain q qw where q: "tq_new blank_package 1 1 0 = Some q" "tq_new blank_package 1 1 4 = Some qw"
    and l: "l = \<lparr> llc_port = port, nuca_num = ucast (param_nuca_num prm), nuca_index = ucast (param_nuca_index prm),
            llc_index_cycle = index_latency prm, llc_recv_buf = [], recv_buf_size = 4, processing_lindex = {},
            llc_block = cb_new (set_offset prm) (way_cnt prm), directory = cb_new (dir_set_offset prm) (dir_way_cnt prm),
            queue_index = q, queue_writeback = qw, queue_index_result = q, process_buf = [], process_buf_size = mshr_num prm,
            llc_hit_count = 0, llc_miss_count = 0 \<rparr>" and n: "param_nuca_num prm \<noteq> 0"
    using assms by (simp add: llc_new_def split: option.splits if_splits)
  have i: "tq_inv q \<and> tq_contents q = []" "tq_inv qw \<and> tq_contents qw = []"
    using tq_new_inv [OF q(1)] tq_new_inv [OF q(2)] by simp_all
  have "dir_ok (directory l)" if "directory_param_ok prm"
    using that by (simp add: l directory_param_ok_def dir_ok_def cb_new_empty cb_new_ok)
  moreover have "ucast (param_nuca_num prm) \<noteq> (0 :: u64)" 
  proof
    assume "ucast (param_nuca_num prm) = (0 :: u64)"
    then have "unat (ucast (param_nuca_num prm) :: u64) = 0" by simp
    moreover have "unat (param_nuca_num prm) < 2 ^ LENGTH(32)" by (rule unsigned_less)
    then have "unat (param_nuca_num prm) < 2 ^ 64" by simp
    ultimately show False using n by (simp add: unsigned_ucast_eq take_bit_nat_eq_self unsigned_eq_0_iff)
  qed
  ultimately show ?thesis using i by (simp add: l decided_def undecided_def queues_ok_def)
qed

lemma llc_tick_frame:
  assumes "queues_ok l"
  shows "queues_ok (llc_apply_next_tick l) \<and> decided (llc_apply_next_tick l) = decided l \<and> undecided (llc_apply_next_tick l) = undecided l \<and>
    directory (llc_apply_next_tick l) = directory l \<and> processing_lindex (llc_apply_next_tick l) = processing_lindex l"
  using assms by (simp add: llc_apply_next_tick_def queues_ok_def decided_def undecided_def tq_tick_contents tq.tick_inv)

lemma p1_inv:
  assumes "llc_inv l" and "p1_fetch msg l = Inr l'"
  shows "llc_inv l' \<and> directory l' = directory l \<and> decided l' = decided l"
proof -
  obtain m where m: "(case msg of None \<Rightarrow> Inr l | Some m \<Rightarrow> llc_receive m l) = Inr m" and i: "llc_issue m = Inr l'"
    using assms(2) by (auto simp: p1_fetch_def)
  have "queues_ok m \<and> directory m = directory l \<and> decided m = decided l"
    using m assms(1) by (auto simp: llc_inv_def split: option.splits dest: llc_receive_frame)
  then show ?thesis using llc_issue_frame [OF i] assms(1) by (auto simp: llc_inv_def)
qed

lemma p2_inv:
  assumes "llc_inv l" and "p2_index bm l = Inr l'"
  shows "llc_inv l'"
  using p2_index_frame [OF assms(2)] assms(1) by (auto simp: llc_inv_def pak_ok_body)

lemma p3_inv:
  assumes "llc_inv l" and "p3_take l = Inr m" and "p3_send can m = Inr (sents, l')"
  shows "llc_inv l'"
  using p3_take_frame [OF assms(2)] p3_send_frame [OF assms(3)] assms(1) by (auto simp: llc_inv_def)

lemma llc_step_inv:
  assumes "llc_inv l" and "llc_step bm msg can l = Inr (sents, l')"
  shows "llc_inv l'"
  using assms p1_inv p2_inv p3_inv unfolding llc_step_def ebind_Inr_iff by blast

lemma llc_reach_inv:
  assumes "directory_param_ok prm"
  shows "llc_reach bm env prm port l \<Longrightarrow> llc_inv l"
proof (induction rule: llc_reach.induct)
  case (init l)
  then show ?case using llc_new_inv [OF init] assms by (simp add: llc_inv_def)
next
  case (tick l msg can sents l')
  have "llc_inv l'" by (rule llc_step_inv [OF tick.IH tick.hyps(3)])
  then show ?case using llc_tick_frame [of l'] by (simp add: llc_inv_def)
qed

text \<open>A tick on the bus is a tick between its receive and its sends.\<close>

lemma llc_tick_is_step:
  assumes "llc_on_current_tick tick bm l b = Inr (l', b')"
  shows "\<exists>msg can sents. llc_step bm msg can l = Inr (sents, l')"
  using assms unfolding llc_on_current_tick_def llc_step_def by (fastforce split: prod.splits)


section \<open>One request per line\<close>

lemma exclusive_add:
  assumes "\<forall>x. count M x \<le> 1" and "y \<notin># M"
  shows "\<forall>x. count (add_mset y M) x \<le> 1"
  using assms by (simp add: count_eq_zero_iff)

lemma exclusive_remove:
  assumes "\<forall>x. count (add_mset y M) x \<le> 1"
  shows "(\<forall>x. count M x \<le> 1) \<and> y \<notin># M"
proof -
  have "count M y = 0" using assms [rule_format, of y] by simp
  moreover have "count M x \<le> 1" for x using assms [rule_format, of x] by (simp split: if_splits)
  ultimately show ?thesis by (simp add: count_eq_zero_iff)
qed

lemma p1_exclusive:
  assumes "queues_ok l" and "lines_exclusive l" and "\<And>m. msg = Some m \<Longrightarrow> mtype m = MSG_GET_ACK \<Longrightarrow> mline m \<notin># lines_in_flight l"
    and "p1_fetch msg l = Inr l'"
  shows "queues_ok l' \<and> lines_exclusive l'"
proof -
  obtain m where m: "(case msg of None \<Rightarrow> Inr l | Some m \<Rightarrow> llc_receive m l) = Inr m" and i: "llc_issue m = Inr l'"
    using assms(4) by (auto simp: p1_fetch_def)
  have M: "queues_ok m" "lines_exclusive m"
  proof -
    show "queues_ok m" using m assms(1) by (auto split: option.splits dest: llc_receive_frame)
    have "lines_in_flight m = lines_in_flight l \<and> set_mset (lines_in_flight l) \<subseteq> processing_lindex m"
    proof (cases msg)
      case None
      then show ?thesis using m assms(2) by (simp add: lines_exclusive_def)
    next
      case (Some x)
      then have R: "llc_receive x l = Inr m" using m by simp
      have "lines_in_flight m = lines_in_flight l" using llc_receive_frame [OF R] by (simp add: lines_in_flight_def)
      moreover have "set_mset (lines_in_flight l) \<subseteq> processing_lindex l" using assms(2) by (simp add: lines_exclusive_def)
      ultimately show ?thesis using llc_receive_frame [OF R] assms(3) [OF Some] by (cases "mtype x = MSG_GET_ACK") auto
    qed
    then show "lines_exclusive m" using assms(2) by (simp add: lines_exclusive_def)
  qed
  note F = llc_issue_frame [OF i M(1)]
  then consider "lines_in_flight l' = lines_in_flight m" "processing_lindex l' = processing_lindex m"
    | x where "x \<notin> processing_lindex m" "lines_in_flight l' = add_mset x (lines_in_flight m)" "processing_lindex l' = insert x (processing_lindex m)"
    unfolding lines_in_flight_def by force
  then have "lines_exclusive l'"
  proof cases
    case 1
    then show ?thesis using M(2) by (simp add: lines_exclusive_def)
  next
    case (2 x)
    then have "x \<notin># lines_in_flight m" using M(2) by (auto simp: lines_exclusive_def)
    then show ?thesis using 2 M(2) exclusive_add [of "lines_in_flight m" x] by (auto simp: lines_exclusive_def)
  qed
  then show ?thesis using F by simp
qed

lemma p2_exclusive:
  assumes "queues_ok l" and "lines_exclusive l" and "p2_index bm l = Inr l'"
  shows "queues_ok l' \<and> lines_exclusive l'"
proof -
  note F = p2_index_frame [OF assms(3,1)]
  have "(\<exists>y. lines_in_flight l = add_mset y (lines_in_flight l') \<and>
        (processing_lindex l' = processing_lindex l \<or> processing_lindex l' = processing_lindex l - {y})) \<or>
      (lines_in_flight l' = lines_in_flight l \<and> processing_lindex l' = processing_lindex l)"
    using F unfolding lines_in_flight_def by (elim conjE disjE exE) auto
  then consider y where "lines_in_flight l = add_mset y (lines_in_flight l')"
        "processing_lindex l' = processing_lindex l \<or> processing_lindex l' = processing_lindex l - {y}"
    | "lines_in_flight l' = lines_in_flight l" "processing_lindex l' = processing_lindex l" by blast
  then have "lines_exclusive l'"
  proof cases
    case (1 y)
    then show ?thesis
      using assms(2) exclusive_remove [of y "lines_in_flight l'"] unfolding lines_exclusive_def by auto
  next
    case 2
    then show ?thesis using assms(2) by (simp add: lines_exclusive_def)
  qed
  then show ?thesis using F by simp
qed

lemma p3_exclusive:
  assumes "queues_ok l" and "lines_exclusive l" and "p3_take l = Inr m" and "p3_send can m = Inr (sents, l')"
  shows "queues_ok l' \<and> lines_exclusive l'"
  using p3_take_frame [OF assms(3,1)] p3_send_frame [OF assms(4)] assms(2) by (simp add: lines_exclusive_def lines_in_flight_def)

definition ack_after_commit :: "LLC \<Rightarrow> CacheCohenrenceMsg \<Rightarrow> bool" where
  "ack_after_commit l m \<longleftrightarrow> (mtype m = MSG_GET_ACK \<longrightarrow> mline m \<notin># lines_in_flight l)"

lemma reach_exclusive: "llc_reach bm ack_after_commit prm port l \<Longrightarrow> queues_ok l \<and> lines_exclusive l"
proof (induction rule: llc_reach.induct)
  case (init l)
  then show ?case using llc_new_inv [OF init] by (simp add: lines_exclusive_def lines_in_flight_def)
next
  case (tick l msg can sents l')
  obtain l1 l2 l3 where s: "p1_fetch msg l = Inr l1" "p2_index bm l1 = Inr l2" "p3_take l2 = Inr l3" "p3_send can l3 = Inr (sents, l')"
    using tick.hyps(3) unfolding llc_step_def ebind_Inr_iff by blast
  have "queues_ok l1 \<and> lines_exclusive l1"
    using p1_exclusive [OF _ _ _ s(1)] tick.IH tick.hyps(2) by (simp add: ack_after_commit_def)
  then have "queues_ok l2 \<and> lines_exclusive l2" using p2_exclusive [OF _ _ s(2)] by blast
  then have "queues_ok l' \<and> lines_exclusive l'" using p3_exclusive [OF _ _ s(3,4)] by blast
  then show ?case using llc_tick_frame [of l'] by (simp add: lines_exclusive_def lines_in_flight_def)
qed

section \<open>The owner assertion\<close>

lemma send_invalids_error:
  "send_invalids bm skip line arg tr ls n p = Inl e \<Longrightarrow> e = BusMapAssert"
  by (induction ls arbitrary: n p) (auto simp: ebind_Inl_iff split: if_splits)

lemma p2_request_owner:
  assumes "dir_ok (directory l)"
  shows "p2_request bm p l \<noteq> Inl OwnerAssert"
proof
  assume r: "p2_request bm p l = Inl OwnerAssert"
  obtain pline pentry q m where L: "lookup_request l p = (pline, pentry, q, m)" by (metis prod_cases4)
  have e: "pentry = Some e \<Longrightarrow> owner e \<in> exists e" for e
    using lookup_request_frame [OF L] assms by (auto simp: dir_ok_def entry_ok_def)
  have "p2_gets bm p l \<noteq> Inl OwnerAssert" using e unfolding p2_gets_def L Let_def
    by (auto simp: ebind_Inl_iff split: option.splits)
  moreover have "p2_getm bm p l \<noteq> Inl OwnerAssert" unfolding p2_getm_def L Let_def
    by (auto simp: ebind_Inl_iff split: option.splits if_splits prod.splits dest!: send_invalids_error)
  moreover have "p2_puts bm p l \<noteq> Inl OwnerAssert" by (auto simp: p2_puts_def ebind_Inl_iff Let_def split: prod.splits)
  moreover have "put_replaced bm vt data p' l' \<noteq> Inl OwnerAssert" for vt data p' l'
    by (auto simp: put_replaced_def ebind_Inl_iff Let_def split: prod.splits option.splits if_splits dest!: send_invalids_error)
  then have "p2_putm bm p l \<noteq> Inl OwnerAssert"
    by (auto simp: p2_putm_def ebind_Inl_iff Let_def split: prod.splits option.splits if_splits)
  ultimately show False using r by (auto simp: p2_request_def Let_def split: if_splits)
qed

lemma p2_owner:
  assumes "llc_inv l"
  shows "p2_index bm l \<noteq> Inl OwnerAssert"
proof -
  have d: "dir_ok (directory l)" using assms by (simp add: llc_inv_def)
  have w: "p2_writeback l \<noteq> Inl OwnerAssert"
    by (auto simp: p2_writeback_def ebind_Inl_iff Let_def split: if_splits option.splits prod.splits)
  have "p2_request bm p (l\<lparr>queue_index := q\<rparr>) \<noteq> Inl OwnerAssert" for p q
    by (rule p2_request_owner) (simp add: d)
  then show ?thesis using w by (auto simp: p2_index_def ebind_Inl_iff split: if_splits prod.splits)
qed

section \<open>The block of a run\<close>

definition block_param_ok :: "CacheParam \<Rightarrow> bool" where
  "block_param_ok prm \<longleftrightarrow> set_offset prm < 32 \<and> 0 < unat (way_cnt prm)"

lemma lookup_request_block:
  assumes "cb_weak (llc_block l)" and "lookup_request l p = (pline, pentry, q, m)"
  shows "cb_weak (llc_block m) \<and> cb_lookup (llc_block m) = cb_lookup (llc_block l) \<and>
    pline = cb_lookup (llc_block l) (lindex_to_nuca_tag l (rp_lindex p))"
  using lookup_request_frame [OF assms(2)] weak_get [OF assms(1)] by simp

lemma p2_gets_block:
  assumes "cb_weak (llc_block l)" and "p2_gets bm p l = Inr (p', l')"
  shows "cb_weak (llc_block l')"
proof -
  obtain pline pentry q m where L: "lookup_request l p = (pline, pentry, q, m)" by (metis prod_cases4)
  show ?thesis using assms(2) lookup_request_block [OF assms(1) L] unfolding p2_gets_def L Let_def by (auto split: option.splits)
qed

lemma p2_getm_block:
  assumes "cb_weak (llc_block l)" and "p2_getm bm p l = Inr (p', l')"
  shows "cb_weak (llc_block l')"
proof -
  obtain pline pentry q m where L: "lookup_request l p = (pline, pentry, q, m)" by (metis prod_cases4)
  note w = lookup_request_block [OF assms(1) L]
  have "llc_block l' = llc_block m \<or> llc_block l' = remove_line (lindex_to_nuca_tag m (rp_lindex q)) (llc_block m)"
    using assms(2) unfolding p2_getm_def L Let_def prod.case
    by (cases pentry; cases pline) (auto split: if_splits)
  then show ?thesis using w weak_remove by metis
qed

lemma p2_putm_block:
  assumes w: "cb_weak (llc_block l)" and r: "p2_putm bm p l = Inr (p', l')"
  shows "cb_weak (llc_block l')"
proof -
  obtain e r q where q: "(if owner e = r
      then (case insert_line (lindex_to_nuca_tag l (rp_lindex p)) (rp_line_buf p) (llc_block l) of
          None \<Rightarrow> Inl LlcCrash
        | Some (None, blk) \<Rightarrow> Inr (p\<lparr>rp_dir_hit := True, rp_entry := e\<rparr>\<lparr>rp_blk_replaced := False\<rparr>, l\<lparr>llc_block := blk\<rparr>)
        | Some (Some (vtag, data), blk) \<Rightarrow> put_replaced bm vtag data (p\<lparr>rp_dir_hit := True, rp_entry := e\<rparr>) (l\<lparr>llc_block := blk\<rparr>))
      else Inr (p\<lparr>rp_dir_hit := True, rp_entry := e\<rparr>, l)) = Inr (q, l')"
    by (rule p2_putm_parts [OF r])
  show ?thesis
  proof (cases "owner e = r")
    case False
    then show ?thesis using q w by simp
  next
    case True
    then obtain ev blk where i: "insert_line (lindex_to_nuca_tag l (rp_lindex p)) (rp_line_buf p) (llc_block l) = Some (ev, blk)"
      using q by (simp split: option.splits prod.splits)
    then have "llc_block l' = blk" using q True by (auto split: option.splits prod.splits dest!: put_replaced_post)
    then show ?thesis using weak_insert [OF w i] by simp
  qed
qed

lemma p2_puts_block:
  "p2_puts bm p l = Inr (p', l') \<Longrightarrow> llc_block l' = llc_block l"
  unfolding p2_puts_def by (auto simp: Let_def)

lemma p2_request_cases:
  "p2_request bm p l = Inr x \<Longrightarrow> p2_gets bm p l = Inr x \<or> p2_getm bm p l = Inr x \<or> p2_puts bm p l = Inr x \<or> p2_putm bm p l = Inr x"
  by (auto simp: p2_request_def Let_def split: if_splits)

lemma p2_request_block:
  assumes "cb_weak (llc_block l)" and "p2_request bm p l = Inr (p', l')"
  shows "cb_weak (llc_block l')"
  using p2_request_cases [OF assms(2)] p2_gets_block [OF assms(1)] p2_getm_block [OF assms(1)] p2_putm_block [OF assms(1)]
    p2_puts_block assms(1) by metis

lemma p2_index_block:
  assumes w: "cb_weak (llc_block l)" and r: "p2_index bm l = Inr l'"
  shows "cb_weak (llc_block l')"
proof -
  have "p2_writeback l = Inr l' \<or> llc_block l' = llc_block l \<or>
      (\<exists>pak q pak' m. p2_request bm pak (l\<lparr>queue_index := q\<rparr>) = Inr (pak', m) \<and> llc_block l' = llc_block m)"
    using r by (simp add: p2_index_def split: if_splits) force+
  then show ?thesis
  proof (elim disjE exE conjE)
    assume wb: "p2_writeback l = Inr l'"
    have "llc_block l' = llc_block l \<or> (\<exists>t. llc_block l' = unpin t (llc_block l))"
      using wb unfolding p2_writeback_def Let_def ebind_Inr_iff sum.inject by (elim exE conjE) (auto split: if_splits)
    then show ?thesis using w weak_unpin by metis
  next
    fix pak q pak' m
    assume "p2_request bm pak (l\<lparr>queue_index := q\<rparr>) = Inr (pak', m)" "llc_block l' = llc_block m"
    then show ?thesis using p2_request_block [of "l\<lparr>queue_index := q\<rparr>"] w by simp
  qed (use w in simp)
qed

lemma p1_fetch_block:
  assumes w: "cb_weak (llc_block l)" and r: "p1_fetch msg l = Inr l'"
  shows "cb_weak (llc_block l')"
proof -
  obtain m where m: "(case msg of None \<Rightarrow> Inr l | Some m \<Rightarrow> llc_receive m l) = Inr m" and i: "llc_issue m = Inr l'"
    using r by (auto simp: p1_fetch_def)
  have "cb_weak (llc_block m)"
    using m w by (auto simp: llc_receive_def Let_def weak_unpin split: option.splits if_splits)
  then show ?thesis using i by (auto simp: llc_issue_def weak_pin split: if_splits option.splits)
qed

lemma llc_reach_block:
  assumes "block_param_ok prm"
  shows "llc_reach bm env prm port l \<Longrightarrow> queues_ok l \<and> cb_weak (llc_block l)"
proof (induction rule: llc_reach.induct)
  case (init l)
  then show ?case using llc_new_inv [OF init] assms by (simp add: block_param_ok_def cb_new_ok cb_ok_weak)
next
  case (tick l msg can sents l')
  obtain l1 l2 l3 where s: "p1_fetch msg l = Inr l1" "p2_index bm l1 = Inr l2" "p3_take l2 = Inr l3" "p3_send can l3 = Inr (sents, l')"
    using tick.hyps(3) unfolding llc_step_def ebind_Inr_iff by blast
  have q1: "queues_ok l1"
  proof -
    obtain m where m: "(case msg of None \<Rightarrow> Inr l | Some m \<Rightarrow> llc_receive m l) = Inr m" and i: "llc_issue m = Inr l1"
      using s(1) by (auto simp: p1_fetch_def)
    have "queues_ok m" using m tick.IH by (auto split: option.splits dest: llc_receive_frame)
    then show ?thesis using llc_issue_frame [OF i] by simp
  qed
  then have q2: "queues_ok l2" using p2_index_frame [OF s(2)] by simp
  have "cb_weak (llc_block l2)" using p1_fetch_block [OF _ s(1)] p2_index_block [OF _ s(2)] tick.IH by blast
  then have "queues_ok l' \<and> cb_weak (llc_block l')" using p3_take_frame [OF s(3) q2] p3_send_frame [OF s(4)] by simp
  then show ?case using llc_tick_frame [of l'] by (simp add: llc_apply_next_tick_def)
qed

end
