(* ===== verification/LLCProperties.thy ===== *)
theory LLCProperties
  imports LLCProofs "HOL-Library.Code_Target_Nat"
begin

text \<open>
  The properties of the last level cache, over the runs of \<^verbatim>\<open>LLCProofs\<close>: the messages of write requests and
  dirty puts, a sample run on which the properties are instantiated, and the properties themselves.
\<close>

section \<open>Messages\<close>

definition msg_to :: "u32 \<Rightarrow> u32 \<Rightarrow> u32 \<Rightarrow> u64 \<Rightarrow> u32 \<Rightarrow> u32 \<Rightarrow> u8 list \<Rightarrow> ReadyToSend" where
  "msg_to dst ch ty line arg tr data =
     \<lparr>rs_msg = construct_msg_pack \<lparr>mtype = ty, marg = arg, mtransid = tr, mline = line, mdata = data\<rparr>, rs_dst = dst, rs_cha = ch\<rparr>"

lemma push_send_msg:
  "push_send_buf dst ch ty line arg tr p = p\<lparr>rp_need_send := rp_need_send p @ [msg_to dst ch ty line arg tr []]\<rparr>"
  "push_send_buf_with_line dst ch ty line arg data tr p = p\<lparr>rp_need_send := rp_need_send p @ [msg_to dst ch ty line arg tr data]\<rparr>"
  by (simp_all add: push_send_buf_def push_send_buf_with_line_def msg_to_def)

lemma send_invalids_msgs:
  assumes "\<forall>x\<in>set ls. \<not> skip x \<longrightarrow> get_reqnode_port bm x = Some (pt x)"
  shows "send_invalids bm skip line arg tr ls n p =
    Inr (n + of_nat (length (filter (\<lambda>x. \<not> skip x) ls)),
      p\<lparr>rp_need_send := rp_need_send p @ map (\<lambda>x. msg_to (pt x) CHANNEL_RESP MSG_INVALID line arg tr []) (filter (\<lambda>x. \<not> skip x) ls)\<rparr>)"
  using assms by (induction ls arbitrary: n p) (simp_all add: push_send_msg)

lemma send_invalids_parts:
  assumes "send_invalids bm skip line arg tr ls n p = Inr (n', p')"
  obtains pt where "\<forall>x\<in>set ls. \<not> skip x \<longrightarrow> get_reqnode_port bm x = Some (pt x)"
proof -
  have "\<forall>x\<in>set ls. \<not> skip x \<longrightarrow> get_reqnode_port bm x \<noteq> None"
    using assms by (induction ls arbitrary: n p) (auto split: if_splits)
  then have "\<forall>x\<in>set ls. \<not> skip x \<longrightarrow> get_reqnode_port bm x = Some (the (get_reqnode_port bm x))" by auto
  then show ?thesis by (rule that)
qed

lemma getm_messages:
  assumes w: "cb_weak (llc_block l)" and d: "cb_lookup (directory l) (lindex_to_nuca_tag l (rp_lindex p)) = Some e"
    and e: "finite (exists e)" "owner e \<in> exists e" and r: "get_reqnode_index bm (rp_arg p) = Some r"
    and pt: "\<forall>x\<in>exists e. get_reqnode_port bm x = Some (pt x)"
  shows "\<exists>others p' l'. p2_getm bm p l = Inr (p', l') \<and> distinct others \<and>
    set others = exists e - {r} - (if r \<in> exists e then {} else {owner e}) \<and>
    rp_need_send p' = rp_need_send p
      @ (if r \<in> exists e then [] else [msg_to (pt (owner e)) CHANNEL_REQ MSG_GETM_FORWARD (rp_lindex p) (rp_arg p) (rp_transid p) []])
      @ map (\<lambda>x. msg_to (pt x) CHANNEL_RESP MSG_INVALID (rp_lindex p) (rp_arg p) (rp_transid p) []) others
      @ [msg_to (rp_arg p) CHANNEL_RESP MSG_GETM_ACK (rp_lindex p) (of_nat (length others)) (rp_transid p) []] \<and>
    rp_entry p' = own_entry r \<and> rp_delay_commit p' \<and> cb_lookup (llc_block l') (lindex_to_nuca_tag l (rp_lindex p)) = None"
proof -
  let ?t = "lindex_to_nuca_tag l (rp_lindex p)"
  obtain pline pentry q m where L: "lookup_request l p = (pline, pentry, q, m)" by (metis prod_cases4)
  note F = lookup_request_frame [OF L]
  have B: "cb_weak (llc_block m)" "cb_lookup (llc_block m) = cb_lookup (llc_block l)" "pline = cb_lookup (llc_block l) ?t"
    using lookup_request_block [OF w L] by simp_all
  have t: "lindex_to_nuca_tag m (rp_lindex p) = ?t" using F by (simp add: lindex_to_nuca_tag_def pipe_part_def)
  define skip where "skip = (\<lambda>x. x = r \<or> r \<notin> exists e \<and> x = owner e)"
  define others where "others = filter (\<lambda>x. \<not> skip x) (sorted_list_of_set (exists e))"
  have o: "distinct others" "set others = exists e - {r} - (if r \<in> exists e then {} else {owner e})"
    using e(1) by (auto simp: others_def skip_def)
  have si: "send_invalids bm skip line arg tr (sorted_list_of_set (exists e)) 0 u =
      Inr (of_nat (length others), u\<lparr>rp_need_send := rp_need_send u @ map (\<lambda>x. msg_to (pt x) CHANNEL_RESP MSG_INVALID line arg tr []) others\<rparr>)" for line arg tr u
    using send_invalids_msgs [of "sorted_list_of_set (exists e)" skip bm pt] pt e(1) by (simp add: others_def)
  have pe: "pentry = Some e" using F d by simp
  have q: "rp_lindex q = rp_lindex p" "rp_arg q = rp_arg p" "rp_transid q = rp_transid p" "rp_need_send q = rp_need_send p"
    using F by simp_all
  have gone: "cb_lookup (llc_block (if pline \<noteq> None then (m\<lparr>llc_miss_count := c\<rparr>)\<lparr>llc_block := remove_line ?t (llc_block m)\<rparr> else m\<lparr>llc_miss_count := c\<rparr>)) ?t = None" for c
    using weak_remove [OF B(1), of ?t] B by simp
  have po: "get_reqnode_port bm (owner e) = Some (pt (owner e))" using pt e(2) by blast
  have "\<exists>p' l'. p2_getm bm p l = Inr (p', l') \<and>
    rp_need_send p' = rp_need_send p
      @ (if r \<in> exists e then [] else [msg_to (pt (owner e)) CHANNEL_REQ MSG_GETM_FORWARD (rp_lindex p) (rp_arg p) (rp_transid p) []])
      @ map (\<lambda>x. msg_to (pt x) CHANNEL_RESP MSG_INVALID (rp_lindex p) (rp_arg p) (rp_transid p) []) others
      @ [msg_to (rp_arg p) CHANNEL_RESP MSG_GETM_ACK (rp_lindex p) (of_nat (length others)) (rp_transid p) []] \<and>
    rp_entry p' = own_entry r \<and> rp_delay_commit p' \<and> cb_lookup (llc_block l') ?t = None"
  proof (cases "r \<in> exists e")
    case True
    have sk: "skip = (\<lambda>x. x = r)" using True by (simp add: skip_def)
    show ?thesis
      unfolding p2_getm_def L Let_def prod.case pe option.case q t using gone r True
      by (simp add: si [unfolded sk] push_send_msg q)
  next
    case False
    have sk: "skip = (\<lambda>x. x = r \<or> x = owner e)" using False by (simp add: skip_def)
    show ?thesis
      unfolding p2_getm_def L Let_def prod.case pe option.case q t using gone r False po
      by (simp add: si [unfolded sk] push_send_msg q)
  qed
  then show ?thesis using o by blast
qed

lemma put_replaced_msgs:
  assumes r: "put_replaced bm vt data p l = Inr (p', l')"
  shows "\<exists>dst (sharers :: u32 list) pt. get_subnode_port bm (nuca_tag_to_lindex l vt) = Some dst \<and> llc_block l' = llc_block l \<and>
    rp_need_send p' = rp_need_send p
      @ map (\<lambda>x. msg_to (pt x) CHANNEL_RESP MSG_INVALID (nuca_tag_to_lindex l vt) (llc_port l) 0 []) sharers
      @ [msg_to dst CHANNEL_REQ MSG_PUTM (nuca_tag_to_lindex l vt) (llc_port l) 0 data]"
proof -
  let ?line = "nuca_tag_to_lindex l vt"
  let ?p = "p\<lparr>rp_blk_replaced := True, rp_lindex_replaced := ?line\<rparr>"
  obtain q m dst where q: "(case cb_lookup (directory l) (lindex_to_nuca_tag l ?line) of
          Some e \<Rightarrow> if dirty e then Inr (?p, l)
            else ebind (send_invalids bm (\<lambda>_. False) ?line (llc_port l) 0 (sorted_list_of_set (exists e)) 0 ?p) (\<lambda>(_, p).
              Inr (p, l\<lparr>directory := remove_line (lindex_to_nuca_tag l ?line) (directory l)\<rparr>))
        | None \<Rightarrow> Inr (?p, l)) = Inr (q, m)"
    and d: "get_subnode_port bm ?line = Some dst" and p': "p' = push_send_buf_with_line dst CHANNEL_REQ MSG_PUTM ?line (llc_port l) data 0 q" "l' = m"
    using r unfolding put_replaced_def Let_def get_line_dir prod.case by auto
  have "\<exists>(sharers :: u32 list) pt. llc_block m = llc_block l \<and> rp_need_send q = rp_need_send p
      @ map (\<lambda>x. msg_to (pt x) CHANNEL_RESP MSG_INVALID ?line (llc_port l) 0 []) sharers"
  proof (cases "\<exists>e. cb_lookup (directory l) (lindex_to_nuca_tag l ?line) = Some e \<and> \<not> dirty e")
    case False
    then have "q = ?p \<and> m = l" using q by (auto split: option.splits if_splits)
    then show ?thesis by (intro exI [of _ "[]"]) simp
  next
    case True
    then obtain e :: DirEntry and n where e: "send_invalids bm (\<lambda>_. False) ?line (llc_port l) 0 (sorted_list_of_set (exists e)) 0 ?p = Inr (n, q)"
        "m = l\<lparr>directory := remove_line (lindex_to_nuca_tag l ?line) (directory l)\<rparr>"
      using q by auto
    obtain pt where "\<forall>x\<in>set (sorted_list_of_set (exists e)). \<not> False \<longrightarrow> get_reqnode_port bm x = Some (pt x)"
      by (rule send_invalids_parts [OF e(1)])
    from send_invalids_msgs [where skip = "\<lambda>_. False", OF this] e(1)
    have "q = ?p\<lparr>rp_need_send := rp_need_send ?p @ map (\<lambda>x. msg_to (pt x) CHANNEL_RESP MSG_INVALID ?line (llc_port l) 0 []) (sorted_list_of_set (exists e))\<rparr>"
      by simp
    then have "rp_need_send q = rp_need_send p @ map (\<lambda>x. msg_to (pt x) CHANNEL_RESP MSG_INVALID ?line (llc_port l) 0 []) (sorted_list_of_set (exists e))"
      by simp
    moreover have "llc_block m = llc_block l" using e(2) by simp
    ultimately show ?thesis by blast
  qed
  then show ?thesis using d p' by (auto simp: push_send_msg)
qed

text \<open>The messages a dirty put adds: the write-back of the line it replaced, after the invalidations of that line's sharers, and the acknowledgement.\<close>

definition put_messages :: "BusPortMapping \<Rightarrow> LLC \<Rightarrow> RequestPackage \<Rightarrow> (u64 \<times> u8 list) option \<Rightarrow> ReadyToSend list \<Rightarrow> bool" where
  "put_messages bm l p ev ms \<longleftrightarrow>
     (\<exists>out. ms = out @ [msg_to (rp_arg p) CHANNEL_ACK MSG_PUT_ACK (rp_lindex p) 0 0 []] \<and>
       (case ev of None \<Rightarrow> out = []
        | Some (vt, data) \<Rightarrow> \<exists>dst (sharers :: u32 list) pt. get_subnode_port bm (nuca_tag_to_lindex l vt) = Some dst \<and>
            out = map (\<lambda>x. msg_to (pt x) CHANNEL_RESP MSG_INVALID (nuca_tag_to_lindex l vt) (llc_port l) 0 []) sharers
              @ [msg_to dst CHANNEL_REQ MSG_PUTM (nuca_tag_to_lindex l vt) (llc_port l) 0 data]))"

lemma putm_data:
  assumes w: "cb_weak (llc_block l)" and r: "p2_putm bm p l = Inr (p', l')"
    and e: "cb_lookup (directory l) (lindex_to_nuca_tag l (rp_lindex p)) = Some e" and o: "get_reqnode_index bm (rp_arg p) = Some (owner e)"
  shows "\<exists>ev ms. insert_line (lindex_to_nuca_tag l (rp_lindex p)) (rp_line_buf p) (llc_block l) = Some (ev, llc_block l') \<and>
    rp_need_send p' = rp_need_send p @ ms \<and> put_messages bm l p ev ms"
proof -
  let ?t = "lindex_to_nuca_tag l (rp_lindex p)"
  obtain e' r' q where e': "cb_lookup (directory l) ?t = Some e'" "get_reqnode_index bm (rp_arg p) = Some r'"
    and q: "(if owner e' = r'
      then (case insert_line ?t (rp_line_buf p) (llc_block l) of
          None \<Rightarrow> Inl LlcCrash
        | Some (None, blk) \<Rightarrow> Inr (p\<lparr>rp_dir_hit := True, rp_entry := e'\<rparr>\<lparr>rp_blk_replaced := False\<rparr>, l\<lparr>llc_block := blk\<rparr>)
        | Some (Some (vtag, data), blk) \<Rightarrow> put_replaced bm vtag data (p\<lparr>rp_dir_hit := True, rp_entry := e'\<rparr>) (l\<lparr>llc_block := blk\<rparr>))
      else Inr (p\<lparr>rp_dir_hit := True, rp_entry := e'\<rparr>, l)) = Inr (q, l')"
    and p': "p' = (push_send_buf (rp_arg p) CHANNEL_ACK MSG_PUT_ACK (rp_lindex p) 0 0 q)\<lparr>rp_entry := put_entry r' e', rp_dir_evict := (exists e' - {r'} = {})\<rparr>"
    by (rule p2_putm_parts [OF r])
  have ee: "e' = e" "r' = owner e" using e e' o by simp_all
  obtain ev blk where i: "insert_line ?t (rp_line_buf p) (llc_block l) = Some (ev, blk)"
    using q ee by (simp split: option.splits prod.splits)
  have ns: "rp_need_send p' = rp_need_send q @ [msg_to (rp_arg p) CHANNEL_ACK MSG_PUT_ACK (rp_lindex p) 0 0 []]"
    by (simp add: p' push_send_msg)
  show ?thesis
  proof (cases ev)
    case None
    then have "rp_need_send q = rp_need_send p" "llc_block l' = blk" using q ee i by auto
    then show ?thesis using i ns None
      by (intro exI [of _ ev] exI [of _ "[msg_to (rp_arg p) CHANNEL_ACK MSG_PUT_ACK (rp_lindex p) 0 0 []]"]) (simp add: put_messages_def)
  next
    case (Some vd)
    obtain vt data where vd: "vd = (vt, data)" by (cases vd)
    have "put_replaced bm vt data (p\<lparr>rp_dir_hit := True, rp_entry := e'\<rparr>) (l\<lparr>llc_block := blk\<rparr>) = Inr (q, l')"
      using q ee i Some vd by simp
    note M = put_replaced_msgs [OF this]
    have nt: "nuca_tag_to_lindex (l\<lparr>llc_block := blk\<rparr>) vt = nuca_tag_to_lindex l vt" "llc_port (l\<lparr>llc_block := blk\<rparr>) = llc_port l"
      "llc_block (l\<lparr>llc_block := blk\<rparr>) = blk" "rp_need_send (p\<lparr>rp_dir_hit := True, rp_entry := e'\<rparr>) = rp_need_send p"
      by (simp_all add: nuca_tag_to_lindex_def)
    from M obtain dst and sharers :: "u32 list" and pt where m: "get_subnode_port bm (nuca_tag_to_lindex l vt) = Some dst" "llc_block l' = blk"
        "rp_need_send q = rp_need_send p @ map (\<lambda>x. msg_to (pt x) CHANNEL_RESP MSG_INVALID (nuca_tag_to_lindex l vt) (llc_port l) 0 []) sharers
          @ [msg_to dst CHANNEL_REQ MSG_PUTM (nuca_tag_to_lindex l vt) (llc_port l) 0 data]"
      unfolding nt by blast
    let ?out = "map (\<lambda>x. msg_to (pt x) CHANNEL_RESP MSG_INVALID (nuca_tag_to_lindex l vt) (llc_port l) 0 []) sharers
          @ [msg_to dst CHANNEL_REQ MSG_PUTM (nuca_tag_to_lindex l vt) (llc_port l) 0 data]"
    have "put_messages bm l p ev (?out @ [msg_to (rp_arg p) CHANNEL_ACK MSG_PUT_ACK (rp_lindex p) 0 0 []])"
      unfolding put_messages_def Some vd option.case prod.case using m(1) by blast
    moreover have "rp_need_send p' = rp_need_send p @ (?out @ [msg_to (rp_arg p) CHANNEL_ACK MSG_PUT_ACK (rp_lindex p) 0 0 []])"
      unfolding ns m(3) by simp
    ultimately show ?thesis using i m(2) by blast
  qed
qed

lemma step_owner:
  assumes "llc_inv l"
  shows "llc_step bm msg can l \<noteq> Inl OwnerAssert"
proof
  assume "llc_step bm msg can l = Inl OwnerAssert"
  then consider "p1_fetch msg l = Inl OwnerAssert"
    | l1 where "p1_fetch msg l = Inr l1" "p2_index bm l1 = Inl OwnerAssert"
    | l2 where "p3_take l2 = Inl OwnerAssert"
    | l3 where "p3_send can l3 = Inl OwnerAssert"
    unfolding llc_step_def ebind_Inl_iff by blast
  then show False
  proof cases
    case 1
    have "llc_receive x l \<noteq> Inl OwnerAssert" for x by (auto simp: llc_receive_def Let_def split: if_splits)
    moreover have "new_package k x \<noteq> Inl OwnerAssert" for k x by (auto simp: new_package_def Let_def ebind_Inl_iff split: if_splits)
    then have "llc_issue k \<noteq> Inl OwnerAssert" for k
      by (auto simp: llc_issue_def ebind_Inl_iff split: if_splits option.splits)
    ultimately show False using 1 by (auto simp: p1_fetch_def ebind_Inl_iff split: option.splits)
  next
    case (2 l1)
    then show False using p1_inv [OF assms] p2_owner by blast
  next
    case (3 l2)
    then show False by (auto simp: p3_take_def ebind_Inl_iff split: if_splits)
  next
    case (4 l3)
    have "pick_sends c ss \<noteq> Inl OwnerAssert" for c ss
      by (induction ss arbitrary: c) (auto simp: ebind_Inl_iff split: if_splits)
    then have "send_all c ps \<noteq> Inl OwnerAssert" for c ps
      by (induction ps arbitrary: c) (auto simp: ebind_Inl_iff)
    moreover have "p3_retire k \<noteq> Inl OwnerAssert" for k
      by (auto simp: p3_retire_def ebind_Inl_iff split: if_splits option.splits)
    ultimately show False using 4 by (auto simp: p3_send_def ebind_Inl_iff split: if_splits)
  qed
qed

text \<open>A run of the cache over a list of inputs.\<close>

fun llc_run :: "BusPortMapping \<Rightarrow> (CacheCohenrenceMsg option \<times> bool list) list \<Rightarrow> LLC \<Rightarrow> llc_error + LLC" where
  "llc_run bm [] l = Inr l"
| "llc_run bm ((msg, can) # ins) l = ebind (llc_step bm msg can l) (\<lambda>(_, l'). llc_run bm ins (llc_apply_next_tick l'))"

fun inputs_ok :: "BusPortMapping \<Rightarrow> (LLC \<Rightarrow> CacheCohenrenceMsg \<Rightarrow> bool) \<Rightarrow> (CacheCohenrenceMsg option \<times> bool list) list \<Rightarrow> LLC \<Rightarrow> bool" where
  "inputs_ok bm env [] l \<longleftrightarrow> True"
| "inputs_ok bm env ((msg, can) # ins) l \<longleftrightarrow> (case msg of None \<Rightarrow> True | Some m \<Rightarrow> env l m) \<and>
     (case llc_step bm msg can l of Inl _ \<Rightarrow> True | Inr (_, l') \<Rightarrow> inputs_ok bm env ins (llc_apply_next_tick l'))"

lemma llc_run_reach:
  "llc_reach bm env prm port l \<Longrightarrow> llc_run bm ins l = Inr l' \<Longrightarrow> inputs_ok bm env ins l \<Longrightarrow> llc_reach bm env prm port l'"
proof (induction ins arbitrary: l)
  case (Cons i ins)
  obtain msg can where i: "i = (msg, can)" by (cases i)
  obtain s m where m: "llc_step bm msg can l = Inr (s, m)" "llc_run bm ins (llc_apply_next_tick m) = Inr l'"
    using Cons.prems(2) i by auto
  have "llc_reach bm env prm port (llc_apply_next_tick m)"
    by (rule llc_reach.tick [OF Cons.prems(1) _ m(1)]) (use Cons.prems(3) i in simp)
  then show ?case using Cons.IH [OF _ m(2)] Cons.prems(3) i m(1) by simp
qed simp

definition sample_bm :: BusPortMapping where
  "sample_bm = \<lparr>get_homenode_port = (\<lambda>_. Some 9), get_subnode_port = (\<lambda>_. Some 8),
     get_reqnode_port = (\<lambda>i. Some (i + 10)), get_reqnode_index = (\<lambda>p. Some (p - 10))\<rparr>"

definition sample_param :: CacheParam where
  "sample_param = \<lparr>set_offset = 0, way_cnt = 1, dir_set_offset = 0, dir_way_cnt = 4, mshr_num = 2, index_latency = 1,
     param_nuca_num = 1, param_nuca_index = 0\<rparr>"

definition sample_llc :: LLC where
  "sample_llc = the (llc_new sample_param 9)"

definition sample_request :: "u32 \<Rightarrow> u32 \<Rightarrow> u64 \<Rightarrow> u8 list \<Rightarrow> CacheCohenrenceMsg" where
  "sample_request ty port line data = \<lparr>mtype = ty, marg = port, mtransid = 0, mline = line, mdata = data\<rparr>"

text \<open>Cache 0 reads line 5; four ticks later the directory names it as the owner.\<close>

definition sample_inputs :: "(CacheCohenrenceMsg option \<times> bool list) list" where
  "sample_inputs = (let free = [True, True, True]; wait = (None, free) in
     [(Some (sample_request MSG_GETS 10 5 []), free), wait, wait, wait])"

definition sample_shared :: LLC where
  "sample_shared = (case llc_run sample_bm sample_inputs sample_llc of Inr l \<Rightarrow> l | Inl _ \<Rightarrow> sample_llc)"

definition sample_put :: RequestPackage where
  "sample_put = blank_package\<lparr>rp_type := MSG_PUTM, rp_lindex := 5, rp_arg := 10, rp_line_buf := replicate 64 1\<rparr>"

lemma sample_init: "llc_new sample_param 9 = Some sample_llc"
proof -
  have "llc_new sample_param 9 \<noteq> None" by code_simp
  then show ?thesis by (simp add: sample_llc_def)
qed

lemma sample_run:
  "case llc_run sample_bm sample_inputs sample_llc of Inl _ \<Rightarrow> False
   | Inr l \<Rightarrow> cb_lookup (directory l) 5 = Some (own_entry 0) \<and> lindex_to_nuca_tag l 5 = 5 \<and> \<not> isl (p2_putm sample_bm sample_put l)"
  by code_simp

lemma sample_shared:
  "llc_run sample_bm sample_inputs sample_llc = Inr sample_shared" "cb_lookup (directory sample_shared) 5 = Some (own_entry 0)"
  "lindex_to_nuca_tag sample_shared 5 = 5" "\<not> isl (p2_putm sample_bm sample_put sample_shared)"
  using sample_run by (auto simp: sample_shared_def split: sum.splits)

lemma sample_reach:
  assumes "\<And>l m. mtype m \<noteq> MSG_GET_ACK \<Longrightarrow> env l m"
  shows "llc_reach sample_bm env sample_param 9 sample_shared"
proof (rule llc_run_reach [OF llc_reach.init [OF sample_init] sample_shared(1)])
  show "inputs_ok sample_bm env sample_inputs sample_llc"
    using assms by (simp add: sample_inputs_def Let_def sample_request_def msg_types split: sum.split)
qed

lemma sample_param_ok: "directory_param_ok sample_param" "block_param_ok sample_param"
  by (simp_all add: directory_param_ok_def block_param_ok_def sample_param_def)

section \<open>Properties\<close>

text \<open>
  C1. In every state the cache can reach, as long as no completion message (\<^verbatim>\<open>MSG_GET_ACK\<close>) for a line
  arrives while the request for it is still inside the cache, no two requests in flight are for the
  same line, and every line in flight is in \<^verbatim>\<open>processing_lindex\<close>, so that no further request for it is issued.
\<close>
theorem llc_line_exclusive:
  assumes "llc_reach bm ack_after_commit prm port l"
  shows "(\<forall>x. count (lines_in_flight l) x \<le> 1) \<and> set_mset (lines_in_flight l) \<subseteq> processing_lindex l"
  using reach_exclusive [OF assms] by (simp add: lines_exclusive_def)

lemma llc_line_exclusive_witness:
  "llc_reach sample_bm ack_after_commit sample_param 9 sample_shared \<and> set_mset (lines_in_flight sample_shared) \<subseteq> processing_lindex sample_shared"
proof -
  have r: "llc_reach sample_bm ack_after_commit sample_param 9 sample_shared"
    by (rule sample_reach) (simp add: ack_after_commit_def)
  show ?thesis using r llc_line_exclusive [OF r] by blast
qed

text \<open>
  C8. Whatever messages arrive, every entry the directory ever holds names an owner that is among its
  sharers, and the assertion of the index step that checks this never fails; a run ends only in one of the other
  errors, which the model tells apart.
\<close>
theorem llc_owner_is_sharer:
  assumes "llc_reach bm (\<lambda>_ _. True) prm port l" and "directory_param_ok prm"
  shows "(\<forall>t e. cb_lookup (directory l) t = Some e \<longrightarrow> finite (exists e) \<and> owner e \<in> exists e) \<and>
    llc_step bm msg can l \<noteq> Inl OwnerAssert"
proof
  have inv: "llc_inv l" by (rule llc_reach_inv [OF assms(2,1)])
  then show "\<forall>t e. cb_lookup (directory l) t = Some e \<longrightarrow> finite (exists e) \<and> owner e \<in> exists e"
    by (auto simp: llc_inv_def dir_ok_def entry_ok_def)
  show "llc_step bm msg can l \<noteq> Inl OwnerAssert"
    using step_owner [OF inv] .
qed

lemma llc_owner_is_sharer_witness:
  "cb_lookup (directory sample_shared) 5 = Some (own_entry 0) \<and> owner (own_entry 0) \<in> exists (own_entry 0) \<and>
   llc_step sample_bm None [] sample_shared \<noteq> Inl OwnerAssert"
  using llc_owner_is_sharer [OF sample_reach [of "\<lambda>_ _. True"] sample_param_ok(1), of None "[]"] sample_shared(2) by auto

text \<open>
  C2. A write request for a line the directory holds is answered completely: the owner gets the forwarded
  request exactly when the requester holds no copy, every other sharer gets exactly one invalidation, the
  acknowledgement names their number, the requester becomes the only holder, the request stays open
  until its completion, and the stale copy in the block is gone.
\<close>
theorem llc_getm_notifies_sharers:
  assumes "llc_reach bm env prm port l" and "directory_param_ok prm" and "block_param_ok prm"
    and "cb_lookup (directory l) (lindex_to_nuca_tag l (rp_lindex p)) = Some e"
    and "get_reqnode_index bm (rp_arg p) = Some r" and "\<forall>x\<in>exists e. get_reqnode_port bm x = Some (pt x)"
  shows "\<exists>others p' l'. p2_getm bm p l = Inr (p', l') \<and> distinct others \<and>
    set others = exists e - {r} - (if r \<in> exists e then {} else {owner e}) \<and>
    rp_need_send p' = rp_need_send p
      @ (if r \<in> exists e then [] else [msg_to (pt (owner e)) CHANNEL_REQ MSG_GETM_FORWARD (rp_lindex p) (rp_arg p) (rp_transid p) []])
      @ map (\<lambda>x. msg_to (pt x) CHANNEL_RESP MSG_INVALID (rp_lindex p) (rp_arg p) (rp_transid p) []) others
      @ [msg_to (rp_arg p) CHANNEL_RESP MSG_GETM_ACK (rp_lindex p) (of_nat (length others)) (rp_transid p) []] \<and>
    rp_entry p' = own_entry r \<and> rp_delay_commit p' \<and> cb_lookup (llc_block l') (lindex_to_nuca_tag l (rp_lindex p)) = None"
proof -
  have inv: "llc_inv l" by (rule llc_reach_inv [OF assms(2,1)])
  have w: "cb_weak (llc_block l)" using llc_reach_block [OF assms(3,1)] by simp
  have e: "finite (exists e)" "owner e \<in> exists e" using inv assms(4) by (auto simp: llc_inv_def dir_ok_def entry_ok_def)
  show ?thesis by (rule getm_messages [OF w assms(4) e assms(5,6)])
qed


lemma llc_getm_notifies_sharers_witness:
  "\<exists>others p' l'. p2_getm sample_bm (blank_package\<lparr>rp_type := MSG_GETM, rp_lindex := 5, rp_arg := 11\<rparr>) sample_shared = Inr (p', l') \<and>
    others = [] \<and> rp_need_send p' = [msg_to 10 CHANNEL_REQ MSG_GETM_FORWARD 5 11 0 [], msg_to 11 CHANNEL_RESP MSG_GETM_ACK 5 0 0 []] \<and>
    rp_entry p' = own_entry 1"
proof -
  let ?p = "blank_package\<lparr>rp_type := MSG_GETM, rp_lindex := 5, rp_arg := 11\<rparr>"
  have d: "cb_lookup (directory sample_shared) (lindex_to_nuca_tag sample_shared (rp_lindex ?p)) = Some (own_entry 0)"
    using sample_shared(2,3) by simp
  have r: "get_reqnode_index sample_bm (rp_arg ?p) = Some 1" by (simp add: sample_bm_def)
  have p: "\<forall>x\<in>exists (own_entry 0). get_reqnode_port sample_bm x = Some (x + 10)" by (simp add: sample_bm_def)
  have e: "exists (own_entry 0) = {0}" "owner (own_entry 0) = 0" by (simp_all add: own_entry_def)
  obtain others p' l' where o: "p2_getm sample_bm ?p sample_shared = Inr (p', l')" "set others = {}"
      "rp_need_send p' = rp_need_send ?p @ [msg_to (0 + 10) CHANNEL_REQ MSG_GETM_FORWARD (rp_lindex ?p) (rp_arg ?p) (rp_transid ?p) []]
        @ map (\<lambda>x. msg_to (x + 10) CHANNEL_RESP MSG_INVALID (rp_lindex ?p) (rp_arg ?p) (rp_transid ?p) []) others
        @ [msg_to (rp_arg ?p) CHANNEL_RESP MSG_GETM_ACK (rp_lindex ?p) (of_nat (length others)) (rp_transid ?p) []]"
      "rp_entry p' = own_entry 1"
    using llc_getm_notifies_sharers [OF sample_reach [of "\<lambda>_ _. True"] sample_param_ok d r p] by (auto simp: e)
  then show ?thesis by (simp add: blank_package_def)
qed

text \<open>
  C3. A dirty write-back by the owner loses no data: seen through block and memory, exactly the
  line written changes, to the data of the message, where memory receives the line the block had to give up; that line is
  sent to the memory node in a write-back message of its own, and the writer is acknowledged.
\<close>
theorem llc_put_keeps_data:
  assumes "llc_reach bm env prm port l" and "block_param_ok prm" and "p2_putm bm p l = Inr (p', l')"
    and "cb_lookup (directory l) (lindex_to_nuca_tag l (rp_lindex p)) = Some e" and "get_reqnode_index bm (rp_arg p) = Some (owner e)"
  shows "\<exists>ev ms. (\<forall>mem. wk.backed (llc_block l') (wk.write_back ev mem) = (wk.backed (llc_block l) mem)(lindex_to_nuca_tag l (rp_lindex p) := rp_line_buf p)) \<and>
    rp_need_send p' = rp_need_send p @ ms \<and> put_messages bm l p ev ms"
proof -
  have w: "cb_weak (llc_block l)" using llc_reach_block [OF assms(2,1)] by simp
  obtain ev ms where i: "insert_line (lindex_to_nuca_tag l (rp_lindex p)) (rp_line_buf p) (llc_block l) = Some (ev, llc_block l')"
    and m: "rp_need_send p' = rp_need_send p @ ms" "put_messages bm l p ev ms"
    using putm_data [OF w assms(3,4,5)] by blast
  show ?thesis using wk.insert_backed [OF w i] m by blast
qed

lemma llc_put_keeps_data_witness:
  "\<exists>p' l' ev ms. p2_putm sample_bm sample_put sample_shared = Inr (p', l') \<and>
    wk.backed (llc_block l') (wk.write_back ev (\<lambda>_. [])) 5 = replicate 64 1 \<and> rp_need_send p' = ms \<and> put_messages sample_bm sample_shared sample_put ev ms"
proof -
  obtain p' l' where r: "p2_putm sample_bm sample_put sample_shared = Inr (p', l')"
    using sample_shared(4) by (cases "p2_putm sample_bm sample_put sample_shared") auto
  have d: "cb_lookup (directory sample_shared) (lindex_to_nuca_tag sample_shared (rp_lindex sample_put)) = Some (own_entry 0)"
    using sample_shared(2,3) by (simp add: sample_put_def)
  have o: "get_reqnode_index sample_bm (rp_arg sample_put) = Some (owner (own_entry 0))"
    by (simp add: sample_bm_def sample_put_def own_entry_def)
  have s: "rp_need_send sample_put = []" "rp_line_buf sample_put = replicate 64 1" "lindex_to_nuca_tag sample_shared (rp_lindex sample_put) = 5"
    using sample_shared(3) by (simp_all add: sample_put_def blank_package_def)
  obtain ev ms where "\<forall>mem. wk.backed (llc_block l') (wk.write_back ev mem) = (wk.backed (llc_block sample_shared) mem)(5 := replicate 64 1)"
      "rp_need_send p' = ms" "put_messages sample_bm sample_shared sample_put ev ms"
    using llc_put_keeps_data [OF sample_reach [of "\<lambda>_ _. True"] sample_param_ok(2) r d o] s by auto
  then show ?thesis using r by (metis fun_upd_same)
qed

end
