(* ===== verification/Isa.thy ===== *)
theory Isa
  imports Prelude
begin

text \<open>
  The instruction vocabulary of \<^verbatim>\<open>cpu/isa.h\<close> and \<^verbatim>\<open>cpu/amo.h\<close>: the enumerations, the decoded
  instruction and its flags. An \<^verbatim>\<open>enum class\<close> holds any value of its underlying int after a cast,
  so every enumeration has a constructor \<^verbatim>\<open>_raw\<close> for values without a name; \<^verbatim>\<open>_of\<close> is the cast
  from a word, \<^verbatim>\<open>_code\<close> the stored value. The parameter union is its four 32-bit words.
\<close>

section \<open>Enumerations\<close>

datatype RV64LSWidth =
    W_byte | W_harf | W_word | W_dword | W_ubyte | W_uharf | W_uword | W_qword
  | RV64LSWidth_raw u32

fun RV64LSWidth_code :: "RV64LSWidth \<Rightarrow> u32" where
  "RV64LSWidth_code W_byte = 0"
| "RV64LSWidth_code W_harf = 1"
| "RV64LSWidth_code W_word = 2"
| "RV64LSWidth_code W_dword = 3"
| "RV64LSWidth_code W_ubyte = 4"
| "RV64LSWidth_code W_uharf = 5"
| "RV64LSWidth_code W_uword = 6"
| "RV64LSWidth_code W_qword = 8"
| "RV64LSWidth_code (RV64LSWidth_raw w) = w"

definition RV64LSWidth_of :: "u32 \<Rightarrow> RV64LSWidth" where
  "RV64LSWidth_of w =
     (if w = 0 then W_byte
      else if w = 1 then W_harf
      else if w = 2 then W_word
      else if w = 3 then W_dword
      else if w = 4 then W_ubyte
      else if w = 5 then W_uharf
      else if w = 6 then W_uword
      else if w = 8 then W_qword
      else RV64LSWidth_raw w)"

lemma RV64LSWidth_cast [simp]: "RV64LSWidth_code (RV64LSWidth_of w) = w"
  by (simp add: RV64LSWidth_of_def)

datatype RV64AMOOP5 =
    AMO_ADD | AMO_SWAP | AMO_LR | AMO_SC | AMO_XOR | AMO_AND | AMO_OR | AMO_MIN | AMO_MAX | AMO_MINU | AMO_MAXU
  | RV64AMOOP5_raw u32

fun RV64AMOOP5_code :: "RV64AMOOP5 \<Rightarrow> u32" where
  "RV64AMOOP5_code AMO_ADD = 0x00"
| "RV64AMOOP5_code AMO_SWAP = 0x01"
| "RV64AMOOP5_code AMO_LR = 0x02"
| "RV64AMOOP5_code AMO_SC = 0x03"
| "RV64AMOOP5_code AMO_XOR = 0x04"
| "RV64AMOOP5_code AMO_AND = 0x0c"
| "RV64AMOOP5_code AMO_OR = 0x08"
| "RV64AMOOP5_code AMO_MIN = 0x10"
| "RV64AMOOP5_code AMO_MAX = 0x14"
| "RV64AMOOP5_code AMO_MINU = 0x18"
| "RV64AMOOP5_code AMO_MAXU = 0x1c"
| "RV64AMOOP5_code (RV64AMOOP5_raw w) = w"

definition RV64AMOOP5_of :: "u32 \<Rightarrow> RV64AMOOP5" where
  "RV64AMOOP5_of w =
     (if w = 0x00 then AMO_ADD
      else if w = 0x01 then AMO_SWAP
      else if w = 0x02 then AMO_LR
      else if w = 0x03 then AMO_SC
      else if w = 0x04 then AMO_XOR
      else if w = 0x0c then AMO_AND
      else if w = 0x08 then AMO_OR
      else if w = 0x10 then AMO_MIN
      else if w = 0x14 then AMO_MAX
      else if w = 0x18 then AMO_MINU
      else if w = 0x1c then AMO_MAXU
      else RV64AMOOP5_raw w)"

lemma RV64AMOOP5_cast [simp]: "RV64AMOOP5_code (RV64AMOOP5_of w) = w"
  by (simp add: RV64AMOOP5_of_def)

datatype RV64OPCode =
    op_load | op_loadfp | op_miscmem | op_opimm | op_auipc | op_opimm32 | op_store | op_storefp | op_amo | op_op | op_lui | op_op32 | op_madd | op_msub | op_nmsub | op_nmadd | op_opfp | op_opv | op_branch | op_jalr | op_jal | op_system | op_nop
  | RV64OPCode_raw u32

fun RV64OPCode_code :: "RV64OPCode \<Rightarrow> u32" where
  "RV64OPCode_code op_load = 0x03"
| "RV64OPCode_code op_loadfp = 0x07"
| "RV64OPCode_code op_miscmem = 0x0f"
| "RV64OPCode_code op_opimm = 0x13"
| "RV64OPCode_code op_auipc = 0x17"
| "RV64OPCode_code op_opimm32 = 0x1b"
| "RV64OPCode_code op_store = 0x23"
| "RV64OPCode_code op_storefp = 0x27"
| "RV64OPCode_code op_amo = 0x2f"
| "RV64OPCode_code op_op = 0x33"
| "RV64OPCode_code op_lui = 0x37"
| "RV64OPCode_code op_op32 = 0x3b"
| "RV64OPCode_code op_madd = 0x43"
| "RV64OPCode_code op_msub = 0x47"
| "RV64OPCode_code op_nmsub = 0x4b"
| "RV64OPCode_code op_nmadd = 0x4f"
| "RV64OPCode_code op_opfp = 0x53"
| "RV64OPCode_code op_opv = 0x57"
| "RV64OPCode_code op_branch = 0x63"
| "RV64OPCode_code op_jalr = 0x67"
| "RV64OPCode_code op_jal = 0x6f"
| "RV64OPCode_code op_system = 0x73"
| "RV64OPCode_code op_nop = 0"
| "RV64OPCode_code (RV64OPCode_raw w) = w"

definition RV64OPCode_of :: "u32 \<Rightarrow> RV64OPCode" where
  "RV64OPCode_of w =
     (if w = 0x03 then op_load
      else if w = 0x07 then op_loadfp
      else if w = 0x0f then op_miscmem
      else if w = 0x13 then op_opimm
      else if w = 0x17 then op_auipc
      else if w = 0x1b then op_opimm32
      else if w = 0x23 then op_store
      else if w = 0x27 then op_storefp
      else if w = 0x2f then op_amo
      else if w = 0x33 then op_op
      else if w = 0x37 then op_lui
      else if w = 0x3b then op_op32
      else if w = 0x43 then op_madd
      else if w = 0x47 then op_msub
      else if w = 0x4b then op_nmsub
      else if w = 0x4f then op_nmadd
      else if w = 0x53 then op_opfp
      else if w = 0x57 then op_opv
      else if w = 0x63 then op_branch
      else if w = 0x67 then op_jalr
      else if w = 0x6f then op_jal
      else if w = 0x73 then op_system
      else if w = 0 then op_nop
      else RV64OPCode_raw w)"

lemma RV64OPCode_cast [simp]: "RV64OPCode_code (RV64OPCode_of w) = w"
  by (simp add: RV64OPCode_of_def)

datatype RV64BranchOP3 =
    BEQ | BNE | BLT | BGE | BLTU | BGEU
  | RV64BranchOP3_raw u32

fun RV64BranchOP3_code :: "RV64BranchOP3 \<Rightarrow> u32" where
  "RV64BranchOP3_code BEQ = 0"
| "RV64BranchOP3_code BNE = 1"
| "RV64BranchOP3_code BLT = 4"
| "RV64BranchOP3_code BGE = 5"
| "RV64BranchOP3_code BLTU = 6"
| "RV64BranchOP3_code BGEU = 7"
| "RV64BranchOP3_code (RV64BranchOP3_raw w) = w"

definition RV64BranchOP3_of :: "u32 \<Rightarrow> RV64BranchOP3" where
  "RV64BranchOP3_of w =
     (if w = 0 then BEQ
      else if w = 1 then BNE
      else if w = 4 then BLT
      else if w = 5 then BGE
      else if w = 6 then BLTU
      else if w = 7 then BGEU
      else RV64BranchOP3_raw w)"

lemma RV64BranchOP3_cast [simp]: "RV64BranchOP3_code (RV64BranchOP3_of w) = w"
  by (simp add: RV64BranchOP3_of_def)

datatype RV64IntOP73 =
    I_ADD | I_SUB | I_SLL | I_SLT | I_SLTU | I_XOR | I_SRL | I_SRA | I_OR | I_AND | I_MUL | I_MULH | I_MULHSU | I_MULHU | I_DIV | I_DIVU | I_REM | I_REMU
  | RV64IntOP73_raw u32

fun RV64IntOP73_code :: "RV64IntOP73 \<Rightarrow> u32" where
  "RV64IntOP73_code I_ADD = 0x000"
| "RV64IntOP73_code I_SUB = 0x100"
| "RV64IntOP73_code I_SLL = 0x001"
| "RV64IntOP73_code I_SLT = 0x002"
| "RV64IntOP73_code I_SLTU = 0x003"
| "RV64IntOP73_code I_XOR = 0x004"
| "RV64IntOP73_code I_SRL = 0x005"
| "RV64IntOP73_code I_SRA = 0x105"
| "RV64IntOP73_code I_OR = 0x006"
| "RV64IntOP73_code I_AND = 0x007"
| "RV64IntOP73_code I_MUL = 0x008"
| "RV64IntOP73_code I_MULH = 0x009"
| "RV64IntOP73_code I_MULHSU = 0x00a"
| "RV64IntOP73_code I_MULHU = 0x00b"
| "RV64IntOP73_code I_DIV = 0x00c"
| "RV64IntOP73_code I_DIVU = 0x00d"
| "RV64IntOP73_code I_REM = 0x00e"
| "RV64IntOP73_code I_REMU = 0x00f"
| "RV64IntOP73_code (RV64IntOP73_raw w) = w"

definition RV64IntOP73_of :: "u32 \<Rightarrow> RV64IntOP73" where
  "RV64IntOP73_of w =
     (if w = 0x000 then I_ADD
      else if w = 0x100 then I_SUB
      else if w = 0x001 then I_SLL
      else if w = 0x002 then I_SLT
      else if w = 0x003 then I_SLTU
      else if w = 0x004 then I_XOR
      else if w = 0x005 then I_SRL
      else if w = 0x105 then I_SRA
      else if w = 0x006 then I_OR
      else if w = 0x007 then I_AND
      else if w = 0x008 then I_MUL
      else if w = 0x009 then I_MULH
      else if w = 0x00a then I_MULHSU
      else if w = 0x00b then I_MULHU
      else if w = 0x00c then I_DIV
      else if w = 0x00d then I_DIVU
      else if w = 0x00e then I_REM
      else if w = 0x00f then I_REMU
      else RV64IntOP73_raw w)"

lemma RV64IntOP73_cast [simp]: "RV64IntOP73_code (RV64IntOP73_of w) = w"
  by (simp add: RV64IntOP73_of_def)

datatype RV64FPOP5 =
    F_ADD | F_SUB | F_MUL | F_DIV | F_SQRT | F_SGNJ | F_MIN | F_MVF2F | F_CMP | F_CVTF2I | F_CVTI2F | F_MVF2I | F_MVI2F
  | RV64FPOP5_raw u32

fun RV64FPOP5_code :: "RV64FPOP5 \<Rightarrow> u32" where
  "RV64FPOP5_code F_ADD = 0x00"
| "RV64FPOP5_code F_SUB = 0x01"
| "RV64FPOP5_code F_MUL = 0x02"
| "RV64FPOP5_code F_DIV = 0x03"
| "RV64FPOP5_code F_SQRT = 0x0b"
| "RV64FPOP5_code F_SGNJ = 0x04"
| "RV64FPOP5_code F_MIN = 0x05"
| "RV64FPOP5_code F_MVF2F = 0x08"
| "RV64FPOP5_code F_CMP = 0x14"
| "RV64FPOP5_code F_CVTF2I = 0x18"
| "RV64FPOP5_code F_CVTI2F = 0x1a"
| "RV64FPOP5_code F_MVF2I = 0x1c"
| "RV64FPOP5_code F_MVI2F = 0x1e"
| "RV64FPOP5_code (RV64FPOP5_raw w) = w"

definition RV64FPOP5_of :: "u32 \<Rightarrow> RV64FPOP5" where
  "RV64FPOP5_of w =
     (if w = 0x00 then F_ADD
      else if w = 0x01 then F_SUB
      else if w = 0x02 then F_MUL
      else if w = 0x03 then F_DIV
      else if w = 0x0b then F_SQRT
      else if w = 0x04 then F_SGNJ
      else if w = 0x05 then F_MIN
      else if w = 0x08 then F_MVF2F
      else if w = 0x14 then F_CMP
      else if w = 0x18 then F_CVTF2I
      else if w = 0x1a then F_CVTI2F
      else if w = 0x1c then F_MVF2I
      else if w = 0x1e then F_MVI2F
      else RV64FPOP5_raw w)"

lemma RV64FPOP5_cast [simp]: "RV64FPOP5_code (RV64FPOP5_of w) = w"
  by (simp add: RV64FPOP5_of_def)

datatype RV64FPWidth2 =
    fword | fdword | fharf | fqword
  | RV64FPWidth2_raw u32

fun RV64FPWidth2_code :: "RV64FPWidth2 \<Rightarrow> u32" where
  "RV64FPWidth2_code fword = 0"
| "RV64FPWidth2_code fdword = 1"
| "RV64FPWidth2_code fharf = 2"
| "RV64FPWidth2_code fqword = 3"
| "RV64FPWidth2_code (RV64FPWidth2_raw w) = w"

definition RV64FPWidth2_of :: "u32 \<Rightarrow> RV64FPWidth2" where
  "RV64FPWidth2_of w =
     (if w = 0 then fword
      else if w = 1 then fdword
      else if w = 2 then fharf
      else if w = 3 then fqword
      else RV64FPWidth2_raw w)"

lemma RV64FPWidth2_cast [simp]: "RV64FPWidth2_code (RV64FPWidth2_of w) = w"
  by (simp add: RV64FPWidth2_of_def)

datatype RV64FPCVTWidth5 =
    cv_word | cv_uword | cv_dword | cv_udword
  | RV64FPCVTWidth5_raw u32

fun RV64FPCVTWidth5_code :: "RV64FPCVTWidth5 \<Rightarrow> u32" where
  "RV64FPCVTWidth5_code cv_word = 0"
| "RV64FPCVTWidth5_code cv_uword = 1"
| "RV64FPCVTWidth5_code cv_dword = 2"
| "RV64FPCVTWidth5_code cv_udword = 3"
| "RV64FPCVTWidth5_code (RV64FPCVTWidth5_raw w) = w"

definition RV64FPCVTWidth5_of :: "u32 \<Rightarrow> RV64FPCVTWidth5" where
  "RV64FPCVTWidth5_of w =
     (if w = 0 then cv_word
      else if w = 1 then cv_uword
      else if w = 2 then cv_dword
      else if w = 3 then cv_udword
      else RV64FPCVTWidth5_raw w)"

lemma RV64FPCVTWidth5_cast [simp]: "RV64FPCVTWidth5_code (RV64FPCVTWidth5_of w) = w"
  by (simp add: RV64FPCVTWidth5_of_def)

datatype RV64FPRM3 =
    RNE | RTZ | RDN | RUP | RMM | DYN
  | RV64FPRM3_raw u32

fun RV64FPRM3_code :: "RV64FPRM3 \<Rightarrow> u32" where
  "RV64FPRM3_code RNE = 0"
| "RV64FPRM3_code RTZ = 1"
| "RV64FPRM3_code RDN = 2"
| "RV64FPRM3_code RUP = 3"
| "RV64FPRM3_code RMM = 4"
| "RV64FPRM3_code DYN = 7"
| "RV64FPRM3_code (RV64FPRM3_raw w) = w"

definition RV64FPRM3_of :: "u32 \<Rightarrow> RV64FPRM3" where
  "RV64FPRM3_of w =
     (if w = 0 then RNE
      else if w = 1 then RTZ
      else if w = 2 then RDN
      else if w = 3 then RUP
      else if w = 4 then RMM
      else if w = 7 then DYN
      else RV64FPRM3_raw w)"

lemma RV64FPRM3_cast [simp]: "RV64FPRM3_code (RV64FPRM3_of w) = w"
  by (simp add: RV64FPRM3_of_def)

datatype RV64FPMIN3 =
    FMIN | FMAX
  | RV64FPMIN3_raw u32

fun RV64FPMIN3_code :: "RV64FPMIN3 \<Rightarrow> u32" where
  "RV64FPMIN3_code FMIN = 0"
| "RV64FPMIN3_code FMAX = 1"
| "RV64FPMIN3_code (RV64FPMIN3_raw w) = w"

definition RV64FPMIN3_of :: "u32 \<Rightarrow> RV64FPMIN3" where
  "RV64FPMIN3_of w =
     (if w = 0 then FMIN
      else if w = 1 then FMAX
      else RV64FPMIN3_raw w)"

lemma RV64FPMIN3_cast [simp]: "RV64FPMIN3_code (RV64FPMIN3_of w) = w"
  by (simp add: RV64FPMIN3_of_def)

datatype RV64FPSGNJ3 =
    SGNJ | SGNJN | SGNJX
  | RV64FPSGNJ3_raw u32

fun RV64FPSGNJ3_code :: "RV64FPSGNJ3 \<Rightarrow> u32" where
  "RV64FPSGNJ3_code SGNJ = 0"
| "RV64FPSGNJ3_code SGNJN = 1"
| "RV64FPSGNJ3_code SGNJX = 2"
| "RV64FPSGNJ3_code (RV64FPSGNJ3_raw w) = w"

definition RV64FPSGNJ3_of :: "u32 \<Rightarrow> RV64FPSGNJ3" where
  "RV64FPSGNJ3_of w =
     (if w = 0 then SGNJ
      else if w = 1 then SGNJN
      else if w = 2 then SGNJX
      else RV64FPSGNJ3_raw w)"

lemma RV64FPSGNJ3_cast [simp]: "RV64FPSGNJ3_code (RV64FPSGNJ3_of w) = w"
  by (simp add: RV64FPSGNJ3_of_def)

datatype RV64FPMVI3 =
    MVI_RAW | FCLASS
  | RV64FPMVI3_raw u32

fun RV64FPMVI3_code :: "RV64FPMVI3 \<Rightarrow> u32" where
  "RV64FPMVI3_code MVI_RAW = 0"
| "RV64FPMVI3_code FCLASS = 1"
| "RV64FPMVI3_code (RV64FPMVI3_raw w) = w"

definition RV64FPMVI3_of :: "u32 \<Rightarrow> RV64FPMVI3" where
  "RV64FPMVI3_of w =
     (if w = 0 then MVI_RAW
      else if w = 1 then FCLASS
      else RV64FPMVI3_raw w)"

lemma RV64FPMVI3_cast [simp]: "RV64FPMVI3_code (RV64FPMVI3_of w) = w"
  by (simp add: RV64FPMVI3_of_def)

datatype RV64FPCMP3 =
    FEQ | FLT | FLE
  | RV64FPCMP3_raw u32

fun RV64FPCMP3_code :: "RV64FPCMP3 \<Rightarrow> u32" where
  "RV64FPCMP3_code FEQ = 2"
| "RV64FPCMP3_code FLT = 1"
| "RV64FPCMP3_code FLE = 0"
| "RV64FPCMP3_code (RV64FPCMP3_raw w) = w"

definition RV64FPCMP3_of :: "u32 \<Rightarrow> RV64FPCMP3" where
  "RV64FPCMP3_of w =
     (if w = 2 then FEQ
      else if w = 1 then FLT
      else if w = 0 then FLE
      else RV64FPCMP3_raw w)"

lemma RV64FPCMP3_cast [simp]: "RV64FPCMP3_code (RV64FPCMP3_of w) = w"
  by (simp add: RV64FPCMP3_of_def)

datatype RV64CSROP3 =
    CSRRW | CSRRS | CSRRC | CSRRWI | CSRRSI | CSRRCI
  | RV64CSROP3_raw u32

fun RV64CSROP3_code :: "RV64CSROP3 \<Rightarrow> u32" where
  "RV64CSROP3_code CSRRW = 1"
| "RV64CSROP3_code CSRRS = 2"
| "RV64CSROP3_code CSRRC = 3"
| "RV64CSROP3_code CSRRWI = 5"
| "RV64CSROP3_code CSRRSI = 6"
| "RV64CSROP3_code CSRRCI = 7"
| "RV64CSROP3_code (RV64CSROP3_raw w) = w"

definition RV64CSROP3_of :: "u32 \<Rightarrow> RV64CSROP3" where
  "RV64CSROP3_of w =
     (if w = 1 then CSRRW
      else if w = 2 then CSRRS
      else if w = 3 then CSRRC
      else if w = 5 then CSRRWI
      else if w = 6 then CSRRSI
      else if w = 7 then CSRRCI
      else RV64CSROP3_raw w)"

lemma RV64CSROP3_cast [simp]: "RV64CSROP3_code (RV64CSROP3_of w) = w"
  by (simp add: RV64CSROP3_of_def)

section \<open>Predicates on the operations\<close>

fun rv64_ls_width_to_length :: "RV64LSWidth \<Rightarrow> u32" where
  "rv64_ls_width_to_length W_byte = 1"
| "rv64_ls_width_to_length W_ubyte = 1"
| "rv64_ls_width_to_length W_harf = 2"
| "rv64_ls_width_to_length W_uharf = 2"
| "rv64_ls_width_to_length W_word = 4"
| "rv64_ls_width_to_length W_uword = 4"
| "rv64_ls_width_to_length W_dword = 8"
| "rv64_ls_width_to_length W_qword = 16"
| "rv64_ls_width_to_length (RV64LSWidth_raw w) = 0"

definition rv64_intop_is_mul :: "RV64IntOP73 \<Rightarrow> bool" where
  "rv64_intop_is_mul op = (op = I_MUL \<or> op = I_MULH \<or> op = I_MULHSU \<or> op = I_MULHU \<or> op = I_DIV \<or>
     op = I_DIVU \<or> op = I_REM \<or> op = I_REMU)"

definition rv64_fpop_is_i_rd :: "RV64FPOP5 \<Rightarrow> bool" where
  "rv64_fpop_is_i_rd op = (op = F_CMP \<or> op = F_CVTF2I \<or> op = F_MVF2I)"

definition rv64_fpop_is_i_s1 :: "RV64FPOP5 \<Rightarrow> bool" where
  "rv64_fpop_is_i_s1 op = (op = F_CVTI2F \<or> op = F_MVI2F)"

definition rv64_fpop_has_s2 :: "RV64FPOP5 \<Rightarrow> bool" where
  "rv64_fpop_has_s2 op = (op = F_ADD \<or> op = F_SUB \<or> op = F_MUL \<or> op = F_DIV \<or> op = F_SGNJ \<or> op = F_MIN \<or> op = F_CMP)"

section \<open>Flags\<close>

definition RVINSTFLAG_RVC :: u64 where "RVINSTFLAG_RVC = push_bit 0 1"
definition RVINSTFLAG_UNIQUE :: u64 where "RVINSTFLAG_UNIQUE = push_bit 1 1"
definition RVINSTFLAG_FENCE :: u64 where "RVINSTFLAG_FENCE = push_bit 2 1"
definition RVINSTFLAG_FENCEI :: u64 where "RVINSTFLAG_FENCEI = push_bit 3 1"
definition RVINSTFLAG_FENCETSO :: u64 where "RVINSTFLAG_FENCETSO = push_bit 4 1"
definition RVINSTFLAG_PAUSE :: u64 where "RVINSTFLAG_PAUSE = push_bit 8 1"
definition RVINSTFLAG_ECALL :: u64 where "RVINSTFLAG_ECALL = push_bit 9 1"
definition RVINSTFLAG_EBREAK :: u64 where "RVINSTFLAG_EBREAK = push_bit 10 1"
definition RVINSTFLAG_S1INT :: u64 where "RVINSTFLAG_S1INT = push_bit 16 1"
definition RVINSTFLAG_S1FP :: u64 where "RVINSTFLAG_S1FP = push_bit 17 1"
definition RVINSTFLAG_S2INT :: u64 where "RVINSTFLAG_S2INT = push_bit 18 1"
definition RVINSTFLAG_S2FP :: u64 where "RVINSTFLAG_S2FP = push_bit 19 1"
definition RVINSTFLAG_S3INT :: u64 where "RVINSTFLAG_S3INT = push_bit 20 1"
definition RVINSTFLAG_S3FP :: u64 where "RVINSTFLAG_S3FP = push_bit 21 1"
definition RVINSTFLAG_RDINT :: u64 where "RVINSTFLAG_RDINT = push_bit 22 1"
definition RVINSTFLAG_RDFP :: u64 where "RVINSTFLAG_RDFP = push_bit 23 1"

lemmas flag_defs = RVINSTFLAG_RVC_def RVINSTFLAG_UNIQUE_def RVINSTFLAG_FENCE_def RVINSTFLAG_FENCEI_def
  RVINSTFLAG_FENCETSO_def RVINSTFLAG_PAUSE_def RVINSTFLAG_ECALL_def RVINSTFLAG_EBREAK_def
  RVINSTFLAG_S1INT_def RVINSTFLAG_S1FP_def RVINSTFLAG_S2INT_def RVINSTFLAG_S2FP_def RVINSTFLAG_S3INT_def
  RVINSTFLAG_S3FP_def RVINSTFLAG_RDINT_def RVINSTFLAG_RDFP_def

section \<open>The decoded instruction\<close>

text \<open>
  The union of load/store width, branch, integer, atomic, floating point and CSR parameters: the
  single codes and the first member of the structs share the first word, the atomic width and the
  CSR index lie in the second, the floating point widths and the funct3 in the second to fourth.
\<close>

record RV64InstParam =
  param0 :: u32
  param1 :: u32
  param2 :: u32
  param3 :: u32

definition zero_param :: RV64InstParam where
  "zero_param = \<lparr> param0 = 0, param1 = 0, param2 = 0, param3 = 0 \<rparr>"

record RV64InstDecoded =
  d_pc :: u64
  d_opcode :: RV64OPCode
  d_param :: RV64InstParam
  d_rs1 :: u16
  d_rs2 :: u16
  d_rs3 :: u16
  d_rd :: u16
  d_imm :: u64
  d_flag :: u64
  d_name :: string

definition is_rvc :: "RV64InstDecoded \<Rightarrow> bool" where
  "is_rvc d = (d_flag d AND RVINSTFLAG_RVC > 0)"

definition is_unique :: "RV64InstDecoded \<Rightarrow> bool" where
  "is_unique d = (d_flag d AND RVINSTFLAG_UNIQUE > 0)"

definition param_loadstore :: "RV64InstParam \<Rightarrow> RV64LSWidth" where "param_loadstore p = RV64LSWidth_of (param0 p)"
definition param_branch :: "RV64InstParam \<Rightarrow> RV64BranchOP3" where "param_branch p = RV64BranchOP3_of (param0 p)"
definition param_intop :: "RV64InstParam \<Rightarrow> RV64IntOP73" where "param_intop p = RV64IntOP73_of (param0 p)"
definition param_amo :: "RV64InstParam \<Rightarrow> RV64AMOOP5 \<times> RV64LSWidth" where
  "param_amo p = (RV64AMOOP5_of (param0 p), RV64LSWidth_of (param1 p))"
definition param_fp_op :: "RV64InstParam \<Rightarrow> RV64FPOP5" where "param_fp_op p = RV64FPOP5_of (param0 p)"
definition param_fp_fwid :: "RV64InstParam \<Rightarrow> RV64FPWidth2" where "param_fp_fwid p = RV64FPWidth2_of (param1 p)"
definition param_fp_iwid :: "RV64InstParam \<Rightarrow> RV64FPCVTWidth5" where "param_fp_iwid p = RV64FPCVTWidth5_of (param2 p)"
definition param_fp_rm :: "RV64InstParam \<Rightarrow> RV64FPRM3" where "param_fp_rm p = RV64FPRM3_of (param3 p)"
definition param_csr :: "RV64InstParam \<Rightarrow> RV64CSROP3 \<times> u16" where
  "param_csr p = (RV64CSROP3_of (param0 p), ucast (param1 p))"

section \<open>Registers\<close>

definition IregNameList :: "string list" where
  "IregNameList = ['' x0'', '' ra'', '' sp'', '' gp'', '' tp'', '' t0'', '' t1'', '' t2'', '' s0'', '' s1'',
     '' a0'', '' a1'', '' a2'', '' a3'', '' a4'', '' a5'', '' a6'', '' a7'', '' s2'', '' s3'', '' s4'', '' s5'',
     '' s6'', '' s7'', '' s8'', '' s9'', ''s10'', ''s11'', '' t3'', '' t4'', '' t5'', '' t6'']"

definition FregNameList :: "string list" where
  "FregNameList = ['' ft0'', '' ft1'', '' ft2'', '' ft3'', '' ft4'', '' ft5'', '' ft6'', '' ft7'', '' fs0'', '' fs1'',
     '' fa0'', '' fa1'', '' fa2'', '' fa3'', '' fa4'', '' fa5'', '' fa6'', '' fa7'', '' fs2'', '' fs3'', '' fs4'', '' fs5'',
     '' fs6'', '' fs7'', '' fs8'', '' fs9'', ''fs10'', ''fs11'', '' ft8'', '' ft9'', ''ft10'', ''ft11'']"

text \<open>The pointer loop of the name lookup: blanks of either string are skipped while both have text left.\<close>

fun name_match :: "string \<Rightarrow> string \<Rightarrow> bool" where
  "name_match (a # p1) (b # p2) =
     (if a = CHR '' '' then name_match p1 (b # p2)
      else if b = CHR '' '' then name_match (a # p1) p2
      else if a \<noteq> b then False
      else name_match p1 p2)"
| "name_match p1 p2 = (p1 = [] \<and> p2 = [])"

fun index_scan :: "string list \<Rightarrow> string \<Rightarrow> nat \<Rightarrow> nat" where
  "index_scan [] name i = 0"
| "index_scan (n # ns) name i = (if name_match n name then i else index_scan ns name (Suc i))"

definition ireg_index_of :: "string \<Rightarrow> u16" where "ireg_index_of name = of_nat (index_scan IregNameList name 0)"
definition freg_index_of :: "string \<Rightarrow> u16" where "freg_index_of name = of_nat (index_scan FregNameList name 0)"

definition ireg_name :: "u16 \<Rightarrow> string option" where
  "ireg_name i = (if unat i < length IregNameList then Some (IregNameList ! unat i) else None)"
definition freg_name :: "u16 \<Rightarrow> string option" where
  "freg_name i = (if unat i < length FregNameList then Some (FregNameList ! unat i) else None)"

text \<open>The register array: 32 integer registers, then 32 floating point registers.\<close>

type_synonym RVRegArray = "u64 list"

definition zero_regs :: "RVRegArray \<Rightarrow> RVRegArray" where "zero_regs regs = map (\<lambda>_. 0) regs"
definition ireg_value_of :: "RVRegArray \<Rightarrow> string \<Rightarrow> u64 option" where
  "ireg_value_of regs name = (if unat (ireg_index_of name) < length regs then Some (regs ! unat (ireg_index_of name)) else None)"
definition freg_value_of :: "RVRegArray \<Rightarrow> string \<Rightarrow> u64 option" where
  "freg_value_of regs name =
     (let i = 32 + unat (freg_index_of name) in if i < length regs then Some (regs ! i) else None)"

lemma index_scan_bound: "index_scan ns name i = 0 \<or> index_scan ns name i < i + length ns"
proof (induction ns arbitrary: i)
  case (Cons n ns)
  from Cons.IH [of "Suc i"] show ?case by auto
qed simp

lemma names_checked:
  "list_all (\<lambda>i. ireg_index_of (IregNameList ! i) = of_nat i \<and> freg_index_of (FregNameList ! i) = of_nat i \<and>
      ireg_index_of (dropWhile (\<lambda>c. c = CHR '' '') (IregNameList ! i)) = of_nat i \<and>
      freg_index_of (dropWhile (\<lambda>c. c = CHR '' '') (FregNameList ! i)) = of_nat i) [0..<32]"
  by code_simp

text \<open>
  Register names and indices are inverse to each other: every index below 32 has a name, with
  or without its leading blank the name is looked up as the index, and any other text yields an
  index below 32.
\<close>

theorem register_names_roundtrip:
  "(\<forall>i<32. ireg_index_of (IregNameList ! i) = of_nat i \<and> freg_index_of (FregNameList ! i) = of_nat i \<and>
      ireg_index_of (dropWhile (\<lambda>c. c = CHR '' '') (IregNameList ! i)) = of_nat i \<and>
      freg_index_of (dropWhile (\<lambda>c. c = CHR '' '') (FregNameList ! i)) = of_nat i)
   \<and> (\<forall>name. unat (ireg_index_of name) < 32 \<and> unat (freg_index_of name) < 32)"
proof
  show "\<forall>i<32. ireg_index_of (IregNameList ! i) = of_nat i \<and> freg_index_of (FregNameList ! i) = of_nat i \<and>
      ireg_index_of (dropWhile (\<lambda>c. c = CHR '' '') (IregNameList ! i)) = of_nat i \<and>
      freg_index_of (dropWhile (\<lambda>c. c = CHR '' '') (FregNameList ! i)) = of_nat i"
    using names_checked by (simp only: list_all_iff set_upt) auto
  have "index_scan IregNameList name 0 < 32" "index_scan FregNameList name 0 < 32" for name
    using index_scan_bound [of IregNameList name 0] index_scan_bound [of FregNameList name 0]
    by (auto simp: IregNameList_def FregNameList_def)
  then show "\<forall>name. unat (ireg_index_of name) < 32 \<and> unat (freg_index_of name) < 32"
    by (simp add: ireg_index_of_def freg_index_of_def unsigned_of_nat take_bit_nat_eq_self less_trans [of _ 32])
qed

lemma register_names_roundtrip_witness: "ireg_index_of ''a0'' = 10 \<and> freg_index_of ''fs11'' = 27"
proof -
  have "dropWhile (\<lambda>c. c = CHR '' '') (IregNameList ! 10) = ''a0''" "FregNameList ! 27 = ''fs11''"
    by (simp_all add: IregNameList_def FregNameList_def)
  then show ?thesis
    using conjunct1 [OF register_names_roundtrip, rule_format, of 10] conjunct1 [OF register_names_roundtrip, rule_format, of 27]
    by simp
qed

end
