(* ===== verification/RvOps.thy ===== *)
theory RvOps
  imports Isa SimCommon "HOL-Library.Signed_Division"
begin

text \<open>
  The integer, branch and atomic operations of \<^verbatim>\<open>cpu/operation.cpp\<close> and the CSR field accesses of
  \<^verbatim>\<open>cpu/csr.h\<close>. An operation leaves its output alone when it returns an error; its value is
  \<^verbatim>\<open>Done\<close>, \<^verbatim>\<open>Fail\<close> with the error, or \<^verbatim>\<open>Undefined\<close> where the C++ division traps. Signed overflow of
  additions and multiplications is the two's complement wrap-around of every supported host.
\<close>

section \<open>Outcomes\<close>

datatype op_result = Done u64 | Fail SimError | Undefined

section \<open>Branches\<close>

definition perform_branch_op_64 :: "RV64BranchOP3 \<Rightarrow> u64 \<Rightarrow> u64 \<Rightarrow> op_result" where
  "perform_branch_op_64 op s1 s2 = (case op of
     BEQ \<Rightarrow> Done (if s1 = s2 then 1 else 0)
   | BNE \<Rightarrow> Done (if s1 \<noteq> s2 then 1 else 0)
   | BLT \<Rightarrow> Done (if s1 <s s2 then 1 else 0)
   | BGE \<Rightarrow> Done (if s2 \<le>s s1 then 1 else 0)
   | BLTU \<Rightarrow> Done (if s1 < s2 then 1 else 0)
   | BGEU \<Rightarrow> Done (if s2 \<le> s1 then 1 else 0)
   | _ \<Rightarrow> Fail err_unsupported)"

section \<open>Integer operations of 64 bits\<close>

text \<open>\<^verbatim>\<open>tmp_mulh\<close>: the high half of a product computed at twice the width, by the operand types.\<close>

definition mulh_ss :: "u64 \<Rightarrow> u64 \<Rightarrow> u64" where
  "mulh_ss s1 s2 = ucast (signed_drop_bit 64 (scast s1 * scast s2 :: u128))"
definition mulh_su :: "u64 \<Rightarrow> u64 \<Rightarrow> u64" where
  "mulh_su s1 s2 = ucast (drop_bit 64 (scast s1 * ucast s2 :: u128))"
definition mulh_uu :: "u64 \<Rightarrow> u64 \<Rightarrow> u64" where
  "mulh_uu s1 s2 = ucast (drop_bit 64 (ucast s1 * ucast s2 :: u128))"

definition shamt6 :: "u64 \<Rightarrow> nat" where "shamt6 s = unat (s AND 0x3f)"

text \<open>Division truncates; it traps on a zero divisor and on the one quotient that does not fit.\<close>

definition c_sdiv :: "'a::len word \<Rightarrow> 'a word \<Rightarrow> 'a word option" where
  "c_sdiv a b = (if b = 0 \<or> sint a = - (2 ^ (LENGTH('a) - 1)) \<and> b = -1 then None else Some (word_of_int (sint a sdiv sint b)))"
definition c_smod :: "'a::len word \<Rightarrow> 'a word \<Rightarrow> 'a word option" where
  "c_smod a b = (if b = 0 \<or> sint a = - (2 ^ (LENGTH('a) - 1)) \<and> b = -1 then None else Some (word_of_int (sint a smod sint b)))"
definition c_udiv :: "'a::len word \<Rightarrow> 'a word \<Rightarrow> 'a word option" where
  "c_udiv a b = (if b = 0 then None else Some (a div b))"
definition c_umod :: "'a::len word \<Rightarrow> 'a word \<Rightarrow> 'a word option" where
  "c_umod a b = (if b = 0 then None else Some (a mod b))"

definition outcome :: "u64 option \<Rightarrow> op_result" where
  "outcome r = (case r of None \<Rightarrow> Undefined | Some w \<Rightarrow> Done w)"

definition perform_int_op_64 :: "RV64IntOP73 \<Rightarrow> u64 \<Rightarrow> u64 \<Rightarrow> op_result" where
  "perform_int_op_64 op s1 s2 = (case op of
     I_ADD \<Rightarrow> Done (s1 + s2)
   | I_SUB \<Rightarrow> Done (s1 - s2)
   | I_SLL \<Rightarrow> Done (push_bit (shamt6 s2) s1)
   | I_SLT \<Rightarrow> Done (if s1 <s s2 then 1 else 0)
   | I_SLTU \<Rightarrow> Done (if s1 < s2 then 1 else 0)
   | I_XOR \<Rightarrow> Done (s1 XOR s2)
   | I_SRL \<Rightarrow> Done (drop_bit (shamt6 s2) s1)
   | I_SRA \<Rightarrow> Done (signed_drop_bit (shamt6 s2) s1)
   | I_OR \<Rightarrow> Done (s1 OR s2)
   | I_AND \<Rightarrow> Done (s1 AND s2)
   | I_MUL \<Rightarrow> Done (s1 * s2)
   | I_MULH \<Rightarrow> Done (mulh_ss s1 s2)
   | I_MULHSU \<Rightarrow> Done (mulh_su s1 s2)
   | I_MULHU \<Rightarrow> Done (mulh_uu s1 s2)
   | I_DIV \<Rightarrow> (if s2 = 0 then Fail err_devidebyzero else outcome (c_sdiv s1 s2))
   | I_DIVU \<Rightarrow> (if s2 = 0 then Fail err_devidebyzero else outcome (c_udiv s1 s2))
   | I_REM \<Rightarrow> (if s2 = 0 then Fail err_devidebyzero else outcome (c_smod s1 s2))
   | I_REMU \<Rightarrow> (if s2 = 0 then Fail err_devidebyzero else outcome (c_umod s1 s2))
   | _ \<Rightarrow> Fail err_unsupported)"

section \<open>Integer operations of 32 bits\<close>

abbreviation low32 :: "u64 \<Rightarrow> u32" where "low32 s \<equiv> ucast s"

definition sext32 :: "u32 \<Rightarrow> u64" where "sext32 w = scast w"

definition shamt5 :: "u64 \<Rightarrow> nat" where "shamt5 s = unat (low32 s AND 0x1f)"

definition srlw :: "u64 \<Rightarrow> u64 \<Rightarrow> u64" where
  "srlw s1 s2 = (let ret = ucast (drop_bit (shamt5 s2) (low32 s1)) in
     if drop_bit 31 ret \<noteq> 0 then ret OR 0xffffffff00000000 else ret)"

text \<open>The zero test of the divisions is on all 64 bits of the operand.\<close>

definition perform_int_op_32 :: "RV64IntOP73 \<Rightarrow> u64 \<Rightarrow> u64 \<Rightarrow> op_result" where
  "perform_int_op_32 op s1 s2 = (case op of
     I_ADD \<Rightarrow> Done (sext32 (low32 s1 + low32 s2))
   | I_SUB \<Rightarrow> Done (sext32 (low32 s1 - low32 s2))
   | I_SLL \<Rightarrow> Done (sext32 (push_bit (shamt5 s2) (low32 s1)))
   | I_SRL \<Rightarrow> Done (srlw s1 s2)
   | I_SRA \<Rightarrow> Done (sext32 (signed_drop_bit (shamt5 s2) (low32 s1)))
   | I_MUL \<Rightarrow> Done (sext32 (low32 s1 * low32 s2))
   | I_DIV \<Rightarrow> (if s2 = 0 then Fail err_devidebyzero else outcome (map_option sext32 (c_sdiv (low32 s1) (low32 s2))))
   | I_DIVU \<Rightarrow> (if s2 = 0 then Fail err_devidebyzero else outcome (map_option ucast (c_udiv (low32 s1) (low32 s2))))
   | I_REM \<Rightarrow> (if s2 = 0 then Fail err_devidebyzero else outcome (map_option sext32 (c_smod (low32 s1) (low32 s2))))
   | I_REMU \<Rightarrow> (if s2 = 0 then Fail err_devidebyzero else outcome (map_option ucast (c_umod (low32 s1) (low32 s2))))
   | _ \<Rightarrow> Fail err_unsupported)"

section \<open>Atomic operations\<close>

definition smax_word :: "'a::len word \<Rightarrow> 'a word \<Rightarrow> 'a word" where "smax_word a b = (if a <s b then b else a)"
definition smin_word :: "'a::len word \<Rightarrow> 'a word \<Rightarrow> 'a word" where "smin_word a b = (if b <s a then b else a)"

definition perform_amo_op :: "RV64AMOOP5 \<times> RV64LSWidth \<Rightarrow> u64 \<Rightarrow> u64 \<Rightarrow> op_result" where
  "perform_amo_op param s1 s2 = (case param of (op, wid) \<Rightarrow>
     if wid = W_word then (case op of
         AMO_ADD \<Rightarrow> Done (sext32 (low32 s1 + low32 s2))
       | AMO_AND \<Rightarrow> Done (sext32 (low32 s1 AND low32 s2))
       | AMO_OR \<Rightarrow> Done (sext32 (low32 s1 OR low32 s2))
       | AMO_MAX \<Rightarrow> Done (sext32 (smax_word (low32 s1) (low32 s2)))
       | AMO_MIN \<Rightarrow> Done (sext32 (smin_word (low32 s1) (low32 s2)))
       | AMO_MAXU \<Rightarrow> Done (ucast (max (low32 s1) (low32 s2)))
       | AMO_MINU \<Rightarrow> Done (ucast (min (low32 s1) (low32 s2)))
       | AMO_SWAP \<Rightarrow> Done s2
       | _ \<Rightarrow> Fail err_unsupported)
     else if wid = W_dword then (case op of
         AMO_ADD \<Rightarrow> Done (s1 + s2)
       | AMO_AND \<Rightarrow> Done (s1 AND s2)
       | AMO_OR \<Rightarrow> Done (s1 OR s2)
       | AMO_MAX \<Rightarrow> Done (smax_word s1 s2)
       | AMO_MIN \<Rightarrow> Done (smin_word s1 s2)
       | AMO_MAXU \<Rightarrow> Done (max s1 s2)
       | AMO_MINU \<Rightarrow> Done (min s1 s2)
       | AMO_SWAP \<Rightarrow> Done s2
       | _ \<Rightarrow> Fail err_unsupported)
     else Fail err_unsupported)"

section \<open>CSR fields\<close>

text \<open>
  The templates' static assertions allow a field of 64 bits, whose mask \<^verbatim>\<open>1UL << 64\<close> is undefined;
  \<^verbatim>\<open>None\<close> is that case. A call returns the old field and the new register.
\<close>

definition csr_field :: "nat \<Rightarrow> nat \<Rightarrow> u64 \<Rightarrow> u64 option" where
  "csr_field pos len csr =
     (if len < 64 then Some (drop_bit pos (csr AND push_bit pos (push_bit len 1 - 1))) else None)"

definition csr_valid_src :: "nat \<Rightarrow> nat \<Rightarrow> u64 \<Rightarrow> u64" where
  "csr_valid_src pos len src = push_bit pos (src AND (push_bit len 1 - 1))"

definition rv64_csrrw :: "nat \<Rightarrow> nat \<Rightarrow> u64 \<Rightarrow> u64 \<Rightarrow> (u64 \<times> u64) option" where
  "rv64_csrrw pos len csr src = map_option
     (\<lambda>ret. (ret, csr AND NOT (push_bit pos (push_bit len 1 - 1)) OR csr_valid_src pos len src)) (csr_field pos len csr)"
definition rv64_csrrs :: "nat \<Rightarrow> nat \<Rightarrow> u64 \<Rightarrow> u64 \<Rightarrow> (u64 \<times> u64) option" where
  "rv64_csrrs pos len csr src = map_option (\<lambda>ret. (ret, csr OR csr_valid_src pos len src)) (csr_field pos len csr)"
definition rv64_csrrc :: "nat \<Rightarrow> nat \<Rightarrow> u64 \<Rightarrow> u64 \<Rightarrow> (u64 \<times> u64) option" where
  "rv64_csrrc pos len csr src = map_option (\<lambda>ret. (ret, csr AND NOT (csr_valid_src pos len src))) (csr_field pos len csr)"

section \<open>The reference: the manual's operations over the integers\<close>

definition rv_alu :: "RV64IntOP73 \<Rightarrow> 'a::len word \<Rightarrow> 'a word \<Rightarrow> 'a word option" where
  "rv_alu op a b = (let n = LENGTH('a); sh = unat b mod n in case op of
     I_ADD \<Rightarrow> Some (word_of_int (sint a + sint b))
   | I_SUB \<Rightarrow> Some (word_of_int (sint a - sint b))
   | I_SLL \<Rightarrow> Some (word_of_int (sint a * 2 ^ sh))
   | I_SLT \<Rightarrow> Some (of_bool (sint a < sint b))
   | I_SLTU \<Rightarrow> Some (of_bool (uint a < uint b))
   | I_XOR \<Rightarrow> Some (a XOR b)
   | I_SRL \<Rightarrow> Some (word_of_int (uint a div 2 ^ sh))
   | I_SRA \<Rightarrow> Some (word_of_int (sint a div 2 ^ sh))
   | I_OR \<Rightarrow> Some (a OR b)
   | I_AND \<Rightarrow> Some (a AND b)
   | I_MUL \<Rightarrow> Some (word_of_int (sint a * sint b))
   | I_MULH \<Rightarrow> Some (word_of_int ((sint a * sint b) div 2 ^ n))
   | I_MULHSU \<Rightarrow> Some (word_of_int ((sint a * uint b) div 2 ^ n))
   | I_MULHU \<Rightarrow> Some (word_of_int ((uint a * uint b) div 2 ^ n))
   | I_DIV \<Rightarrow> Some (if b = 0 then -1 else word_of_int (sint a sdiv sint b))
   | I_DIVU \<Rightarrow> Some (if b = 0 then -1 else word_of_int (uint a div uint b))
   | I_REM \<Rightarrow> Some (if b = 0 then a else word_of_int (sint a smod sint b))
   | I_REMU \<Rightarrow> Some (if b = 0 then a else word_of_int (uint a mod uint b))
   | _ \<Rightarrow> None)"

definition rv_branch :: "RV64BranchOP3 \<Rightarrow> u64 \<Rightarrow> u64 \<Rightarrow> bool option" where
  "rv_branch br a b = (case br of
     BEQ \<Rightarrow> Some (uint a = uint b) | BNE \<Rightarrow> Some (uint a \<noteq> uint b)
   | BLT \<Rightarrow> Some (sint a < sint b) | BGE \<Rightarrow> Some (sint a \<ge> sint b)
   | BLTU \<Rightarrow> Some (uint a < uint b) | BGEU \<Rightarrow> Some (uint a \<ge> uint b)
   | _ \<Rightarrow> None)"

lemma wrap_ints: "word_of_int (sint a + sint b) = a + b" "word_of_int (sint a - sint b) = a - b" "word_of_int (sint a * sint b) = a * (b :: 'a::len word)"
  by simp_all

lemma shamt_mod: "shamt6 s = unat s mod 64" "shamt5 s = unat (low32 s) mod 32"
proof -
  have "(0x3f :: u64) = mask 6" "(0x1f :: u32) = mask 5" by (simp_all add: mask_eq_exp_minus_1)
  then show "shamt6 s = unat s mod 64" "shamt5 s = unat (low32 s) mod 32"
    by (simp_all only: shamt6_def shamt5_def take_bit_eq_mask [symmetric] unsigned_take_bit_eq) (simp_all add: take_bit_eq_mod)
qed

lemma shift_left: "word_of_int (sint a * 2 ^ k) = push_bit k (a :: 'a::len word)"
  by (simp add: push_bit_eq_mult)
lemma shift_right: "word_of_int (uint a div 2 ^ k) = drop_bit k (a :: 'a::len word)"
  by (rule bit_word_eqI) (simp add: bit_simps drop_bit_eq_div [symmetric])
lemma shift_right_signed: "word_of_int (sint a div 2 ^ k) = signed_drop_bit k (a :: 'a::len word)"
  by (rule bit_word_eqI) (auto simp add: bit_simps drop_bit_eq_div [symmetric])

lemma high_half: "n < 64 \<Longrightarrow> bit (word_of_int x :: u128) (64 + n) = bit (word_of_int (x div 2 ^ 64) :: u64) n"
  unfolding drop_bit_eq_div [symmetric] by (simp add: bit_simps)

lemma mulh_ss_int: "mulh_ss a b = word_of_int ((sint a * sint b) div 2 ^ 64)"
proof -
  have "(scast a * scast b :: u128) = word_of_int (sint a * sint b)" by simp
  then show ?thesis unfolding mulh_ss_def 
    by (simp only:) (rule bit_word_eqI, subst high_half [symmetric], simp, simp add: bit_simps)
qed
lemma mulh_su_int: "mulh_su a b = word_of_int ((sint a * uint b) div 2 ^ 64)"
proof -
  have "(scast a * ucast b :: u128) = word_of_int (sint a * uint b)" by simp
  then show ?thesis unfolding mulh_su_def
    by (simp only:) (rule bit_word_eqI, subst high_half [symmetric], simp, simp add: bit_simps)
qed
lemma mulh_uu_int: "mulh_uu a b = word_of_int ((uint a * uint b) div 2 ^ 64)"
proof -
  have "(ucast a * ucast b :: u128) = word_of_int (uint a * uint b)" by simp
  then show ?thesis unfolding mulh_uu_def
    by (simp only:) (rule bit_word_eqI, subst high_half [symmetric], simp, simp add: bit_simps)
qed

definition is_div :: "RV64IntOP73 \<Rightarrow> bool" where "is_div op \<longleftrightarrow> op = I_DIV \<or> op = I_DIVU \<or> op = I_REM \<or> op = I_REMU"
definition is_sdiv :: "RV64IntOP73 \<Rightarrow> bool" where "is_sdiv op \<longleftrightarrow> op = I_DIV \<or> op = I_REM"

lemma sint_min: "sint (a :: u64) = - 9223372036854775808 \<longleftrightarrow> a = 0x8000000000000000"
  "sint (b :: u32) = - 2147483648 \<longleftrightarrow> b = 0x80000000"
proof -
  have "sint a = sint (0x8000000000000000 :: u64) \<longleftrightarrow> a = 0x8000000000000000" by (metis word_eq_iff_signed)
  moreover have "sint (0x8000000000000000 :: u64) = - 9223372036854775808" by code_simp
  ultimately show "sint a = - 9223372036854775808 \<longleftrightarrow> a = 0x8000000000000000" by simp
  have "sint b = sint (0x80000000 :: u32) \<longleftrightarrow> b = 0x80000000" by (metis word_eq_iff_signed)
  moreover have "sint (0x80000000 :: u32) = - 2147483648" by code_simp
  ultimately show "sint b = - 2147483648 \<longleftrightarrow> b = 0x80000000" by simp
qed

lemma udiv_int: "word_of_int (uint a div uint b) = a div (b :: 'a::len word)" "word_of_int (uint a mod uint b) = a mod b"
  by (simp_all add: word_div_def word_mod_def)

text \<open>
  C17. The 64-bit operations compute what the ISA manual states over the integers, for every operand:
  arithmetic wraps, shifts use the low six bits of the second operand, the high products are exact
  for each signedness, and comparisons read the operands as the manual does. Division deviates: a
  zero divisor is an error instead of the manual's result, and the one overflowing signed quotient
  is not caught. The branches compare accordingly.
\<close>
theorem int_ops_64_match_isa:
  "perform_int_op_64 op a b = (case rv_alu op a b of
     None \<Rightarrow> Fail err_unsupported
   | Some r \<Rightarrow> if is_div op \<and> b = 0 then Fail err_devidebyzero
       else if is_sdiv op \<and> a = 0x8000000000000000 \<and> b = -1 then Undefined
       else Done r) \<and>
   perform_branch_op_64 br a b = (case rv_branch br a b of None \<Rightarrow> Fail err_unsupported | Some t \<Rightarrow> Done (of_bool t))"
proof
  show "perform_branch_op_64 br a b = (case rv_branch br a b of None \<Rightarrow> Fail err_unsupported | Some t \<Rightarrow> Done (of_bool t))"
    by (cases br) (simp_all add: perform_branch_op_64_def rv_branch_def word_sless_alt word_sle_eq word_less_def word_le_def word_uint_eq_iff)
  show "perform_int_op_64 op a b = (case rv_alu op a b of
     None \<Rightarrow> Fail err_unsupported
   | Some r \<Rightarrow> if is_div op \<and> b = 0 then Fail err_devidebyzero
       else if is_sdiv op \<and> a = 0x8000000000000000 \<and> b = -1 then Undefined
       else Done r)"
  by (cases op) (simp_all add: perform_int_op_64_def rv_alu_def Let_def is_div_def is_sdiv_def shamt_mod wrap_ints shift_left shift_right
    shift_right_signed mulh_ss_int mulh_su_int mulh_uu_int word_sless_alt word_less_def c_sdiv_def c_smod_def c_udiv_def c_umod_def outcome_def udiv_int sint_min push_bit_eq_mult)
qed

lemma srlw_sext: "srlw a b = sext32 (drop_bit (shamt5 b) (low32 a))"
proof -
  define w where "w = drop_bit (shamt5 b) (low32 a)"
  have m: "(0xffffffff00000000 :: u64) = NOT (mask 32)" by (simp add: mask_eq_exp_minus_1 not_eq_complement)
  have "drop_bit 31 (ucast w :: u64) \<noteq> 0 \<longleftrightarrow> bit w 31"
  proof -
    have e: "bit (ucast w :: u64) i \<longleftrightarrow> i = 31 \<and> bit w 31" if "31 \<le> i" for i
      using that bit_imp_le_length [of w i] by (cases "i = 31") (auto simp: bit_unsigned_iff)
    have "drop_bit 31 (ucast w :: u64) = 0 \<longleftrightarrow> \<not> bit w 31"
      unfolding word_drop_bit_zero_iff using e by auto
    then show ?thesis by blast
  qed
  then have "srlw a b = (if bit w 31 then ucast w OR NOT (mask 32) else ucast w)"
    unfolding srlw_def w_def [symmetric] Let_def m by simp
  also have "\<dots> = sext32 w"
  proof (rule bit_word_eqI)
    fix n assume "n < LENGTH(64)"
    then show "bit (if bit w 31 then ucast w OR NOT (mask 32) else (ucast w :: u64)) n = bit (sext32 w) n"
      using bit_imp_le_length [of w n] unfolding sext32_def
      by (cases n "31 :: nat" rule: linorder_cases) (auto simp: bit_simps min_def)
  qed
  finally show ?thesis by (simp add: w_def)
qed

definition has_w_form :: "RV64IntOP73 \<Rightarrow> bool" where
  "has_w_form op \<longleftrightarrow> op = I_ADD \<or> op = I_SUB \<or> op = I_SLL \<or> op = I_SRL \<or> op = I_SRA \<or> op = I_MUL \<or> is_div op"

text \<open>
  The 32-bit operations return the sign-extended result of the manual's operation on the low
  words, with three deviations, all in division: unsigned quotients and remainders are extended
  with zeros, so a quotient with bit 31 set differs from the manual's; the zero test looks at all
  64 bits of the divisor, so a divisor whose low word alone is zero traps; and the overflowing
  signed quotient is not caught.
\<close>
theorem int_ops_32:
  "perform_int_op_32 op a b =
     (if \<not> has_w_form op then Fail err_unsupported
      else if is_div op \<and> b = 0 then Fail err_devidebyzero
      else if is_div op \<and> low32 b = 0 then Undefined
      else if is_sdiv op \<and> low32 a = 0x80000000 \<and> low32 b = -1 then Undefined
      else if op = I_DIVU \<or> op = I_REMU then Done (ucast (the (rv_alu op (low32 a) (low32 b))))
      else Done (sext32 (the (rv_alu op (low32 a) (low32 b))))) \<and>
   perform_int_op_32 I_DIVU 0xffffffff 1 = Done 0xffffffff \<and> sext32 (the (rv_alu I_DIVU (0xffffffff :: u32) 1)) = 0xffffffffffffffff"
proof (intro conjI)
  show "perform_int_op_32 I_DIVU 0xffffffff 1 = Done 0xffffffff" "sext32 (the (rv_alu I_DIVU (0xffffffff :: u32) 1)) = 0xffffffffffffffff"
    by code_simp+
qed (cases op; simp add: perform_int_op_32_def rv_alu_def Let_def is_div_def is_sdiv_def has_w_form_def shamt_mod wrap_ints shift_left shift_right
    shift_right_signed srlw_sext c_sdiv_def c_smod_def c_udiv_def c_umod_def outcome_def udiv_int sint_min push_bit_eq_mult)

definition rv_amo :: "RV64AMOOP5 \<Rightarrow> 'a::len word \<Rightarrow> 'a word \<Rightarrow> 'a word option" where
  "rv_amo op mem src = (case op of
     AMO_ADD \<Rightarrow> Some (word_of_int (sint mem + sint src))
   | AMO_SWAP \<Rightarrow> Some src
   | AMO_XOR \<Rightarrow> Some (mem XOR src)
   | AMO_AND \<Rightarrow> Some (mem AND src)
   | AMO_OR \<Rightarrow> Some (mem OR src)
   | AMO_MIN \<Rightarrow> Some (word_of_int (min (sint mem) (sint src)))
   | AMO_MAX \<Rightarrow> Some (word_of_int (max (sint mem) (sint src)))
   | AMO_MINU \<Rightarrow> Some (word_of_int (min (uint mem) (uint src)))
   | AMO_MAXU \<Rightarrow> Some (word_of_int (max (uint mem) (uint src)))
   | _ \<Rightarrow> None)"

lemma minmax_int:
  "word_of_int (max (sint a) (sint b)) = smax_word a (b :: 'a::len word)" "word_of_int (min (sint a) (sint b)) = smin_word a b"
  "word_of_int (max (uint a) (uint b)) = max a b" "word_of_int (min (uint a) (uint b)) = min a b"
  by (auto simp: smax_word_def smin_word_def word_sless_alt max_def min_def word_le_def)

lemma sext32_low: "low32 (sext32 w) = w"
  unfolding sext32_def
proof (rule bit_word_eqI)
  fix n assume "n < LENGTH(32)"
  then show "bit (low32 (scast w)) n = bit w n" by (cases "n = 31") (auto simp: bit_simps min_def)
qed
lemma zext32_low: "low32 (ucast w) = (w :: u32)"
  by (rule bit_word_eqI) (auto simp: bit_simps)

text \<open>
  C40. The atomic operations compute, in the bits that are stored, the manual's result from the
  memory and source operands at both widths, and an operation the manual defines is refused only
  when it is the exclusive or, which the code lacks: that one is always refused.
\<close>
theorem amo_matches_isa:
  "(case perform_amo_op (op, W_word) a b of Done r \<Rightarrow> op \<noteq> AMO_XOR \<and> rv_amo op (low32 a) (low32 b) = Some (low32 r)
    | Fail e \<Rightarrow> e = err_unsupported \<and> (op = AMO_XOR \<or> rv_amo op (low32 a) (low32 b) = None) | Undefined \<Rightarrow> False) \<and>
   (case perform_amo_op (op, W_dword) a b of Done r \<Rightarrow> op \<noteq> AMO_XOR \<and> rv_amo op a b = Some r
    | Fail e \<Rightarrow> e = err_unsupported \<and> (op = AMO_XOR \<or> rv_amo op a b = None) | Undefined \<Rightarrow> False)"
  by (cases op) (simp_all add: perform_amo_op_def rv_amo_def minmax_int sext32_low zext32_low)

lemma bit_field_mask: "bit (push_bit pos (push_bit len 1 - 1) :: u64) n = (n < 64 \<and> pos \<le> n \<and> n < pos + len)" 
  unfolding word_shift_one_minus_one by (auto simp: bit_simps)
lemma csr_field_eq: "pos + len \<le> 64 \<Longrightarrow> len < 64 \<Longrightarrow> csr_field pos len csr = Some (take_bit len (drop_bit pos csr))"
  unfolding csr_field_def word_shift_one_minus_one by (simp, rule bit_word_eqI) (auto simp: bit_simps)
lemma bit_csr_valid_src: "bit (csr_valid_src pos len src) n = (n < 64 \<and> pos \<le> n \<and> n < pos + len \<and> bit src (n - pos))"
  unfolding csr_valid_src_def word_and_mask by (auto simp: bit_simps)

text \<open>
  The three CSR accesses return the old value of the field, and change exactly its bits: write
  replaces them by the low bits of the source, set and clear change those the source has set. All
  other bits keep their value, for every field of fewer than 64 bits.
\<close>
theorem csr_field_access:
  assumes "pos + len \<le> 64" and "len < 64"
  shows "\<exists>w s c. rv64_csrrw pos len csr src = Some (take_bit len (drop_bit pos csr), w) \<and>
    rv64_csrrs pos len csr src = Some (take_bit len (drop_bit pos csr), s) \<and>
    rv64_csrrc pos len csr src = Some (take_bit len (drop_bit pos csr), c) \<and>
    (\<forall>n. bit w n = (if pos \<le> n \<and> n < pos + len then bit src (n - pos) else bit csr n) \<and>
         bit s n = (bit csr n \<or> pos \<le> n \<and> n < pos + len \<and> bit src (n - pos)) \<and>
         bit c n = (bit csr n \<and> \<not> (pos \<le> n \<and> n < pos + len \<and> bit src (n - pos))))"
proof -
  have n64: "bit csr n \<Longrightarrow> n < 64" for n using bit_imp_le_length [of csr n] by simp
  have inside: "n < pos + len \<Longrightarrow> n < 64" for n using assms by simp
  have w: "bit (csr AND NOT (push_bit pos (push_bit len 1 - 1)) OR csr_valid_src pos len src) n
      = (if pos \<le> n \<and> n < pos + len then bit src (n - pos) else bit csr n)" for n
    unfolding bit_or_iff bit_and_iff bit_not_iff bit_field_mask bit_csr_valid_src using inside [of n] by (auto dest: n64)
  have sc: "bit (csr OR csr_valid_src pos len src) n = (bit csr n \<or> pos \<le> n \<and> n < pos + len \<and> bit src (n - pos))"
    "bit (csr AND NOT (csr_valid_src pos len src)) n = (bit csr n \<and> \<not> (pos \<le> n \<and> n < pos + len \<and> bit src (n - pos)))" for n
    using inside [of n] by (auto simp: bit_csr_valid_src bit_or_iff bit_not_iff bit_and_iff dest: n64)
  show ?thesis
    unfolding rv64_csrrw_def rv64_csrrs_def rv64_csrrc_def csr_field_eq [OF assms] option.map
    using w sc by blast
qed

lemma csr_field_access_witness:
  "\<exists>w s c. rv64_csrrw 5 3 0xab 0x2 = Some (5, w) \<and> rv64_csrrs 5 3 0xab 0x2 = Some (5, s) \<and> rv64_csrrc 5 3 0xab 0x2 = Some (5, c)"
proof -
  have "take_bit 3 (drop_bit 5 0xab) = (5 :: u64)" by code_simp
  then show ?thesis using csr_field_access [of 5 3 "0xab" "0x2"] by auto
qed
end
