(* ===== verification/MoesiL1.thy ===== *)
theory MoesiL1
  imports MoesiLLC RvOps
begin

text \<open>
  The private first-level cache (\<^verbatim>\<open>cache/moesi/l1cachev2.cpp\<close> and its header). Loads, stores and atomics index the block and
  start misses, which wait in a miss register until the messages of the directory and of the other caches have arrived; a line that is displaced waits in a
  miss register until the directory has taken it back. A pointer into the block or the miss registers is the line it was found under. Debug output and
  the statistics are left out, but for the two counters. \<^verbatim>\<open>l1_error\<close> tells the failing assertions apart.
\<close>

section \<open>State\<close>

datatype l1_error = HomePortAssert | LineStateAssert | MissRegAssert | MissStateAssert | BothPlacesAssert | NowhereAssert
  | AllocAssert | PassAssert | RecvAssert | L1Bus bus_error | L1Crash

record TagedCacheLine =
  tl_data :: "u8 list"
  tl_state :: u32

record MSHREntry =
  ms_line_buf :: "u8 list"
  ms_state :: u32
  get_data_ready :: u8
  get_ack_cnt_ready :: u8
  need_invalid_ack :: u16
  invalid_ack :: u16

record ArrivalLine =
  al_lindex :: u64
  al_readonly :: bool
  al_data :: "u8 list"

record CacheOP =
  op_addr :: u64
  op_len :: u32
  op_amo :: RV64AMOOP5
  op_err :: SimError
  op_data :: "u8 list"
  op_valid :: "bool list"

record L1 =
  l1_port :: u16
  query_width :: u32
  has_recieved :: bool
  has_processed :: bool
  msgbuf :: CacheCohenrenceMsg
  l1_block :: "TagedCacheLine CacheBlock"
  l1_mshrs :: "MSHREntry MSHRArray"
  l1_send_buf :: "ReadyToSend list"
  l1_send_buf_size :: u32
  newlines :: "ArrivalLine list"
  arrivals :: "ArrivalLine list"
  reserved_address_valid :: bool
  reserved_address :: u64
  ld_queues :: "CacheOP tick_queue list"
  st_queues :: "CacheOP tick_queue list"
  amo_queues :: "CacheOP tick_queue list"
  misc_queues :: "CacheOP tick_queue list"
  l1_hit_count :: u64
  l1_miss_count :: u64

record L1Param = CacheParam +
  index_width :: u32

definition zero_line :: "u8 list" where "zero_line = replicate CACHE_LINE_LEN_BYTE 0"

definition zero_mshr :: MSHREntry where
  "zero_mshr = \<lparr>ms_line_buf = zero_line, ms_state = 0, get_data_ready = 0, get_ack_cnt_ready = 0, need_invalid_ack = 0, invalid_ack = 0\<rparr>"

definition blank_op :: CacheOP where
  "blank_op = \<lparr>op_addr = 0, op_len = 0, op_amo = AMO_ADD, op_err = err_success, op_data = [], op_valid = []\<rparr>"

definition l1_new :: "L1Param \<Rightarrow> u32 \<Rightarrow> L1 option" where
  "l1_new prm port =
     (let cycle = max 1 (index_latency prm) in
      map_option (\<lambda>q. let qs = replicate (unat (cycle + 1)) q in
        \<lparr> l1_port = ucast port, query_width = index_width prm, has_recieved = False, has_processed = False,
          msgbuf = \<lparr>mtype = 0, marg = 0, mtransid = 0, mline = 0, mdata = []\<rparr>,
          l1_block = cb_new (set_offset prm) (way_cnt prm),
          l1_mshrs = \<lparr>max_sz = ucast (mshr_num prm), hashmap = []\<rparr>, l1_send_buf = [], l1_send_buf_size = 4,
          newlines = [], arrivals = [], reserved_address_valid = False, reserved_address = 0,
          ld_queues = qs, st_queues = qs, amo_queues = qs, misc_queues = qs, l1_hit_count = 0, l1_miss_count = 0 \<rparr>)
      (tq_new blank_op (index_width prm) (index_width prm) 0))"

section \<open>Messages\<close>

definition l1_push_send_buf :: "u32 \<Rightarrow> u32 \<Rightarrow> u32 \<Rightarrow> u64 \<Rightarrow> u32 \<Rightarrow> L1 \<Rightarrow> L1" where
  "l1_push_send_buf dst channel ty line arg l =
     l\<lparr>l1_send_buf := l1_send_buf l @
       [\<lparr>rs_msg = construct_msg_pack \<lparr>mtype = ty, marg = arg, mtransid = 0, mline = line, mdata = []\<rparr>, rs_dst = dst, rs_cha = channel\<rparr>]\<rparr>"

definition l1_push_send_buf_with_line :: "u32 \<Rightarrow> u32 \<Rightarrow> u32 \<Rightarrow> u64 \<Rightarrow> u32 \<Rightarrow> u8 list \<Rightarrow> L1 \<Rightarrow> L1" where
  "l1_push_send_buf_with_line dst channel ty line arg linebuf l =
     l\<lparr>l1_send_buf := l1_send_buf l @
       [\<lparr>rs_msg = construct_msg_pack \<lparr>mtype = ty, marg = arg, mtransid = 0, mline = line, mdata = linebuf\<rparr>, rs_dst = dst, rs_cha = channel\<rparr>]\<rparr>"

definition send_room :: "nat \<Rightarrow> L1 \<Rightarrow> bool" where
  "send_room n l \<longleftrightarrow> length (l1_send_buf l) + n \<le> unat (l1_send_buf_size l)"

definition l1_bus :: "bus_error + 'a \<Rightarrow> l1_error + 'a" where
  "l1_bus r = (case r of Inl e \<Rightarrow> Inl (L1Bus e) | Inr x \<Rightarrow> Inr x)"

definition l1_of_llc :: "llc_error + 'a \<Rightarrow> l1_error + 'a" where
  "l1_of_llc r = (case r of Inl (LlcBus e) \<Rightarrow> Inl (L1Bus e) | Inl _ \<Rightarrow> Inl L1Crash | Inr x \<Rightarrow> Inr x)"

fun l1_scan :: "u64 \<Rightarrow> nat \<Rightarrow> nat \<Rightarrow> L1 \<Rightarrow> SymBus \<Rightarrow> l1_error + (L1 \<times> SymBus)" where
  "l1_scan tick c 0 l b = Inr (l, b)"
| "l1_scan tick c (Suc k) l b =
     ebind (l1_bus (can_recv b (ucast (l1_port l)) (of_nat c))) (\<lambda>can.
       if \<not> can then l1_scan tick (Suc c) k l b
       else ebind (l1_bus (bus_recv tick b (ucast (l1_port l)) (of_nat c) [])) (\<lambda>(ok, buf, b').
         ebind (check RecvAssert ok) (\<lambda>_.
         ebind (require L1Crash (parse_msg_pack buf (msgbuf l))) (\<lambda>m.
         Inr (l\<lparr>msgbuf := m, has_recieved := True\<rparr>, b')))))"

definition recieve_msg :: "u64 \<Rightarrow> L1 \<Rightarrow> SymBus \<Rightarrow> l1_error + (L1 \<times> SymBus)" where
  "recieve_msg tick l b = (if has_recieved l then Inr (l, b) else l1_scan tick 0 CHANNEL_CNT l b)"

definition send_msg :: "u64 \<Rightarrow> L1 \<Rightarrow> SymBus \<Rightarrow> l1_error + (L1 \<times> SymBus)" where
  "send_msg tick l b =
     (if l1_send_buf l = [] then Inr (l, b)
      else ebind (l1_bus (can_send_all b (ucast (l1_port l)))) (\<lambda>can.
        ebind (l1_of_llc (pick_sends can (l1_send_buf l))) (\<lambda>(sent, kept, _).
        ebind (l1_of_llc (bus_send_all tick (ucast (l1_port l)) sent b)) (\<lambda>b'.
        Inr (l\<lparr>l1_send_buf := kept\<rparr>, b')))))"

section \<open>Loads, stores and atomics\<close>

definition unaligned :: "u64 \<Rightarrow> u32 \<Rightarrow> bool" where
  "unaligned paddr len \<longleftrightarrow> len \<noteq> 0 \<and> drop_bit 6 paddr \<noteq> drop_bit 6 (paddr + ucast len - 1)"

definition line_offset :: "u64 \<Rightarrow> nat" where "line_offset paddr = unat (paddr AND 63)"

definition read_bytes :: "u8 list \<Rightarrow> nat \<Rightarrow> nat \<Rightarrow> u8 list \<Rightarrow> bool list \<Rightarrow> u8 list" where
  "read_bytes line off len buf valid =
     (if len = 0 then buf
      else if length valid \<noteq> len then take len (drop off line) @ drop len buf
      else map (\<lambda>i. if i < len \<and> valid ! i then line ! (i + off) else buf ! i) [0..<length buf])"

definition write_bytes :: "u8 list \<Rightarrow> nat \<Rightarrow> nat \<Rightarrow> u8 list \<Rightarrow> bool list \<Rightarrow> u8 list" where
  "write_bytes line off len buf valid =
     (if len = 0 then line
      else map (\<lambda>j. if off \<le> j \<and> j < off + len \<and> (length valid \<noteq> len \<or> valid ! (j - off)) then buf ! (j - off) else line ! j) [0..<length line])"

definition load_line :: "u32 \<Rightarrow> u64 \<Rightarrow> u32 \<Rightarrow> u8 list \<Rightarrow> bool list \<Rightarrow> L1 \<Rightarrow> l1_error + (SimError \<times> u8 list \<times> L1)" where
  "load_line l2_port paddr len buf valid l =
     (let lindex = addr_to_line_index paddr; off = line_offset paddr; n = unat len in
      case get_line lindex True (l1_block l) of
        (Some p, blk) \<Rightarrow>
          ebind (check L1Crash (n \<le> length buf)) (\<lambda>_.
          Inr (err_success, read_bytes (tl_data p) off n buf valid, l\<lparr>l1_block := blk, l1_hit_count := l1_hit_count l + 1\<rparr>))
      | (None, _) \<Rightarrow>
         (case mshr_get lindex (l1_mshrs l) of
            Some m \<Rightarrow>
              if ms_state m = MSHR_STOM \<or> ms_state m = MSHR_OTOM
              then ebind (check L1Crash (n \<le> length buf)) (\<lambda>_.
                Inr (err_success, read_bytes (ms_line_buf m) off n buf valid, l\<lparr>l1_hit_count := l1_hit_count l + 1\<rparr>))
              else if ms_state m = MSHR_ITOM \<or> ms_state m = MSHR_ITOS then Inr (err_miss, buf, l)
              else Inr (err_coherence, buf, l)
          | None \<Rightarrow>
              if send_room 1 l
              then (case mshr_alloc (zero_mshr\<lparr>ms_state := MSHR_ITOS\<rparr>) lindex (l1_mshrs l) of
                  (True, ms) \<Rightarrow> Inr (err_miss, buf, l1_push_send_buf l2_port CHANNEL_REQ MSG_GETS lindex (ucast (l1_port l))
                    (l\<lparr>l1_mshrs := ms, l1_miss_count := l1_miss_count l + 1\<rparr>))
                | (False, _) \<Rightarrow> Inr (err_busy, buf, l))
              else Inr (err_busy, buf, l)))"

definition store_line :: "u32 \<Rightarrow> u64 \<Rightarrow> u32 \<Rightarrow> u8 list \<Rightarrow> bool list \<Rightarrow> L1 \<Rightarrow> l1_error + (SimError \<times> L1)" where
  "store_line l2_port paddr len buf valid l0 =
     (let lindex = addr_to_line_index paddr; off = line_offset paddr; n = unat len;
          (hit, blk) = get_line lindex True (l1_block l0); l = l0\<lparr>l1_block := blk\<rparr>;
          miss = (case mshr_get lindex (l1_mshrs l) of
            Some m \<Rightarrow>
              if ms_state m = MSHR_STOM \<or> ms_state m = MSHR_OTOM \<or> ms_state m = MSHR_ITOM then Inr (err_miss, l)
              else Inr (err_coherence, l)
          | None \<Rightarrow>
              if send_room 1 l \<and> fst (mshr_alloc zero_mshr lindex (l1_mshrs l))
              then ebind (case hit of
                    None \<Rightarrow> Inr (zero_mshr\<lparr>ms_state := MSHR_ITOM\<rparr>)
                  | Some p \<Rightarrow>
                      if tl_state p = CC_SHARED then Inr (zero_mshr\<lparr>ms_line_buf := tl_data p, ms_state := MSHR_STOM\<rparr>)
                      else if tl_state p = CC_OWNED then Inr (zero_mshr\<lparr>ms_line_buf := tl_data p, ms_state := MSHR_OTOM\<rparr>)
                      else Inl LineStateAssert) (\<lambda>m.
                Inr (err_miss, (l1_push_send_buf l2_port CHANNEL_RESP MSG_GETM lindex (ucast (l1_port l))
                  (l\<lparr>l1_mshrs := snd (mshr_alloc m lindex (l1_mshrs l)),
                     l1_block := (if hit = None then l1_block l else remove_line lindex (l1_block l)),
                     l1_miss_count := l1_miss_count l + 1\<rparr>))))
              else Inr (err_busy, l)) in
      case hit of
        Some p \<Rightarrow>
          if tl_state p = CC_EXCLUSIVE \<or> tl_state p = CC_MODIFIED
          then ebind (check L1Crash (n \<le> length buf)) (\<lambda>_.
            Inr (err_success, l\<lparr>l1_block := set_payload lindex \<lparr>tl_data = write_bytes (tl_data p) off n buf valid, tl_state = CC_MODIFIED\<rparr> (l1_block l),
              reserved_address_valid := False, l1_hit_count := l1_hit_count l + 1\<rparr>))
          else miss
      | None \<Rightarrow> miss)"

definition l1_load :: "u64 \<Rightarrow> BusPortMapping \<Rightarrow> u64 \<Rightarrow> u32 \<Rightarrow> u8 list \<Rightarrow> bool list \<Rightarrow> L1 \<Rightarrow> SymBus \<Rightarrow> l1_error + (SimError \<times> u8 list \<times> L1 \<times> SymBus)" where
  "l1_load tick bm paddr len buf valid l b =
     (if unaligned paddr len then Inr (err_unaligned, buf, l, b)
      else (case get_homenode_port bm (addr_to_line_index paddr) of
          None \<Rightarrow> Inr (err_invalidaddr, buf, l, b)
        | Some l2_port \<Rightarrow> ebind (recieve_msg tick l b) (\<lambda>(l1, b1).
            ebind (load_line l2_port paddr len buf valid l1) (\<lambda>(e, buf', l2). Inr (e, buf', l2, b1)))))"

definition l1_store :: "u64 \<Rightarrow> BusPortMapping \<Rightarrow> u64 \<Rightarrow> u32 \<Rightarrow> u8 list \<Rightarrow> bool list \<Rightarrow> L1 \<Rightarrow> SymBus \<Rightarrow> l1_error + (SimError \<times> L1 \<times> SymBus)" where
  "l1_store tick bm paddr len buf valid l b =
     (if unaligned paddr len then Inr (err_unaligned, l, b)
      else (case get_homenode_port bm (addr_to_line_index paddr) of
          None \<Rightarrow> Inr (err_invalidaddr, l, b)
        | Some l2_port \<Rightarrow> ebind (recieve_msg tick l b) (\<lambda>(l1, b1).
            ebind (store_line l2_port paddr len buf valid l1) (\<lambda>(e, l2). Inr (e, l2, b1)))))"

definition load_reserved :: "u64 \<Rightarrow> BusPortMapping \<Rightarrow> u64 \<Rightarrow> u32 \<Rightarrow> u8 list \<Rightarrow> L1 \<Rightarrow> SymBus \<Rightarrow> l1_error + (SimError \<times> u8 list \<times> L1 \<times> SymBus)" where
  "load_reserved tick bm paddr len buf l b =
     ebind (l1_load tick bm paddr len buf [] l b) (\<lambda>(e, buf', l', b').
     Inr (e, buf', if e = err_success then l'\<lparr>reserved_address_valid := True, reserved_address := paddr\<rparr> else l', b'))"

definition store_conditional :: "u64 \<Rightarrow> BusPortMapping \<Rightarrow> u64 \<Rightarrow> u32 \<Rightarrow> u8 list \<Rightarrow> L1 \<Rightarrow> SymBus \<Rightarrow> l1_error + (SimError \<times> L1 \<times> SymBus)" where
  "store_conditional tick bm paddr len buf l b =
     (if reserved_address_valid l \<and> reserved_address l = paddr then l1_store tick bm paddr len buf [] l b
      else Inr (err_unconditional, l, b))"

definition l1_amo :: "u64 \<Rightarrow> BusPortMapping \<Rightarrow> u64 \<Rightarrow> u32 \<Rightarrow> u8 list \<Rightarrow> RV64AMOOP5 \<Rightarrow> L1 \<Rightarrow> SymBus \<Rightarrow> l1_error + (SimError \<times> u8 list \<times> L1 \<times> SymBus)" where
  "l1_amo tick bm paddr len buf amoop l b =
     (if amoop = AMO_SC then ebind (store_conditional tick bm paddr len buf l b) (\<lambda>(e, l', b'). Inr (e, buf, l', b'))
      else if amoop = AMO_LR then load_reserved tick bm paddr len buf l b
      else ebind (l1_store tick bm paddr 0 (replicate 8 0) [] l b) (\<lambda>(e, l1, b1).
        if e \<noteq> err_success then Inr (e, buf, l1, b1)
        else ebind (l1_load tick bm paddr (if len = 4 then 4 else 8) (replicate (if len = 4 then 4 else 8) 0) [] l1 b1) (\<lambda>(e, prev, l2, b2).
          ebind (check L1Crash ((if len = 4 then 4 else 8) \<le> length buf)) (\<lambda>_.
          if e \<noteq> err_success then Inr (e, buf, l2, b2)
          else
            let previous = (if len = 4 then scast (le_word prev :: u32) else le_word prev) :: u64;
                value = (if len = 4 then scast (le_word (take 4 buf) :: u32) else le_word (take 8 buf)) :: u64 in
            (case perform_amo_op (amoop, if len = 4 then W_word else W_dword) previous value of
               Undefined \<Rightarrow> Inl L1Crash
             | Fail e \<Rightarrow> Inr (e, buf, l2, b2)
             | Done stvalue \<Rightarrow>
                 ebind (l1_store tick bm paddr len (le_bytes 8 stvalue) [] l2 b2) (\<lambda>(e, l3, b3).
                 if e = err_success
                 then ebind (check L1Crash (unat len \<le> 8 \<and> unat len \<le> length buf)) (\<lambda>_.
                   Inr (e, take (unat len) (le_bytes 8 previous) @ drop (unat len) buf, l3, b3))
                 else Inr (e, buf, l3, b3)))))))"

section \<open>Received messages\<close>

definition put_message :: "u32 \<Rightarrow> (u32 \<times> u32 \<times> bool) option" where
  "put_message st =
     (if st = CC_EXCLUSIVE then Some (MSHR_ETOI, MSG_PUTE, False)
      else if st = CC_MODIFIED then Some (MSHR_MTOI, MSG_PUTM, True)
      else if st = CC_SHARED then Some (MSHR_STOI, MSG_PUTS, False)
      else if st = CC_OWNED then Some (MSHR_OTOI, MSG_PUTO, True)
      else None)"

definition handle_new_line :: "BusPortMapping \<Rightarrow> u64 \<Rightarrow> MSHREntry \<Rightarrow> u32 \<Rightarrow> L1 \<Rightarrow> l1_error + L1" where
  "handle_new_line bm lindex mshr init_state l =
     ebind (require HomePortAssert (get_homenode_port bm lindex)) (\<lambda>_.
     ebind (require L1Crash (insert_line lindex \<lparr>tl_data = ms_line_buf mshr, tl_state = init_state\<rparr> (l1_block l))) (\<lambda>(replaced, blk).
     let l1 = l\<lparr>newlines := newlines l @ [\<lparr>al_lindex = lindex, al_readonly = (init_state = CC_SHARED), al_data = ms_line_buf mshr\<rparr>],
                l1_block := blk, l1_mshrs := mshr_remove lindex (l1_mshrs l)\<rparr> in
     (case replaced of
        None \<Rightarrow> Inr l1
      | Some (rl, rline) \<Rightarrow>
          ebind (check AllocAssert (fst (mshr_alloc zero_mshr rl (l1_mshrs l1)))) (\<lambda>_.
          ebind (require HomePortAssert (get_homenode_port bm rl)) (\<lambda>l2_port.
          ebind (require LineStateAssert (put_message (tl_state rline))) (\<lambda>(st, ty, with_data).
          let l2 = l1\<lparr>l1_mshrs := snd (mshr_alloc (zero_mshr\<lparr>ms_line_buf := tl_data rline, ms_state := st\<rparr>) rl (l1_mshrs l1))\<rparr> in
          Inr (if with_data then l1_push_send_buf_with_line l2_port CHANNEL_REQ ty rl (ucast (l1_port l2)) (tl_data rline) l2
            else l1_push_send_buf l2_port CHANNEL_REQ ty rl (ucast (l1_port l2)) l2)))))))"

text \<open>The states in which a miss register holds the data of its line.\<close>

definition mshr_handle :: "u32 \<Rightarrow> bool" where
  "mshr_handle st \<longleftrightarrow> st = MSHR_STOM \<or> st = MSHR_MTOI \<or> st = MSHR_STOI \<or> st = MSHR_ETOI \<or> st = MSHR_OTOM \<or> st = MSHR_OTOI"

text \<open>Writing through the pointer to a miss register.\<close>

definition mshr_set :: "u64 \<Rightarrow> MSHREntry \<Rightarrow> L1 \<Rightarrow> L1" where
  "mshr_set lindex m l = l\<lparr>l1_mshrs := (l1_mshrs l)\<lparr>hashmap := AList.update lindex m (hashmap (l1_mshrs l))\<rparr>\<rparr>"

definition handle_invalid :: "u64 \<Rightarrow> u32 \<Rightarrow> L1 \<Rightarrow> l1_error + (bool \<times> L1)" where
  "handle_invalid lindex arg l =
     (if \<not> send_room 1 l then Inr (False, l)
      else let l1 = (l1_push_send_buf arg CHANNEL_ACK MSG_INVALID_ACK lindex 0 l)\<lparr>l1_block := remove_line lindex (l1_block l)\<rparr> in
       ebind (case mshr_get lindex (l1_mshrs l1) of
           None \<Rightarrow> Inr l1
         | Some m \<Rightarrow>
             if ms_state m = MSHR_STOI \<or> ms_state m = MSHR_MTOI \<or> ms_state m = MSHR_OTOI
             then Inr (mshr_set lindex (m\<lparr>ms_state := MSHR_ITOI\<rparr>) l1)
             else if ms_state m = MSHR_OTOM \<or> ms_state m = MSHR_STOM \<or> ms_state m = MSHR_ITOM
             then Inr (mshr_set lindex (m\<lparr>ms_state := MSHR_ITOM\<rparr>) l1)
             else Inl MissStateAssert) (\<lambda>l2.
       Inr (True, if reserved_address_valid l2 \<and> lindex = addr_to_line_index (reserved_address l2)
         then l2\<lparr>reserved_address_valid := False\<rparr> else l2)))"

definition finish_getm :: "BusPortMapping \<Rightarrow> u32 \<Rightarrow> u64 \<Rightarrow> MSHREntry \<Rightarrow> L1 \<Rightarrow> l1_error + (bool \<times> L1)" where
  "finish_getm bm l2_port lindex m l =
     (if \<not> send_room 2 l then Inr (False, l)
      else ebind (handle_new_line bm lindex m CC_MODIFIED (l1_push_send_buf l2_port CHANNEL_ACK MSG_GET_ACK lindex (ucast (l1_port l)) l)) (\<lambda>l1. Inr (True, l1)))"

definition handle_invalid_ack :: "BusPortMapping \<Rightarrow> u32 \<Rightarrow> u64 \<Rightarrow> L1 \<Rightarrow> l1_error + (bool \<times> L1)" where
  "handle_invalid_ack bm l2_port lindex l =
     ebind (require MissRegAssert (mshr_get lindex (l1_mshrs l))) (\<lambda>m.
     let last = (get_ack_cnt_ready m \<noteq> 0 \<and> int (unat (need_invalid_ack m)) = int (unat (invalid_ack m)) + 1);
         counted = Inr (True, mshr_set lindex (m\<lparr>invalid_ack := invalid_ack m + 1\<rparr>) l) in
     if ms_state m = MSHR_ITOM
     then (if last \<and> get_data_ready m \<noteq> 0 then finish_getm bm l2_port lindex m l else counted)
     else if ms_state m = MSHR_STOM \<or> ms_state m = MSHR_OTOM
     then (if last then finish_getm bm l2_port lindex m l else counted)
     else Inr (True, l))"

definition handle_gets_forward :: "u64 \<Rightarrow> u32 \<Rightarrow> L1 \<Rightarrow> l1_error + (bool \<times> L1)" where
  "handle_gets_forward lindex arg l =
     (if \<not> send_room 1 l then Inr (False, l)
      else let hit = fst (get_line lindex False (l1_block l)); mshr = mshr_get lindex (l1_mshrs l);
             held = (case mshr of None \<Rightarrow> False | Some m \<Rightarrow> mshr_handle (ms_state m)) in
       ebind (check NowhereAssert (hit \<noteq> None \<or> held)) (\<lambda>_.
       ebind (check BothPlacesAssert (hit = None \<or> \<not> held)) (\<lambda>_.
       (case hit of
          Some p \<Rightarrow> Inr (True, (l1_push_send_buf_with_line arg CHANNEL_RESP MSG_GETS_RESP lindex 1 (tl_data p) l)
            \<lparr>l1_block := set_payload lindex (p\<lparr>tl_state := CC_OWNED\<rparr>) (l1_block l)\<rparr>)
        | None \<Rightarrow> (case mshr of None \<Rightarrow> Inl L1Crash
            | Some m \<Rightarrow> let l1 = l1_push_send_buf_with_line arg CHANNEL_RESP MSG_GETS_RESP lindex 1 (ms_line_buf m) l in
                Inr (True, if ms_state m = MSHR_MTOI \<or> ms_state m = MSHR_ETOI \<or> ms_state m = MSHR_STOI
                  then mshr_set lindex (m\<lparr>ms_state := MSHR_OTOI\<rparr>) l1 else l1))))))"

definition handle_getm_forward :: "u64 \<Rightarrow> u32 \<Rightarrow> L1 \<Rightarrow> l1_error + (bool \<times> L1)" where
  "handle_getm_forward lindex arg l =
     (if \<not> send_room 1 l then Inr (False, l)
      else let hit = fst (get_line lindex False (l1_block l)); mshr = mshr_get lindex (l1_mshrs l);
             held = (case mshr of None \<Rightarrow> False | Some m \<Rightarrow> mshr_handle (ms_state m)) in
       ebind (check NowhereAssert (hit \<noteq> None \<or> held)) (\<lambda>_.
       ebind (check BothPlacesAssert (hit = None \<or> \<not> held)) (\<lambda>_.
       (case hit of
          Some p \<Rightarrow> Inr (True, (l1_push_send_buf_with_line arg CHANNEL_RESP MSG_GETM_RESP lindex 0 (tl_data p) l)
            \<lparr>l1_block := remove_line lindex (l1_block l)\<rparr>)
        | None \<Rightarrow> (case mshr of None \<Rightarrow> Inl L1Crash
            | Some m \<Rightarrow> Inr (True, mshr_set lindex
                (m\<lparr>ms_state := (if ms_state m = MSHR_STOM \<or> ms_state m = MSHR_OTOM then MSHR_ITOM else MSHR_ITOI)\<rparr>)
                (l1_push_send_buf_with_line arg CHANNEL_RESP MSG_GETM_RESP lindex 0 (ms_line_buf m) l)))))))"

definition handle_getm_ack :: "BusPortMapping \<Rightarrow> u32 \<Rightarrow> u64 \<Rightarrow> u32 \<Rightarrow> L1 \<Rightarrow> l1_error + (bool \<times> L1)" where
  "handle_getm_ack bm l2_port lindex arg l =
     ebind (require MissRegAssert (mshr_get lindex (l1_mshrs l))) (\<lambda>m.
     let all = (arg = ucast (invalid_ack m));
         noted = Inr (True, mshr_set lindex (m\<lparr>get_ack_cnt_ready := 1, need_invalid_ack := ucast arg\<rparr>) l) in
     if ms_state m = MSHR_ITOM
     then (if all \<and> get_data_ready m \<noteq> 0 then finish_getm bm l2_port lindex m l else noted)
     else if ms_state m = MSHR_STOM \<or> ms_state m = MSHR_OTOM
     then (if all then finish_getm bm l2_port lindex m l else noted)
     else Inr (True, l))"

text \<open>
  The responses copy a whole line of the message's data; shorter data is read out of bounds. The assertion on the miss register's
  state in a shared response tests a constant and never fails.
\<close>

definition handle_gets_resp :: "BusPortMapping \<Rightarrow> u32 \<Rightarrow> u64 \<Rightarrow> u32 \<Rightarrow> u8 list \<Rightarrow> L1 \<Rightarrow> l1_error + (bool \<times> L1)" where
  "handle_gets_resp bm l2_port lindex arg data l =
     (if \<not> send_room 2 l then Inr (False, l)
      else ebind (require MissRegAssert (mshr_get lindex (l1_mshrs l))) (\<lambda>m.
       ebind (check L1Crash (length data = CACHE_LINE_LEN_BYTE)) (\<lambda>_.
       let m' = m\<lparr>ms_line_buf := data\<rparr>;
           l1 = (if arg > 0 then l1_push_send_buf l2_port CHANNEL_ACK MSG_GET_ACK lindex (ucast (l1_port l)) l else l) in
       ebind (handle_new_line bm lindex m' (if arg > 0 then CC_SHARED else CC_EXCLUSIVE) (mshr_set lindex m' l1)) (\<lambda>l2. Inr (True, l2)))))"

definition handle_getm_resp :: "BusPortMapping \<Rightarrow> u32 \<Rightarrow> u64 \<Rightarrow> u32 \<Rightarrow> u8 list \<Rightarrow> L1 \<Rightarrow> l1_error + (bool \<times> L1)" where
  "handle_getm_resp bm l2_port lindex arg data l =
     ebind (require MissRegAssert (mshr_get lindex (l1_mshrs l))) (\<lambda>m.
     ebind (check MissStateAssert (ms_state m = MSHR_ITOM)) (\<lambda>_.
     if arg = 0 \<and> (get_ack_cnt_ready m = 0 \<or> need_invalid_ack m \<noteq> invalid_ack m)
     then ebind (check L1Crash (length data = CACHE_LINE_LEN_BYTE)) (\<lambda>_.
       Inr (True, mshr_set lindex (m\<lparr>ms_line_buf := data, get_data_ready := 1\<rparr>) l))
     else if \<not> send_room 2 l then Inr (False, l)
     else ebind (check L1Crash (length data = CACHE_LINE_LEN_BYTE)) (\<lambda>_.
       let m' = m\<lparr>ms_line_buf := data\<rparr>;
            l1 = (if arg = 0 then l1_push_send_buf l2_port CHANNEL_ACK MSG_GET_ACK lindex (ucast (l1_port l)) l else l) in
       ebind (handle_new_line bm lindex m' CC_MODIFIED (mshr_set lindex m' l1)) (\<lambda>l2. Inr (True, l2)))))"

definition handle_get_resp_mem :: "BusPortMapping \<Rightarrow> u32 \<Rightarrow> u64 \<Rightarrow> u8 list \<Rightarrow> L1 \<Rightarrow> l1_error + (bool \<times> L1)" where
  "handle_get_resp_mem bm l2_port lindex data l =
     (if \<not> send_room 2 l then Inr (False, l)
      else let l1 = l1_push_send_buf l2_port CHANNEL_ACK MSG_GET_ACK lindex (ucast (l1_port l)) l in
       ebind (require MissRegAssert (mshr_get lindex (l1_mshrs l1))) (\<lambda>m.
       ebind (check L1Crash (length data = CACHE_LINE_LEN_BYTE)) (\<lambda>_.
       let m' = m\<lparr>ms_line_buf := data\<rparr>; l2 = mshr_set lindex m' l1 in
       if ms_state m = MSHR_ITOM then ebind (handle_new_line bm lindex m' CC_MODIFIED l2) (\<lambda>l3. Inr (True, l3))
       else if ms_state m = MSHR_ITOS then ebind (handle_new_line bm lindex m' CC_EXCLUSIVE l2) (\<lambda>l3. Inr (True, l3))
       else Inl MissStateAssert)))"

definition handle_put_ack :: "u64 \<Rightarrow> L1 \<Rightarrow> l1_error + (bool \<times> L1)" where
  "handle_put_ack lindex l =
     ebind (require MissRegAssert (mshr_get lindex (l1_mshrs l))) (\<lambda>m.
     if ms_state m = MSHR_ITOI \<or> ms_state m = MSHR_MTOI \<or> ms_state m = MSHR_STOI \<or> ms_state m = MSHR_ETOI \<or> ms_state m = MSHR_OTOI
     then Inr (True, l\<lparr>l1_mshrs := mshr_remove lindex (l1_mshrs l)\<rparr>)
     else Inl MissStateAssert)"

definition l1_dispatch :: "BusPortMapping \<Rightarrow> u32 \<Rightarrow> CacheCohenrenceMsg \<Rightarrow> L1 \<Rightarrow> l1_error + (bool \<times> L1)" where
  "l1_dispatch bm l2_port msg l =
     (let lindex = mline msg; arg = marg msg; ty = mtype msg; data = take CACHE_LINE_LEN_BYTE (mdata msg) in
      if ty = MSG_INVALID then handle_invalid lindex arg l
      else if ty = MSG_INVALID_ACK then handle_invalid_ack bm l2_port lindex l
      else if ty = MSG_GETS_FORWARD then handle_gets_forward lindex arg l
      else if ty = MSG_GETM_FORWARD then handle_getm_forward lindex arg l
      else if ty = MSG_GETM_ACK then handle_getm_ack bm l2_port lindex arg l
      else if ty = MSG_GETS_RESP then handle_gets_resp bm l2_port lindex arg data l
      else if ty = MSG_GETM_RESP then handle_getm_resp bm l2_port lindex arg data l
      else if ty = MSG_GET_RESP_MEM then handle_get_resp_mem bm l2_port lindex data l
      else if ty = MSG_PUT_ACK then handle_put_ack lindex l
      else Inr (True, l))"

definition handle_received_msg :: "BusPortMapping \<Rightarrow> L1 \<Rightarrow> l1_error + L1" where
  "handle_received_msg bm l =
     (if \<not> has_recieved l \<or> has_processed l then Inr l
      else ebind (require HomePortAssert (get_homenode_port bm (mline (msgbuf l)))) (\<lambda>l2_port.
        ebind (l1_dispatch bm l2_port (msgbuf l) l) (\<lambda>(done, l'). Inr (if done then l'\<lparr>has_processed := True\<rparr> else l'))))"

section \<open>The tick\<close>

fun pass_times :: "nat \<Rightarrow> 'a tick_queue \<Rightarrow> 'a tick_queue \<Rightarrow> ('a tick_queue \<times> 'a tick_queue) option" where
  "pass_times 0 q q2 = Some (q, q2)"
| "pass_times (Suc n) q q2 = (case tq_pass_to 1 q q2 of None \<Rightarrow> None | Some (_, q', q2') \<Rightarrow> pass_times n q' q2')"

definition shift_stage :: "nat \<Rightarrow> nat \<Rightarrow> 'a tick_queue list option \<Rightarrow> 'a tick_queue list option" where
  "shift_stage width i qs =
     (case qs of None \<Rightarrow> None
      | Some qs \<Rightarrow> map_option (\<lambda>(q, q2). qs[i := q, Suc i := q2]) (pass_times width (qs ! i) (qs ! Suc i)))"

definition shift_queues :: "nat \<Rightarrow> 'a tick_queue list \<Rightarrow> 'a tick_queue list option" where
  "shift_queues width qs = fold (shift_stage width) [1..<length qs - 1] (Some qs)"

text \<open>The loop over the miscellaneous queue; the fuel is the number of operations that can be popped.\<close>

fun drain_misc :: "nat \<Rightarrow> CacheOP tick_queue \<Rightarrow> CacheOP tick_queue \<Rightarrow> l1_error + (CacheOP tick_queue \<times> CacheOP tick_queue)" where
  "drain_misc 0 q q2 = Inr (q, q2)"
| "drain_misc (Suc n) q q2 =
     ebind (require L1Crash (tq_top q)) (\<lambda>op.
     ebind (require L1Crash (tq_pass_to 1 (tq_set_top (op\<lparr>op_err := err_success\<rparr>) q) q2)) (\<lambda>(ok, q', q2').
     ebind (check PassAssert ok) (\<lambda>_. drain_misc n q' q2')))"

definition pass_first :: "CacheOP \<Rightarrow> CacheOP tick_queue list \<Rightarrow> l1_error + CacheOP tick_queue list" where
  "pass_first op qs =
     ebind (require L1Crash (tq_pass_to 1 (tq_set_top op (qs ! 0)) (qs ! 1))) (\<lambda>(ok, q, q2).
     ebind (check PassAssert ok) (\<lambda>_. Inr (qs[0 := q, 1 := q2])))"

fun l1_ops :: "nat \<Rightarrow> u64 \<Rightarrow> BusPortMapping \<Rightarrow> L1 \<Rightarrow> SymBus \<Rightarrow> l1_error + (L1 \<times> SymBus)" where
  "l1_ops 0 tick bm l b = Inr (l, b)"
| "l1_ops (Suc n) tick bm l b =
     (case tq_top (st_queues l ! 0) of
        Some op \<Rightarrow>
          ebind (l1_store tick bm (op_addr op) (op_len op) (op_data op) (op_valid op) l b) (\<lambda>(e, l1, b1).
          ebind (pass_first (op\<lparr>op_err := e\<rparr>) (st_queues l1)) (\<lambda>qs. l1_ops n tick bm (l1\<lparr>st_queues := qs\<rparr>) b1))
      | None \<Rightarrow>
     (case tq_top (ld_queues l ! 0) of
        Some op \<Rightarrow>
          ebind (l1_load tick bm (op_addr op) (op_len op) (op_data op) (op_valid op) l b) (\<lambda>(e, buf, l1, b1).
          ebind (pass_first (op\<lparr>op_err := e, op_data := buf\<rparr>) (ld_queues l1)) (\<lambda>qs. l1_ops n tick bm (l1\<lparr>ld_queues := qs\<rparr>) b1))
      | None \<Rightarrow>
     (case tq_top (amo_queues l ! 0) of
        Some op \<Rightarrow>
          ebind (l1_amo tick bm (op_addr op) (op_len op) (op_data op) (op_amo op) l b) (\<lambda>(e, buf, l1, b1).
          ebind (pass_first (op\<lparr>op_err := e, op_data := buf\<rparr>) (amo_queues l1)) (\<lambda>qs. l1_ops n tick bm (l1\<lparr>amo_queues := qs\<rparr>) b1))
      | None \<Rightarrow> Inr (l, b))))"

definition l1_on_current_tick :: "u64 \<Rightarrow> BusPortMapping \<Rightarrow> L1 \<Rightarrow> SymBus \<Rightarrow> l1_error + (L1 \<times> SymBus)" where
  "l1_on_current_tick tick bm l b =
     ebind (require L1Crash (shift_queues (unat (query_width l)) (ld_queues l))) (\<lambda>ld.
     ebind (require L1Crash (shift_queues (unat (query_width l)) (st_queues l))) (\<lambda>st.
     ebind (require L1Crash (shift_queues (unat (query_width l)) (amo_queues l))) (\<lambda>am.
     ebind (drain_misc (tq_can_pop (hd (misc_queues l))) (hd (misc_queues l)) (last (misc_queues l))) (\<lambda>(mi, mo).
     let l1 = l\<lparr>ld_queues := ld, st_queues := st, amo_queues := am,
                misc_queues := (misc_queues l)[0 := mi, length (misc_queues l) - 1 := mo]\<rparr> in
     ebind (recieve_msg tick l1 b) (\<lambda>(l2, b2).
     ebind (if has_recieved l2 then handle_received_msg bm l2 else Inr l2) (\<lambda>l3.
     ebind (l1_ops (unat (query_width l) - (if has_recieved l2 then 1 else 0)) tick bm l3 b2) (\<lambda>(l4, b4).
     send_msg tick l4 b4)))))))"

definition l1_apply_next_tick :: "L1 \<Rightarrow> L1" where
  "l1_apply_next_tick l =
     (let l1 = (if has_recieved l \<and> has_processed l then l\<lparr>has_recieved := False, has_processed := False\<rparr> else l) in
      l1\<lparr>ld_queues := map tq_apply_next_tick (ld_queues l), st_queues := map tq_apply_next_tick (st_queues l),
         amo_queues := map tq_apply_next_tick (amo_queues l), misc_queues := map tq_apply_next_tick (misc_queues l),
         arrivals := newlines l, newlines := []\<rparr>)"

definition l1_is_empty :: "L1 \<Rightarrow> bool" where
  "l1_is_empty l \<longleftrightarrow> list_all tq_empty (ld_queues l) \<and> list_all tq_empty (st_queues l)
     \<and> list_all tq_empty (amo_queues l) \<and> list_all tq_empty (misc_queues l)"

definition arrival_line :: "L1 \<Rightarrow> ArrivalLine list option \<Rightarrow> nat \<times> ArrivalLine list option" where
  "arrival_line l out = (length (arrivals l), map_option (\<lambda>xs. xs @ arrivals l) out)"

fun clear_queues :: "'a list \<Rightarrow> 'a tick_queue list \<Rightarrow> ('a list \<times> 'a tick_queue list) option" where
  "clear_queues to_free [] = Some (to_free, [])"
| "clear_queues to_free (q # qs) =
     (case tq_clear to_free q of None \<Rightarrow> None
      | Some (out, q') \<Rightarrow> map_option (\<lambda>(out', qs'). (out', q' # qs')) (clear_queues out qs))"

definition clear_ld :: "CacheOP list \<Rightarrow> L1 \<Rightarrow> (CacheOP list \<times> L1) option" where
  "clear_ld to_free l = map_option (\<lambda>(out, qs). (out, l\<lparr>ld_queues := qs\<rparr>)) (clear_queues to_free (ld_queues l))"

definition clear_st :: "CacheOP list \<Rightarrow> L1 \<Rightarrow> (CacheOP list \<times> L1) option" where
  "clear_st to_free l = map_option (\<lambda>(out, qs). (out, l\<lparr>st_queues := qs\<rparr>)) (clear_queues to_free (st_queues l))"

definition clear_amo :: "CacheOP list \<Rightarrow> L1 \<Rightarrow> (CacheOP list \<times> L1) option" where
  "clear_amo to_free l = map_option (\<lambda>(out, qs). (out, l\<lparr>amo_queues := qs\<rparr>)) (clear_queues to_free (amo_queues l))"

definition clear_misc :: "CacheOP list \<Rightarrow> L1 \<Rightarrow> (CacheOP list \<times> L1) option" where
  "clear_misc to_free l = map_option (\<lambda>(out, qs). (out, l\<lparr>misc_queues := qs\<rparr>)) (clear_queues to_free (misc_queues l))"

end
