(* ===== verification/L1Proofs.thy ===== *)
theory L1Proofs
  imports MoesiL1 LLCProofs
begin

text \<open>
  What the private cache of \<^verbatim>\<open>MoesiL1\<close> guarantees: a line is in the block or in a miss register and never in both, no
  operation disturbs the contents of another line, a write miss completes exactly with its last message, and loads, stores and forwards
  work on the same contents.
\<close>

section \<open>Block and miss registers\<close>

definition line_states :: "u32 set" where
  "line_states = {CC_EXCLUSIVE, CC_SHARED, CC_MODIFIED, CC_OWNED}"

definition core_ok :: "TagedCacheLine CacheBlock \<Rightarrow> MSHREntry MSHRArray \<Rightarrow> bool" where
  "core_ok blk ms \<longleftrightarrow> cb_ok blk \<and> distinct (map fst (hashmap ms)) \<and> length (hashmap ms) \<le> unat (max_sz ms)
     \<and> (\<forall>k. cb_lookup blk k = None \<or> mshr_get k ms = None)
     \<and> (\<forall>k p. cb_lookup blk k = Some p \<longrightarrow> tl_state p \<in> line_states)"

definition l1_ok :: "L1 \<Rightarrow> bool" where
  "l1_ok l \<longleftrightarrow> core_ok (l1_block l) (l1_mshrs l) \<and> send_room 0 l"

text \<open>The contents of a line as the cache holds it: in the block, or in a miss register that still answers for the line.\<close>

definition line_view :: "TagedCacheLine CacheBlock \<Rightarrow> MSHREntry MSHRArray \<Rightarrow> u64 \<Rightarrow> u8 list option" where
  "line_view blk ms k = (case cb_lookup blk k of Some p \<Rightarrow> Some (tl_data p)
     | None \<Rightarrow> (case mshr_get k ms of None \<Rightarrow> None | Some m \<Rightarrow> if mshr_handle (ms_state m) then Some (ms_line_buf m) else None))"

definition l1_view :: "L1 \<Rightarrow> u64 \<Rightarrow> u8 list option" where
  "l1_view l = line_view (l1_block l) (l1_mshrs l)"

lemma core_okD:
  assumes "core_ok blk ms"
  shows "cb_ok blk" and "cb_inv blk" and "cb_lookup blk k = None \<or> mshr_get k ms = None"
    and "cb_lookup blk k = Some p \<Longrightarrow> tl_state p \<in> line_states" and "mshr_get k ms \<noteq> None \<Longrightarrow> cb_lookup blk k = None"
    and "cb_lookup blk k \<noteq> None \<Longrightarrow> mshr_get k ms = None"
proof -
  have u: "\<forall>k. cb_lookup blk k = None \<or> mshr_get k ms = None" "\<forall>k p. cb_lookup blk k = Some p \<longrightarrow> tl_state p \<in> line_states"
    using assms by (simp_all add: core_ok_def)
  show "cb_ok blk" "cb_inv blk" using assms by (simp_all add: core_ok_def cb_ok_def)
  show "cb_lookup blk k = None \<or> mshr_get k ms = None" using u(1) by (rule spec)
  then show "mshr_get k ms \<noteq> None \<Longrightarrow> cb_lookup blk k = None" and "cb_lookup blk k \<noteq> None \<Longrightarrow> mshr_get k ms = None" by auto
  show "cb_lookup blk k = Some p \<Longrightarrow> tl_state p \<in> line_states" using u(2) by blast
qed

text \<open>Seen from outside, an operation on the miss registers is an update of a map.\<close>

lemma mshr_get_update [cache_simps]: "mshr_get k (ms\<lparr>hashmap := AList.update j m (hashmap ms)\<rparr>) = ((\<lambda>k. mshr_get k ms)(j \<mapsto> m)) k"
  by (simp add: mshr_get_def update_conv')

lemma mshr_get_remove [cache_simps]: "distinct (map fst (hashmap ms)) \<Longrightarrow> mshr_get k (mshr_remove j ms) = ((\<lambda>k. mshr_get k ms)(j := None)) k"
  by (simp add: mshr_get_def mshr_remove_def delete_conv')

lemma mshr_get_alloc [cache_simps]:
  "mshr_alloc m j ms = (True, ms') \<Longrightarrow> mshr_get k ms' = ((\<lambda>k. mshr_get k ms)(j \<mapsto> m)) k"
  by (auto simp: mshr_get_def mshr_alloc_def split: if_splits)

lemma length_delete_found: "map_of xs k \<noteq> None \<Longrightarrow> length (AList.delete k xs) < length xs"
proof (induction xs)
  case (Cons x xs)
  then show ?case using length_delete_le [of k xs] by (cases x) (auto simp: less_Suc_eq_le)
qed simp

lemma core_ok_touch: "core_ok blk ms \<Longrightarrow> cb_lookup blk k \<noteq> None \<Longrightarrow> core_ok (tag_lru k blk) ms"
  using cb.touch_inv [of blk k] cb.touch_lookup [of blk k] unfolding core_ok_def by simp

lemma core_ok_payload:
  "core_ok blk ms \<Longrightarrow> cb_lookup blk k \<noteq> None \<Longrightarrow> tl_state p \<in> line_states \<Longrightarrow> core_ok (set_payload k p blk) ms"
  using set_payload_ok [of blk k p] set_payload_lookup [of blk k p] core_okD(6) [of blk ms k] unfolding core_ok_def cb_ok_def by auto

lemma core_ok_remove_line: "core_ok blk ms \<Longrightarrow> core_ok (remove_line k blk) ms"
  using remove_line_ok [of blk k] remove_line_lookup [of blk k] unfolding core_ok_def cb_ok_def by auto

lemma core_ok_update:
  assumes "core_ok blk ms" and "mshr_get k ms \<noteq> None"
  shows "core_ok blk (ms\<lparr>hashmap := AList.update k m (hashmap ms)\<rparr>)"
proof -
  have "k \<in> fst ` set (hashmap ms)" using assms(2) by (simp add: mshr_get_def map_of_eq_None_iff)
  then have "map fst (AList.update k m (hashmap ms)) = map fst (hashmap ms)" by (simp add: update_keys)
  then have "length (AList.update k m (hashmap ms)) = length (hashmap ms)" by (metis length_map)
  then show ?thesis using assms core_okD(5) [OF assms] distinct_update [of "hashmap ms" k m]
    unfolding core_ok_def by (auto simp: cache_simps)
qed

lemma core_ok_remove: "core_ok blk ms \<Longrightarrow> core_ok blk (mshr_remove k ms)"
proof -
  assume ok: "core_ok blk ms"
  have "length (AList.delete k (hashmap ms)) \<le> length (hashmap ms)" by (rule length_delete_le)
  then have "length (hashmap (mshr_remove k ms)) \<le> unat (max_sz (mshr_remove k ms))" "distinct (map fst (hashmap (mshr_remove k ms)))"
    using ok distinct_delete [of "hashmap ms" k] by (simp_all add: core_ok_def mshr_remove_def)
  then show ?thesis using ok by (auto simp: core_ok_def mshr_get_remove)
qed

lemma core_ok_alloc:
  assumes ok: "core_ok blk ms" and k: "cb_lookup blk k = None" and a: "mshr_alloc m k ms = (True, ms')"
  shows "core_ok blk ms'"
proof -
  have "distinct (map fst (hashmap ms'))" "length (hashmap ms') \<le> unat (max_sz ms')"
    using ok a by (auto simp: core_ok_def mshr_alloc_def map_of_eq_None_iff split: if_splits)
  moreover have "cb_lookup blk j = None \<or> mshr_get j ms' = None" for j
    using core_okD(3) [OF ok, of j] k by (auto simp: mshr_get_alloc [OF a])
  ultimately show ?thesis using ok by (simp add: core_ok_def)
qed

lemma view_touch: "core_ok blk ms \<Longrightarrow> line_view (tag_lru k blk) ms = line_view blk ms"
  by (rule ext) (simp add: line_view_def cb.touch_lookup core_okD(1))

lemma view_payload: "core_ok blk ms \<Longrightarrow> line_view (set_payload k p blk) ms = (line_view blk ms)(k \<mapsto> tl_data p)"
  by (rule ext) (simp add: line_view_def set_payload_lookup core_okD(2))

lemma view_remove_line: "core_ok blk ms \<Longrightarrow> cb_lookup blk k \<noteq> None \<Longrightarrow> line_view (remove_line k blk) ms = (line_view blk ms)(k := None)"
  by (rule ext) (auto simp: line_view_def remove_line_lookup core_okD(2) core_okD(6) split: option.split)

lemma view_update:
  "core_ok blk ms \<Longrightarrow> mshr_get k ms \<noteq> None \<Longrightarrow>
   line_view blk (ms\<lparr>hashmap := AList.update k m (hashmap ms)\<rparr>) = (line_view blk ms)(k := if mshr_handle (ms_state m) then Some (ms_line_buf m) else None)"
  by (rule ext) (auto simp: line_view_def cache_simps core_okD(5) split: option.split)

lemma view_alloc:
  "cb_lookup blk k = None \<Longrightarrow> mshr_alloc m k ms = (True, ms') \<Longrightarrow>
   line_view blk ms' = (line_view blk ms)(k := if mshr_handle (ms_state m) then Some (ms_line_buf m) else None)"
  by (rule ext) (auto simp: line_view_def mshr_get_alloc split: option.split)

lemma view_remove:
  assumes ok: "core_ok blk ms" and k: "cb_lookup blk k = None"
  shows "line_view blk (mshr_remove k ms) = (line_view blk ms)(k := None)"
proof -
  have "distinct (map fst (hashmap ms))" using ok by (simp add: core_ok_def)
  from mshr_get_remove [OF this] k show ?thesis by (auto simp: line_view_def fun_eq_iff split: option.split)
qed

text \<open>A line that waits in a miss register moves into the block; the line it displaces moves into a miss register.\<close>

lemma install_keep:
  assumes ok: "core_ok blk ms" and w: "mshr_get k ms \<noteq> None" and st: "tl_state p \<in> line_states"
    and ins: "insert_line k p blk = Some (None, blk')"
  shows "core_ok blk' (mshr_remove k ms)" and "line_view blk' (mshr_remove k ms) = (line_view blk ms)(k \<mapsto> tl_data p)"
proof -
  note lk = cb.insert_keep [OF core_okD(1) [OF ok] ins] and ok' = core_ok_remove [OF ok, of k]
  have d: "distinct (map fst (hashmap ms))" using ok by (simp add: core_ok_def)
  show "core_ok blk' (mshr_remove k ms)"
    using ok' st cb.insert_inv [OF core_okD(1) [OF ok] ins] unfolding core_ok_def by (auto simp: lk mshr_get_remove [OF d])
  show "line_view blk' (mshr_remove k ms) = (line_view blk ms)(k \<mapsto> tl_data p)"
    by (rule ext) (simp add: line_view_def lk mshr_get_remove [OF d] split: option.split)
qed

lemma install_evict:
  assumes ok: "core_ok blk ms" and w: "mshr_get k ms \<noteq> None" and st: "tl_state p \<in> line_states"
    and ins: "insert_line k p blk = Some (Some (v, q), blk')"
  shows "v \<noteq> k" and "tl_state q \<in> line_states" and "\<exists>ms'. mshr_alloc m v (mshr_remove k ms) = (True, ms')"
    and "mshr_alloc m v (mshr_remove k ms) = (True, ms') \<Longrightarrow> core_ok blk' ms'"
    and "mshr_alloc m v (mshr_remove k ms) = (True, ms') \<Longrightarrow> mshr_handle (ms_state m) \<Longrightarrow> ms_line_buf m = tl_data q \<Longrightarrow>
      line_view blk' ms' = (line_view blk ms)(k \<mapsto> tl_data p)"
proof -
  note lk = cb.insert_evict [OF core_okD(1) [OF ok] ins]
  have e: "v \<noteq> k" "cb_lookup blk v = Some q" "cb_lookup blk' = (cb_lookup blk)(v := None, k \<mapsto> p)" using lk by blast+
  have d: "distinct (map fst (hashmap ms))" and len: "length (hashmap ms) \<le> unat (max_sz ms)" using ok by (simp_all add: core_ok_def)
  have nv: "mshr_get v ms = None" using core_okD(3) [OF ok, of v] e(2) by simp
  show "v \<noteq> k" by (fact e)
  show "tl_state q \<in> line_states" using core_okD(4) [OF ok e(2)] .
  have "length (AList.delete k (hashmap ms)) < length (hashmap ms)"
    using w by (intro length_delete_found) (simp add: mshr_get_def)
  moreover have "mshr_get v (mshr_remove k ms) = None" using nv by (simp add: mshr_get_remove [OF d])
  ultimately show "\<exists>ms'. mshr_alloc m v (mshr_remove k ms) = (True, ms')"
    using len by (simp add: mshr_alloc_def mshr_get_def mshr_remove_def)
  note ok1 = core_ok_remove [OF ok, of k]
  have ok2: "core_ok blk' (mshr_remove k ms)"
    using ok1 st cb.insert_inv [OF core_okD(1) [OF ok] ins] unfolding core_ok_def by (auto simp: e(3) mshr_get_remove [OF d])
  have v': "cb_lookup blk' v = None" using e by simp
  assume a: "mshr_alloc m v (mshr_remove k ms) = (True, ms')"
  show "core_ok blk' ms'" by (rule core_ok_alloc [OF ok2 v' a])
  assume h: "mshr_handle (ms_state m)" "ms_line_buf m = tl_data q"
  show "line_view blk' ms' = (line_view blk ms)(k \<mapsto> tl_data p)"
    unfolding view_alloc [OF v' a] using e h by (intro ext) (auto simp: line_view_def mshr_get_remove [OF d] split: option.split)
qed

section \<open>Steps that keep the cache in order\<close>

text \<open>
  A computation is in order when it does not fail one of the three assertions about where a line is, and its result satisfies a predicate.
\<close>

definition l1_safe :: "('a \<Rightarrow> bool) \<Rightarrow> l1_error + 'a \<Rightarrow> bool" where
  "l1_safe P r = (case r of Inl e \<Rightarrow> e \<noteq> BothPlacesAssert \<and> e \<noteq> AllocAssert \<and> e \<noteq> LineStateAssert | Inr x \<Rightarrow> P x)"

lemma l1_safe_simps [simp]:
  "l1_safe P (Inr x) = P x" "l1_safe P (Inl e) = (e \<noteq> BothPlacesAssert \<and> e \<noteq> AllocAssert \<and> e \<noteq> LineStateAssert)"
  by (simp_all add: l1_safe_def)

lemma l1_safe_bind: "l1_safe P m \<Longrightarrow> (\<And>x. P x \<Longrightarrow> l1_safe Q (f x)) \<Longrightarrow> l1_safe Q (ebind m f)"
  by (cases m) simp_all

lemma l1_safe_require:
  "e \<noteq> BothPlacesAssert \<Longrightarrow> e \<noteq> AllocAssert \<Longrightarrow> e \<noteq> LineStateAssert \<Longrightarrow> l1_safe (\<lambda>x. o' = Some x) (require e o')"
  by (cases o') simp_all

lemma l1_safe_check:
  "e \<noteq> BothPlacesAssert \<Longrightarrow> e \<noteq> AllocAssert \<Longrightarrow> e \<noteq> LineStateAssert \<Longrightarrow> l1_safe (\<lambda>_. c) (check e c)"
  by (cases c) simp_all

lemma l1_safe_mono: "l1_safe P m \<Longrightarrow> (\<And>x. P x \<Longrightarrow> Q x) \<Longrightarrow> l1_safe Q m"
  by (cases m) simp_all

lemma l1_safe_result: "l1_safe P m \<Longrightarrow> m = Inr x \<Longrightarrow> P x"
  by simp

text \<open>A step on behalf of a line sends at most \<open>n\<close> messages, and changes the contents of that line only, to \<open>v\<close>.\<close>

definition l1_step_ok :: "nat \<Rightarrow> u64 \<Rightarrow> u8 list option \<Rightarrow> L1 \<Rightarrow> L1 \<Rightarrow> bool" where
  "l1_step_ok n k v l l' \<longleftrightarrow> core_ok (l1_block l') (l1_mshrs l') \<and> length (l1_send_buf l') \<le> length (l1_send_buf l) + n
     \<and> l1_send_buf_size l' = l1_send_buf_size l \<and> max_sz (l1_mshrs l') = max_sz (l1_mshrs l) \<and> l1_view l' = (l1_view l)(k := v)"

lemma l1_step_trans: "l1_step_ok n k v l l1 \<Longrightarrow> l1_step_ok m k w l1 l2 \<Longrightarrow> l1_step_ok (n + m) k w l l2"
  by (auto simp: l1_step_ok_def)

lemma l1_step_core: "l1_step_ok n k v l l' \<Longrightarrow> core_ok (l1_block l') (l1_mshrs l')"
  by (simp add: l1_step_ok_def)

lemma l1_step_ok_done: "l1_step_ok n k v l l' \<Longrightarrow> send_room n l \<Longrightarrow> l1_ok l'"
  by (simp add: l1_step_ok_def l1_ok_def send_room_def)

lemmas push_defs = l1_push_send_buf_def l1_push_send_buf_with_line_def

lemma step_push:
  assumes "core_ok (l1_block l) (l1_mshrs l)" and "v = l1_view l k"
  shows "l1_step_ok 1 k v l (l1_push_send_buf dst ch ty line arg l)"
    and "l1_step_ok 1 k v l (l1_push_send_buf_with_line dst ch ty line arg buf l)"
  using assms by (simp_all add: l1_step_ok_def push_defs l1_view_def)

lemma step_mshr_set:
  assumes "core_ok (l1_block l) (l1_mshrs l)" and "mshr_get k (l1_mshrs l) \<noteq> None"
    and "v = (if mshr_handle (ms_state m) then Some (ms_line_buf m) else None)"
  shows "l1_step_ok 0 k v l (mshr_set k m l)"
  using core_ok_update [OF assms(1,2), of m] view_update [OF assms(1,2), of m] assms(3)
  by (simp add: l1_step_ok_def mshr_set_def l1_view_def)

lemma put_message_line_states:
  assumes "st \<in> line_states"
  shows "\<exists>ms ty wd. put_message st = Some (ms, ty, wd) \<and> mshr_handle ms"
  using assms by (auto simp: line_states_def put_message_def mshr_handle_def)

lemma handle_new_line_safe:
  assumes ok: "core_ok (l1_block l) (l1_mshrs l)" and w: "mshr_get k (l1_mshrs l) \<noteq> None" and st: "st \<in> line_states"
  shows "l1_safe (\<lambda>l'. l1_step_ok 1 k (Some (ms_line_buf m)) l l' \<and> mshr_get k (l1_mshrs l') = None
    \<and> cb_lookup (l1_block l') k = Some \<lparr>tl_data = ms_line_buf m, tl_state = st\<rparr>
    \<and> (\<exists>sent. l1_send_buf l' = l1_send_buf l @ sent)) (handle_new_line bm k m st l)"
proof -
  let ?p = "\<lparr>tl_data = ms_line_buf m, tl_state = st\<rparr>"
  have stp: "tl_state ?p \<in> line_states" using st by simp
  obtain ev blk where ins: "insert_line k ?p (l1_block l) = Some (ev, blk)" and at: "cb_lookup blk k = Some ?p"
    using cb.insert_stores [OF core_okD(1) [OF ok]] by blast
  have d: "distinct (map fst (hashmap (l1_mshrs l)))" using ok by (simp add: core_ok_def)
  show ?thesis
  proof (cases ev)
    case None
    note i = install_keep [OF ok w stp ins [unfolded None]]
    show ?thesis
      unfolding handle_new_line_def ins None
      using i at by (cases "get_homenode_port bm k") (simp_all add: l1_step_ok_def l1_view_def mshr_get_remove [OF d], simp add: mshr_remove_def)
  next
    case (Some vq)
    obtain v q where vq: "ev = Some (v, q)" using Some by (cases vq) simp
    note i = install_evict [OF ok w stp ins [unfolded vq]]
    obtain ms ty wd where pm: "put_message (tl_state q) = Some (ms, ty, wd)" and h: "mshr_handle ms"
      using put_message_line_states [OF i(2)] by blast
    let ?m = "zero_mshr\<lparr>ms_line_buf := tl_data q, ms_state := ms\<rparr>"
    obtain ms' where a: "mshr_alloc ?m v (mshr_remove k (l1_mshrs l)) = (True, ms')" using i(3) by blast
    obtain ms0 where a0: "mshr_alloc zero_mshr v (mshr_remove k (l1_mshrs l)) = (True, ms0)" using i(3) by blast
    have c: "core_ok blk ms'" by (rule i(4) [OF a])
    have vw: "line_view blk ms' = (line_view (l1_block l) (l1_mshrs l))(k \<mapsto> tl_data ?p)" by (rule i(5) [OF a]) (use h in simp_all)
    have mx: "max_sz ms' = max_sz (l1_mshrs l)" using a by (auto simp: mshr_alloc_def mshr_remove_def split: if_splits)
    have nk: "mshr_get k ms' = None" using core_okD(6) [OF c, of k] at by simp
    show ?thesis
    proof (cases "get_homenode_port bm k = None \<or> get_homenode_port bm v = None")
      case True
      then show ?thesis unfolding handle_new_line_def ins vq by (cases "get_homenode_port bm k") (auto simp: a0)
    next
      case False
      then obtain hp hv where "get_homenode_port bm k = Some hp" "get_homenode_port bm v = Some hv" by auto
      then show ?thesis
        unfolding handle_new_line_def ins vq using c vw mx nk at
        by (cases wd) (simp_all add: a0 a pm l1_step_ok_def push_defs l1_view_def Let_def)
    qed
  qed
qed

section \<open>Messages\<close>

text \<open>What handling a message for line \<open>k\<close> may do: wait, or finish with the contents of the line in \<open>V\<close>.\<close>

definition l1_post :: "u64 \<Rightarrow> u8 list option set \<Rightarrow> L1 \<Rightarrow> bool \<times> L1 \<Rightarrow> bool" where
  "l1_post k V l r \<longleftrightarrow> l1_ok (snd r) \<and> l1_send_buf_size (snd r) = l1_send_buf_size l \<and> max_sz (l1_mshrs (snd r)) = max_sz (l1_mshrs l)
     \<and> (if fst r then \<exists>v\<in>V. l1_view (snd r) = (l1_view l)(k := v) else snd r = l)"

lemma l1_post_wait [simp]: "l1_ok l \<Longrightarrow> l1_post k V l (False, l)"
  by (simp add: l1_post_def)

lemma l1_post_same [simp]: "l1_ok l \<Longrightarrow> l1_view l k \<in> V \<Longrightarrow> l1_post k V l (True, l)"
  unfolding l1_post_def by (auto intro: bexI [where x = "l1_view l k"])

lemma l1_post_step: "l1_step_ok n k v l l' \<Longrightarrow> send_room n l \<Longrightarrow> v \<in> V \<Longrightarrow> l1_post k V l (True, l')"
  using l1_step_ok_done [of n k v l l'] by (auto simp: l1_post_def l1_step_ok_def)

lemma l1_okD: "l1_ok l \<Longrightarrow> core_ok (l1_block l) (l1_mshrs l)" "l1_ok l \<Longrightarrow> send_room 0 l"
  by (simp_all add: l1_ok_def)

lemma mshr_view: "core_ok (l1_block l) (l1_mshrs l) \<Longrightarrow> mshr_get k (l1_mshrs l) = Some m \<Longrightarrow>
   l1_view l k = (if mshr_handle (ms_state m) then Some (ms_line_buf m) else None)"
  using core_okD(5) [of "l1_block l" "l1_mshrs l" k] by (simp add: l1_view_def line_view_def)

lemma block_view: "cb_lookup (l1_block l) k = Some p \<Longrightarrow> l1_view l k = Some (tl_data p)"
  by (simp add: l1_view_def line_view_def)

lemma push_core [simp]:
  "l1_block (l1_push_send_buf dst ch ty line arg l) = l1_block l" "l1_mshrs (l1_push_send_buf dst ch ty line arg l) = l1_mshrs l"
  "l1_block (l1_push_send_buf_with_line dst ch ty line arg buf l) = l1_block l" "l1_mshrs (l1_push_send_buf_with_line dst ch ty line arg buf l) = l1_mshrs l"
  by (simp_all add: push_defs)

lemma mshr_set_core [simp]: "l1_block (mshr_set k m l) = l1_block l" "mshr_get j (l1_mshrs (mshr_set k m l)) = (if j = k then Some m else mshr_get j (l1_mshrs l))"
  by (simp_all add: mshr_set_def cache_simps)

lemmas mshr_states = MSHR_ITOI_def MSHR_ITOS_def MSHR_ITOM_def MSHR_STOM_def MSHR_MTOI_def MSHR_STOI_def MSHR_ETOI_def MSHR_OTOM_def MSHR_OTOI_def

lemma mshr_handle_simps [simp]: "\<not> mshr_handle MSHR_ITOI" "\<not> mshr_handle MSHR_ITOS" "\<not> mshr_handle MSHR_ITOM"
  "mshr_handle MSHR_STOM" "mshr_handle MSHR_MTOI" "mshr_handle MSHR_STOI" "mshr_handle MSHR_ETOI" "mshr_handle MSHR_OTOM" "mshr_handle MSHR_OTOI"
  by (simp_all add: mshr_handle_def mshr_states)

lemma line_states_simps [simp]: "CC_EXCLUSIVE \<in> line_states" "CC_SHARED \<in> line_states" "CC_MODIFIED \<in> line_states" "CC_OWNED \<in> line_states"
  by (simp_all add: line_states_def)

text \<open>Fields other than block, miss registers and send buffer do not matter.\<close>

lemma l1_step_other [simp]:
  "l1_step_ok n k v l (l'\<lparr>reserved_address_valid := r\<rparr>) = l1_step_ok n k v l l'"
  by (simp add: l1_step_ok_def l1_view_def)

lemma step_remove_line:
  assumes "core_ok (l1_block l) (l1_mshrs l)"
  shows "l1_step_ok 0 k (if cb_lookup (l1_block l) k = None then l1_view l k else None) l (l\<lparr>l1_block := remove_line k (l1_block l)\<rparr>)"
proof (cases "cb_lookup (l1_block l) k")
  case None
  then have "cb_lookup (remove_line k (l1_block l)) = cb_lookup (l1_block l)"
    using remove_line_lookup [OF core_okD(2) [OF assms]] by (simp add: fun_upd_idem)
  then have "line_view (remove_line k (l1_block l)) (l1_mshrs l) = line_view (l1_block l) (l1_mshrs l)"
    by (simp add: line_view_def fun_eq_iff)
  then show ?thesis using None core_ok_remove_line [OF assms, of k] by (simp add: l1_step_ok_def l1_view_def)
next
  case Some
  then show ?thesis using core_ok_remove_line [OF assms, of k] view_remove_line [OF assms, of k] by (simp add: l1_step_ok_def l1_view_def)
qed

lemma handle_invalid_safe:
  assumes "l1_ok l"
  shows "l1_safe (l1_post k {None} l) (handle_invalid k arg l)"
proof (cases "send_room 1 l")
  case False
  then show ?thesis using assms by (simp add: handle_invalid_def)
next
  case room: True
  let ?l0 = "l1_push_send_buf arg CHANNEL_ACK MSG_INVALID_ACK k 0 l"
  let ?l1 = "?l0\<lparr>l1_block := remove_line k (l1_block ?l0)\<rparr>"
  have c: "core_ok (l1_block l) (l1_mshrs l)" using assms by (rule l1_okD)
  have s1: "l1_step_ok (1 + 0) k (if cb_lookup (l1_block ?l0) k = None then l1_view ?l0 k else None) l ?l1"
    by (rule l1_step_trans [OF step_push(1) step_remove_line]) (use c in simp_all)
  show ?thesis
  proof (cases "mshr_get k (l1_mshrs l)")
    case None
    then have "(if cb_lookup (l1_block ?l0) k = None then l1_view ?l0 k else None) = None" by (simp add: l1_view_def line_view_def)
    with s1 have "l1_step_ok 1 k None l ?l1" by simp
    then have "l1_post k {None} l (True, ?l1\<lparr>reserved_address_valid := r\<rparr>)" for r by (intro l1_post_step [OF _ room]) simp_all
    from this [of False] this [of "reserved_address_valid ?l1"] show ?thesis using room None by (auto simp: handle_invalid_def push_defs Let_def)
  next
    case (Some m)
    have "l1_step_ok (1 + 0 + 0) k None l (mshr_set k (m\<lparr>ms_state := st\<rparr>) ?l1)" if "\<not> mshr_handle st" for st
      by (rule l1_step_trans [OF s1 step_mshr_set]) (use that l1_step_core [OF s1] Some in simp_all)
    then have p: "l1_post k {None} l (True, (mshr_set k (m\<lparr>ms_state := st\<rparr>) ?l1)\<lparr>reserved_address_valid := r\<rparr>)" if "\<not> mshr_handle st" for st r
      by (intro l1_post_step [OF _ room]) (use that in simp_all)
    from p [of _ False] p [of _ "reserved_address_valid ?l1"] show ?thesis
      using room Some by (auto simp: handle_invalid_def push_defs mshr_set_def Let_def)
  qed
qed

lemma finish_getm_safe:
  assumes "l1_ok l" and "mshr_get k (l1_mshrs l) \<noteq> None" and "Some (ms_line_buf m) \<in> V"
  shows "l1_safe (l1_post k V l) (finish_getm bm port k m l)"
proof (cases "send_room 2 l")
  case room: True
  let ?l1 = "l1_push_send_buf port CHANNEL_ACK MSG_GET_ACK k (ucast (l1_port l)) l"
  have s1: "l1_step_ok 1 k (l1_view l k) l ?l1" by (rule step_push) (use l1_okD [OF assms(1)] in simp_all)
  have "l1_safe (\<lambda>l'. l1_step_ok 1 k (Some (ms_line_buf m)) ?l1 l') (handle_new_line bm k m CC_MODIFIED ?l1)"
    by (rule l1_safe_mono [OF handle_new_line_safe]) (use l1_step_core [OF s1] assms(2) in simp_all)
  then show ?thesis using room assms(3) l1_step_trans [OF s1]
    unfolding finish_getm_def by (auto intro!: l1_safe_bind l1_post_step [of 2] simp: numeral_2_eq_2)
qed (use assms in \<open>simp add: finish_getm_def\<close>)

text \<open>Counting in a miss register that still waits leaves the contents of the line as they are.\<close>

lemma post_mshr_set:
  assumes "l1_ok l" and "mshr_get k (l1_mshrs l) \<noteq> None" and "(if mshr_handle (ms_state m) then Some (ms_line_buf m) else None) \<in> V"
  shows "l1_post k V l (True, mshr_set k m l)"
  by (rule l1_post_step [OF step_mshr_set, where V = V]) (use assms l1_okD in auto)

lemma handle_invalid_ack_safe:
  assumes "l1_ok l"
  shows "l1_safe (l1_post k {l1_view l k, map_option ms_line_buf (mshr_get k (l1_mshrs l))} l) (handle_invalid_ack bm port k l)"
proof (cases "mshr_get k (l1_mshrs l)")
  case (Some m)
  note v = mshr_view [OF l1_okD(1) [OF assms] Some]
  show ?thesis
    unfolding handle_invalid_ack_def Some require_simps ebind_simps Let_def
    by (auto intro!: finish_getm_safe post_mshr_set simp: assms Some v)
qed (simp add: handle_invalid_ack_def)

lemma handle_getm_ack_safe:
  assumes "l1_ok l"
  shows "l1_safe (l1_post k {l1_view l k, map_option ms_line_buf (mshr_get k (l1_mshrs l))} l) (handle_getm_ack bm port k arg l)"
proof (cases "mshr_get k (l1_mshrs l)")
  case (Some m)
  note v = mshr_view [OF l1_okD(1) [OF assms] Some]
  show ?thesis
    unfolding handle_getm_ack_def Some require_simps ebind_simps Let_def
    by (auto intro!: finish_getm_safe post_mshr_set simp: assms Some v)
qed (simp add: handle_getm_ack_def)

text \<open>A forward is answered from one of the two places, never from both.\<close>

lemma held_cases:
  assumes "core_ok (l1_block l) (l1_mshrs l)"
  obtains (block) p where "cb_lookup (l1_block l) k = Some p" "mshr_get k (l1_mshrs l) = None" "l1_view l k = Some (tl_data p)"
  | (register) m where "cb_lookup (l1_block l) k = None" "mshr_get k (l1_mshrs l) = Some m" "mshr_handle (ms_state m)" "l1_view l k = Some (ms_line_buf m)"
  | (nowhere) "cb_lookup (l1_block l) k = None" "\<not> (case mshr_get k (l1_mshrs l) of None \<Rightarrow> False | Some m \<Rightarrow> mshr_handle (ms_state m))" "l1_view l k = None"
proof (cases "cb_lookup (l1_block l) k")
  case (Some p)
  then show ?thesis using core_okD(6) [OF assms, of k] block_view [OF Some] by (intro block) simp_all
next
  case None
  show ?thesis
  proof (cases "mshr_get k (l1_mshrs l)")
    case None
    then show ?thesis using \<open>cb_lookup (l1_block l) k = None\<close> by (intro nowhere) (simp_all add: l1_view_def line_view_def)
  next
    case (Some m)
    show ?thesis
      using \<open>cb_lookup (l1_block l) k = None\<close> Some mshr_view [OF assms Some] register nowhere
      by (cases "mshr_handle (ms_state m)") simp_all
  qed
qed

lemma handle_gets_forward_safe:
  assumes "l1_ok l"
  shows "l1_safe (\<lambda>r. l1_post k {l1_view l k} l r \<and> (fst r \<longrightarrow> (\<exists>data. l1_view l k = Some data \<and>
      l1_send_buf (snd r) = l1_send_buf (l1_push_send_buf_with_line arg CHANNEL_RESP MSG_GETS_RESP k 1 data l))))
    (handle_gets_forward k arg l)"
proof (cases "send_room 1 l")
  case room: True
  note c = l1_okD(1) [OF assms]
  show ?thesis
    using c
  proof (cases rule: held_cases [where k = k])
    case (block p)
    let ?l1 = "l1_push_send_buf_with_line arg CHANNEL_RESP MSG_GETS_RESP k 1 (tl_data p) l"
    let ?p = "p\<lparr>tl_state := CC_OWNED\<rparr>"
    have "core_ok (set_payload k ?p (l1_block l)) (l1_mshrs l)" by (rule core_ok_payload [OF c]) (use block in simp_all)
    then have "l1_step_ok 1 k (l1_view l k) l (?l1\<lparr>l1_block := set_payload k ?p (l1_block l)\<rparr>)"
      using view_payload [OF c, of k ?p] block by (simp add: l1_step_ok_def push_defs l1_view_def fun_upd_idem)
    then have "l1_post k {l1_view l k} l (True, ?l1\<lparr>l1_block := set_payload k ?p (l1_block l)\<rparr>)" by (rule l1_post_step [OF _ room]) simp
    then show ?thesis using room block by (simp add: handle_gets_forward_def get_line_spec core_okD(1) [OF c])
  next
    case (register m)
    let ?l1 = "l1_push_send_buf_with_line arg CHANNEL_RESP MSG_GETS_RESP k 1 (ms_line_buf m) l"
    have s1: "l1_step_ok 1 k (l1_view l k) l ?l1" by (rule step_push [OF c]) simp
    have "l1_step_ok (1 + 0) k (l1_view l k) l (mshr_set k (m\<lparr>ms_state := MSHR_OTOI\<rparr>) ?l1)"
      by (rule l1_step_trans [OF s1 step_mshr_set]) (use register c in simp_all)
    then have "l1_post k {l1_view l k} l (True, mshr_set k (m\<lparr>ms_state := MSHR_OTOI\<rparr>) ?l1)" by (intro l1_post_step [OF _ room]) simp_all
    moreover have "l1_post k {l1_view l k} l (True, ?l1)" by (rule l1_post_step [OF s1 room]) simp
    ultimately show ?thesis using room register
      by (simp add: handle_gets_forward_def get_line_spec core_okD(1) [OF c] Let_def mshr_set_def)
  next
    case nowhere
    then show ?thesis using room by (auto simp: handle_gets_forward_def get_line_spec core_okD(1) [OF c] check_def)
  qed
qed (use assms in \<open>simp add: handle_gets_forward_def\<close>)

lemma handle_getm_forward_safe:
  assumes "l1_ok l"
  shows "l1_safe (\<lambda>r. l1_post k {None} l r \<and> (fst r \<longrightarrow> (\<exists>data. l1_view l k = Some data \<and>
      l1_send_buf (snd r) = l1_send_buf (l1_push_send_buf_with_line arg CHANNEL_RESP MSG_GETM_RESP k 0 data l))))
    (handle_getm_forward k arg l)"
proof (cases "send_room 1 l")
  case room: True
  note c = l1_okD(1) [OF assms]
  show ?thesis
    using c
  proof (cases rule: held_cases [where k = k])
    case (block p)
    let ?l1 = "l1_push_send_buf_with_line arg CHANNEL_RESP MSG_GETM_RESP k 0 (tl_data p) l"
    have "l1_step_ok (1 + 0) k (if cb_lookup (l1_block ?l1) k = None then l1_view ?l1 k else None) l (?l1\<lparr>l1_block := remove_line k (l1_block ?l1)\<rparr>)"
      by (rule l1_step_trans [OF step_push(2) [OF c refl] step_remove_line]) (use c in simp)
    then have "l1_post k {None} l (True, ?l1\<lparr>l1_block := remove_line k (l1_block l)\<rparr>)"
      using block by (intro l1_post_step [OF _ room]) simp_all
    then show ?thesis using room block by (simp add: handle_getm_forward_def get_line_spec core_okD(1) [OF c])
  next
    case (register m)
    let ?l1 = "l1_push_send_buf_with_line arg CHANNEL_RESP MSG_GETM_RESP k 0 (ms_line_buf m) l"
    have s1: "l1_step_ok 1 k (l1_view l k) l ?l1" by (rule step_push [OF c]) simp
    have "l1_step_ok (1 + 0) k None l (mshr_set k (m\<lparr>ms_state := st\<rparr>) ?l1)" if "\<not> mshr_handle st" for st
      by (rule l1_step_trans [OF s1 step_mshr_set]) (use register c that in simp_all)
    then have "l1_post k {None} l (True, mshr_set k (m\<lparr>ms_state := st\<rparr>) ?l1)" if "\<not> mshr_handle st" for st
      using that by (intro l1_post_step [OF _ room]) simp_all
    then show ?thesis using room register
      by (simp add: handle_getm_forward_def get_line_spec core_okD(1) [OF c] Let_def mshr_set_def)
  next
    case nowhere
    then show ?thesis using room by (auto simp: handle_getm_forward_def get_line_spec core_okD(1) [OF c] check_def)
  qed
qed (use assms in \<open>simp add: handle_getm_forward_def\<close>)

text \<open>A response puts its data into the miss register and the line into the block, with or without an acknowledgement.\<close>

lemma install_safe:
  assumes c: "core_ok (l1_block l) (l1_mshrs l)" and w: "mshr_get k (l1_mshrs l) = Some m" and st: "st \<in> line_states"
    and room: "send_room 2 l"
  shows "l1_safe (\<lambda>l'. l1_post k {Some data} l (True, l') \<and> cb_lookup (l1_block l') k = Some \<lparr>tl_data = data, tl_state = st\<rparr>
      \<and> mshr_get k (l1_mshrs l') = None \<and> (\<exists>sent. l1_send_buf l' = l1_send_buf l @ (if b then [\<lparr>rs_msg = construct_msg_pack
          \<lparr>mtype = ty, marg = arg, mtransid = 0, mline = k, mdata = []\<rparr>, rs_dst = dst, rs_cha = ch\<rparr>] else []) @ sent))
    (handle_new_line bm k (m\<lparr>ms_line_buf := data\<rparr>) st (mshr_set k (m\<lparr>ms_line_buf := data\<rparr>) (if b then l1_push_send_buf dst ch ty k arg l else l)))"
proof -
  let ?m = "m\<lparr>ms_line_buf := data\<rparr>"
  let ?l1 = "if b then l1_push_send_buf dst ch ty k arg l else l"
  have s1: "l1_step_ok 1 k (l1_view l k) l ?l1"
    using step_push(1) [OF c refl] c by (simp add: l1_step_ok_def)
  have c1: "core_ok (l1_block ?l1) (l1_mshrs ?l1)" by (rule l1_step_core [OF s1])
  have s2: "l1_step_ok (1 + 0) k (if mshr_handle (ms_state ?m) then Some (ms_line_buf ?m) else None) l (mshr_set k ?m ?l1)"
    by (rule l1_step_trans [OF s1 step_mshr_set [OF c1]]) (use w in simp_all)
  show ?thesis
  proof (rule l1_safe_mono [OF handle_new_line_safe])
    show "core_ok (l1_block (mshr_set k ?m ?l1)) (l1_mshrs (mshr_set k ?m ?l1))" by (rule l1_step_core [OF s2])
    show "mshr_get k (l1_mshrs (mshr_set k ?m ?l1)) \<noteq> None" by simp
    show "st \<in> line_states" by (rule st)
    fix l'
    assume r: "l1_step_ok 1 k (Some (ms_line_buf ?m)) (mshr_set k ?m ?l1) l' \<and> mshr_get k (l1_mshrs l') = None
      \<and> cb_lookup (l1_block l') k = Some \<lparr>tl_data = ms_line_buf ?m, tl_state = st\<rparr> \<and> (\<exists>sent. l1_send_buf l' = l1_send_buf (mshr_set k ?m ?l1) @ sent)"
    then have "l1_step_ok (1 + 0 + 1) k (Some (ms_line_buf ?m)) l l'" by (intro l1_step_trans [OF s2]) blast
    then have "l1_post k {Some data} l (True, l')" by (rule l1_post_step) (use room in \<open>simp_all add: numeral_2_eq_2\<close>)
    with r show "l1_post k {Some data} l (True, l') \<and> cb_lookup (l1_block l') k = Some \<lparr>tl_data = data, tl_state = st\<rparr>
      \<and> mshr_get k (l1_mshrs l') = None \<and> (\<exists>sent. l1_send_buf l' = l1_send_buf l @ (if b then [\<lparr>rs_msg = construct_msg_pack
          \<lparr>mtype = ty, marg = arg, mtransid = 0, mline = k, mdata = []\<rparr>, rs_dst = dst, rs_cha = ch\<rparr>] else []) @ sent)"
      by (auto simp: mshr_set_def push_defs)
  qed
qed

lemma handle_gets_resp_safe:
  assumes "l1_ok l"
  shows "l1_safe (l1_post k {Some data} l) (handle_gets_resp bm port k arg data l)"
proof (cases "mshr_get k (l1_mshrs l)")
  case (Some m)
  have "l1_safe (\<lambda>l'. l1_post k {Some data} l (True, l')) (handle_new_line bm k (m\<lparr>ms_line_buf := data\<rparr>) (if 0 < arg then CC_SHARED else CC_EXCLUSIVE)
      (mshr_set k (m\<lparr>ms_line_buf := data\<rparr>) (if 0 < arg then l1_push_send_buf port CHANNEL_ACK MSG_GET_ACK k (ucast (l1_port l)) l else l)))" if "send_room 2 l"
    by (rule l1_safe_mono [OF install_safe [OF l1_okD(1) [OF assms] Some _ that]]) simp_all
  then show ?thesis
    using assms Some by (auto simp: handle_gets_resp_def check_def Let_def intro!: l1_safe_bind)
qed (simp add: handle_gets_resp_def assms)

lemma handle_getm_resp_safe:
  assumes "l1_ok l"
  shows "l1_safe (l1_post k {l1_view l k, Some data} l) (handle_getm_resp bm port k arg data l)"
proof (cases "mshr_get k (l1_mshrs l)")
  case (Some m)
  have i: "l1_safe (\<lambda>l'. l1_post k {l1_view l k, Some data} l (True, l')) (handle_new_line bm k (m\<lparr>ms_line_buf := data\<rparr>) CC_MODIFIED
      (mshr_set k (m\<lparr>ms_line_buf := data\<rparr>) (if arg = 0 then l1_push_send_buf port CHANNEL_ACK MSG_GET_ACK k (ucast (l1_port l)) l else l)))" if "send_room 2 l"
    by (rule l1_safe_mono [OF install_safe [OF l1_okD(1) [OF assms] Some _ that]]) (auto simp: l1_post_def)
  have "l1_post k {l1_view l k, Some data} l (True, mshr_set k (m\<lparr>ms_line_buf := data, get_data_ready := 1\<rparr>) l)" if "ms_state m = MSHR_ITOM"
    by (rule post_mshr_set [OF assms]) (use that mshr_view [OF l1_okD(1) [OF assms] Some] Some in simp_all)
  then show ?thesis
    using assms Some i by (auto simp: handle_getm_resp_def check_def Let_def intro!: l1_safe_bind)
qed (simp add: handle_getm_resp_def)

lemma handle_get_resp_mem_safe:
  assumes "l1_ok l"
  shows "l1_safe (l1_post k {Some data} l) (handle_get_resp_mem bm port k data l)"
proof (cases "mshr_get k (l1_mshrs l)")
  case (Some m)
  have i: "l1_safe (\<lambda>l'. l1_post k {Some data} l (True, l')) (handle_new_line bm k (m\<lparr>ms_line_buf := data\<rparr>) st
      (mshr_set k (m\<lparr>ms_line_buf := data\<rparr>) (l1_push_send_buf port CHANNEL_ACK MSG_GET_ACK k (ucast (l1_port l)) l)))" if "send_room 2 l" "st \<in> line_states" for st
    by (rule l1_safe_mono [OF install_safe [OF l1_okD(1) [OF assms] Some that(2) that(1), where b = True, simplified]]) blast
  then show ?thesis
    using assms Some by (auto simp: handle_get_resp_mem_def check_def Let_def intro!: l1_safe_bind)
qed (simp add: handle_get_resp_mem_def assms)

lemma handle_put_ack_safe:
  assumes "l1_ok l"
  shows "l1_safe (l1_post k {None} l) (handle_put_ack k l)"
proof (cases "mshr_get k (l1_mshrs l)")
  case (Some m)
  note c = l1_okD(1) [OF assms]
  have n: "cb_lookup (l1_block l) k = None" using core_okD(5) [OF c, of k] Some by simp
  have "l1_step_ok 0 k None l (l\<lparr>l1_mshrs := mshr_remove k (l1_mshrs l)\<rparr>)"
    using core_ok_remove [OF c, of k] view_remove [OF c n] by (simp add: l1_step_ok_def l1_view_def mshr_remove_def)
  then have "l1_post k {None} l (True, l\<lparr>l1_mshrs := mshr_remove k (l1_mshrs l)\<rparr>)"
    by (rule l1_post_step) (use l1_okD [OF assms] in simp_all)
  then show ?thesis using Some by (simp add: handle_put_ack_def)
qed (simp add: handle_put_ack_def)

lemma l1_post_any: "l1_post k V l r \<Longrightarrow> l1_post k UNIV l r"
  by (auto simp: l1_post_def)

lemma l1_dispatch_safe:
  assumes "l1_ok l"
  shows "l1_safe (l1_post (mline msg) UNIV l) (l1_dispatch bm port msg l)"
  unfolding l1_dispatch_def Let_def
  by (auto intro!: l1_safe_mono [OF handle_invalid_safe [OF assms]] l1_safe_mono [OF handle_invalid_ack_safe [OF assms]]
      l1_safe_mono [OF handle_gets_forward_safe [OF assms]] l1_safe_mono [OF handle_getm_forward_safe [OF assms]]
      l1_safe_mono [OF handle_getm_ack_safe [OF assms]] l1_safe_mono [OF handle_gets_resp_safe [OF assms]]
      l1_safe_mono [OF handle_getm_resp_safe [OF assms]] l1_safe_mono [OF handle_get_resp_mem_safe [OF assms]]
      l1_safe_mono [OF handle_put_ack_safe [OF assms]] l1_post_any simp: assms)

section \<open>Loads and stores\<close>

definition l1_kept :: "L1 \<Rightarrow> L1 \<Rightarrow> bool" where
  "l1_kept l l' \<longleftrightarrow> l1_ok l' \<and> l1_send_buf_size l' = l1_send_buf_size l \<and> max_sz (l1_mshrs l') = max_sz (l1_mshrs l)"

lemma l1_kept_refl [simp]: "l1_kept l l = l1_ok l" by (simp add: l1_kept_def)

lemma l1_kept_trans: "l1_kept l l1 \<Longrightarrow> l1_kept l1 l2 \<Longrightarrow> l1_kept l l2" by (simp add: l1_kept_def)

lemma l1_kept_ok: "l1_kept l l' \<Longrightarrow> l1_ok l'" by (simp add: l1_kept_def)

lemma l1_post_kept: "l1_post k V l r \<Longrightarrow> l1_kept l (snd r)" by (simp add: l1_post_def l1_kept_def)

lemma l1_step_kept: "l1_step_ok n k v l l' \<Longrightarrow> send_room n l \<Longrightarrow> l1_kept l l'"
  using l1_step_ok_done [of n k v l l'] by (simp add: l1_kept_def l1_step_ok_def)

text \<open>A new miss register for an absent line keeps the contents of every line, when it holds what the block held.\<close>

lemma start_miss:
  assumes "core_ok (l1_block l) (l1_mshrs l)" and "cb_lookup (l1_block l) k = None" and "mshr_alloc m k (l1_mshrs l) = (True, ms)"
    and "v = (if mshr_handle (ms_state m) then Some (ms_line_buf m) else None)"
  shows "l1_step_ok 1 k v l (l1_push_send_buf dst ch ty k arg (l\<lparr>l1_mshrs := ms, l1_miss_count := c\<rparr>))"
proof -
  have "max_sz ms = max_sz (l1_mshrs l)" using assms(3) by (auto simp: mshr_alloc_def split: if_splits)
  then show ?thesis using core_ok_alloc [OF assms(1,2,3)] view_alloc [OF assms(2,3)] assms(4)
    by (simp add: l1_step_ok_def push_defs l1_view_def)
qed

lemma load_line_safe:
  assumes ok: "l1_ok l"
  shows "l1_safe (\<lambda>(e, buf', l'). l1_kept l l' \<and> l1_view l' = l1_view l \<and>
      (if e = err_success then \<exists>data. l1_view l (addr_to_line_index paddr) = Some data \<and> buf' = read_bytes data (line_offset paddr) (unat len) buf valid
       else buf' = buf)) (load_line port paddr len buf valid l)"
proof -
  let ?k = "addr_to_line_index paddr"
  note c = l1_okD(1) [OF ok] and cb = core_okD(1) [OF l1_okD(1) [OF ok]]
  show ?thesis
  proof (cases "cb_lookup (l1_block l) ?k")
    case (Some p)
    let ?l = "l\<lparr>l1_block := tag_lru ?k (l1_block l), l1_hit_count := l1_hit_count l + 1\<rparr>"
    have t: "core_ok (tag_lru ?k (l1_block l)) (l1_mshrs l)" by (rule core_ok_touch [OF c]) (simp add: Some)
    have "l1_kept l ?l" using t l1_okD(2) [OF ok] by (simp add: l1_kept_def l1_ok_def send_room_def)
    moreover have "l1_view ?l = l1_view l" by (simp add: l1_view_def view_touch [OF c])
    ultimately show ?thesis using Some
      by (simp add: load_line_def get_line_spec [OF cb] Let_def check_def block_view)
  next
    case none: None
    show ?thesis
    proof (cases "mshr_get ?k (l1_mshrs l)")
      case (Some m)
      have k: "l1_kept l (l\<lparr>l1_hit_count := h\<rparr>)" "l1_view (l\<lparr>l1_hit_count := h\<rparr>) = l1_view l" for h
        using ok by (simp_all add: l1_kept_def l1_ok_def send_room_def l1_view_def)
      have v: "l1_view l ?k = Some (ms_line_buf m)" if "ms_state m = MSHR_STOM \<or> ms_state m = MSHR_OTOM"
        using mshr_view [OF c Some] that by auto
      show ?thesis using none Some k v ok
        by (simp add: load_line_def get_line_spec [OF cb] Let_def check_def)
    next
      case None
      have v: "l1_view l ?k = None" using none None by (simp add: l1_view_def line_view_def)
      let ?l = "\<lambda>ms n. l1_push_send_buf port CHANNEL_REQ MSG_GETS ?k (ucast (l1_port l)) (l\<lparr>l1_mshrs := ms, l1_miss_count := n\<rparr>)"
      have fresh: "l1_kept l (?l ms n)" "l1_view (?l ms n) = l1_view l"
        if "mshr_alloc (zero_mshr\<lparr>ms_state := MSHR_ITOS\<rparr>) ?k (l1_mshrs l) = (True, ms)" and room: "send_room 1 l" for ms n
      proof -
        have s: "l1_step_ok 1 ?k None l (?l ms n)" by (rule start_miss [OF c none that(1)]) simp
        show "l1_kept l (?l ms n)" by (rule l1_step_kept [OF s room])
        have "(l1_view l)(?k := None) = l1_view l" using v by (simp add: fun_upd_idem)
        with s show "l1_view (?l ms n) = l1_view l" unfolding l1_step_ok_def by argo
      qed
      obtain got ms where a: "mshr_alloc (zero_mshr\<lparr>ms_state := MSHR_ITOS\<rparr>) ?k (l1_mshrs l) = (got, ms)" by fastforce
      show ?thesis
      proof (cases "send_room 1 l \<and> got")
        case True
        then have "mshr_alloc (zero_mshr\<lparr>ms_state := MSHR_ITOS\<rparr>) ?k (l1_mshrs l) = (True, ms)" "send_room 1 l" using a by simp_all
        from fresh [OF this] this show ?thesis using none None by (simp add: load_line_def get_line_spec [OF cb] Let_def)
      next
        case False
        then show ?thesis using none None a ok by (cases "send_room 1 l") (simp_all add: load_line_def get_line_spec [OF cb] Let_def)
      qed
    qed
  qed
qed

lemma mshr_alloc_any:
  assumes "fst (mshr_alloc m k ms)"
  shows "mshr_alloc m' k ms = (True, snd (mshr_alloc m' k ms))"
  using assms by (simp add: mshr_alloc_def split: if_splits)

text \<open>A write miss takes the line out of the block and keeps its contents in the miss register.\<close>

lemma start_write_miss:
  assumes ok: "l1_ok l" and room: "send_room 1 l" and a: "mshr_get k (l1_mshrs l) = None" "fst (mshr_alloc zero_mshr k (l1_mshrs l))"
    and m: "(if mshr_handle (ms_state m) then Some (ms_line_buf m) else None) = l1_view l k"
  shows "l1_kept l (l1_push_send_buf dst ch ty k arg (l\<lparr>l1_mshrs := snd (mshr_alloc m k (l1_mshrs l)),
        l1_block := (if cb_lookup (l1_block l) k = None then l1_block l else remove_line k (l1_block l)), l1_miss_count := n\<rparr>))"
    and "l1_view (l1_push_send_buf dst ch ty k arg (l\<lparr>l1_mshrs := snd (mshr_alloc m k (l1_mshrs l)),
        l1_block := (if cb_lookup (l1_block l) k = None then l1_block l else remove_line k (l1_block l)), l1_miss_count := n\<rparr>)) = l1_view l"
proof -
  note c = l1_okD(1) [OF ok]
  let ?blk = "if cb_lookup (l1_block l) k = None then l1_block l else remove_line k (l1_block l)"
  let ?l1 = "l\<lparr>l1_block := ?blk\<rparr>"
  let ?v = "if cb_lookup (l1_block l) k = None then l1_view l k else None"
  have s1: "l1_step_ok 0 k ?v l ?l1"
    using step_remove_line [OF c, of k] c by (cases "cb_lookup (l1_block l) k") (simp_all add: l1_step_ok_def l1_view_def)
  have n1: "cb_lookup (l1_block ?l1) k = None"
    using remove_line_lookup [OF core_okD(2) [OF c], of k] by simp
  have a1: "mshr_alloc m k (l1_mshrs ?l1) = (True, snd (mshr_alloc m k (l1_mshrs l)))" using mshr_alloc_any [OF a(2)] by simp
  have s: "l1_step_ok (0 + 1) k (l1_view l k) l (l1_push_send_buf dst ch ty k arg (?l1\<lparr>l1_mshrs := snd (mshr_alloc m k (l1_mshrs l)), l1_miss_count := n\<rparr>))"
    by (rule l1_step_trans [OF s1 start_miss [OF l1_step_core [OF s1] n1 a1]]) (rule m [symmetric])
  have e: "?l1\<lparr>l1_mshrs := snd (mshr_alloc m k (l1_mshrs l)), l1_miss_count := n\<rparr> = l\<lparr>l1_mshrs := snd (mshr_alloc m k (l1_mshrs l)), l1_block := ?blk, l1_miss_count := n\<rparr>"
    by simp
  show "l1_kept l (l1_push_send_buf dst ch ty k arg (l\<lparr>l1_mshrs := snd (mshr_alloc m k (l1_mshrs l)), l1_block := ?blk, l1_miss_count := n\<rparr>))"
    using l1_step_kept [OF s] room unfolding e by simp
  show "l1_view (l1_push_send_buf dst ch ty k arg (l\<lparr>l1_mshrs := snd (mshr_alloc m k (l1_mshrs l)), l1_block := ?blk, l1_miss_count := n\<rparr>)) = l1_view l"
    using s unfolding e l1_step_ok_def by simp
qed

lemma store_line_safe:
  assumes ok0: "l1_ok l0"
  shows "l1_safe (\<lambda>(e, l'). l1_kept l0 l' \<and>
      (if e = err_success then \<exists>data. l1_view l0 (addr_to_line_index paddr) = Some data
         \<and> l1_view l' = (l1_view l0)(addr_to_line_index paddr \<mapsto> write_bytes data (line_offset paddr) (unat len) buf valid)
       else l1_view l' = l1_view l0)) (store_line port paddr len buf valid l0)"
proof -
  let ?k = "addr_to_line_index paddr"
  let ?hit = "cb_lookup (l1_block l0) ?k"
  define blk where "blk = (if True \<and> ?hit \<noteq> None then tag_lru ?k (l1_block l0) else l1_block l0)"
  let ?l = "l0\<lparr>l1_block := blk\<rparr>"
  note c0 = l1_okD(1) [OF ok0]
  note cb = core_okD(1) [OF c0]
  have gl: "get_line ?k True (l1_block l0) = (?hit, blk)" unfolding blk_def by (rule get_line_spec [OF cb])
  have c: "core_ok blk (l1_mshrs l0)" using core_ok_touch [OF c0, of ?k] c0 by (simp add: blk_def)
  have ok: "l1_ok ?l" using c l1_okD(2) [OF ok0] by (simp add: l1_ok_def send_room_def)
  have k0: "l1_kept l0 ?l" using ok by (simp add: l1_kept_def)
  have v: "l1_view ?l = l1_view l0" by (simp add: l1_view_def view_touch [OF c0] blk_def)
  have lk: "cb_lookup blk = cb_lookup (l1_block l0)" by (simp add: cb.touch_lookup [OF cb] blk_def)
  have miss: "l1_kept l0 (l1_push_send_buf dst ch ty ?k arg (l0\<lparr>l1_mshrs := snd (mshr_alloc m ?k (l1_mshrs l0)),
        l1_block := (if ?hit = None then blk else remove_line ?k blk), l1_miss_count := n\<rparr>))"
    "l1_view (l1_push_send_buf dst ch ty ?k arg (l0\<lparr>l1_mshrs := snd (mshr_alloc m ?k (l1_mshrs l0)),
        l1_block := (if ?hit = None then blk else remove_line ?k blk), l1_miss_count := n\<rparr>)) = l1_view l0"
    if "send_room 1 ?l" "mshr_get ?k (l1_mshrs l0) = None" "fst (mshr_alloc zero_mshr ?k (l1_mshrs l0))"
      "(if mshr_handle (ms_state m) then Some (ms_line_buf m) else None) = l1_view l0 ?k" for dst ch ty arg m n
  proof -
    have 1: "mshr_get ?k (l1_mshrs ?l) = None" "fst (mshr_alloc zero_mshr ?k (l1_mshrs ?l))" using that(2,3) by simp_all
    have 2: "(if mshr_handle (ms_state m) then Some (ms_line_buf m) else None) = l1_view ?l ?k" unfolding v by (rule that(4))
    note w = start_write_miss [OF ok that(1) 1 2, of dst ch ty arg n]
    show "l1_kept l0 (l1_push_send_buf dst ch ty ?k arg (l0\<lparr>l1_mshrs := snd (mshr_alloc m ?k (l1_mshrs l0)),
        l1_block := (if ?hit = None then blk else remove_line ?k blk), l1_miss_count := n\<rparr>))"
      using l1_kept_trans [OF k0 w(1)] by (cases ?hit) (simp_all add: lk)
    show "l1_view (l1_push_send_buf dst ch ty ?k arg (l0\<lparr>l1_mshrs := snd (mshr_alloc m ?k (l1_mshrs l0)),
        l1_block := (if ?hit = None then blk else remove_line ?k blk), l1_miss_count := n\<rparr>)) = l1_view l0"
      using w(2) v by (cases ?hit) (simp_all add: lk)
  qed
  show ?thesis
  proof (cases ?hit)
    case None
    have vk: "l1_view l0 ?k = None" if "mshr_get ?k (l1_mshrs l0) = None" using None that by (simp add: l1_view_def line_view_def)
    show ?thesis
    proof (cases "mshr_get ?k (l1_mshrs l0)")
      case mn: None
      then show ?thesis using None k0 v miss(1) [of "zero_mshr\<lparr>ms_state := MSHR_ITOM\<rparr>"] miss(2) [of "zero_mshr\<lparr>ms_state := MSHR_ITOM\<rparr>"] vk
        by (simp add: store_line_def gl Let_def)
    next
      case (Some m)
      then show ?thesis using None k0 v by (simp add: store_line_def gl Let_def)
    qed
  next
    case (Some p)
    have mn: "mshr_get ?k (l1_mshrs l0) = None" using core_okD(6) [OF c0, of ?k] Some by simp
    have vk: "l1_view l0 ?k = Some (tl_data p)" using Some by (rule block_view)
    consider (writable) "tl_state p = CC_EXCLUSIVE \<or> tl_state p = CC_MODIFIED" | (shared) "tl_state p = CC_SHARED" | (owned) "tl_state p = CC_OWNED"
      using core_okD(4) [OF c0 Some] by (auto simp: line_states_def)
    then show ?thesis
    proof cases
      case writable
      let ?p = "\<lparr>tl_data = write_bytes (tl_data p) (line_offset paddr) (unat len) buf valid, tl_state = CC_MODIFIED\<rparr>"
      let ?l' = "l0\<lparr>l1_block := set_payload ?k ?p blk, reserved_address_valid := False, l1_hit_count := l1_hit_count l0 + 1\<rparr>"
      have "core_ok (set_payload ?k ?p blk) (l1_mshrs l0)" by (rule core_ok_payload [OF c]) (use lk Some in simp_all)
      then have "l1_kept l0 ?l'" using l1_okD(2) [OF ok0] by (simp add: l1_kept_def l1_ok_def send_room_def)
      moreover have "l1_view ?l' = (l1_view l0)(?k \<mapsto> tl_data ?p)" using view_payload [OF c, of ?k ?p] v by (simp add: l1_view_def)
      ultimately show ?thesis using writable Some vk by (simp add: store_line_def gl Let_def check_def)
    next
      case shared
      have ns: "CC_SHARED \<noteq> CC_EXCLUSIVE" "CC_SHARED \<noteq> CC_MODIFIED" by (simp_all add: CC_SHARED_def CC_EXCLUSIVE_def CC_MODIFIED_def)
      let ?m = "zero_mshr\<lparr>ms_line_buf := tl_data p, ms_state := MSHR_STOM\<rparr>"
      show ?thesis using Some mn shared ns vk k0 v miss(1) [of ?m] miss(2) [of ?m]
        by (simp add: store_line_def gl Let_def)
    next
      case owned
      have ns: "CC_OWNED \<noteq> CC_EXCLUSIVE" "CC_OWNED \<noteq> CC_MODIFIED" "CC_OWNED \<noteq> CC_SHARED"
        by (simp_all add: CC_SHARED_def CC_EXCLUSIVE_def CC_MODIFIED_def CC_OWNED_def)
      let ?m = "zero_mshr\<lparr>ms_line_buf := tl_data p, ms_state := MSHR_OTOM\<rparr>"
      show ?thesis using Some mn owned ns vk k0 v miss(1) [of ?m] miss(2) [of ?m]
        by (simp add: store_line_def gl Let_def)
    qed
  qed
qed

section \<open>The cache as a whole\<close>

text \<open>Receiving a message and moving operations between the queues touch neither the block nor the miss registers nor the send buffer.\<close>

definition same_core :: "L1 \<Rightarrow> L1 \<Rightarrow> bool" where
  "same_core l l' \<longleftrightarrow> l1_block l' = l1_block l \<and> l1_mshrs l' = l1_mshrs l \<and> l1_send_buf l' = l1_send_buf l \<and> l1_send_buf_size l' = l1_send_buf_size l"

lemma same_core_kept: "l1_ok l \<Longrightarrow> same_core l l' \<Longrightarrow> l1_kept l l' \<and> l1_view l' = l1_view l"
  by (simp add: same_core_def l1_kept_def l1_ok_def send_room_def l1_view_def)

lemma l1_bus_safe: "(\<And>x. P x) \<Longrightarrow> l1_safe P (l1_bus r)"
  by (cases r) (simp_all add: l1_bus_def)

lemma l1_of_llc_safe: "(\<And>x. r = Inr x \<Longrightarrow> P x) \<Longrightarrow> l1_safe P (l1_of_llc r)"
  by (cases r) (simp_all add: l1_of_llc_def split: llc_error.split)

lemma l1_scan_safe: "l1_safe (\<lambda>(l', b'). same_core l l') (l1_scan tick c n l b)"
proof (induction n arbitrary: c)
  case 0
  show ?case by (simp add: same_core_def)
next
  case (Suc n)
  show ?case
    unfolding l1_scan.simps
    by (rule l1_safe_bind [OF l1_bus_safe [where P = "\<lambda>_. True"]])
      (auto simp: Suc.IH check_def require_def intro!: l1_safe_bind [OF l1_bus_safe [where P = "\<lambda>_. True"]] split: option.split, simp add: same_core_def)
qed

lemma recieve_msg_safe: "l1_safe (\<lambda>(l', b'). same_core l l') (recieve_msg tick l b)"
  using l1_scan_safe by (auto simp: recieve_msg_def same_core_def)

lemma recieve_msg_kept: "l1_ok l \<Longrightarrow> l1_safe (\<lambda>(l', b'). l1_kept l l') (recieve_msg tick l b)"
  using same_core_kept [of l] by (auto intro!: l1_safe_mono [OF recieve_msg_safe])

lemma load_line_kept: "l1_ok l \<Longrightarrow> l1_safe (\<lambda>(e, buf', l'). l1_kept l l') (load_line port paddr len buf valid l)"
  by (auto intro!: l1_safe_mono [OF load_line_safe])

lemma store_line_kept: "l1_ok l \<Longrightarrow> l1_safe (\<lambda>(e, l'). l1_kept l l') (store_line port paddr len buf valid l)"
  by (auto intro!: l1_safe_mono [OF store_line_safe])

text \<open>Sequencing of computations that keep the cache in order, for results with the cache in different places.\<close>

lemma safe_bind2:
  assumes "l1_safe (\<lambda>(l', b). l1_kept l l') m" and "\<And>l' b. l1_kept l l' \<Longrightarrow> l1_safe Q (f (l', b))"
  shows "l1_safe Q (ebind m f)"
  by (rule l1_safe_bind [OF assms(1)]) (use assms(2) in auto)

lemma safe_bind2s:
  assumes "l1_safe (\<lambda>(e, l'). l1_kept l l') m" and "\<And>e l'. l1_kept l l' \<Longrightarrow> l1_safe Q (f (e, l'))"
  shows "l1_safe Q (ebind m f)"
  by (rule l1_safe_bind [OF assms(1)]) (use assms(2) in auto)

lemma safe_bind3:
  assumes "l1_safe (\<lambda>(e, l', b). l1_kept l l') m" and "\<And>e l' b. l1_kept l l' \<Longrightarrow> l1_safe Q (f (e, l', b))"
  shows "l1_safe Q (ebind m f)"
  by (rule l1_safe_bind [OF assms(1)]) (use assms(2) in auto)

lemma safe_bind3s:
  assumes "l1_safe (\<lambda>(e, buf, l'). l1_kept l l') m" and "\<And>e buf l'. l1_kept l l' \<Longrightarrow> l1_safe Q (f (e, buf, l'))"
  shows "l1_safe Q (ebind m f)"
  by (rule l1_safe_bind [OF assms(1)]) (use assms(2) in auto)

lemma safe_bind4:
  assumes "l1_safe (\<lambda>(e, buf, l', b). l1_kept l l') m" and "\<And>e buf l' b. l1_kept l l' \<Longrightarrow> l1_safe Q (f (e, buf, l', b))"
  shows "l1_safe Q (ebind m f)"
  by (rule l1_safe_bind [OF assms(1)]) (use assms(2) in auto)

lemma l1_load_safe:
  assumes "l1_ok l"
  shows "l1_safe (\<lambda>(e, buf', l', b'). l1_kept l l') (l1_load tick bm paddr len buf valid l b)"
proof -
  have "l1_safe (\<lambda>(e, buf', l', b'). l1_kept l l') (ebind (recieve_msg tick l b) (\<lambda>(l1, b1).
            ebind (load_line port paddr len buf valid l1) (\<lambda>(e, buf', l2). Inr (e, buf', l2, b1))))" for port
    by (rule safe_bind2 [OF recieve_msg_kept [OF assms]], simp, rule safe_bind3s [OF load_line_kept]) (auto dest: l1_kept_ok intro: l1_kept_trans)
  then show ?thesis using assms by (simp add: l1_load_def split: option.split)
qed

lemma l1_store_safe:
  assumes "l1_ok l"
  shows "l1_safe (\<lambda>(e, l', b'). l1_kept l l') (l1_store tick bm paddr len buf valid l b)"
proof -
  have "l1_safe (\<lambda>(e, l', b'). l1_kept l l') (ebind (recieve_msg tick l b) (\<lambda>(l1, b1).
            ebind (store_line port paddr len buf valid l1) (\<lambda>(e, l2). Inr (e, l2, b1))))" for port
    by (rule safe_bind2 [OF recieve_msg_kept [OF assms]], simp, rule safe_bind2s [OF store_line_kept]) (auto dest: l1_kept_ok intro: l1_kept_trans)
  then show ?thesis using assms by (simp add: l1_store_def split: option.split)
qed

text \<open>The queues and the reservation.\<close>

lemma l1_kept_fields [simp]:
  "l1_kept l (l'\<lparr>reserved_address_valid := r, reserved_address := a\<rparr>) = l1_kept l l'"
  "l1_kept l (l'\<lparr>ld_queues := q\<rparr>) = l1_kept l l'" "l1_kept l (l'\<lparr>st_queues := q\<rparr>) = l1_kept l l'" "l1_kept l (l'\<lparr>amo_queues := q\<rparr>) = l1_kept l l'"
  by (simp_all add: l1_kept_def l1_ok_def send_room_def)

lemma load_reserved_safe: "l1_ok l \<Longrightarrow> l1_safe (\<lambda>(e, buf', l', b'). l1_kept l l') (load_reserved tick bm paddr len buf l b)"
  unfolding load_reserved_def by (rule safe_bind4 [OF l1_load_safe]) simp_all

lemma store_conditional_safe: "l1_ok l \<Longrightarrow> l1_safe (\<lambda>(e, l', b'). l1_kept l l') (store_conditional tick bm paddr len buf l b)"
  by (simp add: store_conditional_def l1_store_safe)

lemma l1_amo_safe:
  assumes "l1_ok l"
  shows "l1_safe (\<lambda>(e, buf', l', b'). l1_kept l l') (l1_amo tick bm paddr len buf amoop l b)"
proof -
  have fin: "l1_safe (\<lambda>(e, buf', l', b'). l1_kept l l') (ebind (l1_store tick bm paddr n d [] l2 b2) (\<lambda>(e, l3, b3).
                 if e = err_success then ebind (check L1Crash c) (\<lambda>_. Inr (e, o' , l3, b3)) else Inr (e, buf, l3, b3)))"
    if "l1_kept l l2" for l2 b2 d c o' n
    by (rule safe_bind3 [OF l1_store_safe]) (use that in \<open>auto simp: check_def dest: l1_kept_ok intro: l1_kept_trans\<close>)
  have sc: "l1_safe (\<lambda>(e, buf', l', b'). l1_kept l l') (ebind (store_conditional tick bm paddr len buf l b) (\<lambda>(e, l', b'). Inr (e, buf, l', b')))"
    by (rule safe_bind3 [OF store_conditional_safe [OF assms]]) simp
  have rmw: "l1_safe (\<lambda>(e, buf', l', b'). l1_kept l l') (ebind (l1_store tick bm paddr 0 z [] l b) (\<lambda>(e, l1, b1).
        if e \<noteq> err_success then Inr (e, buf, l1, b1)
        else ebind (l1_load tick bm paddr n z' [] l1 b1) (\<lambda>(e, prev, l2, b2). f e prev l2 b2)))"
    if "\<And>e prev l2 b2. l1_kept l l2 \<Longrightarrow> l1_safe (\<lambda>(e, buf', l', b'). l1_kept l l') (f e prev l2 b2)" for z z' n f
  proof (rule safe_bind3 [OF l1_store_safe [OF assms]])
    fix e l1 b1
    assume k: "l1_kept l l1"
    have "l1_safe (\<lambda>(e, buf', l', b'). l1_kept l l') (ebind (l1_load tick bm paddr n z' [] l1 b1) (\<lambda>(e, prev, l2, b2). f e prev l2 b2))"
      by (rule safe_bind4 [OF l1_load_safe [OF l1_kept_ok [OF k]]]) (use that l1_kept_trans [OF k] in auto)
    then show "l1_safe (\<lambda>(e, buf', l', b'). l1_kept l l') (case (e, l1, b1) of (e, l1, b1) \<Rightarrow>
        if e \<noteq> err_success then Inr (e, buf, l1, b1)
        else ebind (l1_load tick bm paddr n z' [] l1 b1) (\<lambda>(e, prev, l2, b2). f e prev l2 b2))" using k by simp
  qed
  show ?thesis
    unfolding l1_amo_def
    using load_reserved_safe [OF assms] sc
    by (auto intro!: rmw fin simp: check_def Let_def split: if_splits op_result.split)
qed

text \<open>A failing pass or drain is no assertion about a line.\<close>

lemma pass_first_safe: "l1_safe (\<lambda>_. True) (pass_first op qs)"
  by (auto simp: pass_first_def require_def check_def split: option.split)

lemma drain_misc_safe: "l1_safe (\<lambda>_. True) (drain_misc n q q2)"
proof (induction n arbitrary: q q2)
  case (Suc n)
  then show ?case by (auto simp: require_def check_def split: option.split)
qed simp

lemma l1_ops_safe: "l1_ok l \<Longrightarrow> l1_safe (\<lambda>(l', b'). l1_kept l l') (l1_ops n tick bm l b)"
proof (induction n arbitrary: l b)
  case (Suc n)
  have IH: "l1_safe (\<lambda>(l', b'). l1_kept l l') (l1_ops n tick bm l1 b1)" if "l1_kept l l1" for l1 b1
    using l1_kept_trans [OF that] by (auto intro!: l1_safe_mono [OF Suc.IH [OF l1_kept_ok [OF that]]])
  show ?case
    unfolding l1_ops.simps
    by (auto split: option.split simp: Suc.prems intro!: safe_bind3 [OF l1_store_safe [OF Suc.prems]] safe_bind4 [OF l1_load_safe [OF Suc.prems]]
        safe_bind4 [OF l1_amo_safe [OF Suc.prems]] l1_safe_bind [OF pass_first_safe] IH)
qed simp

lemma handle_received_msg_safe:
  assumes "l1_ok l"
  shows "l1_safe (l1_kept l) (handle_received_msg bm l)"
proof -
  have "l1_safe (l1_kept l) (ebind (l1_dispatch bm port (msgbuf l) l) (\<lambda>(done, l'). Inr (if done then l'\<lparr>has_processed := True\<rparr> else l')))" for port
    by (rule l1_safe_bind [OF l1_dispatch_safe [OF assms]]) (auto dest!: l1_post_kept simp: l1_kept_def l1_ok_def send_room_def)
  then show ?thesis using assms by (auto simp: handle_received_msg_def require_def split: option.split)
qed

lemma pick_sends_kept_le: "pick_sends can ss = Inr (sent, kept, can') \<Longrightarrow> length kept \<le> length ss"
  using pick_sends_parts [of can ss sent kept can'] by (metis le_add2 size_mset size_union)

lemma send_msg_safe:
  assumes "l1_ok l"
  shows "l1_safe (\<lambda>(l', b'). l1_kept l l') (send_msg tick l b)"
proof -
  have "l1_kept l (l\<lparr>l1_send_buf := kept\<rparr>)" if "length kept \<le> length (l1_send_buf l)" for kept
    using assms that by (simp add: l1_kept_def l1_ok_def send_room_def)
  moreover have "l1_safe (\<lambda>r. length (fst (snd r)) \<le> length (l1_send_buf l)) (l1_of_llc (pick_sends can (l1_send_buf l)))" for can
    by (rule l1_of_llc_safe) (auto dest: pick_sends_kept_le)
  moreover have "l1_safe (\<lambda>_. True) (l1_of_llc r)" for r :: "llc_error + SymBus"
    by (rule l1_of_llc_safe) simp
  ultimately have "l1_safe (\<lambda>(l', b'). l1_kept l l') (ebind (l1_of_llc (pick_sends can (l1_send_buf l))) (\<lambda>(sent, kept, _).
        ebind (l1_of_llc (bus_send_all tick (ucast (l1_port l)) sent b)) (\<lambda>b'. Inr (l\<lparr>l1_send_buf := kept\<rparr>, b'))))" for can
    by (elim meta_allE [where x = can], elim l1_safe_bind) (auto intro!: l1_safe_bind [where P = "\<lambda>_. True"])
  then show ?thesis
    using assms unfolding send_msg_def by (auto intro!: l1_safe_bind [OF l1_bus_safe [where P = "\<lambda>_. True"]])
qed

lemma l1_on_current_tick_safe:
  assumes "l1_ok l"
  shows "l1_safe (\<lambda>(l', b'). l1_kept l l') (l1_on_current_tick tick bm l b)"
proof -
  have go: "l1_safe (\<lambda>(l', b'). l1_kept l l') (ebind (recieve_msg tick l1 b) (\<lambda>(l2, b2).
     ebind (if has_recieved l2 then handle_received_msg bm l2 else Inr l2) (\<lambda>l3.
     ebind (l1_ops (n l2) tick bm l3 b2) (\<lambda>(l4, b4). send_msg tick l4 b4))))" if "l1_kept l l1" for l1 n
  proof (rule safe_bind2 [OF recieve_msg_kept [OF l1_kept_ok [OF that]]])
    fix l2 :: L1 and b2 :: SymBus
    assume k: "l1_kept l1 l2"
    have k2: "l1_kept l l2" by (rule l1_kept_trans [OF that k])
    have "l1_safe (l1_kept l2) (if has_recieved l2 then handle_received_msg bm l2 else Inr l2)"
      using handle_received_msg_safe [OF l1_kept_ok [OF k]] l1_kept_ok [OF k] by simp
    then have "l1_safe (\<lambda>(l', b'). l1_kept l l') (ebind (if has_recieved l2 then handle_received_msg bm l2 else Inr l2) (\<lambda>l3.
     ebind (l1_ops (n l2) tick bm l3 b2) (\<lambda>(l4, b4). send_msg tick l4 b4)))"
    proof (rule l1_safe_bind)
      fix l3
      assume "l1_kept l2 l3"
      then have k3: "l1_kept l l3" by (rule l1_kept_trans [OF k2])
      show "l1_safe (\<lambda>(l', b'). l1_kept l l') (ebind (l1_ops (n l2) tick bm l3 b2) (\<lambda>(l4, b4). send_msg tick l4 b4))"
      proof (rule safe_bind2 [OF l1_ops_safe [OF l1_kept_ok [OF k3]]])
        fix l4 :: L1 and b4 :: SymBus
        assume "l1_kept l3 l4"
        then have k4: "l1_kept l l4" by (rule l1_kept_trans [OF k3])
        show "l1_safe (\<lambda>(l', b'). l1_kept l l') (case (l4, b4) of (l4, b4) \<Rightarrow> send_msg tick l4 b4)"
          using l1_kept_trans [OF k4] by (auto intro!: l1_safe_mono [OF send_msg_safe [OF l1_kept_ok [OF k4]]])
      qed
    qed
    then show "l1_safe (\<lambda>(l', b'). l1_kept l l') (case (l2, b2) of (l2, b2) \<Rightarrow> ebind (if has_recieved l2 then handle_received_msg bm l2 else Inr l2) (\<lambda>l3.
     ebind (l1_ops (n l2) tick bm l3 b2) (\<lambda>(l4, b4). send_msg tick l4 b4)))" by simp
  qed
  have q: "l1_kept l (l\<lparr>ld_queues := ld, st_queues := st, amo_queues := am, misc_queues := mi\<rparr>)" for ld st am mi
    using assms by (simp add: l1_kept_def l1_ok_def send_room_def)
  show ?thesis
    unfolding l1_on_current_tick_def Let_def
    by (rule l1_safe_bind [OF l1_safe_require], simp_all, rule l1_safe_bind [OF l1_safe_require], simp_all, rule l1_safe_bind [OF l1_safe_require], simp_all,
        rule l1_safe_bind [OF drain_misc_safe]) (auto split: prod.split intro!: go q)
qed

section \<open>Runs\<close>

text \<open>
  The states a cache reaches from its construction, whatever the bus delivers in each tick and whatever operations the core puts into the queues.
\<close>

inductive l1_reach :: "BusPortMapping \<Rightarrow> L1Param \<Rightarrow> u32 \<Rightarrow> L1 \<Rightarrow> bool" for bm prm port where
  init: "l1_new prm port = Some l \<Longrightarrow> l1_reach bm prm port l"
| tick: "l1_reach bm prm port l \<Longrightarrow> l1_on_current_tick t bm l b = Inr (l', b') \<Longrightarrow> l1_reach bm prm port (l1_apply_next_tick l')"
| cpu: "l1_reach bm prm port l \<Longrightarrow> l1_reach bm prm port (l\<lparr>ld_queues := ld, st_queues := st, amo_queues := am, misc_queues := mi\<rparr>)"

lemma l1_new_fields:
  assumes "l1_new prm port = Some l"
  shows "l1_block l = cb_new (set_offset prm) (way_cnt prm)" and "l1_mshrs l = \<lparr>max_sz = ucast (mshr_num prm), hashmap = []\<rparr>"
    and "l1_send_buf l = []" and "l1_send_buf_size l = 4"
  using assms by (auto simp: l1_new_def Let_def)

lemma l1_new_ok:
  assumes "l1_new prm port = Some l" and "set_offset prm < 32" and "0 < unat (way_cnt prm)"
  shows "l1_ok l"
  using cb_new_ok [OF assms(2,3)]
  by (simp add: l1_ok_def core_ok_def l1_new_fields [OF assms(1)] send_room_def mshr_get_def cb_new_empty [OF assms(2)])

lemma l1_reach_ok:
  assumes "set_offset prm < 32" and "0 < unat (way_cnt prm)" and "l1_reach bm prm port l"
  shows "l1_ok l \<and> l1_send_buf_size l = 4 \<and> max_sz (l1_mshrs l) = ucast (mshr_num prm)"
  using assms(3)
proof (induction rule: l1_reach.induct)
  case (init l)
  then show ?case using l1_new_ok [OF init assms(1,2)] by (simp add: l1_new_fields [OF init])
next
  case (tick l t b l' b')
  then have "l1_kept l l'" using l1_on_current_tick_safe [of l t bm b] by simp
  then show ?case using tick.IH by (auto simp: l1_kept_def l1_apply_next_tick_def Let_def l1_ok_def send_room_def)
next
  case (cpu l ld st am mi)
  then show ?case by (auto simp: l1_ok_def send_room_def)
qed

end
