(* ===== verification/L1Properties.thy ===== *)
theory L1Properties
  imports L1Proofs
begin

text \<open>
  The properties of the private cache of \<^verbatim>\<open>MoesiL1\<close>, over the lemmas of \<^verbatim>\<open>L1Proofs\<close>, and a sample cache on which they are instantiated.
\<close>

section \<open>A sample\<close>

definition l1_sample_param :: L1Param where
  "l1_sample_param = \<lparr>set_offset = 1, way_cnt = 1, dir_set_offset = 0, dir_way_cnt = 1, mshr_num = 2, index_latency = 1,
     param_nuca_num = 1, param_nuca_index = 0, index_width = 1\<rparr>"

text \<open>A cache with one line per set: it holds line 5, modified, with its only write miss for line 7 under way.\<close>

definition sample_l1 :: L1 where
  "sample_l1 = the (l1_new l1_sample_param 3)"

definition sample_l1_bm :: BusPortMapping where
  "sample_l1_bm = \<lparr>get_homenode_port = (\<lambda>_. Some 9), get_subnode_port = (\<lambda>_. Some 8), get_reqnode_port = (\<lambda>p. Some p), get_reqnode_index = (\<lambda>p. Some p)\<rparr>"

definition l1_message :: "u32 \<Rightarrow> u32 \<Rightarrow> u64 \<Rightarrow> u8 list \<Rightarrow> CacheCohenrenceMsg" where
  "l1_message ty arg line data = \<lparr>mtype = ty, marg = arg, mtransid = 0, mline = line, mdata = data\<rparr>"

definition l1_value :: "L1 \<Rightarrow> l1_error + (bool \<times> L1) \<Rightarrow> L1" where
  "l1_value d r = (case r of Inl _ \<Rightarrow> d | Inr (_, l) \<Rightarrow> l)"

definition sample_miss :: L1 where
  "sample_miss = (case store_line 9 320 0 [] [] sample_l1 of Inl _ \<Rightarrow> sample_l1 | Inr (_, l) \<Rightarrow> l)"

definition sample_held :: L1 where
  "sample_held = (l1_value sample_miss (l1_dispatch sample_l1_bm 9 (l1_message MSG_GET_RESP_MEM 0 5 (replicate 64 0)) (sample_miss\<lparr>l1_send_buf := []\<rparr>)))\<lparr>has_recieved := True, has_processed := True\<rparr>"

lemma sample_l1_new: "l1_new l1_sample_param 3 = Some sample_l1"
proof -
  have "l1_new l1_sample_param 3 \<noteq> None" by code_simp
  then show ?thesis by (simp add: sample_l1_def)
qed

lemma l1_ok_fields [simp]:
  "l1_ok (l\<lparr>has_recieved := r, has_processed := q\<rparr>) = l1_ok l"
  "core_ok (l1_block l) (l1_mshrs l) \<Longrightarrow> l1_ok (l\<lparr>l1_send_buf := []\<rparr>)"
  by (simp_all add: l1_ok_def send_room_def)

lemma sample_l1_ok: "l1_ok sample_l1"
  by (rule l1_new_ok [OF sample_l1_new]) (simp_all add: l1_sample_param_def)

lemma sample_miss_ok: "l1_ok sample_miss"
  using store_line_kept [OF sample_l1_ok, of 9 320 0 "[]" "[]"] sample_l1_ok
  by (auto simp: sample_miss_def l1_kept_def split: sum.split)

lemma sample_held_ok: "l1_ok sample_held"
proof -
  have o: "l1_ok (sample_miss\<lparr>l1_send_buf := []\<rparr>)" using l1_okD(1) [OF sample_miss_ok] by simp
  show ?thesis
    using l1_dispatch_safe [OF o, of "l1_message MSG_GET_RESP_MEM 0 5 (replicate 64 0)" sample_l1_bm 9] sample_miss_ok
    by (auto simp: sample_held_def l1_value_def l1_post_def split: sum.split)
qed

lemma sample_values:
  "mshr_get 5 (l1_mshrs sample_miss) = Some (zero_mshr\<lparr>ms_state := MSHR_ITOM\<rparr>)" "cb_lookup (l1_block sample_miss) 5 = None"
  "l1_view sample_held 5 = Some (replicate 64 0)" "send_room 1 sample_held"
  by code_simp+

section \<open>Properties\<close>

text \<open>
  C9. A line is never in two places. In every state the private cache can reach, whatever messages arrive and whatever the core asks for, a line
  is in the block or in a miss register but not in both, there are at most as many miss registers as configured and at most four messages wait to be
  sent, and no tick fails the assertion that block and miss register do not both hold a forwarded line, the assertion that a miss register is free for a
  displaced line, or one of the assertions on the state of a line.
\<close>

theorem l1_line_unique:
  assumes "set_offset prm < 32" and "0 < unat (way_cnt prm)" and "l1_reach bm prm port l"
  shows "(cb_lookup (l1_block l) k = None \<or> mshr_get k (l1_mshrs l) = None) \<and>
    length (hashmap (l1_mshrs l)) \<le> unat (ucast (mshr_num prm) :: u16) \<and> length (l1_send_buf l) \<le> 4 \<and>
    l1_on_current_tick t bm l b \<notin> {Inl BothPlacesAssert, Inl AllocAssert, Inl LineStateAssert}"
proof -
  note r = l1_reach_ok [OF assms]
  then have c: "core_ok (l1_block l) (l1_mshrs l)" and s: "send_room 0 l" by (simp_all add: l1_ok_def)
  have "l1_on_current_tick t bm l b \<notin> {Inl BothPlacesAssert, Inl AllocAssert, Inl LineStateAssert}"
    using l1_on_current_tick_safe [of l t bm b] r by (auto simp: l1_safe_def)
  moreover have "length (hashmap (l1_mshrs l)) \<le> unat (max_sz (l1_mshrs l))" using c by (simp add: core_ok_def)
  ultimately show ?thesis using core_okD(3) [OF c, of k] s r by (simp add: send_room_def)
qed

section \<open>Bytes\<close>

text \<open>The byte the cache holds for an address: a line has 64 bytes and the line of an address is the address over 64.\<close>

definition l1_byte :: "L1 \<Rightarrow> u64 \<Rightarrow> u8 option" where
  "l1_byte l a = map_option (\<lambda>data. data ! (unat a mod 64)) (l1_view l (a div 64))"

text \<open>A mask of the access's length selects its bytes; a mask of another length selects all of them.\<close>

definition byte_enabled :: "bool list \<Rightarrow> nat \<Rightarrow> nat \<Rightarrow> bool" where
  "byte_enabled valid n j \<longleftrightarrow> length valid \<noteq> n \<or> valid ! j"

lemma line_of_addr: "addr_to_line_index a = a div 64" 
  by (simp add: addr_to_line_index_def cache_line_addr_offset_def drop_bit_eq_div)

lemma u64_bound: "unat (a :: u64) < 2 ^ 64" using unsigned_less [of a, where 'a = nat] by simp
lemma u32_bound: "unat (b :: u32) < 2 ^ 32" using unsigned_less [of b, where 'a = nat] by simp

lemma offset_of_addr: "line_offset a = unat a mod 64"
proof -
  have "a AND 63 = take_bit 6 a" using take_bit_eq_mask [of 6 a] by (simp add: mask_eq_exp_minus_1)
  then show ?thesis by (simp add: line_offset_def unat_mod_distrib take_bit_eq_mod)
qed

lemma aligned_span:
  assumes "\<not> unaligned paddr len" and "len \<noteq> 0"
  shows "unat paddr mod 64 + unat len \<le> 64"
proof -
  define p where "p = unat paddr"
  define n where "n = unat len - 1"
  have l: "unat len = Suc n" using assms(2) by (simp add: n_def unat_gt_0)
  have n: "n < 2 ^ 32" "p < 2 ^ 64" using u64_bound [of paddr] u32_bound [of len] l by (simp_all add: p_def)
  have e: "paddr + ucast len - 1 = word_of_nat (p + n)"
  proof -
    have "paddr + ucast len = word_of_nat (p + unat len)" by (simp add: p_def)
    also have "\<dots> = word_of_nat (p + n) + 1" by (simp add: l)
    finally show ?thesis by simp
  qed
  have "unat (paddr + ucast len - 1) = (p + n) mod 2 ^ 64"
    unfolding e unsigned_of_nat by (simp add: take_bit_eq_mod)
  moreover have "unat (paddr div 64) = unat ((paddr + ucast len - 1) div 64)"
    using assms by (simp add: unaligned_def drop_bit_eq_div)
  ultimately have d: "p div 64 = (p + n) mod 2 ^ 64 div 64" by (simp add: unat_div_distrib p_def)
  have "p + n < 2 ^ 64"
  proof (rule ccontr)
    assume "\<not> p + n < 2 ^ 64"
    then have "(p + n) mod 2 ^ 64 = p + n - 2 ^ 64" and "2 ^ 63 \<le> p" using n by (simp_all add: mod_if)
    then have "(p + n) mod 2 ^ 64 < 2 ^ 32" and "2 ^ 63 \<le> p" using n by linarith+
    then have "(p + n) mod 2 ^ 64 div 64 < 2 ^ 26" and "2 ^ 57 \<le> p div 64"
      by (simp_all add: div_less_iff_less_mult less_eq_div_iff_mult_less_eq)
    with d show False by simp
  qed
  with d have "(p + n) div 64 < p div 64 + 1" by simp
  then have bound: "p + n < (p div 64 + 1) * 64" by (simp only: div_less_iff_less_mult)
  obtain k m where km: "p = 64 * k + m" "p div 64 = k" "p mod 64 = m" by (rule that [of "p div 64" "p mod 64"]) simp_all
  then have "64 * k + m + n < (k + 1) * 64" using bound by metis
  then have "m + Suc n \<le> 64" by simp
  then show ?thesis using km(3) by (simp add: l p_def)
qed

lemma span_iff:
  fixes a paddr :: u64
  assumes "unat paddr mod 64 + n \<le> 64"
  shows "unat (a - paddr) < n \<longleftrightarrow> a div 64 = paddr div 64 \<and> unat paddr mod 64 \<le> unat a mod 64 \<and> unat a mod 64 < unat paddr mod 64 + n"
    and "a div 64 = paddr div 64 \<Longrightarrow> unat paddr mod 64 \<le> unat a mod 64 \<Longrightarrow> unat (a - paddr) = unat a mod 64 - unat paddr mod 64"
proof -
  define q r where "q = unat paddr div 64" and "r = unat paddr mod 64"
  define u v where "u = unat a div 64" and "v = unat a mod 64"
  have p: "unat paddr = 64 * q + r" and b: "unat a = 64 * u + v" by (simp_all add: q_def r_def u_def v_def)
  have q: "q < 2 ^ 58" and r: "r < 64" "v < 64" using u64_bound [of paddr] by (simp_all add: q_def r_def v_def div_less_iff_less_mult)
  have s: "unat (a - paddr) = (if unat paddr \<le> unat a then unat a - unat paddr else unat a + 2 ^ 64 - unat paddr)"
    by (simp add: unat_sub_if_size word_size word_le_nat_alt)
  have l: "a div 64 = paddr div 64 \<longleftrightarrow> u = q" by (simp add: word_unat_eq_iff unat_div_distrib u_def q_def)
  have m: "r + n \<le> 64" using assms by (simp add: r_def)
  have "unat (a - paddr) < n \<longleftrightarrow> u = q \<and> r \<le> v \<and> v < r + n"
  proof
    assume less: "unat (a - paddr) < n"
    have u: "u = q"
    proof (cases "64 * q + r \<le> 64 * u + v")
      case True
      with less have "64 * u + v < n + (64 * q + r)" by (simp add: s p b)
      with True r m have "64 * u < 64 * q + 64" by linarith
      moreover from True r have "64 * q < 64 * u + 64" by linarith
      ultimately show ?thesis by simp
    next
      case False
      with less have "64 * u + v + 2 ^ 64 < n + (64 * q + r)" by (simp add: s p b)
      then have "2 ^ 64 < 64 * q + 64" using m by simp
      then show ?thesis using q by simp
    qed
    with less q r m show "u = q \<and> r \<le> v \<and> v < r + n" by (auto simp: s p b split: if_splits)
  qed (auto simp: s p b)
  then show "unat (a - paddr) < n \<longleftrightarrow> a div 64 = paddr div 64 \<and> unat paddr mod 64 \<le> unat a mod 64 \<and> unat a mod 64 < unat paddr mod 64 + n"
    by (simp add: l r_def v_def)
  assume "a div 64 = paddr div 64" "unat paddr mod 64 \<le> unat a mod 64"
  then show "unat (a - paddr) = unat a mod 64 - unat paddr mod 64" unfolding s by (simp add: p b l r)
qed

lemma read_bytes_spec:
  assumes "off + n \<le> length line" and "n \<le> length buf"
  shows "length (read_bytes line off n buf valid) = length buf"
    and "j < length buf \<Longrightarrow> read_bytes line off n buf valid ! j = (if j < n \<and> byte_enabled valid n j then line ! (off + j) else buf ! j)"
  using assms by (auto simp: read_bytes_def byte_enabled_def nth_append add.commute)

lemma write_bytes_spec:
  "length (write_bytes line off n buf valid) = length line"
  "j < length line \<Longrightarrow> write_bytes line off n buf valid ! j =
     (if off \<le> j \<and> j < off + n \<and> byte_enabled valid n (j - off) then buf ! (j - off) else line ! j)"
  by (auto simp: write_bytes_def byte_enabled_def)

lemma byte_at:
  assumes "\<not> unaligned paddr len" and "j < unat len" and "l1_view l (paddr div 64) = Some data"
  shows "l1_byte l (paddr + of_nat j) = Some (data ! (unat paddr mod 64 + j))"
proof -
  have nz: "len \<noteq> 0" using assms(2) by auto
  have "unat ((paddr + of_nat j) - paddr) = j"
    using assms(2) aligned_span [OF assms(1) nz] by (simp add: unsigned_of_nat take_bit_nat_eq_self)
  then have "(paddr + of_nat j) div 64 = paddr div 64 \<and> unat (paddr + of_nat j) mod 64 = unat paddr mod 64 + j"
    using span_iff [OF aligned_span [OF assms(1) nz], of "paddr + of_nat j"] assms(2) by auto
  then show ?thesis using assms(3) by (simp add: l1_byte_def)
qed

lemma byte_stored:
  assumes al: "\<not> unaligned paddr len" and data: "l1_view l (paddr div 64) = Some data" and size: "length data = 64"
    and view: "l1_view l' = (l1_view l)(paddr div 64 \<mapsto> write_bytes data (unat paddr mod 64) (unat len) buf valid)"
  shows "l1_byte l' a = (if unat (a - paddr) < unat len \<and> byte_enabled valid (unat len) (unat (a - paddr)) then Some (buf ! unat (a - paddr)) else l1_byte l a)"
proof (cases "len = 0")
  case True
  then show ?thesis using data view by (auto simp: l1_byte_def write_bytes_def)
next
  case False
  note span = span_iff [OF aligned_span [OF al False], of a]
  show ?thesis
  proof (cases "a div 64 = paddr div 64")
    case True
    then have "l1_byte l' a = Some (write_bytes data (unat paddr mod 64) (unat len) buf valid ! (unat a mod 64))" "l1_byte l a = Some (data ! (unat a mod 64))"
      using data view by (simp_all add: l1_byte_def)
    then show ?thesis using True span by (auto simp: write_bytes_spec size)
  next
    case False
    then show ?thesis using span view by (simp add: l1_byte_def)
  qed
qed

lemma l1_access_lines:
  assumes ok: "l1_ok l" and len: "unat len \<le> length buf"
  shows "(\<exists>e out l'. load_line port paddr len buf valid l = Inr (e, out, l') \<and> l1_ok l' \<and> l1_view l' = l1_view l \<and>
      (e = err_success) = (cb_lookup (l1_block l) (addr_to_line_index paddr) \<noteq> None \<or>
        (\<exists>m. mshr_get (addr_to_line_index paddr) (l1_mshrs l) = Some m \<and> ms_state m \<in> {MSHR_STOM, MSHR_OTOM})) \<and>
      (if e = err_success then \<exists>data. l1_view l (addr_to_line_index paddr) = Some data \<and> out = read_bytes data (line_offset paddr) (unat len) buf valid
       else out = buf)) \<and>
    (\<exists>e l'. store_line port paddr len buf valid l = Inr (e, l') \<and> l1_ok l' \<and>
      (e = err_success) = (\<exists>p. cb_lookup (l1_block l) (addr_to_line_index paddr) = Some p \<and> tl_state p \<in> {CC_EXCLUSIVE, CC_MODIFIED}) \<and>
      (if e = err_success then \<exists>data. l1_view l (addr_to_line_index paddr) = Some data \<and>
         l1_view l' = (l1_view l)(addr_to_line_index paddr \<mapsto> write_bytes data (line_offset paddr) (unat len) buf valid)
       else l1_view l' = l1_view l)) \<and>
    (case handle_received_msg bm l of Inl _ \<Rightarrow> True
      | Inr l' \<Rightarrow> l1_view l' = (l1_view l)(mline (msgbuf l) := l1_view l' (mline (msgbuf l))))"
  (is "?L \<and> ?S \<and> ?M")
proof (intro conjI)
  let ?k = "addr_to_line_index paddr"
  note cb = core_okD(1) [OF l1_okD(1) [OF ok]]
  have "\<exists>e out l'. load_line port paddr len buf valid l = Inr (e, out, l') \<and>
      (e = err_success) = (cb_lookup (l1_block l) ?k \<noteq> None \<or> (\<exists>m. mshr_get ?k (l1_mshrs l) = Some m \<and> ms_state m \<in> {MSHR_STOM, MSHR_OTOM}))"
    using len by (auto simp: load_line_def get_line_spec [OF cb] Let_def check_def split: option.split prod.split bool.split)
  then obtain e out l' where r: "load_line port paddr len buf valid l = Inr (e, out, l')"
    and e: "(e = err_success) = (cb_lookup (l1_block l) ?k \<noteq> None \<or> (\<exists>m. mshr_get ?k (l1_mshrs l) = Some m \<and> ms_state m \<in> {MSHR_STOM, MSHR_OTOM}))" by blast
  with load_line_safe [OF ok, of paddr len buf valid port] show ?L by (auto simp: l1_kept_def)
next
  let ?k = "addr_to_line_index paddr"
  note c = l1_okD(1) [OF ok] and cb = core_okD(1) [OF l1_okD(1) [OF ok]]
  have "\<exists>e l'. store_line port paddr len buf valid l = Inr (e, l') \<and>
      (e = err_success) = (\<exists>p. cb_lookup (l1_block l) ?k = Some p \<and> tl_state p \<in> {CC_EXCLUSIVE, CC_MODIFIED})"
  proof (cases "cb_lookup (l1_block l) ?k")
    case None
    then show ?thesis by (auto simp: store_line_def get_line_spec [OF cb] Let_def split: option.split)
  next
    case (Some p)
    then show ?thesis using core_okD(4) [OF c Some] core_okD(6) [OF c, of ?k] len
      by (auto simp: store_line_def get_line_spec [OF cb] Let_def check_def line_states_def)
  qed
  then obtain e l' where r: "store_line port paddr len buf valid l = Inr (e, l')"
    and e: "(e = err_success) = (\<exists>p. cb_lookup (l1_block l) ?k = Some p \<and> tl_state p \<in> {CC_EXCLUSIVE, CC_MODIFIED})" by blast
  with store_line_safe [OF ok, of paddr len buf valid port] show ?S by (auto simp: l1_kept_def)
next
  have "l1_safe (\<lambda>l'. l1_view l' = (l1_view l)(mline (msgbuf l) := l1_view l' (mline (msgbuf l))))
      (ebind (l1_dispatch bm port (msgbuf l) l) (\<lambda>(done, l'). Inr (if done then l'\<lparr>has_processed := True\<rparr> else l')))" for port
  proof (rule l1_safe_bind [OF l1_dispatch_safe [OF ok]])
    fix r
    assume p: "l1_post (mline (msgbuf l)) UNIV l r"
    obtain d l' where r: "r = (d, l')" by fastforce
    have "l1_view (l'\<lparr>has_processed := True\<rparr>) = l1_view l'" by (simp add: l1_view_def)
    with p show "l1_safe (\<lambda>l'. l1_view l' = (l1_view l)(mline (msgbuf l) := l1_view l' (mline (msgbuf l))))
        (case r of (done, l') \<Rightarrow> Inr (if done then l'\<lparr>has_processed := True\<rparr> else l'))"
      by (auto simp: r l1_post_def split: if_splits)
  qed
  then have "l1_safe (\<lambda>l'. l1_view l' = (l1_view l)(mline (msgbuf l) := l1_view l' (mline (msgbuf l)))) (handle_received_msg bm l)"
    by (auto simp: handle_received_msg_def require_def split: option.split)
  then show ?M by (auto simp: l1_safe_def split: sum.splits)
qed

text \<open>
  C11. Loads and stores work on one copy of each line, byte by byte. For an access within a line and a buffer long enough, a load and a store always return.
  A load succeeds exactly when the line is in the block or waits for write permission; then byte j of the buffer, where the mask selects it, is the byte the cache
  holds at the j-th address from the given one, the rest of the buffer is kept, and no line changes. A store succeeds exactly when the line is in the block in exclusive or
  modified state; then the byte at every selected address of the access is that of the buffer, every other byte and every other line are kept. Any other outcome,
  a new miss included, leaves the contents of every line as they were, and a message changes at most the contents of its own line.
\<close>

theorem l1_accesses_its_data:
  assumes ok: "l1_ok l" and len: "unat len \<le> length buf" and al: "\<not> unaligned paddr len"
    and held: "case l1_view l (paddr div 64) of None \<Rightarrow> True | Some data \<Rightarrow> length data = 64"
  shows "(\<exists>e out l'. load_line port paddr len buf valid l = Inr (e, out, l') \<and> l1_ok l' \<and> l1_view l' = l1_view l \<and>
      (e = err_success) = (cb_lookup (l1_block l) (paddr div 64) \<noteq> None \<or>
        (\<exists>m. mshr_get (paddr div 64) (l1_mshrs l) = Some m \<and> ms_state m \<in> {MSHR_STOM, MSHR_OTOM})) \<and>
      length out = length buf \<and>
      (if e = err_success
       then \<forall>j<length buf. Some (out ! j) = (if j < unat len \<and> byte_enabled valid (unat len) j then l1_byte l (paddr + of_nat j) else Some (buf ! j))
       else out = buf)) \<and>
    (\<exists>e l'. store_line port paddr len buf valid l = Inr (e, l') \<and> l1_ok l' \<and>
      (e = err_success) = (\<exists>p. cb_lookup (l1_block l) (paddr div 64) = Some p \<and> tl_state p \<in> {CC_EXCLUSIVE, CC_MODIFIED}) \<and>
      (\<forall>k. k = paddr div 64 \<and> e = err_success \<or> l1_view l' k = l1_view l k) \<and>
      map_option length (l1_view l' (paddr div 64)) = map_option length (l1_view l (paddr div 64)) \<and>
      (e \<noteq> err_success \<or> (\<forall>a. l1_byte l' a = (if unat (a - paddr) < unat len \<and> byte_enabled valid (unat len) (unat (a - paddr))
         then Some (buf ! unat (a - paddr)) else l1_byte l a)))) \<and>
    (case handle_received_msg bm l of Inl _ \<Rightarrow> True
      | Inr l' \<Rightarrow> l1_view l' = (l1_view l)(mline (msgbuf l) := l1_view l' (mline (msgbuf l))))"
  (is "?L \<and> ?S \<and> ?M")
proof (intro conjI)
  note old = l1_access_lines [OF ok len, where port = port and paddr = paddr and valid = valid and bm = bm, unfolded line_of_addr offset_of_addr]
  from old obtain e out l' where l: "load_line port paddr len buf valid l = Inr (e, out, l')" "l1_ok l'" "l1_view l' = l1_view l"
    "(e = err_success) = (cb_lookup (l1_block l) (paddr div 64) \<noteq> None \<or>
        (\<exists>m. mshr_get (paddr div 64) (l1_mshrs l) = Some m \<and> ms_state m \<in> {MSHR_STOM, MSHR_OTOM}))"
    and out: "if e = err_success then \<exists>data. l1_view l (paddr div 64) = Some data \<and> out = read_bytes data (unat paddr mod 64) (unat len) buf valid
       else out = buf" by blast
  have span: "unat paddr mod 64 + unat len \<le> 64"
    using aligned_span [OF al] by (cases "len = 0") (simp_all add: less_imp_le)
  have "length out = length buf \<and> (if e = err_success
       then \<forall>j<length buf. Some (out ! j) = (if j < unat len \<and> byte_enabled valid (unat len) j then l1_byte l (paddr + of_nat j) else Some (buf ! j))
       else out = buf)"
    using out held span len by (auto simp: read_bytes_spec byte_at [OF al] split: if_splits)
  with l show ?L by blast
  from old obtain e l' where s: "store_line port paddr len buf valid l = Inr (e, l')" "l1_ok l'"
    "(e = err_success) = (\<exists>p. cb_lookup (l1_block l) (paddr div 64) = Some p \<and> tl_state p \<in> {CC_EXCLUSIVE, CC_MODIFIED})"
    and v: "if e = err_success then \<exists>data. l1_view l (paddr div 64) = Some data \<and>
         l1_view l' = (l1_view l)(paddr div 64 \<mapsto> write_bytes data (unat paddr mod 64) (unat len) buf valid)
       else l1_view l' = l1_view l" by blast
  have "(\<forall>k. k = paddr div 64 \<and> e = err_success \<or> l1_view l' k = l1_view l k) \<and>
      map_option length (l1_view l' (paddr div 64)) = map_option length (l1_view l (paddr div 64))"
    using v by (auto simp: write_bytes_spec split: if_splits)
  moreover have "e \<noteq> err_success \<or> (\<forall>a. l1_byte l' a = (if unat (a - paddr) < unat len \<and> byte_enabled valid (unat len) (unat (a - paddr))
         then Some (buf ! unat (a - paddr)) else l1_byte l a))"
    using v held byte_stored [OF al] by (cases "e = err_success") (auto simp del: split_paired_All)
  ultimately show ?S using s by blast
  show ?M using old by blast
qed

lemma l1_line_unique_witness:
  "(cb_lookup (l1_block sample_l1) 5 = None \<or> mshr_get 5 (l1_mshrs sample_l1) = None) \<and>
   (\<forall>b. l1_on_current_tick 0 sample_l1_bm sample_l1 b \<notin> {Inl BothPlacesAssert, Inl AllocAssert, Inl LineStateAssert})"
  using l1_line_unique [OF _ _ l1_reach.init [OF sample_l1_new], of 5 0 sample_l1_bm] by (simp add: l1_sample_param_def)

text \<open>A cache that holds line 5 with bytes 0 to 63.\<close>

definition sample_bytes :: L1 where
  "sample_bytes = l1_value sample_miss (l1_dispatch sample_l1_bm 9 (l1_message MSG_GET_RESP_MEM 0 5 (map of_nat [0..<64])) (sample_miss\<lparr>l1_send_buf := []\<rparr>))"

lemma sample_bytes_ok: "l1_ok sample_bytes"
proof -
  have o: "l1_ok (sample_miss\<lparr>l1_send_buf := []\<rparr>)" using l1_okD(1) [OF sample_miss_ok] by simp
  show ?thesis
    using l1_dispatch_safe [OF o, of "l1_message MSG_GET_RESP_MEM 0 5 (map of_nat [0..<64])" sample_l1_bm 9] sample_miss_ok
    by (auto simp: sample_bytes_def l1_value_def l1_post_def split: sum.split)
qed

lemma sample_bytes_values:
  "l1_view sample_bytes 5 = Some (map of_nat [0..<64])" "map_option tl_state (cb_lookup (l1_block sample_bytes) 5) = Some CC_MODIFIED"
  by code_simp+

lemma l1_accesses_its_data_witness:
  "(\<exists>out l'. load_line 9 324 4 [0, 0, 0, 0, 0] [] sample_bytes = Inr (err_success, out, l') \<and> out ! 0 = 4 \<and> out ! 3 = 7 \<and> out ! 4 = 0) \<and>
   (\<exists>l'. store_line 9 324 4 [1, 2, 3, 4] [True, False, True, True] sample_bytes = Inr (err_success, l') \<and>
     l1_byte l' 323 = Some 3 \<and> l1_byte l' 324 = Some 1 \<and> l1_byte l' 325 = Some 5 \<and> l1_byte l' 328 = Some 8)"
proof -
  have d: "(324 :: u64) div 64 = 5" "\<not> unaligned 324 4" by code_simp+
  have b: "l1_byte sample_bytes 323 = Some 3" "l1_byte sample_bytes 324 = Some 4" "l1_byte sample_bytes 325 = Some 5"
    "l1_byte sample_bytes 327 = Some 7" "l1_byte sample_bytes 328 = Some 8" by code_simp+
  obtain p where p: "cb_lookup (l1_block sample_bytes) 5 = Some p" "tl_state p = CC_MODIFIED" using sample_bytes_values(2) by auto
  have h: "case l1_view sample_bytes (324 div 64) of None \<Rightarrow> True | Some data \<Rightarrow> length data = 64" using sample_bytes_values(1) by (simp add: d)
  have u: "unat (323 - 324 :: u64) \<ge> 4" "unat (328 - 324 :: u64) = 4" "unat (325 - 324 :: u64) = 1" by (simp_all add: unsigned_minus_1_eq_mask mask_eq_exp_minus_1)
  have n: "unat (4 :: u32) \<le> length [0, 0, 0, 0, 0 :: u8]" "unat (4 :: u32) \<le> length [1, 2, 3, 4 :: u8]" by simp_all
  obtain e out l' where l: "load_line 9 324 4 [0, 0, 0, 0, 0] [] sample_bytes = Inr (e, out, l')" "e = err_success"
    and out: "\<forall>j<5. Some (out ! j) = (if j < 4 then l1_byte sample_bytes (324 + of_nat j) else Some ([0, 0, 0, 0, 0] ! j))"
    using conjunct1 [OF l1_accesses_its_data [OF sample_bytes_ok n(1) d(2) h, where port = 9 and valid = "[]", unfolded d(1)]] p(1)
    by (elim exE conjE) (simp add: byte_enabled_def)
  obtain e' l'' where s: "store_line 9 324 4 [1, 2, 3, 4] [True, False, True, True] sample_bytes = Inr (e', l'')" "e' = err_success"
    and st: "\<forall>a. l1_byte l'' a = (if unat (a - 324) < 4 \<and> [True, False, True, True] ! unat (a - 324)
         then Some ([1, 2, 3, 4] ! unat (a - 324)) else l1_byte sample_bytes a)"
    using conjunct1 [OF conjunct2 [OF l1_accesses_its_data [OF sample_bytes_ok n(2) d(2) h, where port = 9 and valid = "[True, False, True, True]", unfolded d(1)]]] p
    by (elim exE conjE) (simp add: byte_enabled_def)
  have "out ! 0 = 4" "out ! 3 = 7" "out ! 4 = 0" using spec [OF out, of 0] spec [OF out, of 3] spec [OF out, of 4] b by simp_all
  moreover have "l1_byte l'' 323 = Some 3" "l1_byte l'' 324 = Some 1" "l1_byte l'' 325 = Some 5" "l1_byte l'' 328 = Some 8"
    using spec [OF st, of 323] spec [OF st, of 324] spec [OF st, of 325] spec [OF st, of 328] b u by simp_all
  ultimately show ?thesis using l s by blast
qed

text \<open>
  C12. A forwarded request is answered with the line's contents, wherever they are. When the cache holds the contents of a line and has room for a message,
  a read forward always succeeds: it sends exactly these contents to the requester, keeps them and leaves the line unwritable; a write forward sends them and gives the
  line up. Neither changes another line.
\<close>

theorem l1_forwards_answer:
  assumes ok: "l1_ok l" and v: "l1_view l k = Some data" and room: "send_room 1 l"
  shows "(\<exists>l'. handle_gets_forward k req l = Inr (True, l') \<and> l1_ok l' \<and> l1_view l' = l1_view l \<and>
      l1_send_buf l' = l1_send_buf l @ [\<lparr>rs_msg = construct_msg_pack (l1_message MSG_GETS_RESP 1 k data), rs_dst = req, rs_cha = CHANNEL_RESP\<rparr>] \<and>
      map_option tl_state (cb_lookup (l1_block l') k) \<in> {None, Some CC_OWNED}) \<and>
    (\<exists>l'. handle_getm_forward k req l = Inr (True, l') \<and> l1_ok l' \<and> l1_view l' = (l1_view l)(k := None) \<and>
      l1_send_buf l' = l1_send_buf l @ [\<lparr>rs_msg = construct_msg_pack (l1_message MSG_GETM_RESP 0 k data), rs_dst = req, rs_cha = CHANNEL_RESP\<rparr>])"
proof -
  note c = l1_okD(1) [OF ok]
  have "\<exists>l'. handle_gets_forward k req l = Inr (True, l') \<and> map_option tl_state (cb_lookup (l1_block l') k) \<in> {None, Some CC_OWNED}"
    and "\<exists>l'. handle_getm_forward k req l = Inr (True, l')"
    using c
  proof (atomize (full), cases rule: held_cases [where k = k])
    case (block p)
    then show "(\<exists>l'. handle_gets_forward k req l = Inr (True, l') \<and> map_option tl_state (cb_lookup (l1_block l') k) \<in> {None, Some CC_OWNED}) \<and>
      (\<exists>l'. handle_getm_forward k req l = Inr (True, l'))"
      using room by (simp add: handle_gets_forward_def handle_getm_forward_def get_line_spec core_okD(1) [OF c] set_payload_lookup core_okD(2) [OF c])
  next
    case (register m)
    then show "(\<exists>l'. handle_gets_forward k req l = Inr (True, l') \<and> map_option tl_state (cb_lookup (l1_block l') k) \<in> {None, Some CC_OWNED}) \<and>
      (\<exists>l'. handle_getm_forward k req l = Inr (True, l'))"
      using room by (simp add: handle_gets_forward_def handle_getm_forward_def get_line_spec core_okD(1) [OF c] Let_def)
  qed (use v in simp)
  with handle_gets_forward_safe [OF ok, of k req] handle_getm_forward_safe [OF ok, of k req] v show ?thesis
    by (auto simp: l1_post_def push_defs l1_message_def fun_upd_idem)
qed

lemma l1_forwards_answer_witness:
  "\<exists>l'. handle_getm_forward 5 4 sample_held = Inr (True, l') \<and> l1_view l' 5 = None \<and>
    last (l1_send_buf l') = \<lparr>rs_msg = construct_msg_pack (l1_message MSG_GETM_RESP 0 5 (replicate 64 0)), rs_dst = 4, rs_cha = CHANNEL_RESP\<rparr>"
  using l1_forwards_answer [OF sample_held_ok sample_values(3,4), of 4] by auto

section \<open>The reservation\<close>

definition reserves :: "u64 \<Rightarrow> L1 \<Rightarrow> bool" where
  "reserves a l \<longleftrightarrow> reserved_address_valid l \<and> reserved_address l = a"

definition same_reservation :: "L1 \<Rightarrow> L1 \<Rightarrow> bool" where
  "same_reservation l l' \<longleftrightarrow> reserved_address_valid l' = reserved_address_valid l \<and> reserved_address l' = reserved_address l"

definition upholds :: "('a \<Rightarrow> bool) \<Rightarrow> 'e + 'a \<Rightarrow> bool" where
  "upholds P r \<longleftrightarrow> (case r of Inl _ \<Rightarrow> True | Inr x \<Rightarrow> P x)"

lemma upholds_simps [simp]:
  "upholds P (Inl e)" "upholds P (Inr x) = P x" "upholds (\<lambda>_. True) r"
  "upholds P (ebind (check err c) f) = (c \<longrightarrow> upholds P (f ()))" "upholds P (ebind (require err v) g) = (\<forall>x. v = Some x \<longrightarrow> upholds P (g x))"
  by (simp_all add: upholds_def check_def require_def split: option.split sum.split)

lemma upholds_bind: "upholds Q r \<Longrightarrow> (\<And>x. Q x \<Longrightarrow> upholds P (f x)) \<Longrightarrow> upholds P (ebind r f)"
  by (cases r) (simp_all add: upholds_def)

lemma same_reservation_simps [simp]:
  "same_reservation l l" "same_reservation l (l1_push_send_buf dst ch ty k arg l') = same_reservation l l'"
  "same_reservation l (l1_push_send_buf_with_line dst ch ty k arg d l') = same_reservation l l'" "same_reservation l (mshr_set k m l') = same_reservation l l'"
  "same_reservation l (l'\<lparr>l1_block := blk\<rparr>) = same_reservation l l'" "same_reservation l (l'\<lparr>l1_mshrs := ms\<rparr>) = same_reservation l l'"
  "same_reservation l (l'\<lparr>newlines := nl\<rparr>) = same_reservation l l'" "same_reservation l (l'\<lparr>l1_send_buf := sb\<rparr>) = same_reservation l l'"
  "same_reservation l (l'\<lparr>l1_miss_count := n\<rparr>) = same_reservation l l'" "same_reservation l (l'\<lparr>l1_hit_count := n\<rparr>) = same_reservation l l'"
  "same_reservation l (l'\<lparr>msgbuf := mb, has_recieved := True\<rparr>) = same_reservation l l'"
  by (simp_all add: same_reservation_def push_defs mshr_set_def)

lemma same_reservation_trans: "same_reservation l l1 \<Longrightarrow> same_reservation l1 l2 \<Longrightarrow> same_reservation l l2"
  by (simp add: same_reservation_def)

lemma handle_new_line_reservation:
  assumes "same_reservation l l'"
  shows "upholds (\<lambda>l2. upholds (\<lambda>r. same_reservation l (snd r)) (Inr (True, l2))) (handle_new_line bm k m st l')"
  using assms by (auto simp: handle_new_line_def Let_def split: option.split)

lemmas new_line_reservation = upholds_bind [OF handle_new_line_reservation]

lemma handler_reservation:
  "upholds (\<lambda>r. same_reservation l (snd r)) (handle_gets_forward k arg l)"
  "upholds (\<lambda>r. same_reservation l (snd r)) (handle_getm_forward k arg l)"
  "upholds (\<lambda>r. same_reservation l (snd r)) (handle_put_ack k l)"
  "upholds (\<lambda>r. same_reservation l (snd r)) (finish_getm bm port k m l)"
  "upholds (\<lambda>r. same_reservation l (snd r)) (handle_gets_resp bm port k arg data l)"
  "upholds (\<lambda>r. same_reservation l (snd r)) (handle_getm_resp bm port k arg data l)"
  "upholds (\<lambda>r. same_reservation l (snd r)) (handle_get_resp_mem bm port k data l)"
  by (auto simp: handle_gets_forward_def Let_def split: option.split)
    (auto simp: handle_getm_forward_def Let_def split: option.split, auto simp: handle_put_ack_def,
     auto simp: finish_getm_def intro!: new_line_reservation, auto simp: handle_gets_resp_def Let_def intro!: new_line_reservation,
     auto simp: handle_getm_resp_def Let_def intro!: new_line_reservation, auto simp: handle_get_resp_mem_def Let_def intro!: new_line_reservation)

lemma ack_reservation:
  "upholds (\<lambda>r. same_reservation l (snd r)) (handle_invalid_ack bm port k l)"
  "upholds (\<lambda>r. same_reservation l (snd r)) (handle_getm_ack bm port k arg l)"
  by (auto simp: handle_invalid_ack_def handle_getm_ack_def handler_reservation Let_def)

lemma l1_dispatch_reservation:
  "mtype msg \<noteq> MSG_INVALID \<Longrightarrow> upholds (\<lambda>r. same_reservation l (snd r)) (l1_dispatch bm port msg l)"
  by (simp add: l1_dispatch_def handler_reservation ack_reservation Let_def)

lemma load_line_reservation: "upholds (\<lambda>(e, out, l'). same_reservation l l') (load_line port paddr len buf valid l)"
  by (auto simp: load_line_def Let_def split: option.split prod.split bool.split)

lemma store_line_reservation: "upholds (\<lambda>(e, l'). e \<noteq> err_success \<longrightarrow> same_reservation l l') (store_line port paddr len buf valid l)"
  by (auto simp: store_line_def Let_def split: option.split prod.split)

lemma recieve_msg_reservation: "upholds (\<lambda>(l', b'). same_core l l' \<and> same_reservation l l') (recieve_msg tick l b)"
proof -
  have "upholds (\<lambda>(l', b'). same_core l l' \<and> same_reservation l l') (l1_scan tick c n l b)" for c n
    by (induction n arbitrary: c) (auto simp: same_core_def intro!: upholds_bind [where Q = "\<lambda>_. True"])
  then show ?thesis by (simp add: recieve_msg_def same_core_def)
qed

lemma send_msg_reservation: "upholds (\<lambda>(l', b'). same_reservation l l') (send_msg tick l b)"
  by (auto simp: send_msg_def intro!: upholds_bind [where Q = "\<lambda>_. True"])

lemma handle_invalid_reservation:
  "handle_invalid k arg l = Inr (d, l') \<Longrightarrow>
     reserved_address l' = reserved_address l \<and>
     reserved_address_valid l' = (reserved_address_valid l \<and> (\<not> d \<or> k \<noteq> addr_to_line_index (reserved_address l)))"
  by (auto simp: handle_invalid_def push_defs mshr_set_def Let_def split: option.splits if_splits)

text \<open>What may happen between a load that reserves an address and the conditional store: messages, except an invalidation of the reserved line, loads, stores that do not succeed,
  and the traffic of messages on the bus.\<close>

inductive l1_between :: "BusPortMapping \<Rightarrow> u64 \<Rightarrow> L1 \<Rightarrow> L1 \<Rightarrow> bool" for bm a where
  message: "l1_dispatch bm port msg l = Inr (d, l') \<Longrightarrow> mtype msg \<noteq> MSG_INVALID \<or> mline msg \<noteq> a div 64 \<Longrightarrow> l1_between bm a l l'"
| load: "load_line port paddr len buf valid l = Inr (e, out, l') \<Longrightarrow> l1_between bm a l l'"
| store: "store_line port paddr len buf valid l = Inr (e, l') \<Longrightarrow> e \<noteq> err_success \<Longrightarrow> l1_between bm a l l'"
| receive: "recieve_msg tick l b = Inr (l', b') \<Longrightarrow> l1_between bm a l l'"
| send: "send_msg tick l b = Inr (l', b') \<Longrightarrow> l1_between bm a l l'"

lemma upholds_result: "upholds P r \<Longrightarrow> r = Inr x \<Longrightarrow> P x" by simp

lemma same_reserves: "same_reservation l l' \<Longrightarrow> reserves a l' = reserves a l"
  by (simp add: same_reservation_def reserves_def)

lemma between_keeps:
  assumes "l1_between bm a l l'" and "l1_ok l" and "reserves a l"
  shows "l1_ok l' \<and> reserves a l'"
  using assms
proof cases
  case (message port msg d)
  have "reserves a l'"
  proof (cases "mtype msg = MSG_INVALID")
    case True
    then have "handle_invalid (mline msg) (marg msg) l = Inr (d, l')" using message(1) by (simp add: l1_dispatch_def Let_def)
    then show ?thesis using handle_invalid_reservation message(2) True assms(3) by (fastforce simp: reserves_def line_of_addr)
  next
    case False
    show ?thesis using upholds_result [OF l1_dispatch_reservation [OF False] message(1)] assms(3) by (simp add: same_reserves)
  qed
  then show ?thesis using l1_safe_result [OF l1_dispatch_safe [OF assms(2)] message(1)] by (simp add: l1_post_def)
next
  case (load port paddr len buf valid e out)
  then show ?thesis using upholds_result [OF load_line_reservation load] l1_safe_result [OF load_line_kept [OF assms(2)] load] assms(3)
    by (auto simp: same_reserves dest: l1_kept_ok)
next
  case (store port paddr len buf valid e)
  then show ?thesis using upholds_result [OF store_line_reservation store(1)] l1_safe_result [OF store_line_kept [OF assms(2)] store(1)] assms(3)
    by (auto simp: same_reserves dest: l1_kept_ok)
next
  case (receive tick b b')
  then show ?thesis using upholds_result [OF recieve_msg_reservation receive] l1_safe_result [OF recieve_msg_kept [OF assms(2)] receive] assms(3)
    by (auto simp: same_reserves dest: l1_kept_ok)
next
  case (send tick b b')
  then show ?thesis using upholds_result [OF send_msg_reservation send] l1_safe_result [OF send_msg_safe [OF assms(2)] send] assms(3)
    by (auto simp: same_reserves dest: l1_kept_ok)
qed

lemma conditional_succeeds:
  assumes ok: "l1_ok l" and res: "reserves a l" and p: "cb_lookup (l1_block l) (a div 64) = Some p" "tl_state p \<in> {CC_EXCLUSIVE, CC_MODIFIED}"
    and home: "get_homenode_port bm (a div 64) = Some home" and rcv: "recieve_msg tick l b = Inr (l', b')" and len: "\<not> unaligned a len" "unat len \<le> length buf"
  shows "\<exists>l3. store_conditional tick bm a len buf l b = Inr (err_success, l3, b')"
proof -
  have c: "same_core l l'" using upholds_result [OF recieve_msg_reservation rcv] by simp
  then have "cb_inv (l1_block l')" "cb_lookup (l1_block l') (a div 64) = Some p"
    using core_okD(2) [OF l1_okD(1) [OF ok]] p(1) by (simp_all add: same_core_def)
  then have "\<exists>l3. store_line home a len buf [] l' = Inr (err_success, l3)"
    using p(2) len(2) core_okD(1) [OF l1_okD(1) [OF ok]] c
    by (auto simp: store_line_def get_line_spec same_core_def line_of_addr check_def Let_def)
  then show ?thesis using res home rcv len(1) by (auto simp: store_conditional_def reserves_def l1_store_def line_of_addr)
qed

lemma between_star:
  assumes "(l1_between bm a)\<^sup>*\<^sup>* l l'" and "l1_ok l" and "reserves a l"
  shows "l1_ok l' \<and> reserves a l'"
  using assms by (induction rule: rtranclp_induct) (use between_keeps in blast)+

text \<open>
  C35. A write request from another core does not end a reservation. Take any cache that has reserved an address and holds its line. The directory's forward of a write
  request takes the line away and leaves the reservation; so does whatever follows, short of an invalidation of the line: however the line comes back, with whatever contents, once
  the cache may write it again the conditional store succeeds, although another core may have written the line in between. An invalidation of the line does clear the reservation.
\<close>

theorem reservation_survives_forward:
  assumes ok: "l1_ok l" and res: "reserves a l" and held: "l1_view l (a div 64) = Some data" and room: "send_room 1 l"
  shows "(\<exists>l1. l1_dispatch bm port (l1_message MSG_GETM_FORWARD req (a div 64) []) l = Inr (True, l1) \<and> l1_view l1 (a div 64) = None \<and> reserves a l1 \<and>
      (\<forall>l2. (l1_between bm a)\<^sup>*\<^sup>* l1 l2 \<longrightarrow> reserves a l2 \<and>
        (\<forall>p home tick b l2' b' len buf. cb_lookup (l1_block l2) (a div 64) = Some p \<and> tl_state p \<in> {CC_EXCLUSIVE, CC_MODIFIED} \<and>
           get_homenode_port bm (a div 64) = Some home \<and> recieve_msg tick l2 b = Inr (l2', b') \<and> \<not> unaligned a len \<and> unat len \<le> length buf \<longrightarrow>
           (\<exists>l3. store_conditional tick bm a len buf l2 b = Inr (err_success, l3, b'))))) \<and>
    (\<forall>l1. l1_dispatch bm port (l1_message MSG_INVALID req (a div 64) []) l = Inr (True, l1) \<longrightarrow> \<not> reserved_address_valid l1)"
proof (intro conjI allI impI)
  let ?k = "a div 64"
  obtain l1 where f: "handle_getm_forward ?k req l = Inr (True, l1)" "l1_ok l1" "l1_view l1 = (l1_view l)(?k := None)"
    using l1_forwards_answer [OF ok held room, of req] by blast
  have d: "l1_dispatch bm port (l1_message MSG_GETM_FORWARD req ?k []) l = Inr (True, l1)" using f(1) by (simp add: l1_dispatch_def l1_message_def Let_def msg_types)
  have r: "reserves a l1" using upholds_result [OF handler_reservation(2) f(1)] res by (simp add: same_reserves)
  show "\<exists>l1. l1_dispatch bm port (l1_message MSG_GETM_FORWARD req (a div 64) []) l = Inr (True, l1) \<and> l1_view l1 (a div 64) = None \<and> reserves a l1 \<and>
      (\<forall>l2. (l1_between bm a)\<^sup>*\<^sup>* l1 l2 \<longrightarrow> reserves a l2 \<and>
        (\<forall>p home tick b l2' b' len buf. cb_lookup (l1_block l2) (a div 64) = Some p \<and> tl_state p \<in> {CC_EXCLUSIVE, CC_MODIFIED} \<and>
           get_homenode_port bm (a div 64) = Some home \<and> recieve_msg tick l2 b = Inr (l2', b') \<and> \<not> unaligned a len \<and> unat len \<le> length buf \<longrightarrow>
           (\<exists>l3. store_conditional tick bm a len buf l2 b = Inr (err_success, l3, b'))))"
  proof (rule exI [where x = l1], intro conjI allI impI)
    show "l1_view l1 ?k = None" using f(3) by simp
    fix l2
    assume "(l1_between bm a)\<^sup>*\<^sup>* l1 l2"
    note later = between_star [OF this f(2) r]
    show "reserves a l2" using later by simp
    fix p home tick b l2' b' len and buf :: "u8 list"
    assume "cb_lookup (l1_block l2) ?k = Some p \<and> tl_state p \<in> {CC_EXCLUSIVE, CC_MODIFIED} \<and>
           get_homenode_port bm ?k = Some home \<and> recieve_msg tick l2 b = Inr (l2', b') \<and> \<not> unaligned a len \<and> unat len \<le> length buf"
    then show "\<exists>l3. store_conditional tick bm a len buf l2 b = Inr (err_success, l3, b')"
      using conditional_succeeds [OF conjunct1 [OF later] conjunct2 [OF later]] by blast
  qed (use d r in simp_all)
  fix l1
  assume "l1_dispatch bm port (l1_message MSG_INVALID req ?k []) l = Inr (True, l1)"
  then have "handle_invalid ?k req l = Inr (True, l1)" by (simp add: l1_dispatch_def l1_message_def Let_def)
  from handle_invalid_reservation [OF this] show "\<not> reserved_address_valid l1" using res by (simp add: reserves_def line_of_addr)
qed

text \<open>The cache holds line 5 with all bytes 0 and reserves its first address; the line is taken away, fetched again with all bytes 7, and the conditional store succeeds.\<close>

definition held_reserved :: "SymBus \<Rightarrow> L1" where
  "held_reserved b = (case load_reserved 0 sample_l1_bm 320 4 [9, 9, 9, 9] (sample_held\<lparr>l1_send_buf := []\<rparr>) b of Inl _ \<Rightarrow> sample_held | Inr (_, _, l, _) \<Rightarrow> l)"

definition forwarded :: "SymBus \<Rightarrow> L1" where
  "forwarded b = l1_value sample_held (l1_dispatch sample_l1_bm 9 (l1_message MSG_GETM_FORWARD 4 5 []) (held_reserved b))"

definition missed :: "SymBus \<Rightarrow> L1" where
  "missed b = (case store_line 9 320 4 [1, 2, 3, 4] [] (forwarded b) of Inl _ \<Rightarrow> sample_held | Inr (_, l) \<Rightarrow> l)"

definition fetched :: "SymBus \<Rightarrow> L1" where
  "fetched b = l1_value sample_held (l1_dispatch sample_l1_bm 9 (l1_message MSG_GET_RESP_MEM 0 5 (replicate 64 7)) (missed b))"

lemma reservation_steps:
  "reserves 320 (held_reserved b)" "l1_view (held_reserved b) 5 = Some (replicate 64 0)" "send_room 1 (held_reserved b)"
  "(case store_line 9 320 4 [1, 2, 3, 4] [] (forwarded b) of Inl _ \<Rightarrow> None | Inr (e, _) \<Rightarrow> Some e) = Some err_miss"
  "(case l1_dispatch sample_l1_bm 9 (l1_message MSG_GET_RESP_MEM 0 5 (replicate 64 7)) (missed b) of Inl _ \<Rightarrow> None | Inr (d, _) \<Rightarrow> Some d) = Some True"
  "map_option tl_state (cb_lookup (l1_block (fetched b)) 5) = Some CC_MODIFIED" "l1_view (fetched b) 5 = Some (replicate 64 7)"
  "has_recieved (fetched b)"
  by code_simp+

lemma held_reserved_ok: "l1_ok (held_reserved b)"
  using load_reserved_safe [of "sample_held\<lparr>l1_send_buf := []\<rparr>" 0 sample_l1_bm 320 4 "[9, 9, 9, 9]" b] l1_okD(1) [OF sample_held_ok] sample_held_ok
  by (auto simp: held_reserved_def l1_kept_def split: sum.split)

lemma reservation_survives_forward_witness:
  "\<forall>b. \<exists>l1 l2 l3. l1_dispatch sample_l1_bm 9 (l1_message MSG_GETM_FORWARD 4 5 []) (held_reserved b) = Inr (True, l1) \<and> l1_view l1 5 = None \<and>
     (l1_between sample_l1_bm 320)\<^sup>*\<^sup>* l1 l2 \<and> l1_view l2 5 = Some (replicate 64 7) \<and>
     store_conditional 0 sample_l1_bm 320 4 [1, 2, 3, 4] l2 b = Inr (err_success, l3, b)"
proof
  fix b
  note st = reservation_steps [of b]
  have d: "(320 :: u64) div 64 = 5" "\<not> unaligned 320 4" by code_simp+
  obtain l1 where l1: "l1_dispatch sample_l1_bm 9 (l1_message MSG_GETM_FORWARD 4 5 []) (held_reserved b) = Inr (True, l1)" "l1_view l1 5 = None"
    and later: "\<And>l2 p home tick c l2' c' len buf. (l1_between sample_l1_bm 320)\<^sup>*\<^sup>* l1 l2 \<Longrightarrow> cb_lookup (l1_block l2) 5 = Some p \<Longrightarrow> tl_state p \<in> {CC_EXCLUSIVE, CC_MODIFIED} \<Longrightarrow>
      get_homenode_port sample_l1_bm 5 = Some home \<Longrightarrow> recieve_msg tick l2 c = Inr (l2', c') \<Longrightarrow> \<not> unaligned 320 len \<Longrightarrow> unat len \<le> length buf \<Longrightarrow>
      \<exists>l3. store_conditional tick sample_l1_bm 320 len buf l2 c = Inr (err_success, l3, c')"
    using conjunct1 [OF reservation_survives_forward [OF held_reserved_ok st(1), unfolded d(1), OF st(2,3), where bm = sample_l1_bm and port = 9 and req = 4]]
    by blast
  have f: "forwarded b = l1" using l1(1) by (simp add: forwarded_def l1_value_def)
  have m: "store_line 9 320 4 [1, 2, 3, 4] [] l1 = Inr (err_miss, missed b)"
    using st(4) by (auto simp: missed_def f split: sum.splits)
  have g: "l1_dispatch sample_l1_bm 9 (l1_message MSG_GET_RESP_MEM 0 5 (replicate 64 7)) (missed b) = Inr (True, fetched b)"
    using st(5) by (auto simp: fetched_def l1_value_def split: sum.splits)
  have "l1_between sample_l1_bm 320 l1 (missed b)" by (rule l1_between.store [OF m]) simp
  moreover have "l1_between sample_l1_bm 320 (missed b) (fetched b)" by (rule l1_between.message [OF g]) (simp add: l1_message_def msg_types)
  ultimately have steps: "(l1_between sample_l1_bm 320)\<^sup>*\<^sup>* l1 (fetched b)" by auto
  obtain p where "cb_lookup (l1_block (fetched b)) 5 = Some p" "tl_state p = CC_MODIFIED" using st(6) by auto
  then have p: "cb_lookup (l1_block (fetched b)) 5 = Some p" "tl_state p \<in> {CC_EXCLUSIVE, CC_MODIFIED}" by simp_all
  have "\<exists>l3. store_conditional 0 sample_l1_bm 320 4 [1, 2, 3, 4] (fetched b) b = Inr (err_success, l3, b)"
    by (rule later [OF steps p, where home = 9 and l2' = "fetched b"]) (use st(8) d(2) in \<open>simp_all add: recieve_msg_def sample_l1_bm_def\<close>)
  then show "\<exists>l1 l2 l3. l1_dispatch sample_l1_bm 9 (l1_message MSG_GETM_FORWARD 4 5 []) (held_reserved b) = Inr (True, l1) \<and> l1_view l1 5 = None \<and>
     (l1_between sample_l1_bm 320)\<^sup>*\<^sup>* l1 l2 \<and> l1_view l2 5 = Some (replicate 64 7) \<and>
     store_conditional 0 sample_l1_bm 320 4 [1, 2, 3, 4] l2 b = Inr (err_success, l3, b)"
    using l1 steps st(7) by blast
qed

section \<open>Completing a write miss\<close>

text \<open>One message is received and handled, after the messages waiting to be sent have left.\<close>

definition l1_deliver :: "BusPortMapping \<Rightarrow> CacheCohenrenceMsg \<Rightarrow> L1 \<Rightarrow> l1_error + L1" where
  "l1_deliver bm m l = handle_received_msg bm (l\<lparr>msgbuf := m, has_recieved := True, has_processed := False, l1_send_buf := []\<rparr>)"

fun l1_deliver_all :: "BusPortMapping \<Rightarrow> CacheCohenrenceMsg list \<Rightarrow> L1 \<Rightarrow> l1_error + L1" where
  "l1_deliver_all bm [] l = Inr l"
| "l1_deliver_all bm (m # ms) l = ebind (l1_deliver bm m l) (l1_deliver_all bm ms)"

text \<open>The write miss has seen \<open>a\<close> of \<open>n\<close> invalidation acknowledgements, the number \<open>n\<close> itself or not, the data or not.\<close>

definition awaits :: "u64 \<Rightarrow> nat \<Rightarrow> u8 list \<Rightarrow> nat \<Rightarrow> bool \<Rightarrow> bool \<Rightarrow> L1 \<Rightarrow> bool" where
  "awaits k n data a cnt dat l \<longleftrightarrow> l1_ok l \<and> 2 \<le> unat (l1_send_buf_size l) \<and>
     (\<exists>m. mshr_get k (l1_mshrs l) = Some m \<and> ms_state m = MSHR_ITOM \<and> invalid_ack m = of_nat a \<and>
       (if cnt then get_ack_cnt_ready m \<noteq> 0 \<and> need_invalid_ack m = of_nat n else get_ack_cnt_ready m = 0) \<and>
       (if dat then get_data_ready m \<noteq> 0 \<and> ms_line_buf m = data else get_data_ready m = 0))"

definition completed :: "u32 \<Rightarrow> u64 \<Rightarrow> u8 list \<Rightarrow> L1 \<Rightarrow> bool" where
  "completed home k data l \<longleftrightarrow> l1_ok l \<and> cb_lookup (l1_block l) k = Some \<lparr>tl_data = data, tl_state = CC_MODIFIED\<rparr> \<and> mshr_get k (l1_mshrs l) = None \<and>
     (\<exists>sent. l1_send_buf l = \<lparr>rs_msg = construct_msg_pack (l1_message MSG_GET_ACK (ucast (l1_port l)) k []), rs_dst = home, rs_cha = CHANNEL_ACK\<rparr> # sent)"

lemma handle_new_line_total:
  assumes ok: "core_ok (l1_block l) (l1_mshrs l)" and w: "mshr_get k (l1_mshrs l) \<noteq> None" and st: "st \<in> line_states"
    and homes: "\<forall>j. get_homenode_port bm j \<noteq> None"
  shows "\<exists>l'. handle_new_line bm k m st l = Inr l' \<and> l1_port l' = l1_port l"
proof (cases "handle_new_line bm k m st l")
  case (Inl e)
  have ins: "insert_line k p (l1_block l) \<noteq> None" for p by (rule insert_line_total [OF core_okD(1) [OF ok]])
  have "e \<in> {AllocAssert, LineStateAssert}"
    using Inl homes ins by (auto simp: handle_new_line_def ebind_Inl_iff Let_def split: option.splits prod.splits)
  then show ?thesis using handle_new_line_safe [OF ok w st, of m bm] Inl by auto
next
  case (Inr l')
  then have "l1_port l' = l1_port l" by (auto simp: handle_new_line_def Let_def push_defs split: option.splits prod.splits if_splits)
  with Inr show ?thesis by blast
qed

lemma mset_set_size: "l1_send_buf_size (mshr_set k m l) = l1_send_buf_size l" by (simp add: mshr_set_def)

text \<open>The last message installs the line.\<close>

lemma finish_completes:
  assumes ok: "l1_ok l" and room: "2 \<le> unat (l1_send_buf_size l)" and e: "l1_send_buf l = []" and w: "mshr_get k (l1_mshrs l) \<noteq> None"
    and homes: "\<forall>j. get_homenode_port bm j \<noteq> None"
  shows "\<exists>l'. finish_getm bm home k m l = Inr (True, l') \<and> completed home k (ms_line_buf m) l'"
proof -
  let ?l1 = "l1_push_send_buf home CHANNEL_ACK MSG_GET_ACK k (ucast (l1_port l)) l"
  have c: "core_ok (l1_block ?l1) (l1_mshrs ?l1)" using l1_okD(1) [OF ok] by simp
  have w1: "mshr_get k (l1_mshrs ?l1) \<noteq> None" using w by simp
  have r2: "send_room 2 l" using room e by (simp add: send_room_def)
  obtain l' where r: "handle_new_line bm k m CC_MODIFIED ?l1 = Inr l'" and p: "l1_port l' = l1_port ?l1"
    using handle_new_line_total [OF c w1 _ homes, of CC_MODIFIED m] by auto
  have s: "l1_step_ok 1 k (Some (ms_line_buf m)) ?l1 l'" "mshr_get k (l1_mshrs l') = None"
    "cb_lookup (l1_block l') k = Some \<lparr>tl_data = ms_line_buf m, tl_state = CC_MODIFIED\<rparr>" "\<exists>sent. l1_send_buf l' = l1_send_buf ?l1 @ sent"
    using handle_new_line_safe [OF c w1, of CC_MODIFIED m bm] r by auto
  have "l1_ok l'" using s(1) room e by (simp add: l1_step_ok_def l1_ok_def send_room_def push_defs)
  then have "completed home k (ms_line_buf m) l'"
    using s(2,3,4) e p by (auto simp: completed_def push_defs l1_message_def)
  then show ?thesis using r r2 by (simp add: finish_getm_def)
qed

text \<open>Every message either brings the miss one step on or, when it is the last, completes it.\<close>

lemma l1_deliver_dispatch:
  assumes "get_homenode_port bm k = Some home"
  shows "l1_deliver bm (l1_message ty arg k d) l = ebind (l1_dispatch bm home (l1_message ty arg k d)
      (l\<lparr>msgbuf := l1_message ty arg k d, has_recieved := True, has_processed := False, l1_send_buf := []\<rparr>))
    (\<lambda>(done, l'). Inr (if done then l'\<lparr>has_processed := True\<rparr> else l'))"
  using assms by (simp add: l1_deliver_def handle_received_msg_def l1_message_def)

lemma awaits_deliver [simp]:
  "awaits k n data a cnt dat (l\<lparr>has_processed := p\<rparr>) = awaits k n data a cnt dat l"
  "completed home k data (l\<lparr>has_processed := p\<rparr>) = completed home k data l"
  by (simp_all add: awaits_def completed_def l1_ok_def send_room_def)

lemma awaits_received:
  "awaits k n data a cnt dat l \<Longrightarrow> awaits k n data a cnt dat (l\<lparr>msgbuf := m, has_recieved := r, has_processed := p, l1_send_buf := []\<rparr>)"
  by (simp add: awaits_def l1_ok_def send_room_def)

lemma awaits_set:
  assumes "awaits k n data a cnt dat l" and "ms_state m = MSHR_ITOM \<and> invalid_ack m = of_nat a' \<and>
       (if cnt' then get_ack_cnt_ready m \<noteq> 0 \<and> need_invalid_ack m = of_nat n else get_ack_cnt_ready m = 0) \<and>
       (if dat' then get_data_ready m \<noteq> 0 \<and> ms_line_buf m = data else get_data_ready m = 0)"
  shows "awaits k n data a' cnt' dat' (mshr_set k m l)"
proof -
  have ok: "l1_ok l" and w: "mshr_get k (l1_mshrs l) \<noteq> None" using assms(1) by (auto simp: awaits_def)
  have "l1_step_ok 0 k (if mshr_handle (ms_state m) then Some (ms_line_buf m) else None) l (mshr_set k m l)"
    by (rule step_mshr_set [OF l1_okD(1) [OF ok] w]) simp
  then have "l1_ok (mshr_set k m l)" by (rule l1_step_ok_done) (rule l1_okD [OF ok])
  then show ?thesis using assms by (auto simp: awaits_def mset_set_size)
qed

lemma of_nat_u16: "a \<le> n \<Longrightarrow> n < 65536 \<Longrightarrow> unat (of_nat a :: u16) = a"
  by (simp add: unsigned_of_nat take_bit_nat_eq_self)

lemma deliver_invalid_ack:
  assumes w: "awaits k n data a cnt dat l" and n: "Suc a \<le> n" "n < 65536" and homes: "\<forall>j. get_homenode_port bm j \<noteq> None"
    and home: "get_homenode_port bm k = Some home"
  shows "\<exists>l'. l1_deliver bm (l1_message MSG_INVALID_ACK arg k d) l = Inr l' \<and>
    (if Suc a = n \<and> cnt \<and> dat then completed home k data l' else awaits k n data (Suc a) cnt dat l')"
proof -
  let ?l = "l\<lparr>msgbuf := l1_message MSG_INVALID_ACK arg k d, has_recieved := True, has_processed := False, l1_send_buf := []\<rparr>"
  note w' = awaits_received [OF w, where m = "l1_message MSG_INVALID_ACK arg k d" and r = True and p = False]
  obtain m where m: "mshr_get k (l1_mshrs ?l) = Some m" "ms_state m = MSHR_ITOM" "invalid_ack m = of_nat a"
    "if cnt then get_ack_cnt_ready m \<noteq> 0 \<and> need_invalid_ack m = of_nat n else get_ack_cnt_ready m = 0"
    "if dat then get_data_ready m \<noteq> 0 \<and> ms_line_buf m = data else get_data_ready m = 0" using w' unfolding awaits_def by blast
  have last: "(get_ack_cnt_ready m \<noteq> 0 \<and> int (unat (need_invalid_ack m)) = int (unat (invalid_ack m)) + 1 \<and> get_data_ready m \<noteq> 0) \<longleftrightarrow> Suc a = n \<and> cnt \<and> dat"
  proof (cases cnt)
    case True
    have "unat (invalid_ack m) = a" "unat (need_invalid_ack m) = n" using m(3,4) True of_nat_u16 [of a n] of_nat_u16 [of n n] n by simp_all
    then have "(int (unat (need_invalid_ack m)) = int (unat (invalid_ack m)) + 1) = (Suc a = n)" by linarith
    then show ?thesis using m(4,5) True by (cases dat) simp_all
  next
    case False
    then show ?thesis using m(4) by simp
  qed
  have d: "l1_dispatch bm home (l1_message MSG_INVALID_ACK arg k d) ?l = handle_invalid_ack bm home k ?l"
    by (simp add: l1_dispatch_def l1_message_def msg_types)
  show ?thesis
  proof (cases "Suc a = n \<and> cnt \<and> dat")
    case True
    then have f: "handle_invalid_ack bm home k ?l = finish_getm bm home k m ?l"
      using last m by (simp add: handle_invalid_ack_def)
    obtain l' where "finish_getm bm home k m ?l = Inr (True, l')" "completed home k (ms_line_buf m) l'"
      using finish_completes [of ?l k bm home m] w' homes m(1) by (auto simp: awaits_def)
    then show ?thesis using True m(5) by (simp add: l1_deliver_dispatch [OF home] d f)
  next
    case False
    then have f: "handle_invalid_ack bm home k ?l = Inr (True, mshr_set k (m\<lparr>invalid_ack := invalid_ack m + 1\<rparr>) ?l)"
      using last m by (auto simp: handle_invalid_ack_def)
    have "awaits k n data (Suc a) cnt dat (mshr_set k (m\<lparr>invalid_ack := invalid_ack m + 1\<rparr>) ?l)"
      by (rule awaits_set [OF w']) (use m in \<open>simp add: add.commute\<close>)
    then show ?thesis using False by (simp only: l1_deliver_dispatch [OF home] d f ebind_simps) simp
  qed
qed

lemma ucast_u16: "a < 65536 \<Longrightarrow> n < 65536 \<Longrightarrow> (of_nat n = (ucast (of_nat a :: u16) :: u32)) = (a = n)"
proof -
  assume a: "a < 65536" and n: "n < 65536"
  have "unat (ucast (of_nat a :: u16) :: u32) = a" using a by (simp add: unsigned_ucast_eq unsigned_of_nat take_bit_nat_eq_self)
  moreover have "unat (of_nat n :: u32) = n" using n by (simp add: unsigned_of_nat take_bit_nat_eq_self)
  ultimately show ?thesis by (metis word_unat_eq_iff)
qed

lemma ucast_of_nat_u16: "n < 65536 \<Longrightarrow> (ucast (of_nat n :: u32) :: u16) = of_nat n"
  by (rule word_unat_eq_iff [THEN iffD2]) (simp add: unsigned_ucast_eq unsigned_of_nat take_bit_nat_eq_self)

lemma deliver_getm_ack:
  assumes w: "awaits k n data a False dat l" and n: "a \<le> n" "n < 65536" and homes: "\<forall>j. get_homenode_port bm j \<noteq> None"
    and home: "get_homenode_port bm k = Some home"
  shows "\<exists>l'. l1_deliver bm (l1_message MSG_GETM_ACK (of_nat n) k d) l = Inr l' \<and>
    (if a = n \<and> dat then completed home k data l' else awaits k n data a True dat l')"
proof -
  let ?m = "l1_message MSG_GETM_ACK (of_nat n) k d"
  let ?l = "l\<lparr>msgbuf := ?m, has_recieved := True, has_processed := False, l1_send_buf := []\<rparr>"
  note w' = awaits_received [OF w, where m = ?m and r = True and p = False]
  obtain m where m: "mshr_get k (l1_mshrs ?l) = Some m" "ms_state m = MSHR_ITOM" "invalid_ack m = of_nat a" "get_ack_cnt_ready m = 0"
    "if dat then get_data_ready m \<noteq> 0 \<and> ms_line_buf m = data else get_data_ready m = 0" using w' unfolding awaits_def by auto
  have last: "((of_nat n :: u32) = ucast (invalid_ack m) \<and> get_data_ready m \<noteq> 0) \<longleftrightarrow> a = n \<and> dat"
    using m n by (simp add: ucast_u16 split: if_splits)
  have d: "l1_dispatch bm home ?m ?l = handle_getm_ack bm home k (of_nat n) ?l"
    by (simp add: l1_dispatch_def l1_message_def msg_types)
  show ?thesis
  proof (cases "a = n \<and> dat")
    case True
    then have f: "handle_getm_ack bm home k (of_nat n) ?l = finish_getm bm home k m ?l"
      using last m by (simp add: handle_getm_ack_def)
    obtain l' where "finish_getm bm home k m ?l = Inr (True, l')" "completed home k (ms_line_buf m) l'"
      using finish_completes [of ?l k bm home m] w' homes m(1) by (auto simp: awaits_def)
    then show ?thesis using True m(5) by (simp add: l1_deliver_dispatch [OF home] d f)
  next
    case False
    let ?n = "m\<lparr>get_ack_cnt_ready := 1, need_invalid_ack := ucast (of_nat n :: u32)\<rparr>"
    have f: "handle_getm_ack bm home k (of_nat n) ?l = Inr (True, mshr_set k ?n ?l)"
      using last False m by (auto simp: handle_getm_ack_def)
    have "awaits k n data a True dat (mshr_set k ?n ?l)"
      by (rule awaits_set [OF w']) (use m ucast_of_nat_u16 [OF n(2)] in simp)
    then show ?thesis using False by (simp only: l1_deliver_dispatch [OF home] d f ebind_simps) simp
  qed
qed

lemma deliver_getm_resp:
  assumes w: "awaits k n data a cnt False l" and n: "a \<le> n" "n < 65536" and homes: "\<forall>j. get_homenode_port bm j \<noteq> None"
    and home: "get_homenode_port bm k = Some home" and len: "length data = CACHE_LINE_LEN_BYTE"
  shows "\<exists>l'. l1_deliver bm (l1_message MSG_GETM_RESP 0 k data) l = Inr l' \<and>
    (if a = n \<and> cnt then completed home k data l' else awaits k n data a cnt True l')"
proof -
  let ?m = "l1_message MSG_GETM_RESP 0 k data"
  let ?l = "l\<lparr>msgbuf := ?m, has_recieved := True, has_processed := False, l1_send_buf := []\<rparr>"
  note w' = awaits_received [OF w, where m = ?m and r = True and p = False]
  obtain m where m: "mshr_get k (l1_mshrs ?l) = Some m" "ms_state m = MSHR_ITOM" "invalid_ack m = of_nat a" "get_data_ready m = 0"
    "if cnt then get_ack_cnt_ready m \<noteq> 0 \<and> need_invalid_ack m = of_nat n else get_ack_cnt_ready m = 0" using w' unfolding awaits_def by auto
  have wait: "(get_ack_cnt_ready m = 0 \<or> need_invalid_ack m \<noteq> invalid_ack m) \<longleftrightarrow> \<not> (a = n \<and> cnt)"
  proof (cases cnt)
    case True
    have "unat (of_nat a :: u16) = a" "unat (of_nat n :: u16) = n" using n of_nat_u16 [of a n] of_nat_u16 [of n n] by simp_all
    then have "(of_nat n = (of_nat a :: u16)) = (a = n)" by metis
    then show ?thesis using m(3,5) True by simp
  next
    case False
    then show ?thesis using m(5) by simp
  qed
  have d: "l1_dispatch bm home ?m ?l = handle_getm_resp bm home k 0 data ?l"
    using len by (simp add: l1_dispatch_def l1_message_def msg_types)
  have ok: "l1_ok ?l" and size2: "2 \<le> unat (l1_send_buf_size ?l)" using w' by (simp_all add: awaits_def)
  show ?thesis
  proof (cases "a = n \<and> cnt")
    case True
    let ?n = "m\<lparr>ms_line_buf := data\<rparr>"
    let ?l1 = "l1_push_send_buf home CHANNEL_ACK MSG_GET_ACK k (ucast (l1_port ?l)) ?l"
    have r2: "send_room 2 ?l" using size2 by (simp add: send_room_def)
    have c: "core_ok (l1_block (mshr_set k ?n ?l1)) (l1_mshrs (mshr_set k ?n ?l1))"
      by (rule l1_step_core [OF step_mshr_set [OF _ _ refl]]) (use l1_okD(1) [OF ok] m(1) in simp_all)
    obtain l' where r: "handle_new_line bm k ?n CC_MODIFIED (mshr_set k ?n ?l1) = Inr l'" and p: "l1_port l' = l1_port (mshr_set k ?n ?l1)"
      using handle_new_line_total [OF c _ _ homes, of k CC_MODIFIED ?n] by auto
    have s: "l1_post k {Some data} ?l (True, l') \<and> cb_lookup (l1_block l') k = Some \<lparr>tl_data = data, tl_state = CC_MODIFIED\<rparr>
      \<and> mshr_get k (l1_mshrs l') = None \<and> (\<exists>sent. l1_send_buf l' = l1_send_buf ?l @ [\<lparr>rs_msg = construct_msg_pack
          \<lparr>mtype = MSG_GET_ACK, marg = ucast (l1_port ?l), mtransid = 0, mline = k, mdata = []\<rparr>, rs_dst = home, rs_cha = CHANNEL_ACK\<rparr>] @ sent)"
      using install_safe [OF l1_okD(1) [OF ok] m(1) _ r2, of CC_MODIFIED data True MSG_GET_ACK "ucast (l1_port ?l)" home CHANNEL_ACK bm] r by simp
    then have "completed home k data l'"
      using p by (auto simp: completed_def l1_message_def l1_post_def mshr_set_def push_defs)
    moreover have "handle_getm_resp bm home k 0 data ?l = Inr (True, l')"
      using r r2 m(1,2) len wait True by (simp add: handle_getm_resp_def)
    ultimately show ?thesis using True by (simp add: l1_deliver_dispatch [OF home] d)
  next
    case False
    let ?n = "m\<lparr>ms_line_buf := data, get_data_ready := 1\<rparr>"
    have f: "handle_getm_resp bm home k 0 data ?l = Inr (True, mshr_set k ?n ?l)"
      using wait False m len by (simp add: handle_getm_resp_def)
    have "awaits k n data a cnt True (mshr_set k ?n ?l)"
      by (rule awaits_set [OF w']) (use m in simp)
    then show ?thesis using False by (simp only: l1_deliver_dispatch [OF home] d f ebind_simps) simp
  qed
qed

text \<open>The messages the miss has not seen yet.\<close>

definition outstanding :: "u64 \<Rightarrow> nat \<Rightarrow> u8 list \<Rightarrow> nat \<Rightarrow> bool \<Rightarrow> bool \<Rightarrow> CacheCohenrenceMsg multiset" where
  "outstanding k n data a cnt dat = (if cnt then {#} else {#l1_message MSG_GETM_ACK (of_nat n) k []#}) +
     (if dat then {#} else {#l1_message MSG_GETM_RESP 0 k data#}) + replicate_mset (n - a) (l1_message MSG_INVALID_ACK 0 k [])"

lemma outstanding_empty: "a \<le> n \<Longrightarrow> (outstanding k n data a cnt dat = {#}) = (a = n \<and> cnt \<and> dat)"
  by (auto simp: outstanding_def split: if_splits)

lemma deliver_outstanding:
  assumes w: "awaits k n data a cnt dat l" and n: "a \<le> n" "n < 65536" and homes: "\<forall>j. get_homenode_port bm j \<noteq> None"
    and home: "get_homenode_port bm k = Some home" and len: "length data = CACHE_LINE_LEN_BYTE" and x: "x \<in># outstanding k n data a cnt dat"
  shows "\<exists>l' a' cnt' dat'. l1_deliver bm x l = Inr l' \<and> a' \<le> n \<and> outstanding k n data a cnt dat = add_mset x (outstanding k n data a' cnt' dat') \<and>
    (if outstanding k n data a' cnt' dat' = {#} then completed home k data l' else awaits k n data a' cnt' dat' l')"
proof -
  consider (ack) "\<not> cnt" "x = l1_message MSG_GETM_ACK (of_nat n) k []" | (resp) "\<not> dat" "x = l1_message MSG_GETM_RESP 0 k data"
    | (inv) "a < n" "x = l1_message MSG_INVALID_ACK 0 k []"
    using x by (auto simp: outstanding_def split: if_splits)
  then show ?thesis
  proof cases
    case ack
    obtain l' where r: "l1_deliver bm x l = Inr l'" "if a = n \<and> dat then completed home k data l' else awaits k n data a True dat l'"
      using deliver_getm_ack [of k n data a dat l bm home "[]"] w n homes home ack by auto
    have "outstanding k n data a cnt dat = add_mset x (outstanding k n data a True dat)" using ack by (simp add: outstanding_def)
    with r show ?thesis using n outstanding_empty [OF n(1)] by (intro exI [where x = l'] exI [where x = a] exI [where x = True] exI [where x = dat]) simp
  next
    case resp
    obtain l' where r: "l1_deliver bm x l = Inr l'" "if a = n \<and> cnt then completed home k data l' else awaits k n data a cnt True l'"
      using deliver_getm_resp [of k n data a cnt l bm home] w n homes home resp len by auto
    have "outstanding k n data a cnt dat = add_mset x (outstanding k n data a cnt True)" using resp by (simp add: outstanding_def)
    with r show ?thesis using n outstanding_empty [OF n(1)] by (intro exI [where x = l'] exI [where x = a] exI [where x = cnt] exI [where x = True]) simp
  next
    case inv
    then have le: "Suc a \<le> n" by simp
    obtain l' where r: "l1_deliver bm x l = Inr l'" "if Suc a = n \<and> cnt \<and> dat then completed home k data l' else awaits k n data (Suc a) cnt dat l'"
      using deliver_invalid_ack [OF w le n(2) homes home, of 0 "[]"] inv by auto
    have "n - a = Suc (n - Suc a)" using inv by simp
    then have "outstanding k n data a cnt dat = add_mset x (outstanding k n data (Suc a) cnt dat)" using inv by (simp add: outstanding_def)
    with r show ?thesis using le outstanding_empty [OF le]
      by (intro exI [where x = l'] exI [where x = "Suc a"] exI [where x = cnt] exI [where x = dat]) simp
  qed
qed

lemma awaits_waits: "awaits k n data a cnt dat l \<Longrightarrow> mshr_get k (l1_mshrs l) \<noteq> None \<and> cb_lookup (l1_block l) k = None"
  using core_okD(5) [OF l1_okD(1)] by (auto simp: awaits_def)

lemma deliver_all_outstanding:
  assumes "awaits k n data a cnt dat l" and "a \<le> n" "n < 65536" and homes: "\<forall>j. get_homenode_port bm j \<noteq> None"
    and home: "get_homenode_port bm k = Some home" and len: "length data = CACHE_LINE_LEN_BYTE"
    and "mset ms = outstanding k n data a cnt dat" and "ms \<noteq> []"
  shows "(\<exists>l'. l1_deliver_all bm ms l = Inr l' \<and> completed home k data l') \<and>
    (\<forall>i<length ms. \<exists>l'. l1_deliver_all bm (take i ms) l = Inr l' \<and> mshr_get k (l1_mshrs l') \<noteq> None \<and> cb_lookup (l1_block l') k = None)"
  using assms(1,2,7,8)
proof (induction ms arbitrary: l a cnt dat)
  case (Cons x xs)
  have "x \<in># outstanding k n data a cnt dat" using Cons.prems(3) by (metis list.set_intros(1) set_mset_mset)
  then obtain l1 a' cnt' dat' where s: "l1_deliver bm x l = Inr l1" "a' \<le> n"
      "outstanding k n data a cnt dat = add_mset x (outstanding k n data a' cnt' dat')"
      "if outstanding k n data a' cnt' dat' = {#} then completed home k data l1 else awaits k n data a' cnt' dat' l1"
    using deliver_outstanding [OF Cons.prems(1,2) assms(3) homes home len] by blast
  have xs: "mset xs = outstanding k n data a' cnt' dat'" using Cons.prems(3) s(3) by simp
  note here = awaits_waits [OF Cons.prems(1)]
  show ?case
  proof (cases "xs = []")
    case True
    then show ?thesis using s(1,4) xs here by simp
  next
    case False
    then have "outstanding k n data a' cnt' dat' \<noteq> {#}" using xs by (metis mset_zero_iff)
    then have aw: "awaits k n data a' cnt' dat' l1" using s(4) by simp
    note IH = Cons.IH [OF aw s(2) xs False]
    have "\<exists>l'. l1_deliver_all bm (take i (x # xs)) l = Inr l' \<and> mshr_get k (l1_mshrs l') \<noteq> None \<and> cb_lookup (l1_block l') k = None"
      if "i < length (x # xs)" for i
      using that IH here s(1) by (cases i) auto
    then show ?thesis using IH s(1) by auto
  qed
qed simp

text \<open>
  C10. A write miss completes with its last message, in whatever order the messages come. A fresh write miss waits for the number \<open>n\<close> of invalidations from the
  directory, the line's data from its owner, and \<open>n\<close> acknowledgements from the other holders. After any proper initial part of any arrangement of these messages the miss
  register still waits and the line is not in the block; after the last one the line is in the block, modified and with that data, the miss register is free and the first message sent
  tells the directory so.
\<close>

theorem l1_write_completes:
  assumes "l1_ok l" and "2 \<le> unat (l1_send_buf_size l)" and "mshr_get k (l1_mshrs l) = Some (zero_mshr\<lparr>ms_state := MSHR_ITOM\<rparr>)"
    and "\<forall>j. get_homenode_port bm j \<noteq> None" and "get_homenode_port bm k = Some home"
    and "length data = CACHE_LINE_LEN_BYTE" and "n < 65536"
    and "mset ms = {#l1_message MSG_GETM_ACK (of_nat n) k [], l1_message MSG_GETM_RESP 0 k data#} + replicate_mset n (l1_message MSG_INVALID_ACK 0 k [])"
  shows "(\<forall>i<length ms. \<exists>l'. l1_deliver_all bm (take i ms) l = Inr l' \<and> mshr_get k (l1_mshrs l') \<noteq> None \<and> cb_lookup (l1_block l') k = None) \<and>
    (\<exists>l' sent. l1_deliver_all bm ms l = Inr l' \<and> l1_ok l' \<and> cb_lookup (l1_block l') k = Some \<lparr>tl_data = data, tl_state = CC_MODIFIED\<rparr> \<and>
      mshr_get k (l1_mshrs l') = None \<and>
      l1_send_buf l' = \<lparr>rs_msg = construct_msg_pack (l1_message MSG_GET_ACK (ucast (l1_port l')) k []), rs_dst = home, rs_cha = CHANNEL_ACK\<rparr> # sent)"
proof -
  have "awaits k n data 0 False False l" using assms(1,2,3) by (simp add: awaits_def zero_mshr_def)
  moreover have "mset ms = outstanding k n data 0 False False" using assms(8) by (simp add: outstanding_def)
  moreover have "ms \<noteq> []" using assms(8) by auto
  ultimately show ?thesis using deliver_all_outstanding [of k n data 0 False False l bm home ms] assms(4-7) unfolding completed_def by blast
qed

lemma l1_write_completes_witness:
  "\<exists>l'. l1_deliver_all sample_l1_bm [l1_message MSG_INVALID_ACK 0 5 [], l1_message MSG_GETM_RESP 0 5 (replicate 64 7), l1_message MSG_GETM_ACK 1 5 []] sample_miss = Inr l' \<and>
    cb_lookup (l1_block l') 5 = Some \<lparr>tl_data = replicate 64 7, tl_state = CC_MODIFIED\<rparr>"
proof -
  have "2 \<le> unat (l1_send_buf_size sample_miss)" by code_simp
  then show ?thesis
    using l1_write_completes [OF sample_miss_ok _ sample_values(1), where bm = sample_l1_bm and home = 9 and n = 1 and data = "replicate 64 7" and
        ms = "[l1_message MSG_INVALID_ACK 0 5 [], l1_message MSG_GETM_RESP 0 5 (replicate 64 7), l1_message MSG_GETM_ACK 1 5 []]"]
    by (auto simp: sample_l1_bm_def CACHE_LINE_LEN_BYTE_def)
qed

end
