(* ===== verification/Decode.thy ===== *)
theory Decode
  imports Isa
begin

text \<open>
  The RV64GC decoder (\<^verbatim>\<open>cpu/isa.cpp\<close>) and the predecoder predicates of \<^verbatim>\<open>cpu/isa.h\<close>. A decoder
  returns whether it accepts the instruction, and the filled-in record, which is also partly
  written when it refuses. The 32-bit decoder has one definition per group of opcodes, the
  compressed one a definition per quadrant. A sequence of \<^verbatim>\<open>uimm |= ...\<close> is \<^verbatim>\<open>or_bits\<close> of the
  32-bit pieces in order.
\<close>

section \<open>Fields and immediates\<close>

definition GET_BITS_AT :: "u32 \<Rightarrow> nat \<Rightarrow> nat \<Rightarrow> u32" where
  "GET_BITS_AT n off len = drop_bit off n AND mask len"

definition get_opcode :: "u32 \<Rightarrow> u32" where "get_opcode inst = GET_BITS_AT inst 0 7"
definition get_funct3 :: "u32 \<Rightarrow> u32" where "get_funct3 inst = GET_BITS_AT inst 12 3"
definition get_funct7 :: "u32 \<Rightarrow> u32" where "get_funct7 inst = GET_BITS_AT inst 25 7"
definition get_rd :: "u32 \<Rightarrow> u32" where "get_rd inst = GET_BITS_AT inst 7 5"
definition get_rs1 :: "u32 \<Rightarrow> u32" where "get_rs1 inst = GET_BITS_AT inst 15 5"
definition get_rs2 :: "u32 \<Rightarrow> u32" where "get_rs2 inst = GET_BITS_AT inst 20 5"
definition get_rs3 :: "u32 \<Rightarrow> u32" where "get_rs3 inst = GET_BITS_AT inst 27 5"

definition sign_or :: "bool \<Rightarrow> u64 \<Rightarrow> u64 \<Rightarrow> u64" where
  "sign_or neg m ret = (if neg then ret OR m else ret)"

definition get_imm_I :: "u32 \<Rightarrow> u64" where
  "get_imm_I inst = sign_or (inst AND push_bit 31 1 \<noteq> 0) 0xfffffffffffff000 (ucast (GET_BITS_AT inst 20 12))"

definition get_imm_S :: "u32 \<Rightarrow> u64" where
  "get_imm_S inst = sign_or (inst AND push_bit 31 1 \<noteq> 0) 0xfffffffffffff000
     (ucast (GET_BITS_AT inst 7 5 OR push_bit 5 (GET_BITS_AT inst 25 7)))"

definition get_imm_B :: "u32 \<Rightarrow> u64" where
  "get_imm_B inst = sign_or (inst AND push_bit 31 1 \<noteq> 0) 0xfffffffffffff000
     (ucast (push_bit 1 (GET_BITS_AT inst 8 4) OR push_bit 5 (GET_BITS_AT inst 25 6) OR push_bit 11 (GET_BITS_AT inst 7 1)))"

definition get_imm_U :: "u32 \<Rightarrow> u64" where
  "get_imm_U inst = sign_or (inst AND push_bit 31 1 \<noteq> 0) 0xffffffff00000000 (ucast (inst AND 0xfffff000))"

definition get_imm_J :: "u32 \<Rightarrow> u64" where
  "get_imm_J inst = sign_or (inst AND push_bit 31 1 \<noteq> 0) 0xfffffffffff00000
     (ucast (push_bit 1 (GET_BITS_AT inst 21 10) OR push_bit 11 (GET_BITS_AT inst 20 1) OR (inst AND 0xFF000)))"

section \<open>Instruction formats\<close>

record RVInstTypeR = r_rd :: u16 r_rs1 :: u16 r_rs2 :: u16 r_funct3 :: u16 r_funct7 :: u16
record RVInstTypeI = i_rd :: u16 i_rs1 :: u16 i_funct3 :: u16 i_imm :: u64
record RVInstTypeS = s_rs1 :: u16 s_rs2 :: u16 s_funct3 :: u16 s_imm :: u64
record RVInstTypeB = b_rs1 :: u16 b_rs2 :: u16 b_funct3 :: u16 b_imm :: u64
record RVInstTypeU = u_rd :: u16 u_imm :: u64
record RVInstTypeJ = j_rd :: u16 j_imm :: u64

definition parse_inst_R :: "u32 \<Rightarrow> RVInstTypeR" where
  "parse_inst_R inst = \<lparr> r_rd = ucast (get_rd inst), r_rs1 = ucast (get_rs1 inst), r_rs2 = ucast (get_rs2 inst),
     r_funct3 = ucast (get_funct3 inst), r_funct7 = ucast (get_funct7 inst) \<rparr>"
definition parse_inst_I :: "u32 \<Rightarrow> RVInstTypeI" where
  "parse_inst_I inst = \<lparr> i_rd = ucast (get_rd inst), i_rs1 = ucast (get_rs1 inst),
     i_funct3 = ucast (get_funct3 inst), i_imm = get_imm_I inst \<rparr>"
definition parse_inst_S :: "u32 \<Rightarrow> RVInstTypeS" where
  "parse_inst_S inst = \<lparr> s_rs1 = ucast (get_rs1 inst), s_rs2 = ucast (get_rs2 inst),
     s_funct3 = ucast (get_funct3 inst), s_imm = get_imm_S inst \<rparr>"
definition parse_inst_B :: "u32 \<Rightarrow> RVInstTypeB" where
  "parse_inst_B inst = \<lparr> b_rs1 = ucast (get_rs1 inst), b_rs2 = ucast (get_rs2 inst),
     b_funct3 = ucast (get_funct3 inst), b_imm = get_imm_B inst \<rparr>"
definition parse_inst_U :: "u32 \<Rightarrow> RVInstTypeU" where
  "parse_inst_U inst = \<lparr> u_rd = ucast (get_rd inst), u_imm = get_imm_U inst \<rparr>"
definition parse_inst_J :: "u32 \<Rightarrow> RVInstTypeJ" where
  "parse_inst_J inst = \<lparr> j_rd = ucast (get_rd inst), j_imm = get_imm_J inst \<rparr>"

definition add_flag :: "u64 \<Rightarrow> RV64InstDecoded \<Rightarrow> RV64InstDecoded" where
  "add_flag f dec = dec\<lparr>d_flag := d_flag dec OR f\<rparr>"

definition set_param0 :: "u32 \<Rightarrow> RV64InstDecoded \<Rightarrow> RV64InstDecoded" where
  "set_param0 w dec = dec\<lparr>d_param := (d_param dec)\<lparr>param0 := w\<rparr>\<rparr>"

section \<open>The 32-bit decoder\<close>

definition dec_upper :: "u32 \<Rightarrow> RV64InstDecoded \<Rightarrow> RV64InstDecoded" where
  "dec_upper raw dec = (let inst = parse_inst_U raw in
     add_flag RVINSTFLAG_RDINT (dec\<lparr>d_rd := u_rd inst, d_imm := u_imm inst\<rparr>))"

definition dec_jal :: "u32 \<Rightarrow> RV64InstDecoded \<Rightarrow> RV64InstDecoded" where
  "dec_jal raw dec = (let inst = parse_inst_J raw in
     add_flag RVINSTFLAG_RDINT (dec\<lparr>d_rd := j_rd inst, d_imm := j_imm inst\<rparr>))"

definition dec_jalr :: "u32 \<Rightarrow> RV64InstDecoded \<Rightarrow> RV64InstDecoded" where
  "dec_jalr raw dec = (let inst = parse_inst_I raw in
     add_flag (RVINSTFLAG_RDINT OR RVINSTFLAG_S1INT) (dec\<lparr>d_rs1 := i_rs1 inst, d_rd := i_rd inst, d_imm := i_imm inst\<rparr>))"

definition dec_branch :: "u32 \<Rightarrow> RV64InstDecoded \<Rightarrow> RV64InstDecoded" where
  "dec_branch raw dec = (let inst = parse_inst_B raw in
     add_flag (RVINSTFLAG_S1INT OR RVINSTFLAG_S2INT) (set_param0 (ucast (b_funct3 inst))
       (dec\<lparr>d_rs1 := b_rs1 inst, d_rs2 := b_rs2 inst, d_imm := b_imm inst\<rparr>)))"

definition dec_load :: "u64 \<Rightarrow> u32 \<Rightarrow> RV64InstDecoded \<Rightarrow> RV64InstDecoded" where
  "dec_load rdflag raw dec = (let inst = parse_inst_I raw in
     add_flag (rdflag OR RVINSTFLAG_S1INT) (set_param0 (ucast (i_funct3 inst))
       (dec\<lparr>d_rs1 := i_rs1 inst, d_rd := i_rd inst, d_imm := i_imm inst\<rparr>)))"

definition dec_store :: "u64 \<Rightarrow> u32 \<Rightarrow> RV64InstDecoded \<Rightarrow> RV64InstDecoded" where
  "dec_store s2flag raw dec = (let inst = parse_inst_S raw in
     add_flag (RVINSTFLAG_S1INT OR s2flag) (set_param0 (ucast (s_funct3 inst))
       (dec\<lparr>d_rs1 := s_rs1 inst, d_rs2 := s_rs2 inst, d_imm := s_imm inst\<rparr>)))"

definition dec_opimm :: "RV64OPCode \<Rightarrow> u32 \<Rightarrow> RV64InstDecoded \<Rightarrow> RV64InstDecoded" where
  "dec_opimm op raw dec = (let inst = parse_inst_I raw; intop = RV64IntOP73_of (ucast (i_funct3 inst));
       imm = (if intop = I_SLL \<or> intop = I_SRL
              then (if op = op_opimm then i_imm inst AND 0x3f else if op = op_opimm32 then i_imm inst AND 0x1f else i_imm inst)
              else i_imm inst);
       intop' = (if intop = I_SRL \<and> raw AND push_bit 30 1 \<noteq> 0 then I_SRA else intop) in
     add_flag (RVINSTFLAG_RDINT OR RVINSTFLAG_S1INT) (set_param0 (RV64IntOP73_code intop')
       (dec\<lparr>d_rs1 := i_rs1 inst, d_rd := i_rd inst, d_imm := imm\<rparr>)))"

definition dec_op :: "u32 \<Rightarrow> RV64InstDecoded \<Rightarrow> RV64InstDecoded" where
  "dec_op raw dec = (let inst = parse_inst_R raw in
     add_flag (RVINSTFLAG_RDINT OR RVINSTFLAG_S1INT OR RVINSTFLAG_S2INT)
       (set_param0 (ucast (r_funct3 inst) OR push_bit 3 (ucast (r_funct7 inst)))
         (dec\<lparr>d_rs1 := r_rs1 inst, d_rs2 := r_rs2 inst, d_rd := r_rd inst\<rparr>)))"

definition dec_amo :: "u32 \<Rightarrow> RV64InstDecoded \<Rightarrow> RV64InstDecoded" where
  "dec_amo raw dec = (let inst = parse_inst_R raw; opc = drop_bit 2 (ucast (r_funct7 inst) :: u32);
       dec' = dec\<lparr>d_rs1 := r_rs1 inst, d_rs2 := r_rs2 inst, d_rd := r_rd inst,
                  d_param := (d_param dec)\<lparr>param0 := opc, param1 := ucast (r_funct3 inst)\<rparr>\<rparr>;
       dec'' = add_flag (RVINSTFLAG_RDINT OR RVINSTFLAG_S1INT) dec' in
     if RV64AMOOP5_of opc \<noteq> AMO_LR then add_flag RVINSTFLAG_S2INT dec'' else dec'')"

definition dec_opfp :: "u32 \<Rightarrow> RV64InstDecoded \<Rightarrow> RV64InstDecoded" where
  "dec_opfp raw dec = (let inst = parse_inst_R raw; opc = drop_bit 2 (ucast (r_funct7 inst) :: u32);
       op = RV64FPOP5_of opc;
       dec' = dec\<lparr>d_rs1 := r_rs1 inst, d_rs2 := r_rs2 inst, d_rd := r_rd inst,
                  d_param := \<lparr> param0 = opc, param1 = ucast (r_funct7 inst) AND 3, param2 = ucast (r_rs2 inst),
                              param3 = ucast (r_funct3 inst) \<rparr>\<rparr> in
     add_flag (if rv64_fpop_has_s2 op then RVINSTFLAG_S2FP else 0)
       (add_flag (if rv64_fpop_is_i_s1 op then RVINSTFLAG_S1INT else RVINSTFLAG_S1FP)
         (add_flag (if rv64_fpop_is_i_rd op then RVINSTFLAG_RDINT else RVINSTFLAG_RDFP) dec')))"

definition dec_fma :: "u32 \<Rightarrow> RV64InstDecoded \<Rightarrow> RV64InstDecoded" where
  "dec_fma raw dec = (let inst = parse_inst_R raw in
     add_flag (RVINSTFLAG_RDFP OR RVINSTFLAG_S1FP OR RVINSTFLAG_S2FP OR RVINSTFLAG_S3FP)
       (dec\<lparr>d_rs1 := r_rs1 inst, d_rs2 := r_rs2 inst, d_rs3 := drop_bit 2 (r_funct7 inst), d_rd := r_rd inst,
            d_param := (d_param dec)\<lparr>param1 := ucast (r_funct7 inst) AND 3, param3 := ucast (r_funct3 inst)\<rparr>\<rparr>))"

definition dec_miscmem :: "u32 \<Rightarrow> RV64InstDecoded \<Rightarrow> RV64InstDecoded" where
  "dec_miscmem raw dec = (let inst = parse_inst_I raw;
       dec' = add_flag RVINSTFLAG_UNIQUE (dec\<lparr>d_rs1 := i_rs1 inst, d_rd := i_rd inst, d_imm := i_imm inst\<rparr>) in
     if i_funct3 inst = 0
     then (if raw = 0x8330000 then add_flag RVINSTFLAG_FENCETSO dec'
           else if raw = 0x0100000f then add_flag RVINSTFLAG_PAUSE dec'
           else add_flag RVINSTFLAG_FENCE dec')
     else if i_funct3 inst = 1 then add_flag RVINSTFLAG_FENCEI dec'
     else add_flag (RVINSTFLAG_RDINT OR RVINSTFLAG_S1INT) dec')"

definition dec_system :: "u32 \<Rightarrow> RV64InstDecoded \<Rightarrow> RV64InstDecoded" where
  "dec_system raw dec = (let inst = parse_inst_I raw;
       dec' = add_flag RVINSTFLAG_UNIQUE (dec\<lparr>d_rs1 := i_rs1 inst, d_imm := i_imm inst, d_rd := i_rd inst,
         d_param := (d_param dec)\<lparr>param0 := ucast (i_funct3 inst), param1 := ucast (ucast (i_imm inst AND 0xfff) :: u16)\<rparr>\<rparr>) in
     if raw = 0x00000073 then add_flag RVINSTFLAG_ECALL dec'
     else if raw = 0x00100073 then add_flag RVINSTFLAG_EBREAK dec'
     else add_flag (RVINSTFLAG_RDINT OR RVINSTFLAG_S1INT) dec')"

definition decode_rv64i :: "u32 \<Rightarrow> RV64InstDecoded \<Rightarrow> bool \<times> RV64InstDecoded" where
  "decode_rv64i raw dec0 = (let op = RV64OPCode_of (get_opcode raw); dec = dec0\<lparr>d_opcode := op\<rparr> in
     if op = op_lui \<or> op = op_auipc then (True, dec_upper raw dec)
     else if op = op_jal then (True, dec_jal raw dec)
     else if op = op_jalr then (True, dec_jalr raw dec)
     else if op = op_branch then (True, dec_branch raw dec)
     else if op = op_load then (True, dec_load RVINSTFLAG_RDINT raw dec)
     else if op = op_loadfp then (True, dec_load RVINSTFLAG_RDFP raw dec)
     else if op = op_store then (True, dec_store RVINSTFLAG_S2INT raw dec)
     else if op = op_storefp then (True, dec_store RVINSTFLAG_S2FP raw dec)
     else if op = op_opimm \<or> op = op_opimm32 then (True, dec_opimm op raw dec)
     else if op = op_op \<or> op = op_op32 then (True, dec_op raw dec)
     else if op = op_amo then (True, dec_amo raw dec)
     else if op = op_opfp then (True, dec_opfp raw dec)
     else if op = op_madd \<or> op = op_msub \<or> op = op_nmsub \<or> op = op_nmadd then (True, dec_fma raw dec)
     else if op = op_miscmem then (True, dec_miscmem raw dec)
     else if op = op_system then (True, dec_system raw dec)
     else (False, dec))"

section \<open>The compressed decoder\<close>

definition or_bits :: "u32 list \<Rightarrow> u64 \<Rightarrow> u64" where
  "or_bits ps uimm = fold (\<lambda>p u. u OR ucast p) ps uimm"

text \<open>Register fields: three bits name x8 to x15, five bits any register.\<close>

definition reg3 :: "u32 \<Rightarrow> nat \<Rightarrow> u16" where "reg3 raw off = ucast (GET_BITS_AT raw off 3 + 8)"
definition reg5 :: "u32 \<Rightarrow> nat \<Rightarrow> u16" where "reg5 raw off = ucast (GET_BITS_AT raw off 5)"

definition bit12 :: "u32 \<Rightarrow> bool" where "bit12 raw = (drop_bit 12 raw AND 1 \<noteq> 0)"

abbreviation "RD_S1 \<equiv> RVINSTFLAG_RDINT OR RVINSTFLAG_S1INT"
abbreviation "S1_S2 \<equiv> RVINSTFLAG_S1INT OR RVINSTFLAG_S2INT"
abbreviation "RD_S1_S2 \<equiv> RVINSTFLAG_RDINT OR RVINSTFLAG_S1INT OR RVINSTFLAG_S2INT"

definition uimm_lw :: "u32 \<Rightarrow> u64" where
  "uimm_lw raw = or_bits [push_bit 6 (GET_BITS_AT raw 5 1), push_bit 2 (GET_BITS_AT raw 6 1), push_bit 3 (GET_BITS_AT raw 10 3)] 0"
definition uimm_ld :: "u32 \<Rightarrow> u64" where
  "uimm_ld raw = or_bits [push_bit 6 (GET_BITS_AT raw 5 2), push_bit 3 (GET_BITS_AT raw 10 3)] 0"
definition uimm_addi4spn :: "u32 \<Rightarrow> u64" where
  "uimm_addi4spn raw = or_bits [push_bit 3 (drop_bit 5 raw AND 1), push_bit 2 (drop_bit 6 raw AND 1),
     push_bit 6 (GET_BITS_AT raw 7 4), push_bit 4 (drop_bit 11 raw AND 1), push_bit 5 (drop_bit 12 raw AND 1)] 0"
definition imm_ci :: "u32 \<Rightarrow> u64" where
  "imm_ci raw = sign_or (bit12 raw) 0xffffffffffffffe0 (ucast (GET_BITS_AT raw 2 5))"
definition imm_addi16sp :: "u32 \<Rightarrow> u64" where
  "imm_addi16sp raw = sign_or (bit12 raw) 0xfffffffffffffe00
     (or_bits [push_bit 5 (GET_BITS_AT raw 2 1), push_bit 7 (GET_BITS_AT raw 3 2), push_bit 6 (GET_BITS_AT raw 5 1),
       push_bit 4 (GET_BITS_AT raw 6 1)] 0)"
definition imm_clui :: "u32 \<Rightarrow> u64" where
  "imm_clui raw = sign_or (bit12 raw) 0xfffffffffffe0000 (ucast (push_bit 12 (GET_BITS_AT raw 2 5)))"
definition uimm_shift :: "u32 \<Rightarrow> u64" where
  "uimm_shift raw = or_bits [push_bit 5 (drop_bit 12 raw AND 1)] (ucast (GET_BITS_AT raw 2 5))"
definition imm_cj :: "u32 \<Rightarrow> u64" where
  "imm_cj raw = sign_or (bit12 raw) 0xfffffffffffff800
     (or_bits [push_bit 5 (GET_BITS_AT raw 2 1), push_bit 1 (GET_BITS_AT raw 3 3), push_bit 7 (GET_BITS_AT raw 6 1),
       push_bit 6 (GET_BITS_AT raw 7 1), push_bit 10 (GET_BITS_AT raw 8 1), push_bit 8 (GET_BITS_AT raw 9 2),
       push_bit 4 (GET_BITS_AT raw 11 1)] 0)"
definition imm_cb :: "u32 \<Rightarrow> u64" where
  "imm_cb raw = sign_or (bit12 raw) 0xffffffffffffff00
     (or_bits [push_bit 5 (GET_BITS_AT raw 2 1), push_bit 1 (GET_BITS_AT raw 3 2), push_bit 6 (GET_BITS_AT raw 5 2),
       push_bit 3 (GET_BITS_AT raw 10 2)] 0)"
definition uimm_ldsp :: "u32 \<Rightarrow> u64" where
  "uimm_ldsp raw = or_bits [push_bit 6 (GET_BITS_AT raw 2 3), push_bit 3 (GET_BITS_AT raw 5 2), push_bit 5 (GET_BITS_AT raw 12 1)] 0"
definition uimm_lwsp :: "u32 \<Rightarrow> u64" where
  "uimm_lwsp raw = or_bits [push_bit 6 (GET_BITS_AT raw 2 2), push_bit 2 (GET_BITS_AT raw 4 3), push_bit 5 (GET_BITS_AT raw 12 1)] 0"
definition uimm_sdsp :: "u32 \<Rightarrow> u64" where
  "uimm_sdsp raw = or_bits [push_bit 6 (GET_BITS_AT raw 7 3), push_bit 3 (GET_BITS_AT raw 10 3)] 0"
definition uimm_swsp :: "u32 \<Rightarrow> u64" where
  "uimm_swsp raw = or_bits [push_bit 6 (GET_BITS_AT raw 7 2), push_bit 2 (GET_BITS_AT raw 9 4)] 0"

definition cl_load :: "RV64OPCode \<Rightarrow> RV64LSWidth \<Rightarrow> u16 \<Rightarrow> u16 \<Rightarrow> u64 \<Rightarrow> RV64InstDecoded \<Rightarrow> RV64InstDecoded" where
  "cl_load op wid rd rs1 uimm dec = add_flag RD_S1 (set_param0 (RV64LSWidth_code wid)
     (dec\<lparr>d_opcode := op, d_rd := rd, d_rs1 := rs1, d_imm := uimm\<rparr>))"

definition cs_store :: "RV64OPCode \<Rightarrow> RV64LSWidth \<Rightarrow> u16 \<Rightarrow> u16 \<Rightarrow> u64 \<Rightarrow> RV64InstDecoded \<Rightarrow> RV64InstDecoded" where
  "cs_store op wid rs2 rs1 uimm dec = add_flag S1_S2 (set_param0 (RV64LSWidth_code wid)
     (dec\<lparr>d_opcode := op, d_rs2 := rs2, d_rs1 := rs1, d_imm := uimm\<rparr>))"

definition ci_opimm :: "RV64OPCode \<Rightarrow> RV64IntOP73 \<Rightarrow> u16 \<Rightarrow> u16 \<Rightarrow> u64 \<Rightarrow> RV64InstDecoded \<Rightarrow> RV64InstDecoded" where
  "ci_opimm op intop rd rs1 imm dec = add_flag RD_S1 (set_param0 (RV64IntOP73_code intop)
     (dec\<lparr>d_opcode := op, d_rd := rd, d_rs1 := rs1, d_imm := imm\<rparr>))"

definition cr_op :: "RV64OPCode \<Rightarrow> RV64IntOP73 option \<Rightarrow> u16 \<Rightarrow> u16 \<Rightarrow> u16 \<Rightarrow> RV64InstDecoded \<Rightarrow> RV64InstDecoded" where
  "cr_op op intop rd rs1 rs2 dec = (let dec' = add_flag RD_S1_S2 (dec\<lparr>d_opcode := op, d_rd := rd, d_rs1 := rs1, d_rs2 := rs2\<rparr>) in
     case intop of None \<Rightarrow> dec' | Some x \<Rightarrow> set_param0 (RV64IntOP73_code x) dec')"

definition c_upper :: "u16 \<Rightarrow> u64 \<Rightarrow> RV64InstDecoded \<Rightarrow> RV64InstDecoded" where
  "c_upper rd imm dec = add_flag RVINSTFLAG_RDINT (dec\<lparr>d_opcode := op_lui, d_rd := rd, d_imm := imm\<rparr>)"

definition cb_branch :: "RV64BranchOP3 \<Rightarrow> u32 \<Rightarrow> RV64InstDecoded \<Rightarrow> RV64InstDecoded" where
  "cb_branch br raw dec = add_flag S1_S2 (set_param0 (RV64BranchOP3_code br)
     (dec\<lparr>d_opcode := op_branch, d_rs1 := reg3 raw 7, d_rs2 := 0, d_imm := imm_cb raw\<rparr>))"

definition decode_q0 :: "u32 \<Rightarrow> u32 \<Rightarrow> RV64InstDecoded \<Rightarrow> bool \<times> RV64InstDecoded" where
  "decode_q0 func raw dec =
     (if func = 0 then (True, ci_opimm op_opimm I_ADD (reg3 raw 2) 2 (uimm_addi4spn raw) dec)
      else if func = 1 then (True, cl_load op_loadfp W_dword (reg3 raw 2) (reg3 raw 7) (uimm_ld raw) dec)
      else if func = 2 then (True, cl_load op_load W_word (reg3 raw 2) (reg3 raw 7) (uimm_lw raw) dec)
      else if func = 3 then (True, cl_load op_load W_dword (reg3 raw 2) (reg3 raw 7) (uimm_ld raw) dec)
      else if func = 5 then (True, cs_store op_store W_dword (reg3 raw 2) (reg3 raw 7) (uimm_ld raw) dec)
      else if func = 6 then (True, cs_store op_store W_word (reg3 raw 2) (reg3 raw 7) (uimm_lw raw) dec)
      else if func = 7 then (True, cs_store op_store W_dword (reg3 raw 2) (reg3 raw 7) (uimm_ld raw) dec)
      else (False, dec))"

definition decode_arith :: "u32 \<Rightarrow> RV64InstDecoded \<Rightarrow> bool \<times> RV64InstDecoded" where
  "decode_arith raw dec = (let f1 = GET_BITS_AT raw 10 2; f2 = GET_BITS_AT raw 5 2; rd = reg3 raw 7; rs2 = reg3 raw 2 in
     if f1 = 0 then (True, ci_opimm op_opimm I_SRL rd rd (uimm_shift raw) dec)
     else if f1 = 1 then (True, ci_opimm op_opimm I_SRA rd rd (uimm_shift raw) dec)
     else if f1 = 2 then (True, ci_opimm op_opimm I_AND rd rd (imm_ci raw) dec)
     else if bit12 raw
     then (if f2 = 0 then (True, cr_op op_op32 (Some I_SUB) rd rd rs2 dec)
           else if f2 = 1 then (True, cr_op op_op32 (Some I_ADD) rd rd rs2 dec)
           else (False, cr_op op_op32 None rd rd rs2 dec))
     else (if f2 = 0 then (True, cr_op op_op (Some I_SUB) rd rd rs2 dec)
           else if f2 = 1 then (True, cr_op op_op (Some I_XOR) rd rd rs2 dec)
           else if f2 = 2 then (True, cr_op op_op (Some I_OR) rd rd rs2 dec)
           else if f2 = 3 then (True, cr_op op_op (Some I_AND) rd rd rs2 dec)
           else (False, cr_op op_op None rd rd rs2 dec)))"

definition decode_q1 :: "u32 \<Rightarrow> u32 \<Rightarrow> RV64InstDecoded \<Rightarrow> bool \<times> RV64InstDecoded" where
  "decode_q1 func raw dec =
     (if func = 0 then (True, ci_opimm op_opimm I_ADD (reg5 raw 7) (reg5 raw 7) (imm_ci raw) dec)
      else if func = 1 then (True, ci_opimm op_opimm32 I_ADD (reg5 raw 7) (reg5 raw 7) (imm_ci raw) dec)
      else if func = 2 \<and> GET_BITS_AT raw 7 5 \<noteq> 0 then (True, c_upper (reg5 raw 7) (imm_ci raw) dec)
      else if func = 3 \<and> GET_BITS_AT raw 7 5 = 2 then (True, ci_opimm op_opimm I_ADD 2 2 (imm_addi16sp raw) dec)
      else if func = 3 \<and> GET_BITS_AT raw 7 5 \<noteq> 0 then (True, c_upper (reg5 raw 7) (imm_clui raw) dec)
      else if func = 4 then decode_arith raw dec
      else if func = 5 then (True, add_flag RVINSTFLAG_RDINT (dec\<lparr>d_opcode := op_jal, d_rd := 0, d_imm := imm_cj raw\<rparr>))
      else if func = 6 then (True, cb_branch BEQ raw dec)
      else if func = 7 then (True, cb_branch BNE raw dec)
      else (False, dec))"

definition decode_jr :: "u32 \<Rightarrow> RV64InstDecoded \<Rightarrow> bool \<times> RV64InstDecoded" where
  "decode_jr raw dec =
     (if drop_bit 12 raw AND 1 = 0
      then (if GET_BITS_AT raw 2 5 \<noteq> 0
            then (True, ci_opimm op_opimm I_ADD (reg5 raw 7) (reg5 raw 2) 0 dec)
            else (True, add_flag RD_S1 (dec\<lparr>d_opcode := op_jalr, d_rs1 := reg5 raw 7, d_rd := 0, d_imm := 0\<rparr>)))
      else if GET_BITS_AT raw 2 5 \<noteq> 0 then (True, cr_op op_op (Some I_ADD) (reg5 raw 7) (reg5 raw 7) (reg5 raw 2) dec)
      else if GET_BITS_AT raw 7 5 \<noteq> 0
      then (True, add_flag RD_S1 (dec\<lparr>d_opcode := op_jalr, d_rs1 := reg5 raw 7, d_rd := 1, d_imm := 0\<rparr>))
      else (True, add_flag (RVINSTFLAG_EBREAK OR RVINSTFLAG_UNIQUE) (dec\<lparr>d_opcode := op_system\<rparr>)))"

definition decode_q2 :: "u32 \<Rightarrow> u32 \<Rightarrow> RV64InstDecoded \<Rightarrow> bool \<times> RV64InstDecoded" where
  "decode_q2 func raw dec =
     (if func = 0 \<and> GET_BITS_AT raw 7 5 \<noteq> 0
      then (True, ci_opimm op_opimm I_SLL (reg5 raw 7) (reg5 raw 7) (uimm_shift raw) dec)
      else if func = 1 then (True, cl_load op_loadfp W_dword (reg5 raw 7) 2 (uimm_ldsp raw) dec)
      else if func = 2 then (True, cl_load op_load W_word (reg5 raw 7) 2 (uimm_lwsp raw) dec)
      else if func = 3 then (True, cl_load op_load W_dword (reg5 raw 7) 2 (uimm_ldsp raw) dec)
      else if func = 4 then decode_jr raw dec
      else if func = 5 then (True, cs_store op_storefp W_dword (reg5 raw 2) 2 (uimm_sdsp raw) dec)
      else if func = 6 then (True, cs_store op_store W_word (reg5 raw 2) 2 (uimm_swsp raw) dec)
      else if func = 7 then (True, cs_store op_store W_dword (reg5 raw 2) 2 (uimm_sdsp raw) dec)
      else (False, dec))"

definition decode_rv64c :: "u32 \<Rightarrow> RV64InstDecoded \<Rightarrow> bool \<times> RV64InstDecoded" where
  "decode_rv64c raw dec0 = (let dec = add_flag RVINSTFLAG_RVC dec0; func = drop_bit 13 raw AND 7 in
     if raw AND 3 = 0 then decode_q0 func raw dec
     else if raw AND 3 = 1 then decode_q1 func raw dec
     else if raw AND 3 = 2 then decode_q2 func raw dec
     else (False, dec))"

definition isRVC :: "u32 \<Rightarrow> bool" where "isRVC inst = (inst AND 3 \<noteq> 3)"

definition reset_dec :: "RV64InstDecoded \<Rightarrow> RV64InstDecoded" where
  "reset_dec dec = dec\<lparr>d_opcode := op_nop, d_param := zero_param, d_rs1 := 0, d_rs2 := 0, d_rs3 := 0, d_rd := 0,
     d_imm := 0, d_flag := 0, d_name := []\<rparr>"

definition decode_rv64 :: "u32 \<Rightarrow> RV64InstDecoded \<Rightarrow> bool \<times> RV64InstDecoded" where
  "decode_rv64 raw dec =
     (if isRVC raw then decode_rv64c raw (reset_dec dec) else decode_rv64i raw (reset_dec dec))"

section \<open>The predecoder\<close>

definition pdec_isifence :: "u32 \<Rightarrow> bool" where
  "pdec_isifence inst = (inst AND mask 7 = 15 \<and> drop_bit 12 inst AND mask 3 = 1)"

definition pdec_isJ :: "u32 \<Rightarrow> bool" where
  "pdec_isJ inst =
     (if isRVC inst
      then (inst AND 3 = 1 \<and> drop_bit 13 inst AND 7 = 5) \<or> (inst AND 0x7f = 2 \<and> drop_bit 13 inst AND 7 = 4)
      else inst AND 0x7F = 0x6F \<or> inst AND 0x7F = 0x67)"

definition pdec_isJR :: "u32 \<Rightarrow> bool" where
  "pdec_isJR inst =
     (if isRVC inst then inst AND 0x7f = 2 \<and> drop_bit 13 inst AND 7 = 4 \<and> drop_bit 7 inst AND 31 \<noteq> 0
      else inst AND 0x7F = 0x67)"

definition pdec_isJI :: "u32 \<Rightarrow> bool" where
  "pdec_isJI inst =
     (if isRVC inst then inst AND 3 = 1 \<and> drop_bit 13 inst AND 7 = 5 else inst AND 0x7F = 0x6F)"

definition pdec_isCALLI :: "u32 \<Rightarrow> bool" where
  "pdec_isCALLI inst = (inst AND 0x7F = 0x6F \<and> drop_bit 7 inst AND 31 = 1)"

definition pdec_isCALLR :: "u32 \<Rightarrow> bool" where
  "pdec_isCALLR inst =
     (if isRVC inst then inst AND 0x7f = 2 \<and> drop_bit 12 inst AND 15 = 9 \<and> drop_bit 7 inst AND 31 \<noteq> 0
      else inst AND 0x7F = 0x67 \<and> drop_bit 7 inst AND 31 = 1)"

definition pdec_isRET :: "u32 \<Rightarrow> bool" where
  "pdec_isRET inst =
     (if isRVC inst then inst AND 0x7f = 2 \<and> drop_bit 12 inst AND 15 = 8 \<and> drop_bit 7 inst AND 31 = 1
      else inst AND 0x7F = 0x67 \<and> drop_bit 7 inst AND 31 \<noteq> 1 \<and> drop_bit 15 inst AND 31 = 1)"

definition pdec_isB :: "u32 \<Rightarrow> bool" where
  "pdec_isB inst =
     (if isRVC inst
      then (inst AND 3 = 1 \<and> drop_bit 13 inst AND 7 = 6) \<or> (inst AND 3 = 1 \<and> drop_bit 13 inst AND 7 = 7)
      else inst AND 0x7F = 0x63)"

text \<open>\<^verbatim>\<open>if(inst = 0x9002)\<close> is an assignment: it is true for every compressed instruction.\<close>

definition pdec_is_uniq :: "u32 \<Rightarrow> bool" where
  "pdec_is_uniq inst =
     (if isRVC inst then (let inst' = 0x9002 :: u32 in inst' \<noteq> 0)
      else inst AND 0x7F = 0x0F \<or> inst AND 0x7F = 0x73)"

definition or32 :: "u32 list \<Rightarrow> u32" where "or32 ps = fold (\<lambda>p u. u OR p) ps 0"

definition pdec_get_J_target :: "u32 \<Rightarrow> u32 option" where
  "pdec_get_J_target inst =
     (if isRVC inst
      then (if inst AND 3 = 1 \<and> drop_bit 13 inst AND 7 = 5
            then (let uimm = or32 [push_bit 5 (GET_BITS_AT inst 2 1), push_bit 1 (GET_BITS_AT inst 3 3),
                    push_bit 7 (GET_BITS_AT inst 6 1), push_bit 6 (GET_BITS_AT inst 7 1), push_bit 10 (GET_BITS_AT inst 8 1),
                    push_bit 8 (GET_BITS_AT inst 9 2), push_bit 4 (GET_BITS_AT inst 11 1)]
                  in Some (if bit12 inst then uimm OR 0xfffff800 else uimm))
            else None)
      else if inst AND 0x7F = 0x6F
      then (let ret = push_bit 1 (GET_BITS_AT inst 21 10) OR push_bit 11 (GET_BITS_AT inst 20 1) OR (inst AND 0xFF000)
            in Some (if inst AND push_bit 31 1 \<noteq> 0 then ret OR 0xfff00000 else ret))
      else None)"

definition pdec_get_B_target :: "u32 \<Rightarrow> u32 option" where
  "pdec_get_B_target inst =
     (if isRVC inst
      then (if inst AND 3 = 1 \<and> drop_bit 13 inst AND 6 = 6
            then (let uimm = or32 [push_bit 5 (GET_BITS_AT inst 2 1), push_bit 1 (GET_BITS_AT inst 3 2),
                    push_bit 6 (GET_BITS_AT inst 5 2), push_bit 3 (GET_BITS_AT inst 10 2)]
                  in Some (if bit12 inst then ucast (ucast uimm OR 0xffffffffffffff00 :: u64) else uimm))
            else None)
      else if inst AND 0x7F = 0x63
      then (let ret = ucast (push_bit 1 (GET_BITS_AT inst 8 4) OR push_bit 5 (GET_BITS_AT inst 25 6) OR push_bit 11 (GET_BITS_AT inst 7 1)) :: u64
            in Some (ucast (if inst AND push_bit 31 1 \<noteq> 0 then ret OR 0xfffffffffffff000 else ret)))
      else None)"

end
