(* ===== verification/DecodeSpec.thy ===== *)
theory DecodeSpec
  imports Decode
begin

text \<open>
  What the decoder promises. Immediates are compared with the layout tables of the RISC-V
  manual, written as segments (lowest immediate bit, lowest instruction bit, length) and, for a
  signed immediate, the bit from which the sign is replicated. The predecoder predicates are
  compared with the decoder on every raw word, and the decoded record is shown well formed.
\<close>

section \<open>Reference layouts of the immediates\<close>

fun seg_source :: "(nat \<times> nat \<times> nat) list \<Rightarrow> nat \<Rightarrow> nat option" where
  "seg_source [] k = None"
| "seg_source ((lo, src, len) # ss) k = (if lo \<le> k \<and> k < lo + len then Some (src + (k - lo)) else seg_source ss k)"

definition signed_source :: "nat \<Rightarrow> nat \<Rightarrow> (nat \<times> nat \<times> nat) list \<Rightarrow> nat \<Rightarrow> nat option" where
  "signed_source n s segs k = (if n \<le> k then Some s else seg_source segs k)"

definition gather :: "(nat \<Rightarrow> nat option) \<Rightarrow> u32 \<Rightarrow> u64" where
  "gather src raw = horner_sum of_bool 2 (map (\<lambda>k. case src k of None \<Rightarrow> False | Some i \<Rightarrow> bit raw i) [0..<64])"

section \<open>Bits of the pieces an immediate is built from\<close>

named_theorems imm_bits \<open>bit k of the pieces of an immediate\<close>

lemma bit_gather: "n < 64 \<Longrightarrow> bit (gather src raw) n = (case src n of None \<Rightarrow> False | Some i \<Rightarrow> bit raw i)"
  by (simp add: gather_def bit_horner_sum_bit_word_iff)

lemma positions_64: "[0..<64] = [0, 1, 2, 3, 4, 5, 6, 7, 8, 9, 10, 11, 12, 13, 14, 15, 16, 17, 18, 19, 20, 21, 22, 23, 24, 25, 26, 27, 28, 29, 30, 31, 32, 33, 34, 35, 36, 37, 38, 39, 40, 41, 42, 43, 44, 45, 46, 47, 48, 49, 50, 51, 52, 53, 54, 55, 56, 57, 58, 59, 60, 61, 62, 63]"
  by code_simp

lemma u64_eqI:
  assumes "list_all (\<lambda>n. bit a n = bit b n) [0..<64]" shows "(a::u64) = b"
  by (rule bit_word_eqI) (use assms in \<open>auto simp: list_all_iff\<close>)

lemma sign_bit_iff: "raw AND push_bit n 1 \<noteq> 0 \<longleftrightarrow> bit (raw::u32) n"
  by (simp add: bit_iff_and_push_bit_not_eq_0)

lemma bit12_iff [imm_bits]: "bit12 raw = bit raw 12"
  by (simp add: bit12_def bit_iff_odd_drop_bit and_one_eq odd_iff_mod_2_eq_one)

lemma not_mask_minus: "NOT (mask n) = (- (2 ^ n) :: u64)" "NOT (mask n) = (- (2 ^ n) :: u32)"
  by (simp_all add: mask_eq_exp_minus_1 not_eq_complement)

lemma sign_masks [imm_bits]:
  "(0xfffffffffffff000 :: u64) = NOT (mask 12)" "(0xffffffff00000000 :: u64) = NOT (mask 32)"
  "(0xfffffffffff00000 :: u64) = NOT (mask 20)" "(0xffffffffffffffe0 :: u64) = NOT (mask 5)"
  "(0xfffffffffffffe00 :: u64) = NOT (mask 9)" "(0xfffffffffffe0000 :: u64) = NOT (mask 17)"
  "(0xfffffffffffff800 :: u64) = NOT (mask 11)" "(0xffffffffffffff00 :: u64) = NOT (mask 8)"
  "(0xfffff000 :: u32) = NOT (mask 12)"
  by (simp_all add: not_mask_minus)

lemma mask_8_at_12 [imm_bits]: "(0xFF000 :: u32) = push_bit 12 (mask 8)"
  by (simp add: mask_eq_exp_minus_1 push_bit_eq_mult)

lemma bit_double_u32 [imm_bits]: "bit (w * 2) n = (n < 32 \<and> n > 0 \<and> bit (w :: u32) (n - 1))"
proof -
  have "w * 2 = push_bit 1 w" by (simp add: push_bit_eq_mult)
  then show ?thesis by (simp only: bit_push_bit_iff) auto
qed

lemma bit_sign_or [imm_bits]: "bit (sign_or neg m ret) n = (bit ret n \<or> neg \<and> bit m n)"
  by (simp add: sign_or_def bit_simps)

lemma bit_GET_BITS_AT [imm_bits]: "bit (GET_BITS_AT w off len) n = (n < 32 \<and> n < len \<and> bit w (off + n))"
  by (auto simp add: GET_BITS_AT_def bit_simps)

lemma or_bits_simps [imm_bits]: "or_bits [] u = u" "or_bits (p # ps) u = or_bits ps (u OR ucast p)"
  by (simp_all add: or_bits_def)

lemma bit_ucast_up [imm_bits]: "bit (ucast (p :: u32) :: u64) n = (n < 32 \<and> bit p n)"
  using bit_imp_le_length [of p n] by (auto simp: bit_unsigned_iff)

lemma bit_single [imm_bits]: "bit (drop_bit k w AND 1) n = (n = 0 \<and> bit (w::u32) k)"
  by (auto simp: bit_simps)

lemmas layout_simps = bit_gather signed_source_def seg_source.simps imm_bits bit_simps

definition isa_I :: "nat \<Rightarrow> nat option" where
  "isa_I = signed_source 11 31 [(0, 20, 11)]"
definition isa_S :: "nat \<Rightarrow> nat option" where
  "isa_S = signed_source 11 31 [(0, 7, 5), (5, 25, 6)]"
definition isa_B :: "nat \<Rightarrow> nat option" where
  "isa_B = signed_source 12 31 [(1, 8, 4), (5, 25, 6), (11, 7, 1)]"
definition isa_U :: "nat \<Rightarrow> nat option" where
  "isa_U = signed_source 31 31 [(12, 12, 19)]"
definition isa_J :: "nat \<Rightarrow> nat option" where
  "isa_J = signed_source 20 31 [(1, 21, 10), (11, 20, 1), (12, 12, 8)]"
definition isa_CI :: "nat \<Rightarrow> nat option" where
  "isa_CI = signed_source 5 12 [(0, 2, 5)]"
definition isa_CI16SP :: "nat \<Rightarrow> nat option" where
  "isa_CI16SP = signed_source 9 12 [(4, 6, 1), (5, 2, 1), (6, 5, 1), (7, 3, 2)]"
definition isa_CLUI :: "nat \<Rightarrow> nat option" where
  "isa_CLUI = signed_source 17 12 [(12, 2, 5)]"
definition isa_CJ :: "nat \<Rightarrow> nat option" where
  "isa_CJ = signed_source 11 12 [(1, 3, 3), (4, 11, 1), (5, 2, 1), (6, 7, 1), (7, 6, 1), (8, 9, 2), (10, 8, 1)]"
definition isa_CB :: "nat \<Rightarrow> nat option" where
  "isa_CB = signed_source 8 12 [(1, 3, 2), (3, 10, 2), (5, 2, 1), (6, 5, 2)]"
definition isa_shift :: "nat \<Rightarrow> nat option" where
  "isa_shift = seg_source [(0, 2, 5), (5, 12, 1)]"
definition isa_CIW :: "nat \<Rightarrow> nat option" where
  "isa_CIW = seg_source [(2, 6, 1), (3, 5, 1), (4, 11, 2), (6, 7, 4)]"
definition isa_CLW :: "nat \<Rightarrow> nat option" where
  "isa_CLW = seg_source [(2, 6, 1), (3, 10, 3), (6, 5, 1)]"
definition isa_CLD :: "nat \<Rightarrow> nat option" where
  "isa_CLD = seg_source [(3, 10, 3), (6, 5, 2)]"
definition isa_CILWSP :: "nat \<Rightarrow> nat option" where
  "isa_CILWSP = seg_source [(2, 4, 3), (5, 12, 1), (6, 2, 2)]"
definition isa_CILDSP :: "nat \<Rightarrow> nat option" where
  "isa_CILDSP = seg_source [(3, 5, 2), (5, 12, 1), (6, 2, 3)]"
definition isa_CSSW :: "nat \<Rightarrow> nat option" where
  "isa_CSSW = seg_source [(2, 9, 4), (6, 7, 2)]"
definition isa_CSSD :: "nat \<Rightarrow> nat option" where
  "isa_CSSD = seg_source [(3, 10, 3), (6, 7, 3)]"

section \<open>The immediates are the tables\<close>

lemma get_imm_I_table: "get_imm_I raw = gather isa_I raw"
  unfolding get_imm_I_def sign_bit_iff
  by (rule u64_eqI, simp only: list.pred_inject positions_64) (simp add: isa_I_def layout_simps)

lemma get_imm_S_table: "get_imm_S raw = gather isa_S raw"
  unfolding get_imm_S_def sign_bit_iff
  by (rule u64_eqI, simp only: list.pred_inject positions_64) (simp add: isa_S_def layout_simps)

lemma get_imm_B_table: "get_imm_B raw = gather isa_B raw"
  unfolding get_imm_B_def sign_bit_iff
  by (rule u64_eqI, simp only: list.pred_inject positions_64) (simp add: isa_B_def layout_simps)

lemma get_imm_U_table: "get_imm_U raw = gather isa_U raw"
  unfolding get_imm_U_def sign_bit_iff
  by (rule u64_eqI, simp only: list.pred_inject positions_64) (simp add: isa_U_def layout_simps)

lemma get_imm_J_table: "get_imm_J raw = gather isa_J raw"
  unfolding get_imm_J_def sign_bit_iff
  by (rule u64_eqI, simp only: list.pred_inject positions_64) (simp add: isa_J_def layout_simps)

lemma imm_ci_table: "imm_ci raw = gather isa_CI raw"
  unfolding imm_ci_def sign_bit_iff
  by (rule u64_eqI, simp only: list.pred_inject positions_64) (simp add: isa_CI_def layout_simps)

lemma imm_addi16sp_table: "imm_addi16sp raw = gather isa_CI16SP raw"
  unfolding imm_addi16sp_def sign_bit_iff
  by (rule u64_eqI, simp only: list.pred_inject positions_64) (simp add: isa_CI16SP_def layout_simps)

lemma imm_clui_table: "imm_clui raw = gather isa_CLUI raw"
  unfolding imm_clui_def sign_bit_iff
  by (rule u64_eqI, simp only: list.pred_inject positions_64) (simp add: isa_CLUI_def layout_simps)

lemma imm_cj_table: "imm_cj raw = gather isa_CJ raw"
  unfolding imm_cj_def sign_bit_iff
  by (rule u64_eqI, simp only: list.pred_inject positions_64) (simp add: isa_CJ_def layout_simps)

lemma imm_cb_table: "imm_cb raw = gather isa_CB raw"
  unfolding imm_cb_def sign_bit_iff
  by (rule u64_eqI, simp only: list.pred_inject positions_64) (simp add: isa_CB_def layout_simps)

lemma uimm_shift_table: "uimm_shift raw = gather isa_shift raw"
  unfolding uimm_shift_def sign_bit_iff
  by (rule u64_eqI, simp only: list.pred_inject positions_64) (simp add: isa_shift_def layout_simps)

lemma uimm_addi4spn_table: "uimm_addi4spn raw = gather isa_CIW raw"
  unfolding uimm_addi4spn_def sign_bit_iff
  by (rule u64_eqI, simp only: list.pred_inject positions_64) (simp add: isa_CIW_def layout_simps)

lemma uimm_lw_table: "uimm_lw raw = gather isa_CLW raw"
  unfolding uimm_lw_def sign_bit_iff
  by (rule u64_eqI, simp only: list.pred_inject positions_64) (simp add: isa_CLW_def layout_simps)

lemma uimm_ld_table: "uimm_ld raw = gather isa_CLD raw"
  unfolding uimm_ld_def sign_bit_iff
  by (rule u64_eqI, simp only: list.pred_inject positions_64) (simp add: isa_CLD_def layout_simps)

lemma uimm_lwsp_table: "uimm_lwsp raw = gather isa_CILWSP raw"
  unfolding uimm_lwsp_def sign_bit_iff
  by (rule u64_eqI, simp only: list.pred_inject positions_64) (simp add: isa_CILWSP_def layout_simps)

lemma uimm_ldsp_table: "uimm_ldsp raw = gather isa_CILDSP raw"
  unfolding uimm_ldsp_def sign_bit_iff
  by (rule u64_eqI, simp only: list.pred_inject positions_64) (simp add: isa_CILDSP_def layout_simps)

lemma uimm_swsp_table: "uimm_swsp raw = gather isa_CSSW raw"
  unfolding uimm_swsp_def sign_bit_iff
  by (rule u64_eqI, simp only: list.pred_inject positions_64) (simp add: isa_CSSW_def layout_simps)

lemma uimm_sdsp_table: "uimm_sdsp raw = gather isa_CSSD raw"
  unfolding uimm_sdsp_def sign_bit_iff
  by (rule u64_eqI, simp only: list.pred_inject positions_64) (simp add: isa_CSSD_def layout_simps)

text \<open>
  C24. Every immediate the decoder extracts is, bit for bit and for every raw word, the one of the
  RISC-V layout tables: the five formats of the base encoding and the thirteen of the compressed
  one, sign extension included.
\<close>
theorem immediates_match_isa:
  "get_imm_I raw = gather isa_I raw \<and>
     get_imm_S raw = gather isa_S raw \<and>
     get_imm_B raw = gather isa_B raw \<and>
     get_imm_U raw = gather isa_U raw \<and>
     get_imm_J raw = gather isa_J raw \<and>
     imm_ci raw = gather isa_CI raw \<and>
     imm_addi16sp raw = gather isa_CI16SP raw \<and>
     imm_clui raw = gather isa_CLUI raw \<and>
     imm_cj raw = gather isa_CJ raw \<and>
     imm_cb raw = gather isa_CB raw \<and>
     uimm_shift raw = gather isa_shift raw \<and>
     uimm_addi4spn raw = gather isa_CIW raw \<and>
     uimm_lw raw = gather isa_CLW raw \<and>
     uimm_ld raw = gather isa_CLD raw \<and>
     uimm_lwsp raw = gather isa_CILWSP raw \<and>
     uimm_ldsp raw = gather isa_CILDSP raw \<and>
     uimm_swsp raw = gather isa_CSSW raw \<and>
     uimm_sdsp raw = gather isa_CSSD raw"
  by (intro conjI get_imm_I_table get_imm_S_table get_imm_B_table get_imm_U_table get_imm_J_table imm_ci_table imm_addi16sp_table imm_clui_table imm_cj_table imm_cb_table uimm_shift_table uimm_addi4spn_table uimm_lw_table uimm_ld_table uimm_lwsp_table uimm_ldsp_table uimm_swsp_table uimm_sdsp_table)

section \<open>Instruction fields and the shape of the decoder\<close>

lemma opcode_of_iff:
  "RV64OPCode_of w = op_jal \<longleftrightarrow> w = 0x6F" "RV64OPCode_of w = op_jalr \<longleftrightarrow> w = 0x67"
  "RV64OPCode_of w = op_branch \<longleftrightarrow> w = 0x63" "RV64OPCode_of w = op_system \<longleftrightarrow> w = 0x73"
  by (simp_all add: RV64OPCode_of_def)

lemma get_bits_iff: "GET_BITS_AT w off len = c \<longleftrightarrow> drop_bit len c = 0 \<and> list_all (\<lambda>i. (i < 32 \<and> bit w (off + i)) = bit c i) [0..<len]" (is "?l \<longleftrightarrow> ?r")
proof
  show ?r if ?l using that by (auto simp: list_all_iff bit_GET_BITS_AT word_drop_bit_zero_iff)
  show ?l if ?r
  proof (rule bit_word_eqI)
    fix n assume "n < LENGTH(32)"
    then show "bit (GET_BITS_AT w off len) n = bit c n"
      using that by (cases "n < len") (auto simp: list_all_iff bit_GET_BITS_AT word_drop_bit_zero_iff)
  qed
qed
lemma small_positions: "[0..<1] = [0::nat]" "[0..<2] = [0::nat, 1]" "[0..<3] = [0::nat, 1, 2]" "[0..<4] = [0::nat, 1, 2, 3]"
  "[0..<5] = [0::nat, 1, 2, 3, 4]" "[0..<7] = [0::nat, 1, 2, 3, 4, 5, 6]"
  by code_simp+

lemma mask_fields: "raw AND 3 = GET_BITS_AT raw 0 2" "raw AND 127 = GET_BITS_AT raw 0 7" "drop_bit 13 raw AND 7 = GET_BITS_AT raw 13 3"
 "drop_bit 7 raw AND 31 = GET_BITS_AT raw 7 5" "drop_bit 15 raw AND 31 = GET_BITS_AT raw 15 5" "drop_bit 12 raw AND 15 = GET_BITS_AT raw 12 4"
 "drop_bit 12 raw AND 1 = GET_BITS_AT raw 12 1" 
  by (simp_all add: GET_BITS_AT_def mask_numeral) 

lemma two_bits: "drop_bit 13 raw AND 6 = 6 \<longleftrightarrow> GET_BITS_AT raw 14 2 = 3"
proof -
  have six: "(6::u32) = push_bit 1 (mask 2)" by code_simp
  have eq: "drop_bit 13 raw AND 6 = push_bit 1 (GET_BITS_AT raw 14 2)"
    unfolding six by (rule bit_word_eqI) (simp only: bit_and_iff bit_push_bit_iff bit_mask_iff bit_drop_bit_eq o_apply bit_GET_BITS_AT, auto)
  have dr: "drop_bit 1 (push_bit 1 (GET_BITS_AT raw 14 2)) = GET_BITS_AT raw 14 2"
    by (rule bit_word_eqI) (simp only: bit_push_bit_iff bit_drop_bit_eq o_apply bit_GET_BITS_AT, auto)
  have "drop_bit 1 (6 :: u32) = 3" "push_bit 1 (3 :: u32) = 6" by code_simp+
  then show ?thesis unfolding eq using dr by metis
qed

lemma field_splits:
  "GET_BITS_AT raw 0 7 = 2 \<longleftrightarrow> GET_BITS_AT raw 0 2 = 2 \<and> GET_BITS_AT raw 2 5 = 0"
  "GET_BITS_AT raw 12 4 = 9 \<longleftrightarrow> GET_BITS_AT raw 13 3 = 4 \<and> GET_BITS_AT raw 12 1 \<noteq> 0"
  "GET_BITS_AT raw 12 4 = 8 \<longleftrightarrow> GET_BITS_AT raw 13 3 = 4 \<and> GET_BITS_AT raw 12 1 = 0"
  "GET_BITS_AT raw 14 2 = 3 \<longleftrightarrow> GET_BITS_AT raw 13 3 = 6 \<or> GET_BITS_AT raw 13 3 = 7"
  unfolding get_bits_iff small_positions by (auto simp del: add_2_eq_Suc add_2_eq_Suc')
lemma full_opcodes:
  "GET_BITS_AT raw 0 2 \<noteq> 3 \<Longrightarrow> GET_BITS_AT raw 0 7 \<noteq> 0x6F"
  "GET_BITS_AT raw 0 2 \<noteq> 3 \<Longrightarrow> GET_BITS_AT raw 0 7 \<noteq> 0x67"
  "GET_BITS_AT raw 0 2 \<noteq> 3 \<Longrightarrow> GET_BITS_AT raw 0 7 \<noteq> 0x63"
  "GET_BITS_AT raw 0 2 \<noteq> 3 \<Longrightarrow> GET_BITS_AT raw 0 7 \<noteq> 0x0F"
  unfolding get_bits_iff small_positions by (auto)

lemma low_halves:
  "GET_BITS_AT raw 0 16 = 0x8002 \<longleftrightarrow>
     GET_BITS_AT raw 0 2 = 2 \<and> GET_BITS_AT raw 13 3 = 4 \<and> GET_BITS_AT raw 2 5 = 0 \<and> GET_BITS_AT raw 12 1 = 0 \<and> GET_BITS_AT raw 7 5 = 0"
  "GET_BITS_AT raw 0 16 = 0x9002 \<longleftrightarrow>
     GET_BITS_AT raw 0 2 = 2 \<and> GET_BITS_AT raw 13 3 = 4 \<and> GET_BITS_AT raw 2 5 = 0 \<and> GET_BITS_AT raw 12 1 \<noteq> 0 \<and> GET_BITS_AT raw 7 5 = 0"
proof -
  have p: "[0..<16] = [0, 1, 2, 3, 4, 5, 6, 7, 8, 9, 10, 11, 12, 13, 14, 15]" by code_simp
  show "GET_BITS_AT raw 0 16 = 0x8002 \<longleftrightarrow>
     GET_BITS_AT raw 0 2 = 2 \<and> GET_BITS_AT raw 13 3 = 4 \<and> GET_BITS_AT raw 2 5 = 0 \<and> GET_BITS_AT raw 12 1 = 0 \<and> GET_BITS_AT raw 7 5 = 0"
    unfolding get_bits_iff small_positions p by (auto simp: numeral_2_eq_2 [symmetric] numeral_3_eq_3 [symmetric])
  show "GET_BITS_AT raw 0 16 = 0x9002 \<longleftrightarrow>
     GET_BITS_AT raw 0 2 = 2 \<and> GET_BITS_AT raw 13 3 = 4 \<and> GET_BITS_AT raw 2 5 = 0 \<and> GET_BITS_AT raw 12 1 \<noteq> 0 \<and> GET_BITS_AT raw 7 5 = 0"
    unfolding get_bits_iff small_positions p by (auto simp: numeral_2_eq_2 [symmetric] numeral_3_eq_3 [symmetric])
qed

lemmas c_kinds = decode_rv64c_def decode_q0_def decode_q1_def decode_q2_def decode_arith_def decode_jr_def
lemmas c_forms = cl_load_def cs_store_def ci_opimm_def cr_op_def c_upper_def cb_branch_def add_flag_def set_param0_def
lemmas i_forms = dec_upper_def dec_jal_def dec_jalr_def dec_branch_def dec_load_def dec_store_def dec_opimm_def dec_op_def
  dec_amo_def dec_opfp_def dec_fma_def dec_miscmem_def dec_system_def

lemma opcode_kept [simp]:
  "d_opcode (add_flag f d) = d_opcode d" "d_opcode (set_param0 w d) = d_opcode d"
  "d_rd (add_flag f d) = d_rd d" "d_rd (set_param0 w d) = d_rd d"
  "d_rs1 (add_flag f d) = d_rs1 d" "d_rs1 (set_param0 w d) = d_rs1 d"
  "d_imm (add_flag f d) = d_imm d" "d_imm (set_param0 w d) = d_imm d"
  by (simp_all add: add_flag_def set_param0_def)

lemma opcode_32 [simp]:
  "d_opcode (dec_upper raw d) = d_opcode d" "d_opcode (dec_jal raw d) = d_opcode d" "d_opcode (dec_jalr raw d) = d_opcode d"
  "d_opcode (dec_branch raw d) = d_opcode d" "d_opcode (dec_load f raw d) = d_opcode d" "d_opcode (dec_store f raw d) = d_opcode d"
  "d_opcode (dec_opimm op raw d) = d_opcode d" "d_opcode (dec_op raw d) = d_opcode d" "d_opcode (dec_amo raw d) = d_opcode d"
  "d_opcode (dec_opfp raw d) = d_opcode d" "d_opcode (dec_fma raw d) = d_opcode d" "d_opcode (dec_miscmem raw d) = d_opcode d"
  "d_opcode (dec_system raw d) = d_opcode d"
  by (simp_all add: i_forms Let_def)

lemma opcode_32_all: "d_opcode (snd (decode_rv64i raw d)) = RV64OPCode_of (get_opcode raw)"
  by (simp add: decode_rv64i_def Let_def)

lemma opcode_c [simp]:
  "d_opcode (cl_load op w rd rs u d) = op" "d_opcode (cs_store op w rd rs u d) = op" "d_opcode (ci_opimm op i rd rs u d) = op"
  "d_opcode (cr_op op io rd rs rs2 d) = op" "d_opcode (c_upper rd u d) = op_lui" "d_opcode (cb_branch br raw d) = op_branch"
  by (simp_all add: cl_load_def cs_store_def ci_opimm_def cr_op_def c_upper_def cb_branch_def Let_def split: option.split)

lemma quadrants: "GET_BITS_AT raw 0 2 = 0 \<or> GET_BITS_AT raw 0 2 = 1 \<or> GET_BITS_AT raw 0 2 = 2 \<or> GET_BITS_AT raw 0 2 = 3"
  unfolding get_bits_iff small_positions by auto

lemma kind_c:
  assumes "isRVC raw"
  shows "case decode_rv64c raw d of (ok, d') \<Rightarrow>
    (ok \<and> d_opcode d' = op_jal \<longleftrightarrow> GET_BITS_AT raw 0 2 = 1 \<and> GET_BITS_AT raw 13 3 = 5) \<and>
    (ok \<and> d_opcode d' = op_branch \<longleftrightarrow> GET_BITS_AT raw 0 2 = 1 \<and> (GET_BITS_AT raw 13 3 = 6 \<or> GET_BITS_AT raw 13 3 = 7)) \<and>
    (ok \<and> d_opcode d' = op_jalr \<longleftrightarrow> GET_BITS_AT raw 0 2 = 2 \<and> GET_BITS_AT raw 13 3 = 4 \<and> GET_BITS_AT raw 2 5 = 0 \<and> (GET_BITS_AT raw 12 1 = 0 \<or> GET_BITS_AT raw 7 5 \<noteq> 0)) \<and>
    (ok \<and> d_opcode d' = op_system \<longleftrightarrow> GET_BITS_AT raw 0 2 = 2 \<and> GET_BITS_AT raw 13 3 = 4 \<and> GET_BITS_AT raw 2 5 = 0 \<and> GET_BITS_AT raw 12 1 \<noteq> 0 \<and> GET_BITS_AT raw 7 5 = 0) \<and>
    (ok \<longrightarrow> d_opcode d' \<noteq> op_miscmem)"
  using quadrants [of raw] assms
  by (elim disjE) (simp_all add: c_kinds Let_def mask_fields isRVC_def bit12_def)

lemma kind_c_fields:
  assumes "isRVC raw"
  shows "case decode_rv64c raw d of (ok, d') \<Rightarrow>
    (GET_BITS_AT raw 0 2 = 1 \<and> GET_BITS_AT raw 13 3 = 5 \<longrightarrow> d_rd d' = 0 \<and> d_imm d' = imm_cj raw) \<and>
    (GET_BITS_AT raw 0 2 = 1 \<and> (GET_BITS_AT raw 13 3 = 6 \<or> GET_BITS_AT raw 13 3 = 7) \<longrightarrow> d_imm d' = imm_cb raw) \<and>
    (GET_BITS_AT raw 0 2 = 2 \<and> GET_BITS_AT raw 13 3 = 4 \<and> GET_BITS_AT raw 2 5 = 0 \<and> (GET_BITS_AT raw 12 1 = 0 \<or> GET_BITS_AT raw 7 5 \<noteq> 0) \<longrightarrow>
      d_rs1 d' = reg5 raw 7 \<and> d_rd d' = (if GET_BITS_AT raw 12 1 = 0 then 0 else 1) \<and> d_imm d' = 0)"
  using quadrants [of raw] assms
  by (elim disjE) (simp_all add: c_kinds Let_def mask_fields isRVC_def bit12_def cb_branch_def)

lemma kind_i:
  "case decode_rv64i raw d of (ok, d') \<Rightarrow>
    (ok \<and> d_opcode d' = op_jal \<longleftrightarrow> GET_BITS_AT raw 0 7 = 0x6F) \<and>
    (ok \<and> d_opcode d' = op_branch \<longleftrightarrow> GET_BITS_AT raw 0 7 = 0x63) \<and>
    (ok \<and> d_opcode d' = op_jalr \<longleftrightarrow> GET_BITS_AT raw 0 7 = 0x67) \<and>
    (ok \<and> d_opcode d' = op_miscmem \<longleftrightarrow> GET_BITS_AT raw 0 7 = 0x0F) \<and>
    (ok \<and> d_opcode d' = op_system \<longleftrightarrow> GET_BITS_AT raw 0 7 = 0x73) \<and>
    (GET_BITS_AT raw 0 7 = 0x6F \<longrightarrow> d_rd d' = ucast (GET_BITS_AT raw 7 5) \<and> d_imm d' = get_imm_J raw) \<and>
    (GET_BITS_AT raw 0 7 = 0x63 \<longrightarrow> d_imm d' = get_imm_B raw) \<and>
    (GET_BITS_AT raw 0 7 = 0x67 \<longrightarrow> d_rd d' = ucast (GET_BITS_AT raw 7 5) \<and> d_rs1 d' = ucast (GET_BITS_AT raw 15 5) \<and> d_imm d' = get_imm_I raw)"
  by (auto simp: decode_rv64i_def Let_def opcode_of_iff get_opcode_def dec_jal_def dec_jalr_def dec_branch_def
    parse_inst_J_def parse_inst_I_def parse_inst_B_def get_rd_def get_rs1_def RV64OPCode_of_def)

lemma small_field: "unat (GET_BITS_AT raw off 5) < 32"
proof -
  have "GET_BITS_AT raw off 5 = take_bit 5 (drop_bit off raw)" by (simp add: GET_BITS_AT_def take_bit_eq_mask)
  then show ?thesis by (simp only: unsigned_take_bit_eq) (simp add: take_bit_eq_mod)
qed

lemma reg_field_iff:
  "(ucast (GET_BITS_AT raw off 5) :: u16) = 0 \<longleftrightarrow> GET_BITS_AT raw off 5 = 0"
  "(ucast (GET_BITS_AT raw off 5) :: u16) = 1 \<longleftrightarrow> GET_BITS_AT raw off 5 = 1"
  using small_field [of raw off] by (simp_all add: word_unat_eq_iff unsigned_ucast_eq take_bit_eq_mod)

lemma positions_32: "[0..<32] = [0, 1, 2, 3, 4, 5, 6, 7, 8, 9, 10, 11, 12, 13, 14, 15, 16, 17, 18, 19, 20, 21, 22, 23, 24, 25, 26, 27, 28, 29, 30, 31]"
  by code_simp

lemma u32_eqI:
  assumes "list_all (\<lambda>n. bit a n = bit b n) [0..<32]" shows "(a::u32) = b"
  by (rule bit_word_eqI) (use assms in \<open>auto simp: list_all_iff\<close>)

lemma ucast_down_up: "ucast (ucast (a :: u32) :: u64) = a"
  by (rule bit_word_eqI) (simp add: bit_simps)

lemma or32_simps: "or32 ps = ucast (or_bits ps 0)"
proof -
  have "ucast (or_bits ps u) = fold (\<lambda>p u. u OR p) ps (ucast u)" for u
    by (induction ps arbitrary: u) (simp_all add: or_bits_simps unsigned_or_eq ucast_down_up)
  from this [of 0] show ?thesis by (simp add: or32_def)
qed

lemma J_target_c:
  "(ucast (imm_cj raw) :: u32) = (let uimm = or32 [push_bit 5 (GET_BITS_AT raw 2 1), push_bit 1 (GET_BITS_AT raw 3 3),
                    push_bit 7 (GET_BITS_AT raw 6 1), push_bit 6 (GET_BITS_AT raw 7 1), push_bit 10 (GET_BITS_AT raw 8 1),
                    push_bit 8 (GET_BITS_AT raw 9 2), push_bit 4 (GET_BITS_AT raw 11 1)] in if bit12 raw then uimm OR 0xfffff800 else uimm)"
  unfolding imm_cj_def or32_simps Let_def
  by (rule u32_eqI, simp only: list.pred_inject positions_32) (simp add: imm_bits bit_simps)

lemma J_target_i:
  "(ucast (get_imm_J raw) :: u32) = (let ret = push_bit 1 (GET_BITS_AT raw 21 10) OR push_bit 11 (GET_BITS_AT raw 20 1) OR (raw AND 0xFF000)
            in if raw AND push_bit 31 1 \<noteq> 0 then ret OR 0xfff00000 else ret)"
proof -
  have m: "(0xfff00000 :: u32) = NOT (mask 20)" by (simp add: not_mask_minus)
  show ?thesis unfolding get_imm_J_def Let_def sign_bit_iff
    by (rule u32_eqI, simp only: list.pred_inject positions_32) (simp add: imm_bits bit_simps m)
qed
lemma B_target_c:
  "(ucast (imm_cb raw) :: u32) = (let uimm = or32 [push_bit 5 (GET_BITS_AT raw 2 1), push_bit 1 (GET_BITS_AT raw 3 2),
                    push_bit 6 (GET_BITS_AT raw 5 2), push_bit 3 (GET_BITS_AT raw 10 2)] in if bit12 raw then ucast (ucast uimm OR 0xffffffffffffff00 :: u64) else uimm)"
  unfolding imm_cb_def or32_simps Let_def
  by (rule u32_eqI, simp only: list.pred_inject positions_32) (simp add: imm_bits bit_simps)
lemma B_target_i:
  "(ucast (get_imm_B raw) :: u32) = (let ret = ucast (push_bit 1 (GET_BITS_AT raw 8 4) OR push_bit 5 (GET_BITS_AT raw 25 6) OR push_bit 11 (GET_BITS_AT raw 7 1)) :: u64
            in (ucast (if raw AND push_bit 31 1 \<noteq> 0 then ret OR 0xfffffffffffff000 else ret)))"
  unfolding get_imm_B_def Let_def sign_bit_iff sign_or_def by simp

text \<open>
  The predecoder's answers against the decoded record, with every disagreement written out: at the low half 0x8002, a compressed register jump through register 0,
  the decoder has a register jump and the predecoder none; at 0x9002, the compressed environment break, the predecoder has a jump; and every compressed word is predecoded as unique.
\<close>

definition pdec_agrees :: "u32 \<Rightarrow> bool \<times> RV64InstDecoded \<Rightarrow> bool" where
  "pdec_agrees raw r = (case r of (ok, d') \<Rightarrow>
     (pdec_isJI raw \<longleftrightarrow> ok \<and> d_opcode d' = op_jal) \<and>
     (pdec_isB raw \<longleftrightarrow> ok \<and> d_opcode d' = op_branch) \<and>
     (pdec_isJR raw \<longleftrightarrow> ok \<and> d_opcode d' = op_jalr \<and> GET_BITS_AT raw 0 16 \<noteq> 0x8002) \<and>
     (pdec_isJ raw \<longleftrightarrow> ok \<and> (d_opcode d' = op_jal \<or> d_opcode d' = op_jalr) \<or> GET_BITS_AT raw 0 16 = 0x9002) \<and>
     (GET_BITS_AT raw 0 16 = 0x8002 \<longrightarrow> ok \<and> d_opcode d' = op_jalr \<and> d_rs1 d' = 0) \<and>
     (GET_BITS_AT raw 0 16 = 0x9002 \<longrightarrow> ok \<and> d_opcode d' = op_system) \<and>
     (pdec_isCALLI raw \<longleftrightarrow> ok \<and> d_opcode d' = op_jal \<and> d_rd d' = 1) \<and>
     (pdec_isCALLR raw \<longleftrightarrow> ok \<and> d_opcode d' = op_jalr \<and> d_rd d' = 1) \<and>
     (pdec_isRET raw \<longleftrightarrow> ok \<and> d_opcode d' = op_jalr \<and> d_rs1 d' = 1 \<and> d_rd d' \<noteq> 1) \<and>
     pdec_get_J_target raw = (if ok \<and> d_opcode d' = op_jal then Some (ucast (d_imm d')) else None) \<and>
     pdec_get_B_target raw = (if ok \<and> d_opcode d' = op_branch then Some (ucast (d_imm d')) else None) \<and>
     (pdec_isifence raw \<longleftrightarrow> ok \<and> d_opcode d' = op_miscmem \<and> GET_BITS_AT raw 12 3 = 1) \<and>
     (pdec_is_uniq raw \<longleftrightarrow> isRVC raw \<or> ok \<and> (d_opcode d' = op_miscmem \<or> d_opcode d' = op_system)))"

lemma mask_7: "raw AND mask 7 = GET_BITS_AT raw 0 7" "drop_bit 12 raw AND mask 3 = GET_BITS_AT raw 12 3"
  by (simp_all add: GET_BITS_AT_def)

lemma predecoder_agrees_c:
  assumes "isRVC raw"
  shows "pdec_agrees raw (decode_rv64c raw d)"
proof -
  from assms have quad: "GET_BITS_AT raw 0 2 \<noteq> 3" by (simp add: isRVC_def mask_fields)
  obtain ok d' where dec: "decode_rv64c raw d = (ok, d')" by fastforce
  note K = kind_c [OF assms, of "d", unfolded dec prod.case] and F = kind_c_fields [OF assms, of d, unfolded dec prod.case]
  note simps = mask_fields field_splits two_bits full_opcodes [OF quad] assms quad
  define J where "J = (GET_BITS_AT raw 0 2 = 2 \<and> GET_BITS_AT raw 13 3 = 4 \<and> GET_BITS_AT raw 2 5 = 0)"
  define z where "z = (GET_BITS_AT raw 12 1 = 0)"
  define r where "r = GET_BITS_AT raw 7 5"
  have jal: "ok \<and> d_opcode d' = op_jal \<longleftrightarrow> GET_BITS_AT raw 0 2 = 1 \<and> GET_BITS_AT raw 13 3 = 5"
    and br: "ok \<and> d_opcode d' = op_branch \<longleftrightarrow> raw AND 3 = 1 \<and> drop_bit 13 raw AND 6 = 6"
    and jr: "ok \<and> d_opcode d' = op_jalr \<longleftrightarrow> J \<and> (z \<or> r \<noteq> 0)"
    and sys: "ok \<and> d_opcode d' = op_system \<longleftrightarrow> J \<and> \<not> z \<and> r = 0"
    using K by (simp_all only: simps J_def z_def r_def conj_assoc)
  have jal': "ok \<and> d_opcode d' = op_jal \<longleftrightarrow> raw AND 3 = 1 \<and> drop_bit 13 raw AND 7 = 5"
    by (simp only: jal mask_fields)
  have jal_f: "d_rd d' = 0 \<and> d_imm d' = imm_cj raw" if "ok \<and> d_opcode d' = op_jal"
    using F that [unfolded jal] by (simp only: simp_thms)
  have br_f: "d_imm d' = imm_cb raw" if "ok \<and> d_opcode d' = op_branch"
    using K F that by metis
  have jr_f: "d_rs1 d' = ucast r \<and> d_rd d' = (if z then 0 else 1)" if "ok \<and> d_opcode d' = op_jalr"
    using F that [unfolded jr] by (simp only: J_def z_def r_def reg5_def conj_assoc simp_thms)
  have c0: "(ucast r :: u16) = 0 \<longleftrightarrow> r = 0" and c1: "(ucast r :: u16) = 1 \<longleftrightarrow> r = 1"
    unfolding r_def by (rule reg_field_iff)+
  have low: "GET_BITS_AT raw 0 16 = 0x8002 \<longleftrightarrow> J \<and> z \<and> r = 0" "GET_BITS_AT raw 0 16 = 0x9002 \<longleftrightarrow> J \<and> \<not> z \<and> r = 0"
    by (auto simp: low_halves J_def z_def r_def)
  have p: "pdec_isJI raw \<longleftrightarrow> GET_BITS_AT raw 0 2 = 1 \<and> GET_BITS_AT raw 13 3 = 5"
    "pdec_isB raw \<longleftrightarrow> GET_BITS_AT raw 0 2 = 1 \<and> (GET_BITS_AT raw 13 3 = 6 \<or> GET_BITS_AT raw 13 3 = 7)"
    "pdec_isJR raw \<longleftrightarrow> J \<and> r \<noteq> 0" 
    "pdec_isJ raw \<longleftrightarrow> GET_BITS_AT raw 0 2 = 1 \<and> GET_BITS_AT raw 13 3 = 5 \<or> J"
    "\<not> pdec_isCALLI raw" 
    "pdec_isCALLR raw \<longleftrightarrow> J \<and> \<not> z \<and> r \<noteq> 0" 
    "pdec_isRET raw \<longleftrightarrow> J \<and> z \<and> r = 1"
    by (auto simp: pdec_isJI_def pdec_isB_def pdec_isJR_def pdec_isJ_def pdec_isCALLI_def pdec_isCALLR_def pdec_isRET_def simps J_def z_def r_def)
  show ?thesis
    unfolding dec pdec_agrees_def prod.case
  proof (intro conjI)
    show "pdec_isJI raw \<longleftrightarrow> ok \<and> d_opcode d' = op_jal" by (simp only: p jal)
    show "pdec_isB raw \<longleftrightarrow> ok \<and> d_opcode d' = op_branch" by (simp only: p br simps)
    show "pdec_isJR raw \<longleftrightarrow> ok \<and> d_opcode d' = op_jalr \<and> GET_BITS_AT raw 0 16 \<noteq> 0x8002"
      using jr by (auto simp: p low J_def z_def r_def)
    show "pdec_isJ raw \<longleftrightarrow> ok \<and> (d_opcode d' = op_jal \<or> d_opcode d' = op_jalr) \<or> GET_BITS_AT raw 0 16 = 0x9002"
      using jr jal by (auto simp: p low)
    show "GET_BITS_AT raw 0 16 = 0x8002 \<longrightarrow> ok \<and> d_opcode d' = op_jalr \<and> d_rs1 d' = 0"
      using jr jr_f by (auto simp: low)
    show "GET_BITS_AT raw 0 16 = 0x9002 \<longrightarrow> ok \<and> d_opcode d' = op_system"
      using sys by (auto simp: low)
    show "pdec_isifence raw \<longleftrightarrow> ok \<and> d_opcode d' = op_miscmem \<and> GET_BITS_AT raw 12 3 = 1"
      using K full_opcodes(4) [OF quad] by (auto simp: pdec_isifence_def mask_7)
    show "pdec_is_uniq raw \<longleftrightarrow> isRVC raw \<or> ok \<and> (d_opcode d' = op_miscmem \<or> d_opcode d' = op_system)"
      using assms by (simp add: pdec_is_uniq_def)
    show "pdec_isCALLI raw \<longleftrightarrow> ok \<and> d_opcode d' = op_jal \<and> d_rd d' = 1"
      using jal_f p by auto
    show "pdec_isCALLR raw \<longleftrightarrow> ok \<and> d_opcode d' = op_jalr \<and> d_rd d' = 1"
      using jr jr_f by (auto simp: p split: if_splits)
    show "pdec_isRET raw \<longleftrightarrow> ok \<and> d_opcode d' = op_jalr \<and> d_rs1 d' = 1 \<and> d_rd d' \<noteq> 1"
      using jr jr_f c1 by (auto simp: p split: if_splits)
    show "pdec_get_J_target raw = (if ok \<and> d_opcode d' = op_jal then Some (ucast (d_imm d')) else None)"
      using jal_f assms unfolding jal' by (simp add: pdec_get_J_target_def J_target_c Let_def)
    show "pdec_get_B_target raw = (if ok \<and> d_opcode d' = op_branch then Some (ucast (d_imm d')) else None)"
      using br_f assms unfolding br by (simp add: pdec_get_B_target_def B_target_c Let_def)
  qed
qed

lemma predecoder_agrees_i:
  assumes "\<not> isRVC raw"
  shows "pdec_agrees raw (decode_rv64i raw d)"
proof -
  from assms have quad: "GET_BITS_AT raw 0 2 = 3" by (simp add: isRVC_def mask_fields)
  obtain ok d' where dec: "decode_rv64i raw d = (ok, d')" by fastforce
  note K = kind_i [of raw "d", unfolded dec prod.case]
  note simps = mask_fields reg_field_iff assms quad
  have low: "GET_BITS_AT raw 0 16 \<noteq> 0x8002" "GET_BITS_AT raw 0 16 \<noteq> 0x9002" using quad by (simp_all add: low_halves)
  show ?thesis
    unfolding dec pdec_agrees_def prod.case
    apply (intro conjI)
    subgoal using K by (simp add: pdec_isJI_def simps)
    subgoal using K by (simp add: pdec_isB_def simps)
    subgoal using K low by (simp add: pdec_isJR_def simps)
    subgoal using K low by (auto simp add: pdec_isJ_def simps)
    subgoal using low by simp
    subgoal using low by simp
    subgoal using K by (auto simp add: pdec_isCALLI_def simps)
    subgoal using K by (auto simp add: pdec_isCALLR_def simps)
    subgoal using K by (auto simp add: pdec_isRET_def simps)
    subgoal using K by (simp add: pdec_get_J_target_def J_target_i simps Let_def)
    subgoal using K by (simp add: pdec_get_B_target_def B_target_i simps Let_def)
    subgoal using K by (auto simp add: pdec_isifence_def mask_7)
    subgoal using K by (auto simp add: pdec_is_uniq_def simps)
    done
qed

text \<open>
  C19. The front end's predecoder against the decoder, on every raw word. A word is predecoded as a direct jump, branch, indirect jump, call, return or
  instruction fence exactly when the decoder accepts it as a jump-and-link, branch, register jump with those link registers, or fence, and the predecoded jump and branch targets are the
  decoder's immediates, but for three differences. The low half 0x8002, a jump through register 0, is a register jump to the decoder
  and no indirect jump to the predecoder; the low half 0x9002, the compressed environment break, is a jump to the predecoder's general test and a
  system instruction to the decoder; and the test for unique instructions, which is exact on full-width words, holds of every compressed word.
\<close>
theorem predecoder_agrees: "pdec_agrees raw (decode_rv64 raw d)"
  by (cases "isRVC raw") (simp_all add: decode_rv64_def predecoder_agrees_c predecoder_agrees_i)

section \<open>Well-formedness of the decoded record\<close>

lemma reg_bounds:
  "(ucast (GET_BITS_AT raw off 5) :: u16) < 32" "reg5 raw off < 32" "reg3 raw off < 32" 
proof -
  show a: "(ucast (GET_BITS_AT raw off 5) :: u16) < 32" for off
    using small_field [of raw off] by (simp add: word_less_nat_alt unsigned_ucast_eq take_bit_eq_mod)
  then show "reg5 raw off < 32" by (simp add: reg5_def)
  have "GET_BITS_AT raw off 3 = take_bit 3 (drop_bit off raw)" by (simp add: GET_BITS_AT_def take_bit_eq_mask)
  then have "unat (GET_BITS_AT raw off 3) < 8" by (simp only: unsigned_take_bit_eq) (simp add: take_bit_eq_mod)
  then show "reg3 raw off < 32" by (simp add: reg3_def word_less_nat_alt unsigned_ucast_eq take_bit_eq_mod unat_word_ariths)
qed
lemma rs3_bound: "drop_bit 2 (ucast (GET_BITS_AT raw 25 7) :: u16) < 32"
proof -
  have "GET_BITS_AT raw 25 7 = take_bit 7 (drop_bit 25 raw)" by (simp add: GET_BITS_AT_def take_bit_eq_mask)
  then have "unat (GET_BITS_AT raw 25 7) < 128" by (simp only: unsigned_take_bit_eq) (simp add: take_bit_eq_mod)
  then show ?thesis by (simp only: word_less_nat_alt unat_drop_bit_eq) (simp add: drop_bit_eq_div unsigned_ucast_eq take_bit_eq_mod)
qed

definition regs_ok :: "RV64InstDecoded \<Rightarrow> bool" where
  "regs_ok d \<longleftrightarrow> d_rd d < 32 \<and> d_rs1 d < 32 \<and> d_rs2 d < 32 \<and> d_rs3 d < 32"

lemma regs_ok_forms:
  assumes "regs_ok d"
  shows "regs_ok (add_flag f d)" "regs_ok (set_param0 w d)" "regs_ok (dec_upper raw d)" "regs_ok (dec_jal raw d)" "regs_ok (dec_jalr raw d)"
   "regs_ok (dec_branch raw d)" "regs_ok (dec_load f raw d)" "regs_ok (dec_store f raw d)" "regs_ok (dec_opimm op raw d)" "regs_ok (dec_op raw d)"
   "regs_ok (dec_amo raw d)" "regs_ok (dec_opfp raw d)" "regs_ok (dec_fma raw d)" "regs_ok (dec_miscmem raw d)" "regs_ok (dec_system raw d)"
  using assms unfolding regs_ok_def i_forms add_flag_def set_param0_def
  by (simp_all add: Let_def parse_inst_U_def parse_inst_J_def parse_inst_I_def parse_inst_B_def parse_inst_S_def parse_inst_R_def
    get_rd_def get_rs1_def get_rs2_def get_funct7_def reg_bounds rs3_bound)

lemma regs_ok_c_forms:
  assumes "regs_ok d"
  shows "rd < 32 \<Longrightarrow> rs < 32 \<Longrightarrow> regs_ok (cl_load op w rd rs u d)" 
    "rs2 < 32 \<Longrightarrow> rs < 32 \<Longrightarrow> regs_ok (cs_store op w rs2 rs u d)"
    "rd < 32 \<Longrightarrow> rs < 32 \<Longrightarrow> regs_ok (ci_opimm op i rd rs u d)"
    "rd < 32 \<Longrightarrow> rs < 32 \<Longrightarrow> rs2 < 32 \<Longrightarrow> regs_ok (cr_op op io rd rs rs2 d)"
    "rd < 32 \<Longrightarrow> regs_ok (c_upper rd u d)" "regs_ok (cb_branch br raw d)"
  using assms unfolding regs_ok_def c_forms
  by (simp_all add: Let_def reg_bounds split: option.split)

lemma regs_ok_32: "regs_ok d \<Longrightarrow> regs_ok (snd (decode_rv64i raw d))"
proof -
  assume "regs_ok d"
  then have "regs_ok (d\<lparr>d_opcode := op\<rparr>)" for op by (simp add: regs_ok_def)
  then show ?thesis by (simp add: decode_rv64i_def Let_def regs_ok_forms)
qed
lemma regs_ok_16: "regs_ok d \<Longrightarrow> regs_ok (snd (decode_rv64c raw d))"
proof -
  assume ok: "regs_ok d"
  have j: "regs_ok (d'\<lparr>d_opcode := op, d_rs1 := reg5 raw 7, d_rd := rd, d_imm := i\<rparr>)"  "regs_ok (d'\<lparr>d_opcode := op, d_rd := rd, d_imm := i\<rparr>)" 
    if "regs_ok d'" "rd < 32" for d' op rd i
    using that by (simp_all add: regs_ok_def reg_bounds)
  have e: "regs_ok (d'\<lparr>d_opcode := op\<rparr>)" if "regs_ok d'" for d' op
    using that by (simp add: regs_ok_def)
  show ?thesis using ok
    by (simp add: c_kinds Let_def regs_ok_forms regs_ok_c_forms reg_bounds j e)
qed

definition flags_ok :: "bool \<Rightarrow> RV64InstDecoded \<Rightarrow> bool" where
  "flags_ok rvc d \<longleftrightarrow> is_rvc d = rvc \<and>
     (d_flag d AND RVINSTFLAG_RDINT = 0 \<or> d_flag d AND RVINSTFLAG_RDFP = 0) \<and>
     (d_flag d AND RVINSTFLAG_S1INT = 0 \<or> d_flag d AND RVINSTFLAG_S1FP = 0) \<and>
     (d_flag d AND RVINSTFLAG_S2INT = 0 \<or> d_flag d AND RVINSTFLAG_S2FP = 0) \<and>
     (is_unique d \<longleftrightarrow> d_opcode d = op_miscmem \<or> d_opcode d = op_system)"

lemma flag_32:
  "d_flag (dec_upper raw d) = d_flag d OR RVINSTFLAG_RDINT" "d_flag (dec_jal raw d) = d_flag d OR RVINSTFLAG_RDINT" 
  "d_flag (dec_jalr raw d) = d_flag d OR RD_S1"
  "d_flag (dec_branch raw d) = d_flag d OR S1_S2" "d_flag (dec_load f raw d) = d_flag d OR (f OR RVINSTFLAG_S1INT)" 
  "d_flag (dec_store f raw d) = d_flag d OR (RVINSTFLAG_S1INT OR f)"
  "d_flag (dec_opimm op raw d) = d_flag d OR RD_S1" "d_flag (dec_op raw d) = d_flag d OR RD_S1_S2" 
  "d_flag (dec_fma raw d) = d_flag d OR (RVINSTFLAG_RDFP OR RVINSTFLAG_S1FP OR RVINSTFLAG_S2FP OR RVINSTFLAG_S3FP)"
  by (simp_all add: i_forms Let_def add_flag_def set_param0_def)

lemma flag_c:
  "d_flag (cl_load op w rd rs u d) = d_flag d OR RD_S1" "d_flag (cs_store op w rd rs u d) = d_flag d OR S1_S2" "d_flag (ci_opimm op i rd rs u d) = d_flag d OR RD_S1"
  "d_flag (cr_op op io rd rs rs2 d) = d_flag d OR RD_S1_S2" "d_flag (c_upper rd u d) = d_flag d OR RVINSTFLAG_RDINT" "d_flag (cb_branch br raw d) = d_flag d OR S1_S2"
  "d_flag (add_flag f d) = d_flag d OR f"
  by (simp_all add: c_forms Let_def split: option.split)

lemma flag_masks:
  "RVINSTFLAG_RVC = 1" "RVINSTFLAG_UNIQUE = 2" "RVINSTFLAG_RDINT = 0x400000" "RVINSTFLAG_RDFP = 0x800000" 
  "RVINSTFLAG_S1INT = 0x10000" "RVINSTFLAG_S1FP = 0x20000" "RVINSTFLAG_S2INT = 0x40000" "RVINSTFLAG_S2FP = 0x80000" "RVINSTFLAG_S3FP = 0x200000"
  "RVINSTFLAG_ECALL = 0x200" "RVINSTFLAG_EBREAK = 0x400" "RVINSTFLAG_FENCE = 4" "RVINSTFLAG_FENCEI = 8" "RVINSTFLAG_FENCETSO = 16" "RVINSTFLAG_PAUSE = 256"
  by (simp_all add: flag_defs)

lemma flags_ok_16:
  assumes "d_flag d = 0" "isRVC raw" "d_opcode d = op_nop"
  shows "flags_ok True (snd (decode_rv64c raw d))"
  using quadrants [of raw] assms
  by (elim disjE) (simp_all add: flags_ok_def c_kinds Let_def flag_c mask_fields isRVC_def is_rvc_def is_unique_def flag_masks)
lemma flags_ok_32:
  assumes "d_flag d = 0"
  shows "flags_ok False (snd (decode_rv64i raw d))"
  using assms
  by (simp add: flags_ok_def decode_rv64i_def Let_def flag_32 flag_c is_rvc_def is_unique_def flag_masks dec_amo_def dec_opfp_def dec_miscmem_def dec_system_def)

lemma pc_kept: "d_pc (snd (decode_rv64 raw d)) = d_pc d"
proof -
  have "d_pc (snd (decode_rv64c raw d)) = d_pc d" for d
    by (simp add: c_kinds c_forms Let_def)
  moreover have "d_pc (snd (decode_rv64i raw d)) = d_pc d" for d
    by (simp add: decode_rv64i_def i_forms add_flag_def set_param0_def Let_def)
  ultimately show ?thesis by (simp add: decode_rv64_def reset_dec_def)
qed

text \<open>
  C18. Whatever the raw word and whatever the record held before, the decoded record is well typed:
  its four register indices are below 32, no operand is flagged both integer and floating point,
  the compressed flag is set exactly for compressed encodings, the must-run-alone flag exactly for
  fences and system instructions, the program counter is kept, and nothing else of the old record
  survives.
\<close>
theorem decode_well_formed:
  "regs_ok (snd (decode_rv64 raw d)) \<and> flags_ok (isRVC raw) (snd (decode_rv64 raw d)) \<and>
   d_pc (snd (decode_rv64 raw d)) = d_pc d \<and>
   decode_rv64 raw (d\<lparr>d_opcode := op, d_param := p, d_rs1 := a, d_rs2 := b, d_rs3 := c, d_rd := e, d_imm := i, d_flag := f, d_name := n\<rparr>)
     = decode_rv64 raw d"
proof (intro conjI)
  have r: "regs_ok (reset_dec d)" "d_flag (reset_dec d) = 0" "d_opcode (reset_dec d) = op_nop"
    by (simp_all add: reset_dec_def regs_ok_def)
  show "regs_ok (snd (decode_rv64 raw d))"
    using r by (simp add: decode_rv64_def regs_ok_16 regs_ok_32)
  show "flags_ok (isRVC raw) (snd (decode_rv64 raw d))"
    using r by (simp add: decode_rv64_def flags_ok_16 flags_ok_32)
  show "d_pc (snd (decode_rv64 raw d)) = d_pc d" by (rule pc_kept)
  show "decode_rv64 raw (d\<lparr>d_opcode := op, d_param := p, d_rs1 := a, d_rs2 := b, d_rs3 := c, d_rd := e, d_imm := i, d_flag := f, d_name := n\<rparr>)
     = decode_rv64 raw d"
    by (simp add: decode_rv64_def reset_dec_def)
qed

end
