(* ===== verification/DecodeExpand.thy ===== *)
theory DecodeExpand
  imports DecodeSpec
begin

text \<open>
  The compressed decoder against the 32-bit one. The six instruction formats are encoders (the
  manual's tables as bit selections); \<^verbatim>\<open>expand\<close> maps a compressed integer instruction to the
  32-bit instruction the manual expands it to; the decoder gives both the same record.
\<close>

section \<open>Encoders\<close>

definition assemble :: "(nat \<Rightarrow> bool) \<Rightarrow> u32" where
  "assemble f = horner_sum of_bool 2 (map f [0..<32])"

lemma bit_assemble: "bit (assemble f) n = (n < 32 \<and> f n)"
  by (auto simp: assemble_def bit_horner_sum_bit_word_iff)

text \<open>Operation code, three-bit function code and the two register fields of every format.\<close>

definition common_bits :: "7 word \<Rightarrow> 3 word \<Rightarrow> 5 word \<Rightarrow> (nat \<Rightarrow> bool) \<Rightarrow> (nat \<Rightarrow> bool) \<Rightarrow> nat \<Rightarrow> bool" where
  "common_bits opc f3 rs1 low high n =
     (if n < 7 then bit opc n else if n < 12 then low n else if n < 15 then bit f3 (n - 12)
      else if n < 20 then bit rs1 (n - 15) else high n)"

definition enc_R :: "7 word \<Rightarrow> 3 word \<Rightarrow> 7 word \<Rightarrow> 5 word \<Rightarrow> 5 word \<Rightarrow> 5 word \<Rightarrow> u32" where
  "enc_R opc f3 f7 rd rs1 rs2 = assemble (common_bits opc f3 rs1 (\<lambda>n. bit rd (n - 7))
     (\<lambda>n. if n < 25 then bit rs2 (n - 20) else bit f7 (n - 25)))"
definition enc_I :: "7 word \<Rightarrow> 3 word \<Rightarrow> 5 word \<Rightarrow> 5 word \<Rightarrow> u64 \<Rightarrow> u32" where
  "enc_I opc f3 rd rs1 imm = assemble (common_bits opc f3 rs1 (\<lambda>n. bit rd (n - 7)) (\<lambda>n. bit imm (n - 20)))"
definition enc_S :: "7 word \<Rightarrow> 3 word \<Rightarrow> 5 word \<Rightarrow> 5 word \<Rightarrow> u64 \<Rightarrow> u32" where
  "enc_S opc f3 rs1 rs2 imm = assemble (common_bits opc f3 rs1 (\<lambda>n. bit imm (n - 7))
     (\<lambda>n. if n < 25 then bit rs2 (n - 20) else bit imm (n - 20)))"
definition enc_B :: "7 word \<Rightarrow> 3 word \<Rightarrow> 5 word \<Rightarrow> 5 word \<Rightarrow> u64 \<Rightarrow> u32" where
  "enc_B opc f3 rs1 rs2 imm = assemble (common_bits opc f3 rs1 (\<lambda>n. if n = 7 then bit imm 11 else bit imm (n - 7))
     (\<lambda>n. if n < 25 then bit rs2 (n - 20) else if n < 31 then bit imm (n - 20) else bit imm 12))"
definition enc_U :: "7 word \<Rightarrow> 5 word \<Rightarrow> u64 \<Rightarrow> u32" where
  "enc_U opc rd imm = assemble (\<lambda>n. if n < 7 then bit opc n else if n < 12 then bit rd (n - 7) else bit imm n)"
definition enc_J :: "7 word \<Rightarrow> 5 word \<Rightarrow> u64 \<Rightarrow> u32" where
  "enc_J opc rd imm = assemble (\<lambda>n. if n < 7 then bit opc n else if n < 12 then bit rd (n - 7) else if n < 20 then bit imm n
     else if n = 20 then bit imm 11 else if n < 31 then bit imm (n - 20) else bit imm 20)"

lemmas enc_defs = enc_R_def enc_I_def enc_S_def enc_B_def enc_U_def enc_J_def

lemma width_bits:
  "bit (w7 :: 7 word) m \<Longrightarrow> m < 7" "bit (w5 :: 5 word) m \<Longrightarrow> m < 5" "bit (w3 :: 3 word) m \<Longrightarrow> m < 3"
  using bit_imp_le_length [of w7 m] bit_imp_le_length [of w5 m] bit_imp_le_length [of w3 m] by simp_all

lemma field_7: "(\<And>i. i < 7 \<Longrightarrow> bit w (off + i) = bit (c :: 7 word) i) \<Longrightarrow> off \<le> 25 \<Longrightarrow> GET_BITS_AT w off 7 = ucast c"
  by (rule bit_word_eqI) (auto simp: bit_GET_BITS_AT bit_unsigned_iff dest: width_bits)
lemma field_5: "(\<And>i. i < 5 \<Longrightarrow> bit w (off + i) = bit (c :: 5 word) i) \<Longrightarrow> off \<le> 25 \<Longrightarrow> GET_BITS_AT w off 5 = ucast c"
  by (rule bit_word_eqI) (auto simp: bit_GET_BITS_AT bit_unsigned_iff dest: width_bits)
lemma field_3: "(\<And>i. i < 3 \<Longrightarrow> bit w (off + i) = bit (c :: 3 word) i) \<Longrightarrow> off \<le> 25 \<Longrightarrow> GET_BITS_AT w off 3 = ucast c"
  by (rule bit_word_eqI) (auto simp: bit_GET_BITS_AT bit_unsigned_iff dest: width_bits)

lemma fields_R:
  "get_opcode (enc_R opc f3 f7 rd rs1 rs2) = ucast opc" "get_rd (enc_R opc f3 f7 rd rs1 rs2) = ucast rd"
  "get_funct3 (enc_R opc f3 f7 rd rs1 rs2) = ucast f3" "get_rs1 (enc_R opc f3 f7 rd rs1 rs2) = ucast rs1"
  "get_rs2 (enc_R opc f3 f7 rd rs1 rs2) = ucast rs2" "get_funct7 (enc_R opc f3 f7 rd rs1 rs2) = ucast f7"
  unfolding get_opcode_def get_rd_def get_funct3_def get_rs1_def get_rs2_def get_funct7_def
  by (auto intro!: field_7 field_5 field_3 simp: enc_R_def bit_assemble common_bits_def)

lemma fields_I:
  "get_opcode (enc_I opc f3 rd rs1 imm) = ucast opc" "get_rd (enc_I opc f3 rd rs1 imm) = ucast rd"
  "get_funct3 (enc_I opc f3 rd rs1 imm) = ucast f3" "get_rs1 (enc_I opc f3 rd rs1 imm) = ucast rs1"
  unfolding get_opcode_def get_rd_def get_funct3_def get_rs1_def
  by (auto intro!: field_7 field_5 field_3 simp: enc_I_def bit_assemble common_bits_def)

lemma fields_S:
  "get_opcode (enc_S opc f3 rs1 rs2 imm) = ucast opc" "get_funct3 (enc_S opc f3 rs1 rs2 imm) = ucast f3"
  "get_rs1 (enc_S opc f3 rs1 rs2 imm) = ucast rs1" "get_rs2 (enc_S opc f3 rs1 rs2 imm) = ucast rs2"
  unfolding get_opcode_def get_funct3_def get_rs1_def get_rs2_def
  by (auto intro!: field_7 field_5 field_3 simp: enc_S_def bit_assemble common_bits_def)

lemma fields_B:
  "get_opcode (enc_B opc f3 rs1 rs2 imm) = ucast opc" "get_funct3 (enc_B opc f3 rs1 rs2 imm) = ucast f3"
  "get_rs1 (enc_B opc f3 rs1 rs2 imm) = ucast rs1" "get_rs2 (enc_B opc f3 rs1 rs2 imm) = ucast rs2"
  unfolding get_opcode_def get_funct3_def get_rs1_def get_rs2_def
  by (auto intro!: field_7 field_5 field_3 simp: enc_B_def bit_assemble common_bits_def)

lemma fields_UJ:
  "get_opcode (enc_U opc rd imm) = ucast opc" "get_rd (enc_U opc rd imm) = ucast rd"
  "get_opcode (enc_J opc rd imm) = ucast opc" "get_rd (enc_J opc rd imm) = ucast rd"
  unfolding get_opcode_def get_rd_def
  by (auto intro!: field_7 field_5 field_3 simp: enc_U_def enc_J_def bit_assemble)

lemma imm_enc:
  "n < 64 \<Longrightarrow> bit (get_imm_I (enc_I opc f3 rd rs1 imm)) n = bit imm (min n 11)"
  "n < 64 \<Longrightarrow> bit (get_imm_S (enc_S opc f3 rs1 rs2 imm)) n = bit imm (min n 11)"
  "n < 64 \<Longrightarrow> bit (get_imm_B (enc_B opc f3 rs1 rs2 imm)) n = (n \<noteq> 0 \<and> bit imm (min n 12))"
  "n < 64 \<Longrightarrow> bit (get_imm_U (enc_U opc rd imm)) n = (12 \<le> n \<and> bit imm (min n 31))"
  "n < 64 \<Longrightarrow> bit (get_imm_J (enc_J opc rd imm)) n = (n \<noteq> 0 \<and> bit imm (min n 20))"
  unfolding get_imm_I_table get_imm_S_table get_imm_B_table get_imm_U_table get_imm_J_table
  by (cases "n = 11"; auto simp: bit_gather isa_I_def isa_S_def isa_B_def isa_U_def isa_J_def signed_source_def enc_defs bit_assemble common_bits_def min_def)+


section \<open>Decoding an encoded instruction\<close>

lemma isRVC_bits: "isRVC w \<longleftrightarrow> \<not> (bit w 0 \<and> bit w 1)"
  unfolding isRVC_def mask_fields get_bits_iff small_positions by (auto simp: list_all_iff)

lemma full_width:
  assumes "bit opc 0" and "bit opc 1"
  shows "\<not> isRVC (enc_R opc f3 f7 rd rs1 rs2)" "\<not> isRVC (enc_I opc f3 rd rs1 imm)" "\<not> isRVC (enc_S opc f3 rs1 rs2 imm)"
    "\<not> isRVC (enc_B opc f3 rs1 rs2 imm)" "\<not> isRVC (enc_U opc rd imm)" "\<not> isRVC (enc_J opc rd imm)"
  using assms by (simp_all add: isRVC_bits enc_defs bit_assemble common_bits_def)

lemma imm_kept:
  "(\<And>n. 11 < n \<Longrightarrow> n < 64 \<Longrightarrow> bit imm n = bit imm 11) \<Longrightarrow> get_imm_I (enc_I opc f3 rd rs1 imm) = imm"
  "(\<And>n. 11 < n \<Longrightarrow> n < 64 \<Longrightarrow> bit imm n = bit imm 11) \<Longrightarrow> get_imm_S (enc_S opc f3 rs1 rs2 imm) = imm"
  "(\<And>n. 12 < n \<Longrightarrow> n < 64 \<Longrightarrow> bit imm n = bit imm 12) \<Longrightarrow> \<not> bit imm 0 \<Longrightarrow> get_imm_B (enc_B opc f3 rs1 rs2 imm) = imm"
  "(\<And>n. 31 < n \<Longrightarrow> n < 64 \<Longrightarrow> bit imm n = bit imm 31) \<Longrightarrow> (\<And>n. n < 12 \<Longrightarrow> \<not> bit imm n) \<Longrightarrow> get_imm_U (enc_U opc rd imm) = imm"
  "(\<And>n. 20 < n \<Longrightarrow> n < 64 \<Longrightarrow> bit imm n = bit imm 20) \<Longrightarrow> \<not> bit imm 0 \<Longrightarrow> get_imm_J (enc_J opc rd imm) = imm"
  subgoal by (rule bit_word_eqI, rename_tac n, case_tac "n \<le> 11") (auto simp: imm_enc intro!: gr0I leI)
  subgoal by (rule bit_word_eqI, rename_tac n, case_tac "n \<le> 11") (auto simp: imm_enc intro!: gr0I leI)
  subgoal by (rule bit_word_eqI, rename_tac n, case_tac "n \<le> 12") (auto simp: imm_enc intro!: gr0I leI)
  subgoal by (rule bit_word_eqI, rename_tac n, case_tac "n \<le> 31") (auto simp: imm_enc intro!: gr0I leI)
  subgoal by (rule bit_word_eqI, rename_tac n, case_tac "n \<le> 20") (auto simp: imm_enc intro!: gr0I leI)
  done

lemma ucast_reg: "(ucast (ucast (r :: 5 word) :: u32) :: u16) = ucast r"
  by (rule bit_word_eqI) (auto simp: bit_unsigned_iff)

lemmas decode_full = decode_rv64_def full_width decode_rv64i_def Let_def fields_I fields_S fields_B fields_R fields_UJ RV64OPCode_of_def
  parse_inst_I_def parse_inst_S_def parse_inst_B_def parse_inst_R_def parse_inst_U_def parse_inst_J_def ucast_reg i_forms c_forms

lemma decode_opimm:
  "decode_rv64 (enc_I 0x13 0 rd rs1 imm) d =
     (True, ci_opimm op_opimm I_ADD (ucast rd) (ucast rs1) (get_imm_I (enc_I 0x13 0 rd rs1 imm)) (reset_dec d))"
  "decode_rv64 (enc_I 0x13 7 rd rs1 imm) d =
     (True, ci_opimm op_opimm I_AND (ucast rd) (ucast rs1) (get_imm_I (enc_I 0x13 7 rd rs1 imm)) (reset_dec d))"
  "decode_rv64 (enc_I 0x1b 0 rd rs1 imm) d =
     (True, ci_opimm op_opimm32 I_ADD (ucast rd) (ucast rs1) (get_imm_I (enc_I 0x1b 0 rd rs1 imm)) (reset_dec d))"
  by (simp_all add: decode_full RV64IntOP73_of_def)

lemma decode_shift:
  "decode_rv64 (enc_I 0x13 1 rd rs1 imm) d =
     (True, ci_opimm op_opimm I_SLL (ucast rd) (ucast rs1) (get_imm_I (enc_I 0x13 1 rd rs1 imm) AND 0x3f) (reset_dec d))"
  "\<not> bit imm 10 \<Longrightarrow> decode_rv64 (enc_I 0x13 5 rd rs1 imm) d =
     (True, ci_opimm op_opimm I_SRL (ucast rd) (ucast rs1) (get_imm_I (enc_I 0x13 5 rd rs1 imm) AND 0x3f) (reset_dec d))"
  "bit imm 10 \<Longrightarrow> decode_rv64 (enc_I 0x13 5 rd rs1 imm) d =
     (True, ci_opimm op_opimm I_SRA (ucast rd) (ucast rs1) (get_imm_I (enc_I 0x13 5 rd rs1 imm) AND 0x3f) (reset_dec d))"
proof -
  have b: "enc_I 0x13 5 rd rs1 imm AND 0x40000000 = 0 \<longleftrightarrow> \<not> bit imm 10"
    using sign_bit_iff [of "enc_I 0x13 5 rd rs1 imm" 30] by (simp add: enc_I_def bit_assemble common_bits_def) blast
  show "decode_rv64 (enc_I 0x13 1 rd rs1 imm) d =
     (True, ci_opimm op_opimm I_SLL (ucast rd) (ucast rs1) (get_imm_I (enc_I 0x13 1 rd rs1 imm) AND 0x3f) (reset_dec d))"
    by (simp add: decode_full RV64IntOP73_of_def)
  show "\<not> bit imm 10 \<Longrightarrow> decode_rv64 (enc_I 0x13 5 rd rs1 imm) d =
     (True, ci_opimm op_opimm I_SRL (ucast rd) (ucast rs1) (get_imm_I (enc_I 0x13 5 rd rs1 imm) AND 0x3f) (reset_dec d))"
    by (simp add: decode_full RV64IntOP73_of_def b)
  show "bit imm 10 \<Longrightarrow> decode_rv64 (enc_I 0x13 5 rd rs1 imm) d =
     (True, ci_opimm op_opimm I_SRA (ucast rd) (ucast rs1) (get_imm_I (enc_I 0x13 5 rd rs1 imm) AND 0x3f) (reset_dec d))"
    by (simp add: decode_full RV64IntOP73_of_def b)
qed

lemma decode_memory:
  "decode_rv64 (enc_I 0x03 2 rd rs1 imm) d =
     (True, cl_load op_load W_word (ucast rd) (ucast rs1) (get_imm_I (enc_I 0x03 2 rd rs1 imm)) (reset_dec d))"
  "decode_rv64 (enc_I 0x03 3 rd rs1 imm) d =
     (True, cl_load op_load W_dword (ucast rd) (ucast rs1) (get_imm_I (enc_I 0x03 3 rd rs1 imm)) (reset_dec d))"
  "decode_rv64 (enc_S 0x23 2 rs1 rs2 imm) d =
     (True, cs_store op_store W_word (ucast rs2) (ucast rs1) (get_imm_S (enc_S 0x23 2 rs1 rs2 imm)) (reset_dec d))"
  "decode_rv64 (enc_S 0x23 3 rs1 rs2 imm) d =
     (True, cs_store op_store W_dword (ucast rs2) (ucast rs1) (get_imm_S (enc_S 0x23 3 rs1 rs2 imm)) (reset_dec d))"
  by (simp_all add: decode_full)

lemma decode_control:
  "decode_rv64 (enc_B 0x63 0 rs1 0 imm) d = (True, add_flag S1_S2 (set_param0 (RV64BranchOP3_code BEQ)
     ((reset_dec d)\<lparr>d_opcode := op_branch, d_rs1 := ucast rs1, d_rs2 := 0, d_imm := get_imm_B (enc_B 0x63 0 rs1 0 imm)\<rparr>)))"
  "decode_rv64 (enc_B 0x63 1 rs1 0 imm) d = (True, add_flag S1_S2 (set_param0 (RV64BranchOP3_code BNE)
     ((reset_dec d)\<lparr>d_opcode := op_branch, d_rs1 := ucast rs1, d_rs2 := 0, d_imm := get_imm_B (enc_B 0x63 1 rs1 0 imm)\<rparr>)))"
  "decode_rv64 (enc_J 0x6f 0 imm) d = (True, add_flag RVINSTFLAG_RDINT
     ((reset_dec d)\<lparr>d_opcode := op_jal, d_rd := 0, d_imm := get_imm_J (enc_J 0x6f 0 imm)\<rparr>))"
  "decode_rv64 (enc_I 0x67 0 rd rs1 imm) d = (True, add_flag RD_S1
     ((reset_dec d)\<lparr>d_opcode := op_jalr, d_rs1 := ucast rs1, d_rd := ucast rd, d_imm := get_imm_I (enc_I 0x67 0 rd rs1 imm)\<rparr>))"
  "decode_rv64 (enc_U 0x37 rd imm) d = (True, c_upper (ucast rd) (get_imm_U (enc_U 0x37 rd imm)) (reset_dec d))"
  by (simp_all add: decode_full)

lemma decode_op:
  "decode_rv64 (enc_R 0x33 0 0x20 rd rs1 rs2) d = (True, cr_op op_op (Some I_SUB) (ucast rd) (ucast rs1) (ucast rs2) (reset_dec d))"
  "decode_rv64 (enc_R 0x33 0 0 rd rs1 rs2) d = (True, cr_op op_op (Some I_ADD) (ucast rd) (ucast rs1) (ucast rs2) (reset_dec d))"
  "decode_rv64 (enc_R 0x33 4 0 rd rs1 rs2) d = (True, cr_op op_op (Some I_XOR) (ucast rd) (ucast rs1) (ucast rs2) (reset_dec d))"
  "decode_rv64 (enc_R 0x33 6 0 rd rs1 rs2) d = (True, cr_op op_op (Some I_OR) (ucast rd) (ucast rs1) (ucast rs2) (reset_dec d))"
  "decode_rv64 (enc_R 0x33 7 0 rd rs1 rs2) d = (True, cr_op op_op (Some I_AND) (ucast rd) (ucast rs1) (ucast rs2) (reset_dec d))"
  "decode_rv64 (enc_R 0x3b 0 0x20 rd rs1 rs2) d = (True, cr_op op_op32 (Some I_SUB) (ucast rd) (ucast rs1) (ucast rs2) (reset_dec d))"
  "decode_rv64 (enc_R 0x3b 0 0 rd rs1 rs2) d = (True, cr_op op_op32 (Some I_ADD) (ucast rd) (ucast rs1) (ucast rs2) (reset_dec d))"
  by (simp_all add: decode_full)

section \<open>The manual's expansion of the compressed integer instructions\<close>

definition r5 :: "u32 \<Rightarrow> nat \<Rightarrow> 5 word" where "r5 raw off = ucast (GET_BITS_AT raw off 5)"
definition r3 :: "u32 \<Rightarrow> nat \<Rightarrow> 5 word" where "r3 raw off = ucast (GET_BITS_AT raw off 3 + 8)"

definition expand0 :: "u32 \<Rightarrow> u32 option" where
  "expand0 raw = (let f = GET_BITS_AT raw 13 3; rd = r3 raw 2; rs = r3 raw 7 in
     if f = 0 then Some (enc_I 0x13 0 rd 2 (gather isa_CIW raw))
     else if f = 2 then Some (enc_I 0x03 2 rd rs (gather isa_CLW raw))
     else if f = 3 then Some (enc_I 0x03 3 rd rs (gather isa_CLD raw))
     else if f = 6 then Some (enc_S 0x23 2 rs rd (gather isa_CLW raw))
     else if f = 7 then Some (enc_S 0x23 3 rs rd (gather isa_CLD raw))
     else None)"

definition expand_arith :: "u32 \<Rightarrow> u32 option" where
  "expand_arith raw = (let f1 = GET_BITS_AT raw 10 2; f2 = GET_BITS_AT raw 5 2; r = r3 raw 7; r2 = r3 raw 2 in
     if f1 = 0 then Some (enc_I 0x13 5 r r (gather isa_shift raw))
     else if f1 = 1 then Some (enc_I 0x13 5 r r (gather isa_shift raw OR 0x400))
     else if f1 = 2 then Some (enc_I 0x13 7 r r (gather isa_CI raw))
     else if bit raw 12
     then (if f2 = 0 then Some (enc_R 0x3b 0 0x20 r r r2) else if f2 = 1 then Some (enc_R 0x3b 0 0 r r r2) else None)
     else if f2 = 0 then Some (enc_R 0x33 0 0x20 r r r2)
     else if f2 = 1 then Some (enc_R 0x33 4 0 r r r2)
     else if f2 = 2 then Some (enc_R 0x33 6 0 r r r2)
     else Some (enc_R 0x33 7 0 r r r2))"

definition expand1 :: "u32 \<Rightarrow> u32 option" where
  "expand1 raw = (let f = GET_BITS_AT raw 13 3; rd = r5 raw 7 in
     if f = 0 then Some (enc_I 0x13 0 rd rd (gather isa_CI raw))
     else if f = 1 then Some (enc_I 0x1b 0 rd rd (gather isa_CI raw))
     else if f = 3 \<and> rd = 2 then Some (enc_I 0x13 0 2 2 (gather isa_CI16SP raw))
     else if f = 3 \<and> rd \<noteq> 0 then Some (enc_U 0x37 rd (gather isa_CLUI raw))
     else if f = 4 then expand_arith raw
     else if f = 5 then Some (enc_J 0x6f 0 (gather isa_CJ raw))
     else if f = 6 then Some (enc_B 0x63 0 (r3 raw 7) 0 (gather isa_CB raw))
     else if f = 7 then Some (enc_B 0x63 1 (r3 raw 7) 0 (gather isa_CB raw))
     else None)"

definition expand2 :: "u32 \<Rightarrow> u32 option" where
  "expand2 raw = (let f = GET_BITS_AT raw 13 3; rd = r5 raw 7; rs2 = r5 raw 2 in
     if f = 0 \<and> rd \<noteq> 0 then Some (enc_I 0x13 1 rd rd (gather isa_shift raw))
     else if f = 2 then Some (enc_I 0x03 2 rd 2 (gather isa_CILWSP raw))
     else if f = 3 then Some (enc_I 0x03 3 rd 2 (gather isa_CILDSP raw))
     else if f = 4 \<and> rs2 = 0 \<and> \<not> bit raw 12 then Some (enc_I 0x67 0 0 rd 0)
     else if f = 4 \<and> rs2 = 0 \<and> rd \<noteq> 0 then Some (enc_I 0x67 0 1 rd 0)
     else if f = 4 \<and> rs2 \<noteq> 0 \<and> bit raw 12 then Some (enc_R 0x33 0 0 rd rd rs2)
     else if f = 6 then Some (enc_S 0x23 2 2 rs2 (gather isa_CSSW raw))
     else if f = 7 then Some (enc_S 0x23 3 2 rs2 (gather isa_CSSD raw))
     else None)"

text \<open>
  The table is that of the manual with its formats: an encoding the manual reserves or gives to a hint because a field is zero is expanded like the others of its format.
  Left out are the three instructions below, which the decoder treats in another way, and the floating-point accesses.
\<close>

definition expand :: "u32 \<Rightarrow> u32 option" where
  "expand raw = (if GET_BITS_AT raw 0 2 = 0 then expand0 raw else if GET_BITS_AT raw 0 2 = 1 then expand1 raw
     else if GET_BITS_AT raw 0 2 = 2 then expand2 raw else None)"

definition is_c_li :: "u32 \<Rightarrow> bool" where
  "is_c_li raw \<longleftrightarrow> GET_BITS_AT raw 0 2 = 1 \<and> GET_BITS_AT raw 13 3 = 2 \<and> GET_BITS_AT raw 7 5 \<noteq> 0"
definition is_c_mv :: "u32 \<Rightarrow> bool" where
  "is_c_mv raw \<longleftrightarrow> GET_BITS_AT raw 0 2 = 2 \<and> GET_BITS_AT raw 13 3 = 4 \<and> \<not> bit raw 12 \<and> GET_BITS_AT raw 2 5 \<noteq> 0"
definition is_c_ebreak :: "u32 \<Rightarrow> bool" where
  "is_c_ebreak raw \<longleftrightarrow> GET_BITS_AT raw 0 16 = 0x9002"
definition is_c_fp :: "u32 \<Rightarrow> bool" where
  "is_c_fp raw \<longleftrightarrow> GET_BITS_AT raw 0 2 \<noteq> 1 \<and> GET_BITS_AT raw 13 3 \<in> {1, 5}"

lemma c_flag_commute:
  "cl_load op w rd rs u (add_flag f d) = add_flag f (cl_load op w rd rs u d)"
  "cs_store op w rs2 rs u (add_flag f d) = add_flag f (cs_store op w rs2 rs u d)"
  "ci_opimm op i rd rs u (add_flag f d) = add_flag f (ci_opimm op i rd rs u d)"
  "cr_op op io rd rs rs2 (add_flag f d) = add_flag f (cr_op op io rd rs rs2 d)"
  "c_upper rd u (add_flag f d) = add_flag f (c_upper rd u d)"
  "cb_branch br raw (add_flag f d) = add_flag f (cb_branch br raw d)"
  "add_flag g ((add_flag f d)\<lparr>d_opcode := op, d_rd := rd, d_imm := u\<rparr>) = add_flag f (add_flag g (d\<lparr>d_opcode := op, d_rd := rd, d_imm := u\<rparr>))"
  "add_flag g ((add_flag f d)\<lparr>d_opcode := op, d_rs1 := rs, d_rd := rd, d_imm := u\<rparr>)
     = add_flag f (add_flag g (d\<lparr>d_opcode := op, d_rs1 := rs, d_rd := rd, d_imm := u\<rparr>))"
  by (simp_all add: c_forms Let_def ac_simps split: option.split)

lemma ucast_r: "(ucast (r5 raw off) :: u16) = reg5 raw off" "(ucast (r3 raw off) :: u16) = reg3 raw off"
proof -
  show "(ucast (r5 raw off) :: u16) = reg5 raw off"
    by (rule bit_word_eqI) (auto simp: r5_def reg5_def bit_unsigned_iff bit_GET_BITS_AT)
  have "GET_BITS_AT raw off 3 = take_bit 3 (drop_bit off raw)" by (simp add: GET_BITS_AT_def take_bit_eq_mask)
  then have "unat (GET_BITS_AT raw off 3) < 8" by (simp only: unsigned_take_bit_eq) (simp add: take_bit_eq_mod)
  then show "(ucast (r3 raw off) :: u16) = reg3 raw off"
    by (simp add: r3_def reg3_def word_unat_eq_iff unsigned_ucast_eq take_bit_eq_mod unat_word_ariths)
qed

lemma r5_iff: "r5 raw off = 0 \<longleftrightarrow> GET_BITS_AT raw off 5 = 0" "r5 raw off = 2 \<longleftrightarrow> GET_BITS_AT raw off 5 = 2"
  using small_field [of raw off] by (simp_all add: r5_def word_unat_eq_iff unsigned_ucast_eq take_bit_eq_mod)

lemma c_imm_kept:
  "get_imm_I (enc_I opc f3 rd rs1 (uimm_addi4spn raw)) = uimm_addi4spn raw"
  "get_imm_I (enc_I opc f3 rd rs1 (uimm_lw raw)) = uimm_lw raw" "get_imm_I (enc_I opc f3 rd rs1 (uimm_ld raw)) = uimm_ld raw"
  "get_imm_S (enc_S opc f3 rs1 rs2 (uimm_lw raw)) = uimm_lw raw" "get_imm_S (enc_S opc f3 rs1 rs2 (uimm_ld raw)) = uimm_ld raw"
  "get_imm_I (enc_I opc f3 rd rs1 (imm_ci raw)) = imm_ci raw" "get_imm_I (enc_I opc f3 rd rs1 (imm_addi16sp raw)) = imm_addi16sp raw"
  "get_imm_U (enc_U opc rd (imm_clui raw)) = imm_clui raw" "get_imm_J (enc_J opc rd (imm_cj raw)) = imm_cj raw"
  "get_imm_B (enc_B opc f3 rs1 rs2 (imm_cb raw)) = imm_cb raw"
  "get_imm_I (enc_I opc f3 rd rs1 (uimm_lwsp raw)) = uimm_lwsp raw" "get_imm_I (enc_I opc f3 rd rs1 (uimm_ldsp raw)) = uimm_ldsp raw"
  "get_imm_S (enc_S opc f3 rs1 rs2 (uimm_swsp raw)) = uimm_swsp raw" "get_imm_S (enc_S opc f3 rs1 rs2 (uimm_sdsp raw)) = uimm_sdsp raw"
  "get_imm_I (enc_I opc f3 rd rs1 0) = 0"
  unfolding uimm_addi4spn_table uimm_lw_table uimm_ld_table imm_ci_table imm_addi16sp_table imm_clui_table imm_cj_table imm_cb_table
    uimm_lwsp_table uimm_ldsp_table uimm_swsp_table uimm_sdsp_table
  by (rule imm_kept; simp add: bit_gather signed_source_def isa_CIW_def isa_CLW_def isa_CLD_def isa_CI_def isa_CI16SP_def isa_CLUI_def
    isa_CJ_def isa_CB_def isa_CILWSP_def isa_CILDSP_def isa_CSSW_def isa_CSSD_def)+

lemma shift_imm_kept:
  "get_imm_I (enc_I opc f3 rd rs1 (uimm_shift raw)) AND 0x3f = uimm_shift raw" "\<not> bit (uimm_shift raw) 10"
  "get_imm_I (enc_I opc f3 rd rs1 (uimm_shift raw OR 0x400)) AND 0x3f = uimm_shift raw" "bit (uimm_shift raw OR 0x400) 10"
proof -
  have m: "(0x3f :: u64) = mask 6" by (simp add: mask_eq_exp_minus_1)
  have k: "(0x400 :: u64) = push_bit 10 1" by simp
  show "\<not> bit (uimm_shift raw) 10" "bit (uimm_shift raw OR 0x400) 10"
    by (simp_all add: uimm_shift_table bit_gather isa_shift_def bit_or_iff)
  show "get_imm_I (enc_I opc f3 rd rs1 (uimm_shift raw)) AND 0x3f = uimm_shift raw"
    unfolding uimm_shift_table m
    by (rule u64_eqI, simp only: list.pred_inject positions_64) (simp add: imm_enc bit_and_iff bit_mask_iff bit_gather isa_shift_def)
  show "get_imm_I (enc_I opc f3 rd rs1 (uimm_shift raw OR 0x400)) AND 0x3f = uimm_shift raw"
    unfolding uimm_shift_table m
    by (rule u64_eqI, simp only: list.pred_inject positions_64) (simp add: imm_enc bit_and_iff bit_or_iff bit_mask_iff bit_gather isa_shift_def)
qed


lemmas table_imms = uimm_addi4spn_table [symmetric] uimm_lw_table [symmetric] uimm_ld_table [symmetric] imm_ci_table [symmetric]
  imm_addi16sp_table [symmetric] imm_clui_table [symmetric] imm_cj_table [symmetric] imm_cb_table [symmetric] uimm_shift_table [symmetric]
  uimm_lwsp_table [symmetric] uimm_ldsp_table [symmetric] uimm_swsp_table [symmetric] uimm_sdsp_table [symmetric]

lemmas expand_simps = Let_def table_imms decode_opimm decode_memory decode_control decode_op decode_shift c_imm_kept shift_imm_kept
  ucast_r c_flag_commute r5_iff

definition expands_to :: "RV64InstDecoded \<Rightarrow> bool \<times> RV64InstDecoded \<Rightarrow> u32 \<Rightarrow> bool" where
  "expands_to d r full \<longleftrightarrow> fst (decode_rv64 full d) \<and> r = (True, add_flag RVINSTFLAG_RVC (snd (decode_rv64 full d)))"

lemma expand0_ok:
  "expand0 raw = Some full \<Longrightarrow> expands_to d (decode_q0 (GET_BITS_AT raw 13 3) raw (add_flag RVINSTFLAG_RVC (reset_dec d))) full"
  by (auto simp: expand0_def expands_to_def decode_q0_def expand_simps split: if_splits)

lemma two_bit_field: "GET_BITS_AT raw off 2 \<noteq> 0 \<Longrightarrow> GET_BITS_AT raw off 2 \<noteq> 1 \<Longrightarrow> GET_BITS_AT raw off 2 \<noteq> 2 \<Longrightarrow> GET_BITS_AT raw off 2 = 3"
  unfolding get_bits_iff small_positions by auto

lemma low_bit: "drop_bit 12 raw AND 1 = 0 \<longleftrightarrow> \<not> bit (raw :: u32) 12"
  using bit12_iff [of raw] unfolding bit12_def by blast

lemma expand_arith_ok:
  "expand_arith raw = Some full \<Longrightarrow> expands_to d (decode_arith raw (add_flag RVINSTFLAG_RVC (reset_dec d))) full"
  by (auto simp: expand_arith_def expands_to_def decode_arith_def bit12_iff expand_simps split: if_splits) (rule two_bit_field; assumption)

lemma expand1_ok:
  "expand1 raw = Some full \<Longrightarrow> expands_to d (decode_q1 (GET_BITS_AT raw 13 3) raw (add_flag RVINSTFLAG_RVC (reset_dec d))) full"
  by (auto simp: expand1_def decode_q1_def expand_arith_ok split: if_splits) (auto simp: expands_to_def expand_simps, simp_all add: cb_branch_def)

lemma expand2_ok:
  "expand2 raw = Some full \<Longrightarrow> expands_to d (decode_q2 (GET_BITS_AT raw 13 3) raw (add_flag RVINSTFLAG_RVC (reset_dec d))) full"
  by (auto simp: expand2_def expands_to_def decode_q2_def decode_jr_def low_bit expand_simps split: if_splits)
lemma link_bit: "GET_BITS_AT raw 12 (Suc 0) = 0 \<longleftrightarrow> \<not> bit raw 12"
  using low_bit [of raw] by (simp add: mask_fields)

lemma c_ebreak_iff:
  "is_c_ebreak raw \<longleftrightarrow> GET_BITS_AT raw 0 2 = 2 \<and> GET_BITS_AT raw 13 3 = 4 \<and> bit raw 12 \<and> GET_BITS_AT raw 7 5 = 0 \<and> GET_BITS_AT raw 2 5 = 0"
  using link_bit [of raw] by (auto simp: is_c_ebreak_def low_halves)

lemma expand_none:
  assumes "isRVC raw" and "expand raw = None"
  shows "is_c_li raw \<or> is_c_mv raw \<or> is_c_ebreak raw \<or> is_c_fp raw \<or> \<not> fst (decode_rv64c raw d)"
proof -
  let ?d = "add_flag RVINSTFLAG_RVC d"
  have "expand0 raw = None \<Longrightarrow> GET_BITS_AT raw 13 3 \<in> {1, 5} \<or> \<not> fst (decode_q0 (GET_BITS_AT raw 13 3) raw ?d)"
    by (auto simp: expand0_def decode_q0_def Let_def split: if_splits)
  moreover have "expand1 raw = None \<Longrightarrow> GET_BITS_AT raw 13 3 = 2 \<and> GET_BITS_AT raw 7 5 \<noteq> 0 \<or> \<not> fst (decode_q1 (GET_BITS_AT raw 13 3) raw ?d)"
    by (auto simp: expand1_def expand_arith_def decode_q1_def decode_arith_def bit12_iff r5_iff Let_def split: if_splits)
  moreover have "expand2 raw = None \<Longrightarrow> GET_BITS_AT raw 13 3 \<in> {1, 5} \<or>
      GET_BITS_AT raw 13 3 = 4 \<and> (\<not> bit raw 12 \<and> GET_BITS_AT raw 2 5 \<noteq> 0 \<or> bit raw 12 \<and> GET_BITS_AT raw 2 5 = 0 \<and> GET_BITS_AT raw 7 5 = 0) \<or>
      \<not> fst (decode_q2 (GET_BITS_AT raw 13 3) raw ?d)"
    by (auto simp: expand2_def decode_q2_def r5_iff Let_def split: if_splits)
  ultimately show ?thesis
    using assms quadrants [of raw] 
    by (auto simp: expand_def is_c_li_def is_c_mv_def c_ebreak_iff is_c_fp_def isRVC_def mask_fields decode_rv64c_def Let_def)
qed

text \<open>
  C16. The compressed decoder is correct on the integer subset. Where the table \<^verbatim>\<open>expand\<close> gives a 32-bit instruction for a compressed one, both
  decode to the same record, except that the compressed one also has the compressed flag. Three instructions are not decoded as the manual expands them.
  A load of an immediate, for which the manual has an addition to the zero register, becomes a load-upper record of the same register and value;
  a move, for which it has an addition of two registers, becomes the addition of the immediate 0 to the source; the environment break has the flags of the 32-bit one
  and none of its fields. Every other word that is accepted is a floating-point access.
\<close>
theorem compressed_expansion:
  assumes "isRVC raw"
  shows "case expand raw of
      Some full \<Rightarrow> decode_rv64 raw d = (True, add_flag RVINSTFLAG_RVC (snd (decode_rv64 full d))) \<and> fst (decode_rv64 full d)
    | None \<Rightarrow>
        if is_c_li raw then
          decode_rv64 raw d = (True, \<lparr>d_pc = d_pc d, d_opcode = op_lui, d_param = zero_param, d_rs1 = 0, d_rs2 = 0, d_rs3 = 0,
            d_rd = ucast (GET_BITS_AT raw 7 5), d_imm = gather isa_CI raw, d_flag = RVINSTFLAG_RVC OR RVINSTFLAG_RDINT, d_name = []\<rparr>)
        else if is_c_mv raw then
          (let full = enc_I 0x13 0 (r5 raw 7) (r5 raw 2) 0
           in decode_rv64 raw d = (True, add_flag RVINSTFLAG_RVC (snd (decode_rv64 full d))) \<and> fst (decode_rv64 full d))
        else if is_c_ebreak raw then
          decode_rv64 raw d = (True, \<lparr>d_pc = d_pc d, d_opcode = op_system, d_param = zero_param, d_rs1 = 0, d_rs2 = 0, d_rs3 = 0,
            d_rd = 0, d_imm = 0, d_flag = RVINSTFLAG_RVC OR RVINSTFLAG_EBREAK OR RVINSTFLAG_UNIQUE, d_name = []\<rparr>)
        else is_c_fp raw \<or> \<not> fst (decode_rv64 raw d)"
proof (cases "expand raw")
  case (Some full)
  then have "expands_to d (decode_rv64c raw (reset_dec d)) full"
    using expand0_ok [of raw full d] expand1_ok [of raw full d] expand2_ok [of raw full d]
    by (auto simp: expand_def decode_rv64c_def mask_fields Let_def split: if_splits)
  with Some assms show ?thesis by (simp add: expands_to_def decode_rv64_def)
next
  case None
  have li: "decode_rv64 raw d = (True, \<lparr>d_pc = d_pc d, d_opcode = op_lui, d_param = zero_param, d_rs1 = 0, d_rs2 = 0, d_rs3 = 0,
      d_rd = ucast (GET_BITS_AT raw 7 5), d_imm = gather isa_CI raw, d_flag = RVINSTFLAG_RVC OR RVINSTFLAG_RDINT, d_name = []\<rparr>)"
    if "is_c_li raw"
    using that assms by (simp add: is_c_li_def decode_rv64_def decode_rv64c_def mask_fields decode_q1_def c_upper_def add_flag_def reset_dec_def
        reg5_def imm_ci_table)
  have mv: "expands_to d (decode_rv64c raw (reset_dec d)) (enc_I 0x13 0 (r5 raw 7) (r5 raw 2) 0)" if "is_c_mv raw"
    using that by (simp add: is_c_mv_def expands_to_def decode_rv64c_def mask_fields link_bit decode_q2_def decode_jr_def expand_simps)
  have eb: "decode_rv64 raw d = (True, \<lparr>d_pc = d_pc d, d_opcode = op_system, d_param = zero_param, d_rs1 = 0, d_rs2 = 0, d_rs3 = 0,
      d_rd = 0, d_imm = 0, d_flag = RVINSTFLAG_RVC OR RVINSTFLAG_EBREAK OR RVINSTFLAG_UNIQUE, d_name = []\<rparr>)" if "is_c_ebreak raw"
    using that [unfolded c_ebreak_iff] assms
    by (simp add: decode_rv64_def decode_rv64c_def mask_fields link_bit decode_q2_def decode_jr_def add_flag_def reset_dec_def or.assoc)
  have no: "is_c_li raw \<or> is_c_mv raw \<or> is_c_ebreak raw \<or> is_c_fp raw \<or> \<not> fst (decode_rv64 raw d)"
    using expand_none [OF assms None, of "reset_dec d"] assms by (simp add: decode_rv64_def)
  have mv': "let full = enc_I 0x13 0 (r5 raw 7) (r5 raw 2) 0
      in decode_rv64 raw d = (True, add_flag RVINSTFLAG_RVC (snd (decode_rv64 full d))) \<and> fst (decode_rv64 full d)" if "is_c_mv raw"
    using mv [OF that] assms by (simp only: expands_to_def decode_rv64_def [of raw] if_True Let_def simp_thms)
  show ?thesis using li mv' eb no by (simp only: None option.case split: if_split) blast
qed

definition blank_dec :: RV64InstDecoded where
  "blank_dec = \<lparr> d_pc = 0, d_opcode = op_nop, d_param = zero_param, d_rs1 = 0, d_rs2 = 0, d_rs3 = 0, d_rd = 0,
     d_imm = 0, d_flag = 0, d_name = [] \<rparr>"

lemma compressed_expansion_witness:
  "expand 0x8082 = Some 0x00008067 \<and> fst (decode_rv64 0x00008067 blank_dec) \<and> is_c_li 0x4581 \<and> d_opcode (snd (decode_rv64 0x4581 blank_dec)) = op_lui"
proof -
  have "expand 0x8082 = Some 0x00008067" "expand 0x4581 = None" "is_c_li 0x4581" "isRVC 0x8082" "isRVC 0x4581" by code_simp+
  then show ?thesis
    using compressed_expansion [where raw = "0x8082" and d = blank_dec] compressed_expansion [where raw = "0x4581" and d = blank_dec] by simp
qed

text \<open>
  C39. The compressed floating-point accesses are decoded with the flags of the integer ones: a
  compressed load to a floating-point register is flagged as writing an integer register, a
  compressed store from the stack as reading an integer source, and the register-based compressed
  floating-point store is decoded as an integer store.
\<close>
theorem compressed_fp_misdecoded:
  assumes "isRVC raw" and "GET_BITS_AT raw 0 2 \<noteq> 1" and "GET_BITS_AT raw 13 3 = 1 \<or> GET_BITS_AT raw 13 3 = 5"
  shows "fst (decode_rv64 raw d) \<and>
    d_opcode (snd (decode_rv64 raw d)) =
      (if GET_BITS_AT raw 13 3 = 1 then op_loadfp else if GET_BITS_AT raw 0 2 = 0 then op_store else op_storefp) \<and>
    d_flag (snd (decode_rv64 raw d)) = RVINSTFLAG_RVC OR (if GET_BITS_AT raw 13 3 = 1 then RD_S1 else S1_S2)"
  using assms quadrants [of raw]
  by (auto simp: decode_rv64_def isRVC_def mask_fields decode_rv64c_def Let_def decode_q0_def decode_q2_def flag_c reset_dec_def)

lemma compressed_fp_misdecoded_witness:
  "d_opcode (snd (decode_rv64 0xa100 blank_dec)) = op_store"
  using compressed_fp_misdecoded [where raw = "0xa100" and d = blank_dec]
  by (simp add: isRVC_def GET_BITS_AT_def mask_numeral)
end
