(* ===== verification/BigUInt.thy ===== *)
theory BigUInt
  imports SimCommon
begin

text \<open>
  The fixed-width integers of the hardware descriptions (\<^verbatim>\<open>UInt<BitWidth>\<close> of \<^verbatim>\<open>utils/uint.hpp\<close>). The width is
  an argument; a value is the list of its 64-bit words, low word first, of which there is one when the
  width is at most 64. C++ computes the narrow storage types in \<^verbatim>\<open>int\<close> or \<^verbatim>\<open>uint32_t\<close> and masks the
  result, which agrees with 64-bit arithmetic under the same mask. An access outside an array
  or a shift by the full width is None.
\<close>

section \<open>Values, construction and conversion\<close>

type_synonym uint = "u64 list"

definition uint_words :: "nat \<Rightarrow> nat" where "uint_words w = (w + 63) div 64"

definition small_mask :: "nat \<Rightarrow> u64" where
  "small_mask w = (if w = 64 then NOT 0 else push_bit w 1 - 1)"

text \<open>The upper bits of the last word are cleared when the width is no multiple of 64.\<close>

definition top_mask :: "nat \<Rightarrow> uint \<Rightarrow> uint" where
  "top_mask w r = (if w mod 64 \<noteq> 0 then r[uint_words w - 1 := r ! (uint_words w - 1) AND (push_bit (w mod 64) 1 - 1)] else r)"

definition uint_zero :: "nat \<Rightarrow> uint" where "uint_zero w = replicate (uint_words w) 0"

definition uint_of :: "nat \<Rightarrow> u64 \<Rightarrow> uint" where
  "uint_of w x = (if w \<le> 64 then [x AND small_mask w] else (uint_zero w)[0 := x])"

definition uint_conv :: "nat \<Rightarrow> nat \<Rightarrow> uint \<Rightarrow> uint" where
  "uint_conv ow w v =
     (if w \<le> 64 then [v ! 0 AND small_mask w]
      else top_mask w (map (\<lambda>i. if i < uint_words ow then v ! i else 0) [0..<uint_words w]))"

definition uint_extract :: "nat \<Rightarrow> nat \<Rightarrow> nat \<Rightarrow> uint \<Rightarrow> uint option" where
  "uint_extract w hi lo v =
     (let nb = hi - lo + 1; k = lo div 64; s = lo mod 64 in
      if w \<le> 64 then Some (uint_of nb (drop_bit lo (v ! 0) AND small_mask nb))
      else if nb < 64
      then Some (uint_of nb ((if s + nb > 64 then drop_bit s (v ! k) OR push_bit (64 - s) (v ! (k + 1)) else drop_bit s (v ! k))
             AND (push_bit nb 1 - 1)))
      else if nb = 64 then None
      else Some (map (\<lambda>i. if s \<noteq> 0 \<and> s + nb > (i + 1) * 64 then drop_bit s (v ! (k + i)) OR push_bit (64 - s) (v ! (k + i + 1))
             else drop_bit s (v ! (k + i))) [0..<uint_words nb]))"

text \<open>Printing: a stream prints an 8-bit value as a character.\<close>

definition hex_digit :: "nat \<Rightarrow> char" where
  "hex_digit d = char_of (if d < 10 then 48 + d else 87 + d)"

fun show_hex :: "nat \<Rightarrow> string" where
  "show_hex n = (if n < 16 then [hex_digit n] else show_hex (n div 16) @ [hex_digit (n mod 16)])"

declare show_hex.simps [simp del]

definition pad_hex :: "nat \<Rightarrow> string \<Rightarrow> string" where
  "pad_hex n s = replicate (n - length s) CHR ''0'' @ s"

definition uint_hex :: "nat \<Rightarrow> uint \<Rightarrow> string" where
  "uint_hex w v = (if w \<le> 8 then [char_of (unat (v ! 0))] else if w \<le> 64 then show_hex (unat (v ! 0))
     else concat (map (\<lambda>x. pad_hex 16 (show_hex (unat x))) (rev v)))"

section \<open>Arithmetic\<close>

fun add_words :: "u64 \<Rightarrow> uint \<Rightarrow> uint \<Rightarrow> uint" where
  "add_words carry (na # as) (nb # bs) =
     (let s = na + nb + carry in s # add_words (if s < na \<or> carry \<noteq> 0 \<and> s = na then 1 else 0) as bs)"
| "add_words carry _ _ = []"

definition uint_add :: "nat \<Rightarrow> uint \<Rightarrow> uint \<Rightarrow> uint" where
  "uint_add w a b = (if w \<le> 64 then uint_of w ((a ! 0 + b ! 0) AND small_mask w) else top_mask w (add_words 0 a b))"

fun sub_words :: "u64 \<Rightarrow> uint \<Rightarrow> uint \<Rightarrow> uint" where
  "sub_words borrow (na # as) (nb # bs) =
     (let sub = nb + borrow in (na - sub) # sub_words (if na < sub then 1 else 0) as bs)"
| "sub_words borrow _ _ = []"

definition uint_sub :: "nat \<Rightarrow> uint \<Rightarrow> uint \<Rightarrow> uint" where
  "uint_sub w a b = (if w \<le> 64 then uint_of w ((a ! 0 - b ! 0) AND small_mask w) else top_mask w (sub_words 0 a b))"

text \<open>The product rows work on the part of the double-length array that starts at the row's position.\<close>

fun carry_out :: "u128 \<Rightarrow> uint \<Rightarrow> uint option" where
  "carry_out carry [] = (if carry = 0 then Some [] else None)"
| "carry_out carry (t # ts) =
     (if carry = 0 then Some (t # ts)
      else (let cur = ucast t + carry in map_option ((#) (ucast cur)) (carry_out (drop_bit 64 cur) ts)))"

fun mul_row :: "u64 \<Rightarrow> uint \<Rightarrow> u128 \<Rightarrow> uint \<Rightarrow> uint option" where
  "mul_row a [] carry ts = carry_out carry ts"
| "mul_row a (b # bs) carry [] = None"
| "mul_row a (b # bs) carry (t # ts) =
     (let cur = ucast t + ucast a * ucast b + carry in map_option ((#) (ucast cur)) (mul_row a bs (drop_bit 64 cur) ts))"

fun mul_rows :: "uint \<Rightarrow> uint \<Rightarrow> uint \<Rightarrow> uint option" where
  "mul_rows [] bs ts = Some ts"
| "mul_rows (a # as) bs ts =
     (case mul_row a bs 0 ts of None \<Rightarrow> None | Some [] \<Rightarrow> None | Some (t # ts') \<Rightarrow> map_option ((#) t) (mul_rows as bs ts'))"

definition uint_mul :: "nat \<Rightarrow> uint \<Rightarrow> uint \<Rightarrow> uint option" where
  "uint_mul w a b =
     (if w \<le> 64 then Some (uint_of w ((a ! 0 * b ! 0) AND small_mask w))
      else map_option (\<lambda>tmp. top_mask w (take (uint_words w) tmp)) (mul_rows a b (replicate (2 * uint_words w) 0)))"

section \<open>Bitwise operations and comparisons\<close>

definition uint_and :: "nat \<Rightarrow> uint \<Rightarrow> uint \<Rightarrow> uint" where
  "uint_and w a b = (if w \<le> 64 then uint_of w (a ! 0 AND b ! 0) else map2 (AND) a b)"

definition uint_or :: "nat \<Rightarrow> uint \<Rightarrow> uint \<Rightarrow> uint" where
  "uint_or w a b = (if w \<le> 64 then uint_of w (a ! 0 OR b ! 0) else map2 (OR) a b)"

definition uint_xor :: "nat \<Rightarrow> uint \<Rightarrow> uint \<Rightarrow> uint" where
  "uint_xor w a b = (if w \<le> 64 then uint_of w ((a ! 0 XOR b ! 0) AND small_mask w) else top_mask w (map2 (XOR) a b))"

definition uint_not :: "nat \<Rightarrow> uint \<Rightarrow> uint" where
  "uint_not w a = (if w \<le> 64 then uint_of w (NOT (a ! 0) AND small_mask w) else top_mask w (map NOT a))"

fun eq_words :: "uint \<Rightarrow> uint \<Rightarrow> bool" where
  "eq_words (x # xs) (y # ys) = (if x \<noteq> y then False else eq_words xs ys)"
| "eq_words _ _ = True"

definition uint_eq :: "nat \<Rightarrow> uint \<Rightarrow> uint \<Rightarrow> bool" where
  "uint_eq w a b = (if w \<le> 64 then a ! 0 = b ! 0 else eq_words (rev a) (rev b))"

fun less_words :: "uint \<Rightarrow> uint \<Rightarrow> bool" where
  "less_words (x # xs) (y # ys) = (if x < y then True else if x > y then False else less_words xs ys)"
| "less_words _ _ = False"

definition uint_less :: "nat \<Rightarrow> uint \<Rightarrow> uint \<Rightarrow> bool" where
  "uint_less w a b = (if w \<le> 64 then a ! 0 < b ! 0 else less_words (rev a) (rev b))"

definition uint_ne :: "nat \<Rightarrow> uint \<Rightarrow> uint \<Rightarrow> bool" where "uint_ne w a b \<longleftrightarrow> \<not> uint_eq w a b"
definition uint_gt :: "nat \<Rightarrow> uint \<Rightarrow> uint \<Rightarrow> bool" where "uint_gt w a b \<longleftrightarrow> uint_less w b a"
definition uint_le :: "nat \<Rightarrow> uint \<Rightarrow> uint \<Rightarrow> bool" where "uint_le w a b \<longleftrightarrow> uint_less w a b \<or> uint_eq w a b"
definition uint_ge :: "nat \<Rightarrow> uint \<Rightarrow> uint \<Rightarrow> bool" where "uint_ge w a b \<longleftrightarrow> \<not> uint_less w a b"

section \<open>The number a value stands for\<close>

definition radix :: nat where "radix = 2 ^ 64"

fun uval :: "uint \<Rightarrow> nat" where
  "uval [] = 0"
| "uval (x # xs) = unat x + radix * uval xs"

definition uint_ok :: "nat \<Rightarrow> uint \<Rightarrow> bool" where
  "uint_ok w v \<longleftrightarrow> length v = uint_words w \<and> uval v < 2 ^ w"

lemma unat_less_radix [simp]: "unat (x :: u64) < radix"
  unfolding radix_def using unsigned_less [of x, where 'a = nat] by simp

lemma radix_pos [simp]: "0 < radix" "radix \<noteq> 0"
  by (simp_all add: radix_def)

lemma radix_gt_1 [simp]: "Suc 0 < radix" "1 < radix"
  by (simp_all add: radix_def)

lemma radix_power: "radix ^ n = 2 ^ (64 * n)"
  unfolding radix_def by (rule power_mult [symmetric])

lemma unat_mod_radix [simp]: "unat (x :: u64) mod radix = unat x" "unat (x :: u64) div radix = 0"
  by simp_all

lemma unat_plus_radix: "unat (x + y :: u64) = (unat x + unat y) mod radix"
  unfolding radix_def by (simp add: unat_word_ariths)

lemma push_bit_radix: "push_bit 64 (u :: nat) = radix * u"
  unfolding radix_def by (simp only: push_bit_eq_mult mult.commute)

lemma uval_step: "unat (x :: u64) + radix * u = unat x OR push_bit 64 u"
proof -
  have "unat x AND push_bit 64 u = 0"
    by (rule bit_eqI) (auto simp: bit_and_iff bit_push_bit_iff bit_unsigned_iff dest: bit_imp_le_length)
  then have "unat x + push_bit 64 u = unat x OR push_bit 64 u" by (rule disjunctive_add_eq_or)
  then show ?thesis by (simp add: push_bit_radix)
qed

lemma bit_uval: "bit (uval xs) k \<longleftrightarrow> k div 64 < length xs \<and> bit (xs ! (k div 64)) (k mod 64)"
proof (induction xs arbitrary: k)
  case Nil
  then show ?case by simp
next
  case (Cons x xs)
  have b: "bit (uval (x # xs)) k \<longleftrightarrow> bit x k \<or> 64 \<le> k \<and> bit (uval xs) (k - 64)"
    unfolding uval.simps uval_step by (auto simp: bit_or_iff bit_push_bit_iff bit_unsigned_iff)
  show ?case
  proof (cases "k < 64")
    case True
    then show ?thesis using b by simp
  next
    case False
    have "k div 64 = Suc ((k - 64) div 64)" "k mod 64 = (k - 64) mod 64" using False by (simp_all add: div_if mod_if)
    moreover have "\<not> bit x k" using False bit_imp_le_length [of x k] by auto
    ultimately show ?thesis using False Cons.IH [of "k - 64"] b by simp
  qed
qed

lemma uval_less: "uval xs < radix ^ length xs"
proof (induction xs)
  case (Cons x xs)
  have "unat x + radix * uval xs < radix * (uval xs + 1)" by simp
  also have "\<dots> \<le> radix * radix ^ length xs" using Cons by (intro mult_le_mono) simp_all
  finally show ?case by simp
qed simp

lemma uval_append: "uval (xs @ ys) = uval xs + radix ^ length xs * uval ys"
  by (induction xs) (simp_all add: algebra_simps)

lemma div_64_less: "k div 64 < n \<longleftrightarrow> k < 64 * (n :: nat)"
  by (simp add: div_less_iff_less_mult mult.commute)

lemma uval_take: "uval (take n xs) = uval xs mod radix ^ n"
proof -
  have "uval (take n xs) = take_bit (64 * n) (uval xs)"
    by (intro bit_eqI) (auto simp: bit_uval bit_take_bit_iff div_64_less)
  then show ?thesis by (simp add: take_bit_eq_mod radix_power)
qed

lemma radix_digits:
  assumes "unat (x :: u64) + radix * u = unat y + radix * v"
  shows "x = y \<and> u = v"
proof -
  have "(unat x + radix * u) mod radix = (unat y + radix * v) mod radix" "(unat x + radix * u) div radix = (unat y + radix * v) div radix"
    by (simp_all only: assms)
  then show ?thesis by (simp add: unsigned_word_eqI)
qed

lemma uval_inj:
  assumes "length xs = length ys" and "uval xs = uval ys"
  shows "xs = ys"
  using assms by (induction xs ys rule: list_induct2) (auto dest: radix_digits)

lemma words_one: "0 < w \<Longrightarrow> w \<le> 64 \<Longrightarrow> uint_words w = 1"
  unfolding uint_words_def by (rule div_nat_eqI) simp_all

lemma words_bounds: "w \<le> 64 * uint_words w" "64 * uint_words w < w + 64"
  using div_mult_mod_eq [of "w + 63" 64] mod_less_divisor [of 64 "w + 63"] unfolding uint_words_def by linarith+

lemma div_mod_64E:
  obtains q m :: nat where "w = 64 * q + m" "m < 64" "w div 64 = q" "w mod 64 = m"
proof
  show "w = 64 * (w div 64) + w mod 64" "w mod 64 < 64" by simp_all
qed (rule refl)+

lemma words_split: "m < 64 \<Longrightarrow> uint_words (64 * q + m) = (if m = 0 then q else Suc q)"
  unfolding uint_words_def by (auto intro!: div_nat_eqI)

lemma words_exact: "w mod 64 = 0 \<Longrightarrow> 64 * uint_words w = w"
  by (rule div_mod_64E [of w]) (simp add: words_split [of 0, simplified])

lemma words_partial: "w mod 64 \<noteq> 0 \<Longrightarrow> uint_words w = Suc (w div 64)"
  by (rule div_mod_64E [of w]) (simp add: words_split)

lemma position_less:
  assumes "w mod 64 \<noteq> 0" and "k div 64 < uint_words w"
  shows "(k div 64 = uint_words w - 1 \<longrightarrow> k mod 64 < w mod 64) \<longleftrightarrow> k < w"
proof -
  obtain q m where w: "w = 64 * q + m" "m < 64" "w div 64 = q" "w mod 64 = m" by (rule div_mod_64E)
  obtain i j where k: "k = 64 * i + j" "j < 64" "k div 64 = i" "k mod 64 = j" by (rule div_mod_64E)
  have n: "uint_words w = Suc q" using words_partial [OF assms(1)] w by simp
  have "i \<le> q" using assms(2) n k by simp
  then have "(i = q \<longrightarrow> j < m) \<longleftrightarrow> 64 * i + j < 64 * q + m" using w(2) k(2) by (cases "i = q") simp_all
  then show ?thesis unfolding n k(3,4) w(4) using k(1) w(1) by simp
qed

lemma small_mask_eq: "w \<le> 64 \<Longrightarrow> small_mask w = mask w"
proof (cases "w = 64")
  case True
  have "NOT 0 = (mask 64 :: u64)" by (rule bit_word_eqI) (simp add: bit_mask_iff bit_not_iff)
  then show ?thesis by (simp only: True small_mask_def refl if_True)
next
  case False
  then show ?thesis by (simp only: small_mask_def if_False word_shift_one_minus_one)
qed

lemma small_mask_mod:
  assumes "w \<le> 64"
  shows "unat (x AND small_mask w) = unat x mod 2 ^ w"
proof -
  have "x AND small_mask w = take_bit w x" by (simp only: small_mask_eq [OF assms] take_bit_eq_mask)
  then have "unat (x AND small_mask w) = take_bit w (unat x)" by (simp only: unsigned_take_bit_eq)
  also have "\<dots> = unat x mod 2 ^ w" by (rule take_bit_eq_mod)
  finally show ?thesis .
qed

lemma uval_uint_of:
  assumes "0 < w" and "w \<le> 64"
  shows "uint_ok w (uint_of w x) \<and> uval (uint_of w x) = unat x mod 2 ^ w"
  using assms by (simp add: uint_of_def small_mask_mod uint_ok_def words_one)

lemma uint_single:
  assumes "uint_ok w a" and "0 < w" and "w \<le> 64"
  obtains x where "a = [x]" "unat x < 2 ^ w" "uval a = unat x"
proof -
  have "length a = 1" using assms by (simp add: uint_ok_def words_one)
  then obtain x where "a = [x]" by (cases a) auto
  then show ?thesis using that assms(1) by (simp add: uint_ok_def)
qed

lemma uval_top_mask:
  assumes w: "64 < w" and r: "length r = uint_words w"
  shows "uint_ok w (top_mask w r) \<and> uval (top_mask w r) = uval r mod 2 ^ w"
proof -
  let ?n = "uint_words w"
  have len: "length (top_mask w r) = ?n" using r by (simp add: top_mask_def)
  have n: "0 < ?n" using w words_bounds(1) [of w] by linarith
  have "bit (uval (top_mask w r)) k = bit (take_bit w (uval r)) k" for k
  proof (cases "w mod 64 = 0")
    case True
    then have "64 * ?n = w" by (rule words_exact)
    then show ?thesis using r True by (auto simp: top_mask_def bit_uval bit_take_bit_iff div_64_less)
  next
    case False
    have b: "bit (top_mask w r ! i) j \<longleftrightarrow> bit (r ! i) j \<and> (i = ?n - 1 \<longrightarrow> j < w mod 64)" if "i < ?n" for i j
    proof (cases "i = ?n - 1")
      case True
      then have "top_mask w r ! i = r ! i AND mask (w mod 64)"
        using that r False unfolding top_mask_def word_shift_one_minus_one by simp
      then show ?thesis using True bit_imp_le_length [of "r ! i" j] by (auto simp: bit_and_iff bit_mask_iff)
    next
      case ne: False
      then show ?thesis using False by (simp add: top_mask_def)
    qed
    note kw = position_less [OF False]
    have "bit (uval (top_mask w r)) k \<longleftrightarrow> k div 64 < ?n \<and> bit (r ! (k div 64)) (k mod 64) \<and> k < w"
    proof (cases "k div 64 < ?n")
      case True
      then show ?thesis unfolding bit_uval len b [OF True] using kw [OF True] by blast
    qed (simp add: bit_uval len)
    then show ?thesis unfolding bit_take_bit_iff bit_uval r by blast
  qed
  then have "uval (top_mask w r) = take_bit w (uval r)" by (intro bit_eqI) blast
  then show ?thesis using len by (simp add: uint_ok_def take_bit_eq_mod)
qed

section \<open>Addition and subtraction\<close>

lemma length_add_words [simp]: "length as = length bs \<Longrightarrow> length (add_words c as bs) = length as"
  by (induction as bs arbitrary: c rule: list_induct2) (simp_all add: Let_def)

lemma length_sub_words [simp]: "length as = length bs \<Longrightarrow> length (sub_words c as bs) = length as"
  by (induction as bs arbitrary: c rule: list_induct2) (simp_all add: Let_def)

lemma mod_radix_step: "(x + radix * y) mod (radix * m) = x mod radix + radix * ((x div radix + y) mod m)"
  by (simp add: mod_mult2_eq add.commute)

lemma carry_bit: "unat (c :: u64) \<le> 1 \<Longrightarrow> c \<noteq> 0 \<longleftrightarrow> unat c = 1"
proof -
  assume "unat c \<le> 1"
  then have "unat c = 0 \<or> unat c = 1" by linarith
  then show ?thesis by (metis unsigned_0 unsigned_eq_0_iff zero_neq_one)
qed

lemma add_step:
  assumes c: "unat (c :: u64) \<le> 1"
  shows "unat (a + b + c) = (unat a + unat b + unat c) mod radix"
    and "unat (if a + b + c < a \<or> c \<noteq> 0 \<and> a + b + c = a then 1 else 0 :: u64) = (unat a + unat b + unat c) div radix"
proof -
  let ?t = "unat a + unat b + unat c"
  show s: "unat (a + b + c) = ?t mod radix" by (simp add: unat_plus_radix mod_simps)
  have bd: "unat a < radix" "unat b < radix" by simp_all
  note nz = carry_bit [OF c]
  show "unat (if a + b + c < a \<or> c \<noteq> 0 \<and> a + b + c = a then 1 else 0 :: u64) = ?t div radix"
  proof (cases "?t < radix")
    case True
    then have "unat (a + b + c) = ?t" using s by simp
    then have "\<not> a + b + c < a" by (simp add: word_less_nat_alt)
    moreover have "a + b + c \<noteq> a" if "c \<noteq> 0"
    proof
      assume "a + b + c = a"
      then have "unat (a + b + c) = unat a" by (rule arg_cong)
      then show False using nz that \<open>unat (a + b + c) = ?t\<close> by linarith
    qed
    ultimately have "\<not> (a + b + c < a \<or> c \<noteq> 0 \<and> a + b + c = a)" by blast
    then show ?thesis using True by simp
  next
    case False
    have "?t - radix < radix" using bd c by linarith
    then have "?t mod radix = ?t - radix" "?t div radix = 1" using False by (simp_all add: le_mod_geq le_div_geq)
    then have "unat (a + b + c) = ?t - radix" using s by simp
    have "a + b + c < a \<or> c \<noteq> 0 \<and> a + b + c = a"
    proof (cases "unat (a + b + c) < unat a")
      case False
      then have "unat c = 1" "unat (a + b + c) = unat a"
        using bd c \<open>unat (a + b + c) = ?t - radix\<close> \<open>\<not> ?t < radix\<close> by linarith+
      then show ?thesis using nz by (metis unsigned_word_eqI)
    qed (simp add: word_less_nat_alt)
    then show ?thesis using \<open>?t div radix = 1\<close> by simp
  qed
qed

lemma uval_add_words:
  assumes "length as = length bs" and "unat c \<le> 1"
  shows "uval (add_words c as bs) = (uval as + uval bs + unat c) mod radix ^ length as"
  using assms
proof (induction as bs arbitrary: c rule: list_induct2)
  case (Cons a as b bs)
  let ?c = "if a + b + c < a \<or> c \<noteq> 0 \<and> a + b + c = a then 1 else 0 :: u64"
  note st = add_step [OF Cons.prems, of a b]
  have "unat ?c \<le> 1" by simp
  from Cons.IH [OF this] have "uval (add_words c (a # as) (b # bs)) =
      unat (a + b + c) + radix * ((uval as + uval bs + unat ?c) mod radix ^ length as)"
    by (simp only: add_words.simps Let_def uval.simps)
  also have "\<dots> = (unat a + unat b + unat c + radix * (uval as + uval bs)) mod (radix * radix ^ length as)"
    unfolding mod_radix_step st by (simp only: add.commute)
  finally show ?case by (simp add: algebra_simps)
qed simp


lemma sub_step:
  assumes c: "unat (c :: u64) \<le> 1"
  shows "int (unat (a - (b + c))) = (int (unat a) - int (unat b) - int (unat c)) mod int radix"
    and "c = 0 \<or> b \<noteq> - 1 \<Longrightarrow> int (unat (if a < b + c then 1 else 0 :: u64)) = - ((int (unat a) - int (unat b) - int (unat c)) div int radix)"
proof -
  let ?d = "int (unat a) - int (unat b) - int (unat c)"
  have r: "int radix = 2 ^ 64" by (simp add: radix_def)
  have "uint (a - (b + c)) = (uint a - (uint b + uint c)) mod 2 ^ 64" by (simp add: uint_word_ariths mod_simps)
  then show "int (unat (a - (b + c))) = ?d mod int radix" unfolding r by (simp add: diff_diff_eq)
  assume b: "c = 0 \<or> b \<noteq> - 1"
  have "unat b \<noteq> radix - 1" if "b \<noteq> - 1"
  proof
    assume "unat b = radix - 1"
    then have "unat b = unat (- 1 :: u64)" by (simp add: radix_def unsigned_minus_1_eq_mask mask_eq_exp_minus_1)
    then show False using that by (simp add: word_unat_eq_iff)
  qed
  then have bc: "unat b + unat c < radix" using unat_less_radix [of b] c b by (cases "c = 0") (simp, linarith)
  then have s: "unat (b + c) = unat b + unat c" by (simp add: unat_plus_radix)
  have a: "unat a < radix" by simp
  show "int (unat (if a < b + c then 1 else 0 :: u64)) = - (?d div int radix)"
  proof (cases "a < b + c")
    case True
    then have "unat a < unat b + unat c" by (simp add: word_less_nat_alt s)
    then have "?d + int radix < int radix" "0 \<le> ?d + int radix" using bc by linarith+
    then have "?d div int radix = -1" by (intro int_div_pos_eq [where r = "?d + int radix"]) (simp, assumption+)
    then show ?thesis using True by (simp only: if_True) simp
  next
    case False
    then have "unat b + unat c \<le> unat a" by (simp add: word_less_nat_alt s)
    then have "0 \<le> ?d" "?d < int radix" using a by linarith+
    then show ?thesis using False by simp
  qed
qed

lemma int_mod_radix_step:
  "(d + int radix * y) mod (int radix * int (radix ^ n)) = d mod int radix + int radix * ((d div int radix + y) mod int (radix ^ n))"
  by (subst zmod_zmult2_eq) (simp_all add: add.commute)

text \<open>The borrow is lost when it meets a word of ones; the first word has no incoming borrow and the last has no outgoing one.\<close>

definition borrow_safe :: "uint \<Rightarrow> bool" where "borrow_safe bs \<longleftrightarrow> (\<forall>b\<in>set (butlast bs). b \<noteq> - 1)"

lemma set_butlast_tl: "set (butlast (tl xs)) \<subseteq> set (butlast xs)"
  by (cases xs) auto

lemma borrow_safe_tl: "borrow_safe bs \<Longrightarrow> borrow_safe (tl bs)"
  unfolding borrow_safe_def by (rule ballI, erule bspec) (rule subsetD [OF set_butlast_tl])

lemma uval_sub_words:
  assumes "length as = length bs" and "unat c \<le> 1" and "borrow_safe (if c = 0 then tl bs else bs)"
  shows "int (uval (sub_words c as bs)) = (int (uval as) - int (uval bs) - int (unat c)) mod int (radix ^ length as)"
  using assms
proof (induction as bs arbitrary: c rule: list_induct2)
  case (Cons a as b bs)
  let ?c = "if a < b + c then 1 else 0 :: u64" and ?d = "int (unat a) - int (unat b) - int (unat c)"
  let ?r = "int radix" and ?n = "int (radix ^ length as)"
  note st = sub_step [where a = a and b = b, OF Cons.prems(1)]
  have e: "int (uval (sub_words c (a # as) (b # bs))) = int (unat (a - (b + c))) + ?r * int (uval (sub_words ?c as bs))"
    by (simp only: sub_words.simps Let_def uval.simps of_nat_add of_nat_mult)
  have "int (uval (sub_words c (a # as) (b # bs))) = (?d + ?r * (int (uval as) - int (uval bs))) mod (?r * ?n)"
  proof (cases bs)
    case Nil
    then have n: "as = []" using Cons.hyps by simp
    have "sub_words ?c as bs = []" "uval as = 0" "uval bs = 0" "?n = 1" using Nil n by simp_all
    then show ?thesis unfolding e st(1) by (simp only: uval.simps of_nat_0 mult_zero_right add_0_right diff_self mult_1_right)
  next
    case (Cons b' bs')
    then have b: "c = 0 \<or> b \<noteq> - 1" and "borrow_safe bs"
      using Cons.prems(2) by (auto simp: borrow_safe_def split: if_splits)
    then have r: "borrow_safe (if ?c = 0 then tl bs else bs)" using borrow_safe_tl by simp
    have "unat ?c \<le> 1" by simp
    note IH = Cons.IH [OF this r]
    show ?thesis unfolding e st(1) IH st(2) [OF b] int_mod_radix_step by (simp only: diff_minus_eq_add add.commute)
  qed
  moreover have "?d + ?r * (int (uval as) - int (uval bs)) = int (uval (a # as)) - int (uval (b # bs)) - int (unat c)"
    by (simp add: algebra_simps)
  ultimately show ?case by (simp only: length_Cons power_Suc of_nat_mult)
qed simp

section \<open>Multiplication\<close>

lemma ucast_128: "unat (ucast (x :: u64) :: u128) = unat x"
proof -
  have "unat x < 2 ^ 128" using unat_less_radix [of x] unfolding radix_def by (rule less_le_trans) simp
  then show ?thesis by (simp add: unsigned_ucast_eq take_bit_nat_eq_self)
qed

lemma u128_small: "n < radix * radix \<Longrightarrow> n mod 2 ^ LENGTH(128) = n"
  by (simp add: radix_def)

lemma u128_split: "unat (ucast (x :: u128) :: u64) = unat x mod radix" "unat (drop_bit 64 (x :: u128)) = unat x div radix"
proof -
  show "unat (ucast x :: u64) = unat x mod radix" by (simp add: unsigned_ucast_eq take_bit_eq_mod radix_def)
  have "take_bit LENGTH(128) (unat x) = unat x" by (rule take_bit_nat_eq_self) (rule unsigned_less)
  then have "unat (drop_bit 64 x) = drop_bit 64 (unat x)" by (simp only: unsigned_drop_bit_eq)
  then show "unat (drop_bit 64 x) = unat x div radix" unfolding radix_def by (simp only: drop_bit_eq_div)
qed

lemma u128_div_less: "unat (drop_bit 64 (x :: u128)) < radix"
proof -
  have "unat x < 2 ^ LENGTH(128)" by (rule unsigned_less)
  then have "unat x < radix * radix" by (simp add: radix_def)
  then show ?thesis unfolding u128_split by (simp add: less_mult_imp_div_less)
qed

lemma digit_product: "a < radix \<Longrightarrow> b < radix \<Longrightarrow> t < radix \<Longrightarrow> c < radix \<Longrightarrow> t + a * b + c < radix * radix"
proof -
  assume h: "a < radix" "b < radix" "t < radix" "c < radix"
  obtain r where r: "radix = Suc r" using radix_pos by (cases radix) auto
  have "a * b \<le> r * r" "t \<le> r" "c \<le> r" using h r by (auto intro: mult_le_mono)
  then have "t + a * b + c \<le> r * r + r + r" by linarith
  also have "\<dots> < Suc r * Suc r" by simp
  finally show ?thesis unfolding r .
qed

lemma carry_out_value:
  assumes "unat (c :: u128) < radix" and "uval ts + unat c < radix ^ length ts"
  shows "\<exists>r. carry_out c ts = Some r \<and> length r = length ts \<and> uval r = uval ts + unat c"
  using assms
proof (induction ts arbitrary: c)
  case Nil
  then show ?case by (simp add: unsigned_eq_0_iff)
next
  case (Cons t ts)
  show ?case
  proof (cases "c = 0")
    case True
    then show ?thesis by simp
  next
    case False
    let ?cur = "ucast t + c :: u128"
    have "unat t + unat c < radix * radix" using digit_product [of 0 0 "unat t" "unat c"] Cons.prems(1) by simp
    then have cur: "unat ?cur = unat t + unat c" using u128_small by (simp only: unat_word_ariths ucast_128)
    let ?k = "(unat t + unat c) div radix"
    have d: "unat (drop_bit 64 ?cur) = ?k" "unat (ucast ?cur :: u64) = (unat t + unat c) mod radix" by (simp_all only: u128_split cur)
    have id: "(unat t + unat c) mod radix + radix * ?k = unat t + unat c" by simp
    have "radix * (uval ts + ?k) \<le> uval (t # ts) + unat c" using id by (simp add: algebra_simps)
    also have "\<dots> < radix * radix ^ length ts" using Cons.prems(2) by simp
    finally have "uval ts + ?k < radix ^ length ts" by simp
    then obtain r where r: "carry_out (drop_bit 64 ?cur) ts = Some r" "length r = length ts" "uval r = uval ts + ?k"
      using Cons.IH [of "drop_bit 64 ?cur", OF u128_div_less] unfolding d(1) by blast
    have "carry_out c (t # ts) = Some (ucast ?cur # r)" using False r(1) by (simp add: Let_def)
    moreover have "uval (ucast ?cur # r) = uval (t # ts) + unat c"
      using id by (simp only: uval.simps d(2) r(3)) (simp add: algebra_simps)
    ultimately show ?thesis using r(2) by auto
  qed
qed

lemma mul_row_value:
  assumes "unat (c :: u128) < radix" and "length bs \<le> length ts" and "uval ts + unat a * uval bs + unat c < radix ^ length ts"
  shows "\<exists>r. mul_row a bs c ts = Some r \<and> length r = length ts \<and> uval r = uval ts + unat a * uval bs + unat c"
  using assms
proof (induction bs arbitrary: c ts)
  case Nil
  then show ?case using carry_out_value [of c ts] by simp
next
  case (Cons b bs)
  then obtain t us where ts: "ts = t # us" by (cases ts) auto
  let ?cur = "ucast t + ucast a * ucast b + c :: u128" and ?n = "unat t + unat a * unat b + unat c"
  have n: "?n < radix * radix" using digit_product [of "unat a" "unat b" "unat t" "unat c"] Cons.prems(1) by simp
  then have "unat (ucast a * ucast b :: u128) = unat a * unat b"
    using u128_small [of "unat a * unat b"] by (simp only: unat_word_ariths ucast_128)
  then have "unat (ucast t + ucast a * ucast b :: u128) = unat t + unat a * unat b"
    using u128_small [of "unat t + unat a * unat b"] n by (simp only: unat_word_ariths ucast_128)
  then have cur: "unat ?cur = ?n" using u128_small [OF n] by (simp only: unat_word_ariths)
  have d: "unat (drop_bit 64 ?cur) = ?n div radix" "unat (ucast ?cur :: u64) = ?n mod radix" by (simp_all only: u128_split cur)
  have id: "?n mod radix + radix * (?n div radix) = ?n" by simp
  have "radix * (uval us + unat a * uval bs + ?n div radix) \<le> uval ts + unat a * uval (b # bs) + unat c"
    using id by (simp add: ts algebra_simps)
  also have "\<dots> < radix * radix ^ length us" using Cons.prems(3) by (simp add: ts)
  finally have "uval us + unat a * uval bs + ?n div radix < radix ^ length us" by simp
  then obtain r where r: "mul_row a bs (drop_bit 64 ?cur) us = Some r" "length r = length us"
      "uval r = uval us + unat a * uval bs + ?n div radix"
    using Cons.IH [of "drop_bit 64 ?cur" us] u128_div_less [of ?cur] Cons.prems(2) d(1) ts by auto
  have "mul_row a (b # bs) c ts = Some (ucast ?cur # r)" using r(1) by (simp add: ts Let_def)
  moreover have "uval (ucast ?cur # r) = uval ts + unat a * uval (b # bs) + unat c"
    using id by (simp only: uval.simps d(2) r(3) ts) (simp add: algebra_simps)
  ultimately show ?case using r(2) ts by auto
qed

lemma mul_rows_value:
  assumes "length as + length bs \<le> length ts" and "0 < length bs" and "uval ts + uval as * uval bs < radix ^ length ts"
  shows "\<exists>r. mul_rows as bs ts = Some r \<and> length r = length ts \<and> uval r = uval ts + uval as * uval bs"
  using assms
proof (induction as arbitrary: ts)
  case Nil
  then show ?case by simp
next
  case (Cons a as)
  have "uval ts + unat a * uval bs + unat (0 :: u128) \<le> uval ts + uval (a # as) * uval bs" by (simp add: algebra_simps)
  then have lt: "uval ts + unat a * uval bs + unat (0 :: u128) < radix ^ length ts" using Cons.prems(3) by (rule le_less_trans)
  have "length bs \<le> length ts" using Cons.prems(1) by simp
  then obtain r0 where r0: "mul_row a bs 0 ts = Some r0" "length r0 = length ts" "uval r0 = uval ts + unat a * uval bs"
    using mul_row_value [of 0 bs ts a] lt by auto
  then obtain t us where r: "r0 = t # us" using Cons.prems(1,2) by (cases r0) auto
  have len: "length ts = Suc (length us)" using r0(2) r by simp
  have tot: "unat t + radix * (uval us + uval as * uval bs) = uval ts + uval (a # as) * uval bs"
    using r0(3) by (simp add: r algebra_simps)
  then have "radix * (uval us + uval as * uval bs) \<le> uval ts + uval (a # as) * uval bs" by linarith
  also have "\<dots> < radix * radix ^ length us" using Cons.prems(3) by (simp only: len power_Suc)
  finally have "uval us + uval as * uval bs < radix ^ length us" by (simp only: mult_less_cancel1)
  then obtain r1 where r1: "mul_rows as bs us = Some r1" "length r1 = length us" "uval r1 = uval us + uval as * uval bs"
    using Cons.IH [of us] Cons.prems(1,2) len by auto
  have "mul_rows (a # as) bs ts = Some (t # r1)" using r0(1) r r1(1) by simp
  moreover have "uval (t # r1) = uval ts + uval (a # as) * uval bs" using tot r1(3) by simp
  ultimately show ?case using r1(2) len by auto
qed

section \<open>The operators on numbers\<close>

lemma ok_wide: "uint_ok w a \<Longrightarrow> length a = uint_words w" "uint_ok w a \<Longrightarrow> uval a < 2 ^ w"
  by (simp_all add: uint_ok_def)

lemma radix_words_mod: "w \<le> 64 \<or> w \<le> 64 * n \<Longrightarrow> 0 < n \<Longrightarrow> x mod radix ^ n mod 2 ^ w = (x :: nat) mod 2 ^ w"
  unfolding radix_power by (rule mod_mod_cancel) (auto intro!: le_imp_power_dvd)

lemma words_pos: "0 < w \<Longrightarrow> 0 < uint_words w"
  using words_bounds(1) [of w] by linarith

lemma words_mod: "0 < w \<Longrightarrow> x mod radix ^ uint_words w mod 2 ^ w = (x :: nat) mod 2 ^ w"
  using radix_words_mod words_bounds(1) words_pos by blast

lemma radix_mod_small: "w \<le> 64 \<Longrightarrow> x mod radix mod 2 ^ w = (x :: nat) mod 2 ^ w"
  using radix_words_mod [of w 1 x] by simp

lemma small_result:
  assumes "0 < w" and "w \<le> 64"
  shows "uint_ok w (uint_of w (x AND small_mask w)) \<and> uval (uint_of w (x AND small_mask w)) = unat x mod 2 ^ w"
  using uval_uint_of [OF assms, of "x AND small_mask w"] by (simp only: small_mask_mod [OF assms(2)] mod_mod_trivial simp_thms)

lemma uint_add_value:
  assumes w: "0 < w" and ok: "uint_ok w a" "uint_ok w b"
  shows "uint_ok w (uint_add w a b) \<and> uval (uint_add w a b) = (uval a + uval b) mod 2 ^ w"
proof (cases "w \<le> 64")
  case True
  obtain x y where "a = [x]" "b = [y]" "uval a = unat x" "uval b = unat y"
    using uint_single [OF ok(1) w True] uint_single [OF ok(2) w True] by metis
  then show ?thesis using small_result [OF w True, of "x + y"] True by (simp add: uint_add_def unat_plus_radix radix_mod_small)
next
  case False
  have l: "length a = length b" "length (add_words 0 a b) = uint_words w" using ok by (simp_all add: uint_ok_def)
  have "uval (add_words 0 a b) mod 2 ^ w = (uval a + uval b) mod 2 ^ w"
    using uval_add_words [OF l(1), of 0] ok(1) words_mod [OF w] by (simp add: ok_wide)
  then show ?thesis using uval_top_mask [OF _ l(2)] False by (simp add: uint_add_def)
qed

lemma uint_sub_value:
  assumes w: "0 < w" and ok: "uint_ok w a" "uint_ok w b" and safe: "borrow_safe (tl b)"
  shows "uint_ok w (uint_sub w a b) \<and> int (uval (uint_sub w a b)) = (int (uval a) - int (uval b)) mod 2 ^ w"
proof (cases "w \<le> 64")
  case True
  obtain x y where x: "a = [x]" "b = [y]" "uval a = unat x" "uval b = unat y"
    using uint_single [OF ok(1) w True] uint_single [OF ok(2) w True] by metis
  have "int (unat (x - y)) = (int (unat x) - int (unat y)) mod 2 ^ 64" using sub_step(1) [of 0 x y] by (simp add: radix_def)
  then have "int (unat (x - y) mod 2 ^ w) = (int (unat x) - int (unat y)) mod 2 ^ 64 mod 2 ^ w"
    by (simp only: zmod_int of_nat_power of_nat_numeral)
  also have "\<dots> = (int (unat x) - int (unat y)) mod 2 ^ w" using True by (intro mod_mod_cancel le_imp_power_dvd)
  finally show ?thesis using small_result [OF w True, of "x - y"] True x by (simp add: uint_sub_def)
next
  case False
  have l: "length a = length b" "length (sub_words 0 a b) = uint_words w" "length a = uint_words w"
    using ok by (simp_all add: uint_ok_def)
  have "int (uval (sub_words 0 a b)) = (int (uval a) - int (uval b)) mod int (radix ^ uint_words w)"
    using uval_sub_words [OF l(1), of 0] safe l(3) by simp
  then have "int (uval (sub_words 0 a b) mod 2 ^ w) = (int (uval a) - int (uval b)) mod int (radix ^ uint_words w) mod 2 ^ w"
    by (simp only: zmod_int of_nat_power of_nat_numeral)
  also have "\<dots> = (int (uval a) - int (uval b)) mod 2 ^ w"
    unfolding radix_power using words_bounds(1) [of w]
    by (intro mod_mod_cancel) (simp only: of_nat_power of_nat_numeral le_imp_power_dvd)
  finally show ?thesis using uval_top_mask [OF _ l(2)] False by (simp add: uint_sub_def)
qed

lemma uint_mul_value:
  assumes w: "0 < w" and ok: "uint_ok w a" "uint_ok w b"
  shows "\<exists>p. uint_mul w a b = Some p \<and> uint_ok w p \<and> uval p = (uval a * uval b) mod 2 ^ w"
proof (cases "w \<le> 64")
  case True
  obtain x y where x: "a = [x]" "b = [y]" "uval a = unat x" "uval b = unat y"
    using uint_single [OF ok(1) w True] uint_single [OF ok(2) w True] by metis
  have "unat (x * y) = (unat x * unat y) mod radix" by (simp add: unat_word_ariths radix_def)
  then show ?thesis using small_result [OF w True, of "x * y"] True x by (simp add: uint_mul_def radix_mod_small)
next
  case False
  let ?n = "uint_words w" and ?z = "replicate (2 * uint_words w) 0 :: uint"
  have z: "uval (replicate k 0) = 0" for k by (induction k) simp_all
  have l: "length a = ?n" "length b = ?n" using ok by (simp_all add: ok_wide)
  have "uval a * uval b < radix ^ ?n * radix ^ ?n"
    using uval_less [of a] uval_less [of b] unfolding l by (intro mult_strict_mono) simp_all
  then have "uval ?z + uval a * uval b < radix ^ length ?z" by (simp add: z mult_2 power_add)
  moreover have "length a + length b \<le> length ?z" "0 < length b" using l words_pos [OF w] by simp_all
  ultimately obtain r where r: "mul_rows a b ?z = Some r" "length r = 2 * ?n" "uval r = uval a * uval b"
    using mul_rows_value [of a b ?z] by (auto simp: z)
  have t: "length (take ?n r) = ?n" "uval (take ?n r) mod 2 ^ w = (uval a * uval b) mod 2 ^ w"
    using r(2,3) words_mod [OF w] by (simp_all add: uval_take)
  then show ?thesis using uval_top_mask [OF _ t(1)] r(1) False by (simp add: uint_mul_def)
qed

section \<open>Bitwise operators and comparisons on numbers\<close>

lemma small_bits: "0 < w \<Longrightarrow> w \<le> 64 \<Longrightarrow> uint_ok w (uint_of w x) \<and> uval (uint_of w x) = take_bit w (unat x)"
  unfolding take_bit_eq_mod by (rule uval_uint_of)

lemma uint_ok_take_bit: "uint_ok w a \<Longrightarrow> take_bit w (uval a) = uval a"
  by (rule take_bit_nat_eq_self) (rule ok_wide)

lemma ok_take_bitI: "length r = uint_words w \<Longrightarrow> take_bit w (uval r) = uval r \<Longrightarrow> uint_ok w r"
  by (simp add: uint_ok_def take_bit_nat_eq_self_iff)

lemma uval_map2:
  assumes "length as = length bs"
  shows "uval (map2 (AND) as bs) = uval as AND uval bs"
    and "uval (map2 (OR) as bs) = uval as OR uval bs"
    and "uval (map2 (XOR) as bs) = uval as XOR uval bs"
  using assms by (intro bit_eqI; auto simp: bit_uval bit_simps)+

lemma uint_and_value:
  assumes w: "0 < w" and ok: "uint_ok w a" "uint_ok w b"
  shows "uint_ok w (uint_and w a b) \<and> uval (uint_and w a b) = uval a AND uval b"
proof -
  have t: "take_bit w (uval a AND uval b) = uval a AND uval b" using ok by (simp add: uint_ok_take_bit)
  show ?thesis
  proof (cases "w \<le> 64")
    case True
    obtain x y where x: "a = [x]" "b = [y]" "uval a = unat x" "uval b = unat y"
      using uint_single [OF ok(1) w True] uint_single [OF ok(2) w True] by metis
    then show ?thesis using small_bits [OF w True, of "x AND y"] True t by (simp add: uint_and_def unsigned_and_eq)
  next
    case False
    then show ?thesis using ok t by (auto simp: uint_and_def ok_wide uval_map2 intro!: ok_take_bitI)
  qed
qed

lemma uint_or_value:
  assumes w: "0 < w" and ok: "uint_ok w a" "uint_ok w b"
  shows "uint_ok w (uint_or w a b) \<and> uval (uint_or w a b) = uval a OR uval b"
proof -
  have t: "take_bit w (uval a OR uval b) = uval a OR uval b" using ok by (simp add: uint_ok_take_bit)
  show ?thesis
  proof (cases "w \<le> 64")
    case True
    obtain x y where x: "a = [x]" "b = [y]" "uval a = unat x" "uval b = unat y"
      using uint_single [OF ok(1) w True] uint_single [OF ok(2) w True] by metis
    then show ?thesis using small_bits [OF w True, of "x OR y"] True t by (simp add: uint_or_def unsigned_or_eq)
  next
    case False
    then show ?thesis using ok t by (auto simp: uint_or_def ok_wide uval_map2 intro!: ok_take_bitI)
  qed
qed

lemma uint_xor_value:
  assumes w: "0 < w" and ok: "uint_ok w a" "uint_ok w b"
  shows "uint_ok w (uint_xor w a b) \<and> uval (uint_xor w a b) = uval a XOR uval b"
proof -
  have t: "(uval a XOR uval b) mod 2 ^ w = uval a XOR uval b" using ok by (simp add: uint_ok_take_bit flip: take_bit_eq_mod)
  show ?thesis
  proof (cases "w \<le> 64")
    case True
    obtain x y where x: "a = [x]" "b = [y]" "uval a = unat x" "uval b = unat y"
      using uint_single [OF ok(1) w True] uint_single [OF ok(2) w True] by metis
    then show ?thesis using small_result [OF w True, of "x XOR y"] True t by (simp add: uint_xor_def unsigned_xor_eq)
  next
    case False
    have l: "length (map2 (XOR) a b) = uint_words w" using ok by (simp add: ok_wide)
    show ?thesis using uval_top_mask [OF _ l] False t ok by (simp add: uint_xor_def uval_map2 ok_wide)
  qed
qed

lemma unat_not: "unat (NOT (x :: u64)) + unat x + 1 = radix"
proof -
  have "NOT x = - 1 - x" by (simp add: not_eq_complement)
  moreover have "x \<le> - 1" by simp
  ultimately have "unat (NOT x) = unat (- 1 :: u64) - unat x" by (simp only: unat_sub)
  moreover have "unat (- 1 :: u64) = radix - 1" by (simp add: radix_def unsigned_minus_1_eq_mask mask_eq_exp_minus_1)
  ultimately show ?thesis using unat_less_radix [of x] by linarith
qed

lemma uval_map_not: "uval (map NOT a) + uval a + 1 = radix ^ length a"
proof (induction a)
  case (Cons x a)
  have "uval (map NOT (x # a)) + uval (x # a) + 1 = (unat (NOT x) + unat x + 1) + radix * (uval (map NOT a) + uval a)"
    by (simp add: algebra_simps)
  also have "\<dots> = radix * (uval (map NOT a) + uval a + 1)" unfolding unat_not by simp
  finally show ?case unfolding Cons by simp
qed simp

lemma complement_mod:
  assumes "y + x + 1 = 2 ^ k * 2 ^ w" and "x < 2 ^ w"
  shows "y mod 2 ^ w = 2 ^ w - 1 - (x :: nat)"
proof -
  obtain j :: nat where j: "2 ^ k = Suc j" by (cases "2 ^ k :: nat") auto
  have "y = (2 ^ w - 1 - x) + j * 2 ^ w" using assms unfolding j by simp
  moreover have "(2 ^ w - 1 - x) mod 2 ^ w = 2 ^ w - 1 - x" by simp
  ultimately show ?thesis by simp
qed

lemma uint_not_value:
  assumes w: "0 < w" and ok: "uint_ok w a"
  shows "uint_ok w (uint_not w a) \<and> uval (uint_not w a) = 2 ^ w - 1 - uval a"
proof (cases "w \<le> 64")
  case True
  obtain x where x: "a = [x]" "uval a = unat x" "unat x < 2 ^ w" using uint_single [OF ok w True] by metis
  have "radix = 2 ^ (64 - w) * 2 ^ w" using True by (simp add: radix_def flip: power_add)
  then have "unat (NOT x) mod 2 ^ w = 2 ^ w - 1 - unat x" using unat_not [of x] x(3) by (intro complement_mod) simp_all
  then show ?thesis using small_result [OF w True, of "NOT x"] True x by (simp add: uint_not_def)
next
  case False
  have l: "length (map NOT a) = uint_words w" using ok by (simp add: ok_wide)
  have "radix ^ uint_words w = 2 ^ (64 * uint_words w - w) * 2 ^ w"
    using words_bounds(1) [of w] by (simp add: radix_power flip: power_add)
  then have "uval (map NOT a) mod 2 ^ w = 2 ^ w - 1 - uval a"
    using uval_map_not [of a] ok by (intro complement_mod) (simp_all add: ok_wide)
  then show ?thesis using uval_top_mask [OF _ l] False by (simp add: uint_not_def)
qed

lemma uval_rev_Cons: "uval (rev (x # xs)) = uval (rev xs) + radix ^ length xs * unat x"
  by (simp add: uval_append)

lemma less_words_value:
  "length xs = length ys \<Longrightarrow> less_words xs ys \<longleftrightarrow> uval (rev xs) < uval (rev ys)"
proof (induction xs ys rule: list_induct2)
  case (Cons x xs y ys)
  have lx: "uval (rev xs) < radix ^ length xs" and ly: "uval (rev ys) < radix ^ length xs"
    using uval_less [of "rev xs"] uval_less [of "rev ys"] Cons.hyps by simp_all
  have step: "u + m * p < v + m * q" if "u < m" "p < q" for u v m p q :: nat
  proof -
    have "u + m * p < m * Suc p" using that(1) by simp
    also have "\<dots> \<le> m * q" using that(2) by (intro mult_le_mono) simp_all
    finally show ?thesis by simp
  qed
  note up = step [OF lx, of "unat x" "unat y" "uval (rev ys)"] and down = step [OF ly, of "unat y" "unat x" "uval (rev xs)"]
  show ?case unfolding uval_rev_Cons less_words.simps Cons.hyps [symmetric] using up down Cons.IH
    by (auto simp: word_less_nat_alt word_unat_eq_iff not_less)
qed simp

lemma eq_words_iff: "length xs = length ys \<Longrightarrow> eq_words xs ys \<longleftrightarrow> xs = ys"
  by (induction xs ys rule: list_induct2) simp_all

lemma uint_less_value:
  assumes w: "0 < w" and ok: "uint_ok w a" "uint_ok w b"
  shows "uint_less w a b \<longleftrightarrow> uval a < uval b"
proof (cases "w \<le> 64")
  case True
  obtain x y where "a = [x]" "b = [y]" using uint_single [OF ok(1) w True] uint_single [OF ok(2) w True] by metis
  then show ?thesis using True by (simp add: uint_less_def word_less_nat_alt)
next
  case False
  then show ?thesis using ok less_words_value [of "rev a" "rev b"] by (simp add: uint_less_def ok_wide)
qed

lemma uint_eq_value:
  assumes w: "0 < w" and ok: "uint_ok w a" "uint_ok w b"
  shows "uint_eq w a b \<longleftrightarrow> uval a = uval b"
proof (cases "w \<le> 64")
  case True
  obtain x y where "a = [x]" "b = [y]" using uint_single [OF ok(1) w True] uint_single [OF ok(2) w True] by metis
  then show ?thesis using True by (simp add: uint_eq_def word_unat_eq_iff)
next
  case False
  have "length a = length b" using ok by (simp add: ok_wide)
  then show ?thesis using False uval_inj [of a b] by (auto simp: uint_eq_def eq_words_iff)
qed

section \<open>Conversion and bit windows\<close>

lemma uval_zeros [simp]: "uval (replicate n 0) = 0"
  by (induction n) simp_all

lemma uint_conv_value:
  assumes w: "0 < w" and ow: "0 < ow" and ok: "uint_ok ow v" and wide: "w \<le> 64 \<or> 64 < ow"
  shows "uint_ok w (uint_conv ow w v) \<and> uval (uint_conv ow w v) = uval v mod 2 ^ w"
proof (cases "w \<le> 64")
  case True
  obtain x u where v: "v = x # u" using ok words_pos [OF ow] by (cases v) (auto simp: uint_ok_def)
  have "(unat x + radix * uval u) mod radix mod 2 ^ w = unat x mod 2 ^ w" by simp
  then have "uval v mod 2 ^ w = unat x mod 2 ^ w" unfolding radix_mod_small [OF True] v by simp
  moreover have "uint_conv ow w v = uint_of w (x AND small_mask w)"
    using True by (simp add: v uint_conv_def uint_of_def and.assoc)
  ultimately show ?thesis using small_result [OF w True, of x] by simp
next
  case False
  let ?m = "map (\<lambda>i. if i < uint_words ow then v ! i else 0) [0..<uint_words w]"
  have len: "length v = uint_words ow" using ok by (rule ok_wide)
  have "?m = take (uint_words w) v @ replicate (uint_words w - uint_words ow) 0"
    by (rule nth_equalityI) (auto simp: len nth_append)
  then have "uval ?m mod 2 ^ w = uval v mod 2 ^ w"
    using words_mod [OF w] by (simp add: uval_append uval_take)
  then show ?thesis using uval_top_mask [of w ?m] False by (simp add: uint_conv_def)
qed

definition window_word :: "uint \<Rightarrow> nat \<Rightarrow> nat \<Rightarrow> nat \<Rightarrow> u64" where
  "window_word v lo nb i =
     (if lo mod 64 \<noteq> 0 \<and> lo mod 64 + nb > (i + 1) * 64
      then drop_bit (lo mod 64) (v ! (lo div 64 + i)) OR push_bit (64 - lo mod 64) (v ! (lo div 64 + i + 1))
      else drop_bit (lo mod 64) (v ! (lo div 64 + i)))"

lemma bit_window_word:
  assumes j: "j < 64" and nb: "64 * i + j < nb" and len: "(lo + (64 * i + j)) div 64 < length v"
  shows "bit (window_word v lo nb i) j \<longleftrightarrow> bit (uval v) (lo + (64 * i + j))"
proof -
  obtain q s where lo: "lo = 64 * q + s" "s < 64" "lo div 64 = q" "lo mod 64 = s" by (rule div_mod_64E)
  show ?thesis
  proof (cases "s + j < 64")
    case True
    have p: "lo + (64 * i + j) = 64 * (q + i) + (s + j)" using lo(1) by simp
    have "(lo + (64 * i + j)) div 64 = q + i" unfolding p by (rule div_nat_eqI) (use True in simp_all)
    moreover have "(lo + (64 * i + j)) mod 64 = s + j" unfolding p by (simp only: mod_mult_self4 mod_less [OF True])
    ultimately show ?thesis using len True unfolding window_word_def lo(3,4) bit_uval by (auto simp: bit_simps)
  next
    case False
    let ?r = "s + j - 64"
    have r: "?r < 64" "j - (64 - s) = ?r" "64 - s \<le> j" using False lo(2) j by linarith+
    have p: "lo + (64 * i + j) = 64 * (q + i + 1) + ?r" using False lo(1) by simp
    have d: "(lo + (64 * i + j)) div 64 = q + i + 1" unfolding p by (rule div_nat_eqI) (use r in simp_all)
    have m: "(lo + (64 * i + j)) mod 64 = ?r" unfolding p by (simp only: mod_mult_self4 mod_less [OF r(1)])
    have "s \<noteq> 0" using False j by linarith
    moreover have "s + nb > (i + 1) * 64" using False nb by simp
    moreover have "\<not> bit (v ! (q + i)) (s + j)" using False bit_imp_le_length [of "v ! (q + i)" "s + j"] by auto
    ultimately show ?thesis using len d m r j unfolding window_word_def lo(3,4) bit_uval by (auto simp: bit_simps)
  qed
qed

lemma position_in_words: "k < w \<Longrightarrow> k div 64 < uint_words w"
  unfolding div_64_less using words_bounds(1) [of w] by linarith

lemma uint_extract_value:
  fixes nb :: nat
  assumes ok: "uint_ok w v" and lo: "lo \<le> hi" and hi: "hi < w"
    and r: "uint_extract w hi lo v = Some r" and nb: "nb = hi - lo + 1"
  shows "length r = uint_words nb \<and> take_bit nb (uval r) = take_bit nb (drop_bit lo (uval v))"
proof -
  have pos: "0 < nb" "lo + nb \<le> w" using nb lo hi by simp_all
  have inside: "(lo + k) div 64 < length v" if "k < nb" for k
    using that pos position_in_words [of "lo + k" w] ok by (simp add: uint_ok_def)
  consider "w \<le> 64" | "64 < w" "nb < 64" | "64 < w" "64 < nb" | "64 < w" "nb = 64" by linarith
  then show ?thesis
  proof cases
    case 1
    then have n: "nb \<le> 64" "0 < w" using pos by linarith+
    obtain x where x: "v = [x]" "uval v = unat x" using uint_single [OF ok n(2) 1] by metis
    have "r = uint_of nb (drop_bit lo x AND small_mask nb)"
      using r 1 unfolding uint_extract_def Let_def nb [symmetric] x by simp
    then have "uint_ok nb r" "uval r = take_bit nb (unat (drop_bit lo x))"
      using small_result [OF pos(1) n(1), of "drop_bit lo x"] by (simp_all add: take_bit_eq_mod)
    moreover have "unat (drop_bit lo x) = drop_bit lo (unat x)"
      by (rule bit_eqI) (auto simp: bit_simps dest: bit_imp_le_length)
    ultimately show ?thesis by (simp add: uint_ok_def x)
  next
    case 2
    have win: "(if lo mod 64 + nb > 64 then drop_bit (lo mod 64) (v ! (lo div 64)) OR push_bit (64 - lo mod 64) (v ! (lo div 64 + 1))
        else drop_bit (lo mod 64) (v ! (lo div 64))) = window_word v lo nb 0"
      using 2(2) by (simp add: window_word_def)
    have "r = uint_of nb (window_word v lo nb 0 AND (push_bit nb 1 - 1))"
      using r 2 unfolding uint_extract_def Let_def nb [symmetric] win by simp
    then have "r = uint_of nb (window_word v lo nb 0 AND small_mask nb)" using 2(2) by (simp add: small_mask_def)
    then have u: "uint_ok nb r" "uval r = take_bit nb (unat (window_word v lo nb 0))"
      using small_result [OF pos(1), of "window_word v lo nb 0"] 2(2) by (simp_all add: take_bit_eq_mod)
    have "bit (window_word v lo nb 0) k = bit (uval v) (lo + k)" if "k < nb" for k
      using bit_window_word [of k 0 nb lo v] that 2(2) inside [OF that] by simp
    then have "take_bit nb (unat (window_word v lo nb 0)) = take_bit nb (drop_bit lo (uval v))"
      by (intro bit_eqI) (auto simp: bit_simps dest: bit_imp_le_length)
    then show ?thesis using u by (simp add: uint_ok_def)
  next
    case 3
    have "r = map (window_word v lo nb) [0..<uint_words nb]"
      using r 3 unfolding uint_extract_def Let_def nb [symmetric] window_word_def by simp
    moreover have "bit (uval (map (window_word v lo nb) [0..<uint_words nb])) k = bit (uval v) (lo + k)" if "k < nb" for k
    proof -
      have "k div 64 < uint_words nb" using that by (rule position_in_words)
      then show ?thesis
        using bit_window_word [of "k mod 64" "k div 64" nb lo v] that inside [OF that] by (simp add: bit_uval [of "map _ _"])
    qed
    ultimately show ?thesis by (auto intro!: bit_eqI simp: bit_take_bit_iff bit_drop_bit_eq)
  next
    case 4
    then show ?thesis using r unfolding uint_extract_def Let_def nb [symmetric] by simp
  qed
qed

section \<open>Properties\<close>

text \<open>Concrete values for the witnesses: their words are written out, so the number is a sum of powers.\<close>

lemmas uint_values = uint_ok_def uint_words_def radix_def borrow_safe_def

text \<open>
  C28. Wide arithmetic is arithmetic modulo the width: on values of any width (the narrow ones in one word, the
  wide ones in an array), the carry chain of addition and the schoolbook product with its 128-bit
  intermediates give the sum and the product of the operands modulo \<open>2 ^ w\<close>, with the bits above the width
  clear; the product never runs past its double-length array and its carry loop ends. Subtraction gives the
  difference modulo \<open>2 ^ w\<close> unless a borrow can meet a word of ones that is neither the first nor the last:
  there the borrow is lost, and a 192-bit subtraction is wrong.
\<close>

theorem uint_arithmetic_modular:
  assumes "0 < w" and "uint_ok w a" and "uint_ok w b"
  shows "(uint_ok w (uint_add w a b) \<and> uval (uint_add w a b) = (uval a + uval b) mod 2 ^ w)
    \<and> (\<exists>p. uint_mul w a b = Some p \<and> uint_ok w p \<and> uval p = (uval a * uval b) mod 2 ^ w)
    \<and> (borrow_safe (tl b) \<longrightarrow>
        uint_ok w (uint_sub w a b) \<and> int (uval (uint_sub w a b)) = (int (uval a) - int (uval b)) mod 2 ^ w)
    \<and> (uint_ok 192 [1, - 1, 0] \<and> uval (uint_sub 192 [0, 0, 0] [1, - 1, 0]) = 2 ^ 64 - 1)"
proof (intro conjI impI)
  show "uint_ok 192 [1, - 1, 0]" by (simp add: uint_values unsigned_minus_1_eq_mask mask_eq_exp_minus_1)
  show "uval (uint_sub 192 [0, 0, 0] [1, - 1, 0]) = 2 ^ 64 - 1"
    by (simp add: uint_sub_def top_mask_def uint_values Let_def unsigned_minus_1_eq_mask mask_eq_exp_minus_1)
qed (use uint_add_value [OF assms] uint_mul_value [OF assms] uint_sub_value [OF assms] in blast)+

theorem uint_arithmetic_modular_witness:
  "uval (uint_add 100 [- 1, 2 ^ 36 - 1] [1, 0]) = 0
    \<and> int (uval (uint_sub 100 [0, 0] [1, 0])) = 2 ^ 100 - 1
    \<and> (\<exists>p. uint_mul 100 [0, 1] [3, 0] = Some p \<and> uval p = 3 * 2 ^ 64)"
proof -
  have ok: "uint_ok 100 [- 1, 2 ^ 36 - 1]" "uint_ok 100 [1, 0]" "uint_ok 100 [0, 0]" "uint_ok 100 [0, 1]" "uint_ok 100 [3, 0]"
    by (simp_all add: uint_values unsigned_minus_1_eq_mask mask_eq_exp_minus_1)
  have s: "borrow_safe (tl [1, 0])" by (simp add: borrow_safe_def)
  have w: "0 < (100 :: nat)" by simp
  note t1 = uint_arithmetic_modular [OF w ok(1,2)] and t2 = uint_arithmetic_modular [OF w ok(3,2)]
    and t3 = uint_arithmetic_modular [OF w ok(4,5)]
  have "uval (uint_add 100 [- 1, 2 ^ 36 - 1] [1, 0]) = 0"
    using conjunct1 [OF t1] by (simp add: radix_def unsigned_minus_1_eq_mask mask_eq_exp_minus_1)
  moreover have "int (uval (uint_sub 100 [0, 0] [1, 0])) = 2 ^ 100 - 1" using t2 s by (simp add: radix_def)
  moreover have "\<exists>p. uint_mul 100 [0, 1] [3, 0] = Some p \<and> uval p = 3 * 2 ^ 64"
    using conjunct1 [OF conjunct2 [OF t3]] by (auto simp: radix_def)
  ultimately show ?thesis by blast
qed

text \<open>
  C32. Bitwise operators and comparisons agree with the numbers: and, or, exclusive or and complement of any width keep
  the value within the width and compute the bitwise operation on the numbers (complement being
  \<open>2 ^ w - 1 - x\<close>), and the word-by-word comparisons from the top decide equality and order of the numbers, all six of them.
\<close>

theorem uint_bitwise_and_order:
  assumes "0 < w" and "uint_ok w a" and "uint_ok w b"
  shows "uint_ok w (uint_and w a b) \<and> uval (uint_and w a b) = uval a AND uval b
    \<and> uint_ok w (uint_or w a b) \<and> uval (uint_or w a b) = uval a OR uval b
    \<and> uint_ok w (uint_xor w a b) \<and> uval (uint_xor w a b) = uval a XOR uval b
    \<and> uint_ok w (uint_not w a) \<and> uval (uint_not w a) = 2 ^ w - 1 - uval a
    \<and> (uint_eq w a b \<longleftrightarrow> uval a = uval b) \<and> (uint_ne w a b \<longleftrightarrow> uval a \<noteq> uval b)
    \<and> (uint_less w a b \<longleftrightarrow> uval a < uval b) \<and> (uint_gt w a b \<longleftrightarrow> uval b < uval a)
    \<and> (uint_le w a b \<longleftrightarrow> uval a \<le> uval b) \<and> (uint_ge w a b \<longleftrightarrow> uval b \<le> uval a)"
  using uint_and_value [OF assms] uint_or_value [OF assms] uint_xor_value [OF assms] uint_not_value [OF assms(1,2)]
  by (auto simp: uint_ne_def uint_gt_def uint_le_def uint_ge_def uint_less_value [OF assms]
      uint_less_value [OF assms(1,3,2)] uint_eq_value [OF assms])

theorem uint_bitwise_and_order_witness:
  "uval (uint_xor 70 [5, 1] [3, 1]) = 6 \<and> uint_less 70 [5, 1] [0, 2] \<and> uval (uint_not 70 [0, 2]) = 2 ^ 70 - 1 - 2 ^ 65"
proof -
  have ok: "uint_ok 70 [5, 1]" "uint_ok 70 [3, 1]" "uint_ok 70 [0, 2]" by (simp_all add: uint_values)
  have w: "0 < (70 :: nat)" by simp
  show ?thesis
    using uint_bitwise_and_order [OF w ok(1,2)] uint_bitwise_and_order [OF w ok(1,3)] uint_bitwise_and_order [OF w ok(3,1)]
    by (simp add: radix_def)
qed

text \<open>
  C33. Bit windows and conversions: converting between widths (the instances that compile: to a narrow width from any, to a wide one from
  a wide one) keeps the value modulo the new width; extracting bits \<open>hi..lo\<close> gives, on the low \<open>hi - lo + 1\<close> bits, the value shifted right
  by \<open>lo\<close>. The result is a value of the new width when it is narrower than a word; a 64-bit window of a wide value shifts by the full width,
  which is undefined, and a wider one can leave bits of its last word above the width: a
  73-bit window of a 192-bit value does.
\<close>

theorem uint_conversions_and_windows:
  assumes "0 < w" and "0 < ow" and "uint_ok w v" and "ow \<le> 64 \<or> 64 < w" and "lo \<le> hi" and "hi < w"
  shows "(uint_ok ow (uint_conv w ow v) \<and> uval (uint_conv w ow v) = uval v mod 2 ^ ow)
    \<and> (uint_extract w hi lo v = None \<longleftrightarrow> 64 < w \<and> hi - lo + 1 = 64)
    \<and> (\<forall>r. uint_extract w hi lo v = Some r \<longrightarrow>
        length r = uint_words (hi - lo + 1) \<and> uval r mod 2 ^ (hi - lo + 1) = uval v div 2 ^ lo mod 2 ^ (hi - lo + 1)
        \<and> (w \<le> 64 \<or> hi - lo + 1 < 64 \<longrightarrow> uint_ok (hi - lo + 1) r))
    \<and> (uint_ok 192 [0, 0, - 1] \<and> uint_extract 192 136 64 [0, 0, - 1] = Some [0, - 1] \<and> \<not> uint_ok 73 [0, - 1])"
proof (intro conjI allI impI)
  show "uint_ok ow (uint_conv w ow v)" "uval (uint_conv w ow v) = uval v mod 2 ^ ow"
    using uint_conv_value [OF assms(2,1,3,4)] by blast+
  show "uint_extract w hi lo v = None \<longleftrightarrow> 64 < w \<and> hi - lo + 1 = 64" using assms(5,6) by (auto simp: uint_extract_def Let_def)
  show "uint_ok 192 [0, 0, - 1]" "\<not> uint_ok 73 [0, - 1]" "uint_extract 192 136 64 [0, 0, - 1] = Some [0, - 1]"
    by (simp_all add: uint_values uint_extract_def unsigned_minus_1_eq_mask mask_eq_exp_minus_1 upt_rec)
  fix r
  assume r: "uint_extract w hi lo v = Some r"
  note val = uint_extract_value [OF assms(3,5,6) r refl]
  show "length r = uint_words (hi - lo + 1)" "uval r mod 2 ^ (hi - lo + 1) = uval v div 2 ^ lo mod 2 ^ (hi - lo + 1)"
    using val by (simp_all only: take_bit_eq_mod drop_bit_eq_div)
  assume n: "w \<le> 64 \<or> hi - lo + 1 < 64"
  have p: "0 < hi - lo + 1" "hi - lo + 1 \<le> 64" using n assms(5,6) by linarith+
  obtain x where "r = uint_of (hi - lo + 1) x" using r n by (auto simp: uint_extract_def Let_def split: if_splits)
  then show "uint_ok (hi - lo + 1) r" using uval_uint_of [OF p] by blast
qed

theorem uint_conversions_and_windows_witness:
  "uval (uint_conv 128 70 [7, 65]) = 7 + 2 ^ 64 \<and> (\<exists>r. uint_extract 128 67 60 [push_bit 60 5, 11] = Some r \<and> uval r = 181)"
proof -
  have ok: "uint_ok 128 [7, 65]" "uint_ok 128 [push_bit 60 5, 11]" by (simp_all add: uint_values)
  have w: "0 < (128 :: nat)" "0 < (70 :: nat)" "(70 :: nat) \<le> 64 \<or> (64 :: nat) < 128"
     "(60 :: nat) \<le> 67" "67 < (128 :: nat)" by simp_all
  note t = uint_conversions_and_windows [OF w(1,2) ok(1) w(3,4,5)] and t' = uint_conversions_and_windows [OF w(1,2) ok(2) w(3,4,5)]
  have "uval (uint_conv 128 70 [7, 65]) = 7 + 2 ^ 64" using conjunct1 [OF t] by (simp add: radix_def)
  moreover obtain r where r: "uint_extract 128 67 60 [push_bit 60 5, 11] = Some r" using t' by (cases "uint_extract 128 67 60 [push_bit 60 5, 11]") auto
  moreover have "uint_ok 8 r" "uval r mod 2 ^ 8 = uval [push_bit 60 5, 11] div 2 ^ 60 mod 2 ^ 8" using t' r by simp_all
  ultimately show ?thesis by (auto simp: uint_ok_def radix_def)
qed

end
