(* ===== verification/PageMap.thy ===== *)
theory PageMap
  imports SimCommon
begin

text \<open>
  The physical page allocator and the page table of a simulated process (\<^verbatim>\<open>sys/pagemmap.h\<close>). The spin lock has no
  sequential effect. A failed assertion is a value of \<^verbatim>\<open>PageErr\<close>; a loop that does not end is \<^verbatim>\<open>no_return\<close>.
  A host address is the 64-bit number of the pointer. The hash maps are maps: nothing here depends on their iteration order but the
  destructor, which takes the order as an argument.
\<close>

section \<open>Physical pages\<close>

datatype PageErr = misaligned_segment | no_return | unknown_page | out_of_memory | page_not_allocated
  | page_reallocated | address_space_full | page_not_mapped | page_not_cow

abbreviation PAGE_LEN_BYTE :: u64 where "PAGE_LEN_BYTE \<equiv> 4096"

record PhysPageAllocator =
  page_real_addr :: "u64 \<rightharpoonup> u64"
  valid_pages :: "u64 list"
  alloced_pages :: "u64 \<rightharpoonup> u32"

partial_function (option) init_pages :: "u64 \<Rightarrow> u64 \<Rightarrow> u64 \<Rightarrow> u64 \<Rightarrow> PhysPageAllocator \<Rightarrow> PhysPageAllocator option" where
  "init_pages ppa start sz p_mem p =
     (if ppa + PAGE_LEN_BYTE \<le> start + sz
      then init_pages (ppa + PAGE_LEN_BYTE) start sz p_mem
        (p\<lparr>valid_pages := valid_pages p @ [drop_bit page_addr_offset ppa],
           page_real_addr := (if page_real_addr p (drop_bit page_addr_offset ppa) = None
             then (page_real_addr p)(drop_bit page_addr_offset ppa \<mapsto> p_mem + (ppa - start)) else page_real_addr p)\<rparr>)
      else Some p)"

definition init_segment :: "u64 \<Rightarrow> u64 \<Rightarrow> u64 \<Rightarrow> PhysPageAllocator \<Rightarrow> PageErr + PhysPageAllocator" where
  "init_segment start sz p_mem p =
     ebind (check misaligned_segment (start AND (PAGE_LEN_BYTE - 1) = 0)) (\<lambda>_.
     ebind (check misaligned_segment (sz AND (PAGE_LEN_BYTE - 1) = 0)) (\<lambda>_.
     require no_return (init_pages start start sz p_mem p)))"

definition new_allocator :: "u64 \<Rightarrow> u64 \<Rightarrow> u64 \<Rightarrow> PageErr + PhysPageAllocator" where
  "new_allocator start sz p_mem =
     init_segment start sz p_mem \<lparr>page_real_addr = Map.empty, valid_pages = [], alloced_pages = Map.empty\<rparr>"

definition real_addr_of :: "u64 \<Rightarrow> PhysPageAllocator \<Rightarrow> PageErr + u64" where
  "real_addr_of ppindex p = require unknown_page (page_real_addr p ppindex)"

definition page_alloc :: "PhysPageAllocator \<Rightarrow> PageErr + u64 \<times> PhysPageAllocator" where
  "page_alloc p =
     (case valid_pages p of [] \<Rightarrow> Inl out_of_memory
      | ret # rest \<Rightarrow> Inr (ret, p\<lparr>valid_pages := rest,
          alloced_pages := (if alloced_pages p ret = None then (alloced_pages p)(ret \<mapsto> 1) else alloced_pages p)\<rparr>))"

definition page_reuse :: "u64 \<Rightarrow> PhysPageAllocator \<Rightarrow> PageErr + PhysPageAllocator" where
  "page_reuse ppindex p =
     ebind (require page_not_allocated (alloced_pages p ppindex)) (\<lambda>c.
     Inr (p\<lparr>alloced_pages := (alloced_pages p)(ppindex \<mapsto> c + 1)\<rparr>))"

definition page_free :: "u64 \<Rightarrow> PhysPageAllocator \<Rightarrow> PageErr + bool \<times> PhysPageAllocator" where
  "page_free ppindex p =
     ebind (require page_not_allocated (alloced_pages p ppindex)) (\<lambda>c.
     if c \<le> 1 then Inr (True, p\<lparr>alloced_pages := (alloced_pages p)(ppindex := None)\<rparr>)
     else Inr (False, p\<lparr>alloced_pages := (alloced_pages p)(ppindex \<mapsto> c - 1)\<rparr>))"

definition is_shared :: "u64 \<Rightarrow> PhysPageAllocator \<Rightarrow> bool" where
  "is_shared ppindex p = (case alloced_pages p ppindex of None \<Rightarrow> False | Some c \<Rightarrow> c > 1)"

section \<open>Page tables and their segments\<close>

record PPageEntry =
  pe_ppi :: u64
  pe_flg :: u32
  pe_fd :: u32
  pe_offset :: u64

record VAddrSeg =
  sg_vpindex :: u64
  sg_vpcnt :: u64
  sg_info :: string

type_synonym entries = "u64 \<rightharpoonup> PPageEntry"

record ThreadPageTable =
  brk_va :: u64
  mmap_segments :: "VAddrSeg list"
  pgtable :: entries
  dyn_lib_brk :: u64

definition MIN_VADDR :: u64 where "MIN_VADDR = 0x100000000000"
definition MAX_MMAP_VADDR :: u64 where "MAX_MMAP_VADDR = 0xb00000000000"
definition MAX_VADDR :: u64 where "MAX_VADDR = 0xc00000000000"

definition PGFLAG_R :: u32 where "PGFLAG_R = 1"
definition PGFLAG_W :: u32 where "PGFLAG_W = 2"
definition PGFLAG_X :: u32 where "PGFLAG_X = 4"
definition PGFLAG_SHARE :: u32 where "PGFLAG_SHARE = 16"
definition PGFLAG_COW :: u32 where "PGFLAG_COW = 64"

definition new_page_table :: ThreadPageTable where
  "new_page_table = \<lparr>brk_va = 0, mmap_segments = [], pgtable = Map.empty, dyn_lib_brk = MAX_MMAP_VADDR\<rparr>"

definition page_of :: "u64 \<Rightarrow> u64" where "page_of a = drop_bit page_addr_offset a"
definition page_end :: "u64 \<Rightarrow> u64" where "page_end a = page_of (ALIGN a PAGE_LEN_BYTE)"
definition page_base :: "u64 \<Rightarrow> u64" where "page_base v = push_bit page_addr_offset v"
definition seg_end :: "VAddrSeg \<Rightarrow> u64" where "seg_end s = sg_vpindex s + sg_vpcnt s"

lemma unat_Suc_less: "v < s \<Longrightarrow> unat (v + 1) = Suc (unat (v :: u64))"
proof -
  assume "v < s"
  then have "v < - 1" using word_order.extremum_strict [of v] by (metis max_word_max order_less_le_trans word_n1_ge)
  then have "v + 1 \<noteq> 0" by (metis add.commute add_eq_0_iff less_irrefl minus_minus)
  then show ?thesis by (simp add: unatSuc add.commute)
qed

function (sequential) alloc_pages ::
  "u64 \<Rightarrow> u64 \<Rightarrow> u32 \<Rightarrow> u32 \<Rightarrow> u64 \<Rightarrow> PhysPageAllocator \<times> entries \<Rightarrow> PageErr + PhysPageAllocator \<times> entries" where
  "alloc_pages vpi stop flag fd offset (p, t) =
     (if vpi < stop then
        if t vpi \<noteq> None then Inl page_reallocated
        else ebind (page_alloc p) (\<lambda>(ppi, p').
          alloc_pages (vpi + 1) stop flag fd (if 0 < sint fd then offset + PAGE_LEN_BYTE else offset)
            (p', t(vpi \<mapsto> \<lparr>pe_ppi = ppi, pe_flg = flag, pe_fd = fd, pe_offset = offset\<rparr>)))
      else Inr (p, t))"
  by pat_completeness auto
termination
  by (relation "measure (\<lambda>(vpi, stop, _). unat stop - unat vpi)") (auto simp: unat_Suc_less word_less_nat_alt)

definition alloc_multi_page ::
  "u64 \<Rightarrow> u64 \<Rightarrow> u32 \<Rightarrow> u32 \<Rightarrow> u64 \<Rightarrow> PhysPageAllocator \<times> ThreadPageTable \<Rightarrow> PageErr + PhysPageAllocator \<times> ThreadPageTable" where
  "alloc_multi_page vpindex vpcnt flag fd offset s =
     ebind (alloc_pages vpindex (vpindex + vpcnt) flag fd offset (fst s, pgtable (snd s))) (\<lambda>(p, t).
     Inr (p, (snd s)\<lparr>pgtable := t\<rparr>))"

definition free_seg :: "u64 \<Rightarrow> u64 \<Rightarrow> VAddrSeg \<Rightarrow> VAddrSeg list" where
  "free_seg vpi vpi2 s =
     (let i = sg_vpindex s; i2 = seg_end s in
      if i \<ge> vpi2 \<or> i2 \<le> vpi then [s]
      else if vpi > i \<and> vpi2 < i2 then [s\<lparr>sg_vpindex := vpi2, sg_vpcnt := i2 - vpi2\<rparr>, s\<lparr>sg_vpcnt := vpi - i\<rparr>]
      else if vpi \<le> i \<and> vpi2 \<ge> i2 then []
      else if vpi2 < i2 then [s\<lparr>sg_vpindex := vpi2, sg_vpcnt := i2 - vpi2\<rparr>]
      else if vpi > i then [s\<lparr>sg_vpcnt := vpi - i\<rparr>]
      else [s])"

fun free_segs :: "u64 \<Rightarrow> u64 \<Rightarrow> VAddrSeg list \<Rightarrow> VAddrSeg list" where
  "free_segs vpi vpi2 [] = []"
| "free_segs vpi vpi2 (s # ss) = free_seg vpi vpi2 s @ free_segs vpi vpi2 ss"

function (sequential) free_pages :: "u64 \<Rightarrow> u64 \<Rightarrow> PhysPageAllocator \<times> entries \<Rightarrow> PageErr + PhysPageAllocator \<times> entries" where
  "free_pages i stop (p, t) =
     (if i < stop then
        (case t i of None \<Rightarrow> free_pages (i + 1) stop (p, t)
         | Some e \<Rightarrow> ebind (page_free (pe_ppi e) p) (\<lambda>(_, p'). free_pages (i + 1) stop (p', t(i := None))))
      else Inr (p, t))"
  by pat_completeness auto
termination
  by (relation "measure (\<lambda>(i, stop, _). unat stop - unat i)") (auto simp: unat_Suc_less word_less_nat_alt)

declare alloc_pages.simps [simp del] free_pages.simps [simp del]

definition free_mmap :: "u64 \<Rightarrow> u64 \<Rightarrow> PhysPageAllocator \<times> ThreadPageTable \<Rightarrow> PageErr + PhysPageAllocator \<times> ThreadPageTable" where
  "free_mmap va sz s =
     (let vpi = page_of va; vpi2 = page_end (va + sz) in
      ebind (free_pages vpi vpi2 (fst s, pgtable (snd s))) (\<lambda>(p, t).
      Inr (p, (snd s)\<lparr>mmap_segments := free_segs vpi vpi2 (mmap_segments (snd s)), pgtable := t\<rparr>)))"

definition alloc_mmap_fixed ::
  "u64 \<Rightarrow> u64 \<Rightarrow> u32 \<Rightarrow> u32 \<Rightarrow> u64 \<Rightarrow> string \<Rightarrow> PhysPageAllocator \<times> ThreadPageTable \<Rightarrow> PageErr + u64 \<times> PhysPageAllocator \<times> ThreadPageTable" where
  "alloc_mmap_fixed addr sz flag fd offset info s =
     (let vpi = page_of addr; vpi2 = page_end (addr + sz); new = \<lparr>sg_vpindex = vpi, sg_vpcnt = vpi2 - vpi, sg_info = info\<rparr> in
      if page_base vpi \<le> brk_va (snd s) then Inr (0, s)
      else ebind (free_mmap addr sz s) (\<lambda>(p, t).
        ebind (alloc_multi_page vpi (vpi2 - vpi) flag fd offset
          (p, t\<lparr>mmap_segments := takeWhile (\<lambda>g. \<not> seg_end g \<le> vpi) (mmap_segments t) @ new # dropWhile (\<lambda>g. \<not> seg_end g \<le> vpi) (mmap_segments t)\<rparr>)) (\<lambda>s'.
        Inr (addr, s'))))"

text \<open>The segments passed over, the segments that remain, and the end of the gap found.\<close>

fun find_gap :: "u64 \<Rightarrow> u64 \<Rightarrow> VAddrSeg list \<Rightarrow> VAddrSeg list \<times> VAddrSeg list \<times> u64" where
  "find_gap vpcnt tp [] = ([], [], tp)"
| "find_gap vpcnt tp (g # gs) =
     (if seg_end g + vpcnt \<le> tp then ([], g # gs, tp)
      else (case find_gap vpcnt (sg_vpindex g) gs of (high, low, tp') \<Rightarrow> (g # high, low, tp')))"

definition alloc_mmap ::
  "u64 \<Rightarrow> u32 \<Rightarrow> u32 \<Rightarrow> u64 \<Rightarrow> string \<Rightarrow> PhysPageAllocator \<times> ThreadPageTable \<Rightarrow> PageErr + u64 \<times> PhysPageAllocator \<times> ThreadPageTable" where
  "alloc_mmap sz flag fd offset info s =
     (let vpcnt = page_end sz;
          (high, low, tp) = find_gap vpcnt (page_of MAX_MMAP_VADDR) (mmap_segments (snd s));
          vpindex = tp - vpcnt; new = \<lparr>sg_vpindex = vpindex, sg_vpcnt = vpcnt, sg_info = info\<rparr> in
      if page_base vpindex \<le> brk_va (snd s) then Inl address_space_full
      else ebind (alloc_multi_page vpindex vpcnt flag fd offset (fst s, (snd s)\<lparr>mmap_segments := high @ new # low\<rparr>)) (\<lambda>s'.
        Inr (page_base vpindex, s')))"

definition init_elf_seg ::
  "u64 \<Rightarrow> u64 \<Rightarrow> u32 \<Rightarrow> PhysPageAllocator \<times> ThreadPageTable \<Rightarrow> PageErr + PhysPageAllocator \<times> ThreadPageTable" where
  "init_elf_seg start sz flag s =
     ebind (alloc_multi_page (page_of start) (page_end (start + sz) - page_of start)
         (flag AND (PGFLAG_R OR PGFLAG_W OR PGFLAG_X)) (- 1) 0 s) (\<lambda>(p, t).
     Inr (p, t\<lparr>brk_va := max (brk_va t) (ALIGN (start + sz) PAGE_LEN_BYTE)\<rparr>))"

definition init_dynlib_seg ::
  "u64 \<Rightarrow> u64 \<Rightarrow> u32 \<Rightarrow> PhysPageAllocator \<times> ThreadPageTable \<Rightarrow> PageErr + PhysPageAllocator \<times> ThreadPageTable" where
  "init_dynlib_seg start sz flag s =
     ebind (alloc_multi_page (page_of start) (page_end (start + sz) - page_of start)
         (flag AND (PGFLAG_R OR PGFLAG_W OR PGFLAG_X)) (- 1) 0 s) (\<lambda>(p, t).
     Inr (p, t\<lparr>dyn_lib_brk := max (dyn_lib_brk t) (ALIGN (start + sz) PAGE_LEN_BYTE)\<rparr>))"

definition alloc_brk :: "u64 \<Rightarrow> PhysPageAllocator \<times> ThreadPageTable \<Rightarrow> PageErr + u64 \<times> PhysPageAllocator \<times> ThreadPageTable" where
  "alloc_brk brk s =
     (if brk \<le> brk_va (snd s) then Inr (brk_va (snd s), s)
      else ebind (alloc_multi_page (page_end (brk_va (snd s))) (page_end brk - page_end (brk_va (snd s))) (PGFLAG_R OR PGFLAG_W) (- 1) 0 s) (\<lambda>(p, t).
        Inr (brk, p, t\<lparr>brk_va := brk\<rparr>)))"

text \<open>Copying host pages into the simulated memory: host memory is a function from addresses to bytes and holds both.\<close>

fun pgcpy_pages :: "nat \<Rightarrow> u64 \<Rightarrow> u64 \<Rightarrow> PhysPageAllocator \<times> ThreadPageTable \<Rightarrow> u64 \<Rightarrow> (u64 \<Rightarrow> u8) \<Rightarrow> PageErr + bool \<times> (u64 \<Rightarrow> u8)" where
  "pgcpy_pages 0 i vpi s hostmem m = Inr (True, m)"
| "pgcpy_pages (Suc n) i vpi s hostmem m =
     (case pgtable (snd s) (vpi + i) of None \<Rightarrow> Inr (False, m)
      | Some e \<Rightarrow> ebind (real_addr_of (pe_ppi e) (fst s)) (\<lambda>hostpg.
          pgcpy_pages n (i + 1) vpi s hostmem
            (\<lambda>a. if a - hostpg < PAGE_LEN_BYTE then m (hostmem + i * PAGE_LEN_BYTE + (a - hostpg)) else m a)))"

definition pgcpy_hostmem_to_va ::
  "u64 \<Rightarrow> u64 \<Rightarrow> u64 \<Rightarrow> PhysPageAllocator \<times> ThreadPageTable \<Rightarrow> (u64 \<Rightarrow> u8) \<Rightarrow> PageErr + bool \<times> (u64 \<Rightarrow> u8)" where
  "pgcpy_hostmem_to_va vpi vpcnt hostmem s m = pgcpy_pages (unat vpcnt) 0 vpi s hostmem m"

text \<open>Releasing every frame of a table, in the order \<^verbatim>\<open>ks\<close> in which the hash map iterates over its keys.\<close>

fun free_entries :: "u64 list \<Rightarrow> entries \<Rightarrow> PhysPageAllocator \<Rightarrow> PageErr + PhysPageAllocator" where
  "free_entries [] t p = Inr p"
| "free_entries (k # ks) t p =
     ebind (require page_not_mapped (t k)) (\<lambda>e. ebind (page_free (pe_ppi e) p) (\<lambda>(_, p'). free_entries ks t p'))"

section \<open>Page ranges\<close>

lemma range_step: "v < s \<Longrightarrow> v \<le> x \<and> x < s \<longleftrightarrow> x = v \<or> v + 1 \<le> x \<and> x < (s :: u64)"
  using unat_Suc_less [of v s] by (auto simp: word_le_nat_alt word_less_nat_alt word_unat_eq_iff)

lemma alloc_pages_map:
  "alloc_pages vpi stop flag fd offset s = Inr s' \<Longrightarrow>
    (\<forall>v. if vpi \<le> v \<and> v < stop then snd s v = None \<and> (\<exists>e. snd s' v = Some e \<and> pe_flg e = flag \<and> pe_fd e = fd)
      else snd s' v = snd s v)"
proof (induction vpi stop flag fd offset s arbitrary: s' rule: alloc_pages.induct)
  case (1 vpi stop flag fd offset p t)
  show ?case
  proof (cases "vpi < stop")
    case True
    then have none: "t vpi = None" using 1(2) by (auto simp: alloc_pages.simps split: if_splits)
    obtain f p1 where a: "page_alloc p = Inr (f, p1)"
      using 1(2) True none by (cases "page_alloc p") (auto simp: alloc_pages.simps)
    let ?t = "t(vpi \<mapsto> \<lparr>pe_ppi = f, pe_flg = flag, pe_fd = fd, pe_offset = offset\<rparr>)"
    have r: "alloc_pages (vpi + 1) stop flag fd (if 0 < sint fd then offset + PAGE_LEN_BYTE else offset) (p1, ?t) = Inr s'"
      using 1(2) True none a by (simp add: alloc_pages.simps [of vpi])
    have n: "\<not> t vpi \<noteq> None" using none by simp
    note IH = 1(1) [OF True n r]
    have up: "\<not> (vpi + 1 \<le> vpi \<and> vpi < stop)" using unat_Suc_less [OF True] by (auto simp: word_le_nat_alt)
    have rs: "vpi \<le> v \<and> v < stop \<longleftrightarrow> v = vpi \<or> vpi + 1 \<le> v \<and> v < stop" for v by (rule range_step [OF True])
    show ?thesis
    proof
      fix v
      show "if vpi \<le> v \<and> v < stop then snd (p, t) v = None \<and> (\<exists>e. snd s' v = Some e \<and> pe_flg e = flag \<and> pe_fd e = fd)
          else snd s' v = snd (p, t) v"
        using IH [rule_format, of v] IH [rule_format, of vpi] up none unfolding rs by (cases "v = vpi") (auto split: if_splits)
    qed
  next
    case False
    then show ?thesis using 1(2) by (auto simp: alloc_pages.simps)
  qed
qed

lemma alloc_pages_result:
  "\<forall>v. vpi \<le> v \<and> v < stop \<longrightarrow> snd s v = None \<Longrightarrow>
    if unat stop - unat vpi \<le> length (valid_pages (fst s)) then (\<exists>s'. alloc_pages vpi stop flag fd offset s = Inr s')
    else alloc_pages vpi stop flag fd offset s = Inl out_of_memory"
proof (induction vpi stop flag fd offset s rule: alloc_pages.induct)
  case (1 vpi stop flag fd offset p t)
  show ?case
  proof (cases "vpi < stop")
    case False
    then show ?thesis by (simp add: alloc_pages.simps word_less_nat_alt)
  next
    case True
    then have none: "t vpi = None" using 1(2) by simp
    have len: "unat stop - unat vpi = Suc (unat stop - unat (vpi + 1))"
      using unat_Suc_less [OF True] True by (simp add: word_less_nat_alt)
    show ?thesis
    proof (cases "valid_pages p")
      case Nil
      then show ?thesis using True none len by (simp add: alloc_pages.simps [of vpi] page_alloc_def)
    next
      case (Cons f rest)
      let ?p = "p\<lparr>valid_pages := rest, alloced_pages := (if alloced_pages p f = None then (alloced_pages p)(f \<mapsto> 1) else alloced_pages p)\<rparr>"
      have a: "page_alloc p = Inr (f, ?p)" using Cons by (simp add: page_alloc_def)
      let ?t = "t(vpi \<mapsto> \<lparr>pe_ppi = f, pe_flg = flag, pe_fd = fd, pe_offset = offset\<rparr>)"
      have n: "\<not> t vpi \<noteq> None" using none by simp
      have free: "\<forall>v. vpi + 1 \<le> v \<and> v < stop \<longrightarrow> snd (?p, ?t) v = None"
        using 1(2) range_step [OF True] unat_Suc_less [OF True] by (auto simp: word_le_nat_alt)
      have eq: "alloc_pages vpi stop flag fd offset (p, t) = alloc_pages (vpi + 1) stop flag fd (if 0 < sint fd then offset + PAGE_LEN_BYTE else offset) (?p, ?t)"
        using True none a by (simp add: alloc_pages.simps [of vpi])
      show ?thesis using 1(1) [OF True n free] Cons unfolding eq len by simp
    qed
  qed
qed

lemma free_pages_map:
  "free_pages i stop s = Inr s' \<Longrightarrow> (\<forall>v. snd s' v = (if i \<le> v \<and> v < stop then None else snd s v)) \<and> valid_pages (fst s') = valid_pages (fst s)"
proof (induction i stop s arbitrary: s' rule: free_pages.induct)
  case (1 i stop p t)
  show ?case
  proof (cases "i < stop")
    case False
    then show ?thesis using 1(3) by (auto simp: free_pages.simps)
  next
    case True
    note rs = range_step [OF True]
    show ?thesis
    proof (cases "t i")
      case None
      then have r: "free_pages (i + 1) stop (p, t) = Inr s'" using 1(3) True by (simp add: free_pages.simps [of i])
      show ?thesis using 1(1) [OF True None r] None unfolding rs by auto
    next
      case (Some e)
      obtain b p1 where f: "page_free (pe_ppi e) p = Inr (b, p1)"
        using 1(3) True Some by (cases "page_free (pe_ppi e) p") (auto simp: free_pages.simps)
      then have r: "free_pages (i + 1) stop (p1, t(i := None)) = Inr s'" using 1(3) True Some by (simp add: free_pages.simps [of i])
      have "valid_pages p1 = valid_pages p" using f by (auto simp: page_free_def split: if_splits)
      then show ?thesis using 1(2) [OF True Some r] unfolding rs by auto
    qed
  qed
qed

section \<open>Reference counts\<close>

text \<open>
  The allocator counts, for every frame, the page table entries that name it: \<^verbatim>\<open>R\<close> of them in other tables, and the users in
  this one. A private page is one that may be written and is not a shared mapping; it has its frame to itself.
\<close>

definition users :: "entries \<Rightarrow> u64 \<Rightarrow> u64 set" where "users t f = {v. \<exists>e. t v = Some e \<and> pe_ppi e = f}"

definition refcnt :: "PhysPageAllocator \<Rightarrow> u64 \<Rightarrow> nat" where
  "refcnt p f = (case alloced_pages p f of None \<Rightarrow> 0 | Some c \<Rightarrow> unat c)"

definition frames_ok :: "PhysPageAllocator \<Rightarrow> bool" where
  "frames_ok p \<longleftrightarrow> distinct (valid_pages p) \<and> (\<forall>f\<in>set (valid_pages p). alloced_pages p f = None) \<and> (\<forall>f. alloced_pages p f \<noteq> Some 0)"

definition acct :: "(u64 \<Rightarrow> nat) \<Rightarrow> PhysPageAllocator \<Rightarrow> entries \<Rightarrow> bool" where
  "acct R p t \<longleftrightarrow> frames_ok p \<and> finite (dom t) \<and> (\<forall>f. refcnt p f = R f + card (users t f))"

definition private_page :: "PPageEntry \<Rightarrow> bool" where
  "private_page e \<longleftrightarrow> pe_flg e AND PGFLAG_W \<noteq> 0 \<and> pe_flg e AND PGFLAG_SHARE = 0"

definition excl :: "PhysPageAllocator \<Rightarrow> entries \<Rightarrow> bool" where
  "excl p t \<longleftrightarrow> (\<forall>v e. t v = Some e \<and> private_page e \<longrightarrow> refcnt p (pe_ppi e) = 1)"

definition keeps :: "(u64 \<Rightarrow> nat) \<Rightarrow> PhysPageAllocator \<Rightarrow> entries \<Rightarrow> PhysPageAllocator \<Rightarrow> entries \<Rightarrow> bool" where
  "keeps R p t p' t' \<longleftrightarrow> (acct R p t \<longrightarrow>
     acct R p' t' \<and> (\<forall>f. 0 < R f \<and> users t f = {} \<longrightarrow> users t' f = {}) \<and> (excl p t \<longrightarrow> excl p' t'))"

lemma keeps_refl [simp, intro]: "keeps R p t p t"
  by (simp add: keeps_def)

lemma keeps_trans: "keeps R p t p' t' \<Longrightarrow> keeps R p' t' p'' t'' \<Longrightarrow> keeps R p t p'' t''"
  by (simp add: keeps_def)

lemma users_subset: "users t f \<subseteq> dom t"
  by (auto simp: users_def)

lemma finite_users: "finite (dom t) \<Longrightarrow> finite (users t f)"
  using users_subset by (rule finite_subset)

lemma users_upd: "users (t(v \<mapsto> e)) f = (if pe_ppi e = f then insert v (users t f) else users t f - {v})"
  by (auto simp: users_def)

lemma users_clear: "users (t(v := None)) f = users t f - {v}"
  by (auto simp: users_def)

lemma users_empty [simp]: "users Map.empty f = {}"
  by (simp add: users_def)

lemma in_users: "v \<in> users t f \<longleftrightarrow> (\<exists>e. t v = Some e \<and> pe_ppi e = f)"
  by (simp add: users_def)

lemma acct_allocated:
  assumes "acct R p t" and "t v = Some e"
  shows "0 < card (users t (pe_ppi e))" and "\<exists>c. alloced_pages p (pe_ppi e) = Some c \<and> c \<noteq> 0 \<and> unat c = R (pe_ppi e) + card (users t (pe_ppi e))"
proof -
  have "v \<in> users t (pe_ppi e)" using assms(2) by (simp add: in_users)
  then show "0 < card (users t (pe_ppi e))" using assms(1) finite_users by (auto simp: acct_def card_gt_0_iff)
  moreover have r: "refcnt p (pe_ppi e) = R (pe_ppi e) + card (users t (pe_ppi e))" using assms(1) by (simp add: acct_def)
  ultimately have "0 < refcnt p (pe_ppi e)" by simp
  then obtain c where "alloced_pages p (pe_ppi e) = Some c" by (cases "alloced_pages p (pe_ppi e)") (simp_all add: refcnt_def)
  then show "\<exists>c. alloced_pages p (pe_ppi e) = Some c \<and> c \<noteq> 0 \<and> unat c = R (pe_ppi e) + card (users t (pe_ppi e))"
    using r assms(1) unfolding acct_def frames_ok_def refcnt_def by (metis option.case(2))
qed

lemma page_alloc_fresh:
  assumes "acct R p t" and "page_alloc p = Inr (f, p')"
  shows "frames_ok p' \<and> refcnt p f = 0 \<and> R f = 0 \<and> users t f = {} \<and> refcnt p' = (refcnt p)(f := 1)"
proof -
  obtain rest where v: "valid_pages p = f # rest" using assms(2) by (auto simp: page_alloc_def split: list.splits)
  have n: "alloced_pages p f = None" using assms(1) v by (simp add: acct_def frames_ok_def)
  then have p': "p' = p\<lparr>valid_pages := rest, alloced_pages := (alloced_pages p)(f \<mapsto> 1)\<rparr>"
    using assms(2) v by (auto simp: page_alloc_def)
  have z: "refcnt p f = 0" using n by (simp add: refcnt_def)
  then have "R f = 0" "card (users t f) = 0" using assms(1) by (simp_all add: acct_def)
  moreover have "frames_ok p'" using assms(1) v p' by (auto simp: acct_def frames_ok_def)
  moreover have "refcnt p' = (refcnt p)(f := 1)" by (rule ext) (simp add: p' refcnt_def)
  ultimately show ?thesis using z assms(1) finite_users by (auto simp: acct_def)
qed

lemma keeps_map:
  assumes a: "page_alloc p = Inr (pe_ppi e, p')" and none: "t v = None"
  shows "keeps R p t p' (t(v \<mapsto> e))"
  unfolding keeps_def
proof (intro impI conjI allI)
  assume acct: "acct R p t"
  note fr = page_alloc_fresh [OF acct a]
  have out: "v \<notin> users t f" for f using none by (simp add: in_users)
  show "acct R p' (t(v \<mapsto> e))" unfolding acct_def
  proof (intro conjI allI)
    fix f
    show "refcnt p' f = R f + card (users (t(v \<mapsto> e)) f)" using fr acct out [of f] by (simp add: users_upd acct_def)
  qed (use fr acct in \<open>simp_all add: acct_def\<close>)
  show "users (t(v \<mapsto> e)) f = {}" if "0 < R f \<and> users t f = {}" for f using that fr by (auto simp: users_upd)
  show "excl p' (t(v \<mapsto> e))" if "excl p t"
    using that fr out unfolding excl_def by (auto simp: in_users)
qed

lemma page_free_ok:
  assumes "acct R p t" and "t v = Some e"
  shows "\<exists>b p'. page_free (pe_ppi e) p = Inr (b, p')"
proof -
  obtain c where "alloced_pages p (pe_ppi e) = Some c" using acct_allocated(2) [OF assms] by blast
  then show ?thesis by (cases "c \<le> 1") (auto simp: page_free_def)
qed

lemma page_free_count:
  assumes "frames_ok p" and "page_free f p = Inr (b, p')"
  shows "frames_ok p' \<and> 0 < refcnt p f \<and> refcnt p' = (refcnt p)(f := refcnt p f - 1)"
proof -
  obtain c where c: "alloced_pages p f = Some c" "c \<noteq> 0"
    using assms by (auto simp: page_free_def frames_ok_def)
  then have u: "0 < unat c" by (simp add: unat_gt_0)
  show ?thesis
  proof (cases "c \<le> 1")
    case True
    then have "p' = p\<lparr>alloced_pages := (alloced_pages p)(f := None)\<rparr>" "unat c = 1"
      using assms(2) c u by (auto simp: page_free_def word_le_nat_alt)
    then show ?thesis using assms(1) c u by (auto simp: frames_ok_def refcnt_def fun_eq_iff)
  next
    case False
    then have p': "p' = p\<lparr>alloced_pages := (alloced_pages p)(f \<mapsto> c - 1)\<rparr>" using assms(2) c by (simp add: page_free_def)
    have s: "unat (c - 1) = unat c - 1" using u by (simp add: unat_sub word_le_nat_alt)
    then have "c - 1 \<noteq> 0" using False by (auto simp: word_le_nat_alt)
    then show ?thesis using assms(1) c u s unfolding p' by (auto simp: frames_ok_def refcnt_def fun_eq_iff)
  qed
qed

lemma keeps_unmap:
  assumes f: "page_free (pe_ppi e) p = Inr (b, p')" and some: "t v = Some e"
  shows "keeps R p t p' (t(v := None))"
  unfolding keeps_def
proof (intro impI conjI allI)
  assume acct: "acct R p t"
  have fr: "frames_ok p'" "refcnt p' = (refcnt p)(pe_ppi e := refcnt p (pe_ppi e) - 1)"
    using page_free_count [OF _ f] acct by (simp_all add: acct_def)
  have vin: "v \<in> users t f \<longleftrightarrow> f = pe_ppi e" for f using some by (auto simp: in_users)
  have fin: "finite (users t f)" for f using acct finite_users by (simp add: acct_def)
  show "acct R p' (t(v := None))" unfolding acct_def
  proof (intro conjI allI)
    fix f
    have pos: "0 < card (users t (pe_ppi e))" by (rule acct_allocated(1) [OF acct some])
    show "refcnt p' f = R f + card (users (t(v := None)) f)"
      using fr(2) acct vin [of f] fin [of f] pos by (auto simp: users_clear acct_def card_Diff_singleton_if)
  qed (use fr acct in \<open>simp_all add: acct_def\<close>)
  show "users (t(v := None)) f = {}" if "0 < R f \<and> users t f = {}" for f using that by (simp add: users_clear)
  show "excl p' (t(v := None))" if "excl p t" unfolding excl_def
  proof (intro allI impI)
    fix w d
    assume w: "(t(v := None)) w = Some d \<and> private_page d"
    then have d: "t w = Some d" "w \<noteq> v" by (auto split: if_splits)
    have one: "refcnt p (pe_ppi d) = 1" using that w d unfolding excl_def by blast
    have "pe_ppi d \<noteq> pe_ppi e"
    proof
      assume eq: "pe_ppi d = pe_ppi e"
      have "{v, w} \<subseteq> users t (pe_ppi e)" using d some eq by (auto simp: in_users)
      then have "2 \<le> card (users t (pe_ppi e))" using card_mono [OF fin, of "{v, w}" "pe_ppi e"] d(2) by simp
      moreover have "card (users t (pe_ppi e)) \<le> 1" using acct one eq by (simp add: acct_def)
      ultimately show False by simp
    qed
    then show "refcnt p' (pe_ppi d) = 1" using one fr(2) by simp
  qed
qed

lemma keeps_flags:
  assumes some: "t v = Some e" and same: "pe_ppi e' = pe_ppi e"
    and priv: "private_page e' \<Longrightarrow> private_page e \<or> refcnt p (pe_ppi e) = 1"
  shows "keeps R p t p (t(v \<mapsto> e'))"
proof -
  have u: "users (t(v \<mapsto> e')) = users t" using some same by (auto simp: users_def fun_eq_iff)
  have "insert v (dom t) = dom t" using some by auto
  then show ?thesis using some same priv unfolding keeps_def acct_def excl_def u by auto
qed

lemma keeps_move:
  assumes some: "t v = Some e" and none: "t w = None" and same: "pe_ppi e' = pe_ppi e" and priv: "\<not> private_page e'"
  shows "keeps R p t p (t(v := None, w \<mapsto> e'))"
  unfolding keeps_def
proof (intro impI conjI allI)
  assume acct: "acct R p t"
  have fin: "finite (users t f)" for f using acct finite_users by (simp add: acct_def)
  have vin: "v \<in> users t f \<longleftrightarrow> f = pe_ppi e" and win: "w \<notin> users t f" for f using some none by (auto simp: in_users)
  have u: "users (t(v := None, w \<mapsto> e')) f = (if f = pe_ppi e then insert w (users t f - {v}) else users t f)" for f
    using vin [of f] win [of f] same by (auto simp: users_upd users_clear)
  have pos: "0 < card (users t (pe_ppi e))" by (rule acct_allocated(1) [OF acct some])
  have "card (users (t(v := None, w \<mapsto> e')) f) = card (users t f)" for f
    unfolding u using fin [of f] vin [of f] win [of f] pos by (auto simp: card_Diff_singleton_if)
  then show "acct R p (t(v := None, w \<mapsto> e'))" using acct by (simp add: acct_def)
  show "users (t(v := None, w \<mapsto> e')) f = {}" if "0 < R f \<and> users t f = {}" for f using that vin [of f] unfolding u by auto
  show "excl p (t(v := None, w \<mapsto> e'))" if "excl p t"
    using that priv unfolding excl_def by (auto split: if_splits)
qed

lemma alloc_pages_keeps:
  "alloc_pages vpi stop flag fd offset s = Inr s' \<Longrightarrow> keeps R (fst s) (snd s) (fst s') (snd s')"
proof (induction vpi stop flag fd offset s arbitrary: s' rule: alloc_pages.induct)
  case (1 vpi stop flag fd offset p t)
  show ?case
  proof (cases "vpi < stop")
    case True
    then have none: "t vpi = None" using 1(2) by (auto simp: alloc_pages.simps split: if_splits)
    obtain f p1 where a: "page_alloc p = Inr (f, p1)"
      using 1(2) True none by (cases "page_alloc p") (auto simp: alloc_pages.simps)
    let ?e = "\<lparr>pe_ppi = f, pe_flg = flag, pe_fd = fd, pe_offset = offset\<rparr>"
    have r: "alloc_pages (vpi + 1) stop flag fd (if 0 < sint fd then offset + PAGE_LEN_BYTE else offset) (p1, t(vpi \<mapsto> ?e)) = Inr s'"
      using 1(2) True none a by (simp add: alloc_pages.simps [of vpi])
    have n: "\<not> t vpi \<noteq> None" using none by simp
    have "keeps R p t p1 (t(vpi \<mapsto> ?e))" using a none by (intro keeps_map) simp_all
    then show ?thesis using 1(1) [OF True n r] unfolding fst_conv snd_conv by (rule keeps_trans)
  next
    case False
    then show ?thesis using 1(2) by (auto simp: alloc_pages.simps)
  qed
qed

lemma free_pages_keeps:
  "acct R (fst s) (snd s) \<Longrightarrow> \<exists>s'. free_pages i stop s = Inr s' \<and> keeps R (fst s) (snd s) (fst s') (snd s')"
proof (induction i stop s rule: free_pages.induct)
  case (1 i stop p t)
  show ?case
  proof (cases "i < stop")
    case False
    then show ?thesis by (simp add: free_pages.simps)
  next
    case True
    show ?thesis
    proof (cases "t i")
      case None
      then show ?thesis using 1(1) [OF True None 1(3)] True by (simp add: free_pages.simps [of i])
    next
      case (Some e)
      obtain b p1 where f: "page_free (pe_ppi e) p = Inr (b, p1)" using page_free_ok [of R p t i e] 1(3) Some by auto
      have k: "keeps R p t p1 (t(i := None))" using f Some by (rule keeps_unmap)
      then have "acct R (fst (p1, t(i := None))) (snd (p1, t(i := None)))" using 1(3) by (simp add: keeps_def)
      from 1(2) [OF True Some this] obtain s' where
        s': "free_pages (i + 1) stop (p1, t(i := None)) = Inr s'" "keeps R p1 (t(i := None)) (fst s') (snd s')" unfolding fst_conv snd_conv by blast
      have "free_pages i stop (p, t) = Inr s'" using True Some f s'(1) by (simp add: free_pages.simps [of i])
      then show ?thesis using keeps_trans [OF k s'(2)] by auto
    qed
  qed
qed

lemma free_entries_cong: "k \<notin> set ks \<Longrightarrow> free_entries ks (t(k := x)) p = free_entries ks t p"
  by (induction ks arbitrary: p) (auto simp: ebind_def split: sum.splits)

lemma free_entries_keeps:
  "acct R p t \<Longrightarrow> distinct ks \<Longrightarrow> set ks = dom t \<Longrightarrow> \<exists>p'. free_entries ks t p = Inr p' \<and> keeps R p t p' Map.empty"
proof (induction ks arbitrary: p t)
  case Nil
  then have "dom t = {}" by simp
  then have "t = Map.empty" by (rule dom_eq_empty_conv [THEN iffD1])
  then show ?case by simp
next
  case (Cons k ks)
  then have "k \<in> dom t" by auto
  then obtain e where e: "t k = Some e" by blast
  obtain b p1 where f: "page_free (pe_ppi e) p = Inr (b, p1)" using page_free_ok [OF Cons.prems(1) e] by auto
  have k: "keeps R p t p1 (t(k := None))" using f e by (rule keeps_unmap)
  then have "acct R p1 (t(k := None))" using Cons.prems(1) by (simp add: keeps_def)
  moreover have "distinct ks" "set ks = dom (t(k := None))" using Cons.prems(2,3) by auto
  ultimately obtain p' where p': "free_entries ks (t(k := None)) p1 = Inr p'" "keeps R p1 (t(k := None)) p' Map.empty"
    using Cons.IH by blast
  have "free_entries (k # ks) t p = Inr p'"
    using e f p'(1) Cons.prems(2) by (simp add: free_entries_cong)
  then show ?case using keeps_trans [OF k p'(2)] by blast
qed

section \<open>Segments\<close>

definition seg_pages :: "VAddrSeg list \<Rightarrow> u64 set" where
  "seg_pages gs = {v. \<exists>g\<in>set gs. sg_vpindex g \<le> v \<and> v < seg_end g}"

text \<open>No segment wraps, and the list goes from high to low addresses without overlaps.\<close>

definition segs_ok :: "VAddrSeg list \<Rightarrow> bool" where
  "segs_ok gs \<longleftrightarrow> (\<forall>g\<in>set gs. sg_vpindex g \<le> seg_end g) \<and> sorted_wrt (\<lambda>g h. seg_end h \<le> sg_vpindex g) gs"

lemma seg_pages_simps [simp]: "seg_pages [] = {}" "seg_pages (xs @ ys) = seg_pages xs \<union> seg_pages ys"
  "seg_pages (g # gs) = {v. sg_vpindex g \<le> v \<and> v < seg_end g} \<union> seg_pages gs"
  by (auto simp: seg_pages_def)

lemma free_seg_result:
  assumes "sg_vpindex s \<le> seg_end s" and "a \<le> b"
  shows "segs_ok (free_seg a b s) \<and> seg_pages (free_seg a b s) = {v. sg_vpindex s \<le> v \<and> v < seg_end s} - {v. a \<le> v \<and> v < b}
    \<and> (\<forall>g\<in>set (free_seg a b s). sg_vpindex s \<le> sg_vpindex g \<and> seg_end g \<le> seg_end s)"
  using assms by (auto simp: free_seg_def segs_ok_def seg_end_def Let_def)

lemma free_segs_result:
  assumes "segs_ok gs" and "a \<le> b"
  shows "segs_ok (free_segs a b gs) \<and> seg_pages (free_segs a b gs) = seg_pages gs - {v. a \<le> v \<and> v < b}
    \<and> (\<forall>g\<in>set (free_segs a b gs). \<exists>h\<in>set gs. sg_vpindex h \<le> sg_vpindex g \<and> seg_end g \<le> seg_end h)"
  using assms(1)
proof (induction gs)
  case (Cons s gs)
  have s: "sg_vpindex s \<le> seg_end s" "segs_ok gs" and le: "\<forall>h\<in>set gs. seg_end h \<le> sg_vpindex s" using Cons.prems by (auto simp: segs_ok_def)
  note fs = free_seg_result [OF s(1) assms(2)] and IH = Cons.IH [OF s(2)]
  have "seg_end h \<le> sg_vpindex g" if "g \<in> set (free_seg a b s)" "h \<in> set (free_segs a b gs)" for g h
    using fs IH le that by (meson order_trans)
  then have "segs_ok (free_segs a b (s # gs))" using fs IH by (auto simp: segs_ok_def sorted_wrt_append)
  then show ?case using fs IH by auto
qed (simp add: segs_ok_def)

text \<open>The first gap from the top that is large enough, when the numbers stay far below the width.\<close>

lemma find_gap_result:
  assumes "find_gap cnt tp gs = (high, low, tp')" and "segs_ok gs" and "\<forall>g\<in>set gs. seg_end g \<le> tp"
    and "unat tp < 2 ^ 52" and "unat cnt \<le> 2 ^ 52"
  shows "gs = high @ low \<and> tp' \<le> tp \<and> (\<forall>g\<in>set high. tp' \<le> sg_vpindex g) \<and> (\<forall>g\<in>set low. unat (seg_end g) + unat cnt \<le> unat tp')"
  using assms
proof (induction cnt tp gs arbitrary: high low tp' rule: find_gap.induct)
  case (1 vpcnt tp)
  then show ?case by simp
next
  case (2 vpcnt tp g gs)
  have g: "sg_vpindex g \<le> seg_end g" "segs_ok gs" and le: "\<forall>h\<in>set gs. seg_end h \<le> sg_vpindex g" using 2(3) by (auto simp: segs_ok_def)
  have gt: "seg_end g \<le> tp" using 2(4) by simp
  show ?case
  proof (cases "seg_end g + vpcnt \<le> tp")
    case True
    have "unat (seg_end g + vpcnt) = unat (seg_end g) + unat vpcnt"
      using gt 2(5,6) by (simp add: unat_word_ariths word_le_nat_alt)
    then have fit: "unat (seg_end g) + unat vpcnt \<le> unat tp" using True by (simp add: word_le_nat_alt)
    have "seg_end h \<le> seg_end g" if "h \<in> set gs" for h using le g(1) that by (meson order_trans)
    then have "unat (seg_end h) + unat vpcnt \<le> unat tp" if "h \<in> set (g # gs)" for h
      using fit that by (fastforce simp: word_le_nat_alt)
    then show ?thesis using 2(2) True by auto
  next
    case False
    obtain h l t where r: "find_gap vpcnt (sg_vpindex g) gs = (h, l, t)" by (metis prod_cases3)
    then have eq: "high = g # h" "low = l" "tp' = t" using 2(2) False by simp_all
    have "sg_vpindex g \<le> tp" using g(1) gt by (rule order_trans)
    then have "unat (sg_vpindex g) < 2 ^ 52" using 2(5) by (simp add: word_le_nat_alt)
    from 2(1) [OF False r g(2) le this 2(6)] show ?thesis using eq \<open>sg_vpindex g \<le> tp\<close> by auto
  qed
qed

text \<open>Every mapped page belongs to a segment, to the heap and the program below the break, or to the dynamic loader's area.\<close>

definition layout_ok :: "ThreadPageTable \<Rightarrow> bool" where
  "layout_ok t \<longleftrightarrow> segs_ok (mmap_segments t) \<and> (\<forall>g\<in>set (mmap_segments t). seg_end g \<le> page_of MAX_MMAP_VADDR)
    \<and> (\<forall>v. pgtable t v \<noteq> None \<longrightarrow> v \<in> seg_pages (mmap_segments t) \<or> v \<le> page_of (brk_va t) \<or> page_of MAX_MMAP_VADDR \<le> v)"

lemma unat_page_of: "unat (page_of a) = unat a div 4096"
proof -
  have "unat (drop_bit 12 a) = drop_bit 12 (unat a)" by (rule unat_drop_bit_eq)
  then show ?thesis by (simp only: page_of_def page_addr_offset_def drop_bit_eq_div [of 12 "unat a"]) simp
qed

lemma max_page: "page_of MAX_MMAP_VADDR = 0xb00000000"
  by (simp add: page_of_def MAX_MMAP_VADDR_def page_addr_offset_def)

lemma unat_page_base: "unat v < 2 ^ 52 \<Longrightarrow> unat (page_base v) = 4096 * unat v"
  by (simp add: page_base_def page_addr_offset_def push_bit_eq_mult unat_word_ariths)

lemma page_end_bound: "unat (page_end a) < 2 ^ 52"
  unfolding page_end_def unat_page_of using unsigned_less [of "ALIGN a PAGE_LEN_BYTE", where 'a = nat] by (simp add: div_less_iff_less_mult)

lemma free_mmap_result:
  assumes "free_mmap va sz (p, t) = Inr (p', t')" and "segs_ok (mmap_segments t)" and "page_of va \<le> page_end (va + sz)"
  shows "(\<forall>v. pgtable t' v = (if page_of va \<le> v \<and> v < page_end (va + sz) then None else pgtable t v))
    \<and> segs_ok (mmap_segments t')
    \<and> seg_pages (mmap_segments t') = seg_pages (mmap_segments t) - {v. page_of va \<le> v \<and> v < page_end (va + sz)}
    \<and> (\<forall>g\<in>set (mmap_segments t'). \<exists>h\<in>set (mmap_segments t). seg_end g \<le> seg_end h)
    \<and> brk_va t' = brk_va t \<and> dyn_lib_brk t' = dyn_lib_brk t \<and> valid_pages p' = valid_pages p"
proof -
  obtain u where u: "free_pages (page_of va) (page_end (va + sz)) (p, pgtable t) = Inr (p', u)"
      "t' = t\<lparr>mmap_segments := free_segs (page_of va) (page_end (va + sz)) (mmap_segments t), pgtable := u\<rparr>"
    using assms(1) by (auto simp: free_mmap_def Let_def)
  show ?thesis using free_pages_map [OF u(1)] free_segs_result [OF assms(2,3)] u(2) by auto
qed

lemma mmap_gap:
  assumes ok: "layout_ok t" and f: "find_gap cnt (page_of MAX_MMAP_VADDR) (mmap_segments t) = (high, low, tp)"
    and cnt: "unat cnt \<le> 2 ^ 51" and brk: "\<not> page_base (tp - cnt) \<le> brk_va t" and a: "page_base (tp - cnt) < MAX_MMAP_VADDR"
  shows "mmap_segments t = high @ low \<and> unat cnt \<le> unat tp \<and> tp \<le> page_of MAX_MMAP_VADDR \<and> tp - cnt \<le> tp
    \<and> (\<forall>g\<in>set high. tp \<le> sg_vpindex g) \<and> (\<forall>g\<in>set low. seg_end g \<le> tp - cnt) \<and> page_of (brk_va t) < tp - cnt"
proof -
  have g: "mmap_segments t = high @ low" "tp \<le> page_of MAX_MMAP_VADDR" "\<forall>g\<in>set high. tp \<le> sg_vpindex g"
      "\<forall>g\<in>set low. unat (seg_end g) + unat cnt \<le> unat tp"
    using find_gap_result [OF f] ok cnt by (auto simp: layout_ok_def max_page)
  have tp: "unat tp \<le> 0xb00000000" using g(2) unfolding max_page word_le_nat_alt by simp
  have fit: "unat cnt \<le> unat tp"
  proof (rule ccontr)
    assume n: "\<not> unat cnt \<le> unat tp"
    let ?d = "unat cnt - unat tp"
    have d: "0 < ?d" "?d \<le> 2 ^ 51" using n cnt by simp_all
    have "tp - cnt = - (cnt - tp)" by simp
    then have b: "page_base (tp - cnt) = - (push_bit 12 (cnt - tp))" by (simp add: page_base_def page_addr_offset_def push_bit_eq_mult)
    have u: "unat (cnt - tp) = ?d" using n by (simp add: unat_sub word_le_nat_alt)
    have w: "unat (push_bit 12 (cnt - tp)) = 4096 * ?d" using unat_page_base [of "cnt - tp"] u d by (simp add: page_base_def page_addr_offset_def)
    have "(unat (- push_bit 12 (cnt - tp)) + unat (push_bit 12 (cnt - tp))) mod 2 ^ 64 = 0"
      using unat_word_ariths(1) [of "- push_bit 12 (cnt - tp)" "push_bit 12 (cnt - tp)"] by simp
    moreover have "unat (- push_bit 12 (cnt - tp)) < 0xb00000000000" using a unfolding b word_less_nat_alt MAX_MMAP_VADDR_def by simp
    ultimately show False using w d by simp
  qed
  then have u: "unat (tp - cnt) = unat tp - unat cnt" by (simp add: unat_sub word_le_nat_alt)
  have "unat (page_base (tp - cnt)) = 4096 * (unat tp - unat cnt)" using unat_page_base [of "tp - cnt"] u tp by simp
  then have "unat (brk_va t) < 4096 * (unat tp - unat cnt)" using brk by (simp add: word_le_nat_alt)
  then have "unat (brk_va t) div 4096 < unat tp - unat cnt" by (simp add: div_less_iff_less_mult mult.commute)
  then have "page_of (brk_va t) < tp - cnt" by (simp add: word_less_nat_alt unat_page_of u)
  moreover have "seg_end g \<le> tp - cnt" if "g \<in> set low" for g using g(4) that by (fastforce simp: word_le_nat_alt u)
  ultimately show ?thesis using g fit u by (simp add: word_le_nat_alt)
qed

lemma alloc_mmap_result:
  assumes ok: "layout_ok t" and f: "find_gap (page_end sz) (page_of MAX_MMAP_VADDR) (mmap_segments t) = (high, low, tp)"
    and brk: "\<not> page_base (tp - page_end sz) \<le> brk_va t" and a: "page_base (tp - page_end sz) < MAX_MMAP_VADDR"
    and cnt: "unat (page_end sz) \<le> 2 ^ 51"
  shows "\<forall>v. tp - page_end sz \<le> v \<and> v < tp \<longrightarrow> pgtable t v = None \<and> v \<notin> seg_pages (mmap_segments t) \<and> page_of (brk_va t) < v"
proof (intro allI impI)
  fix v
  assume v: "tp - page_end sz \<le> v \<and> v < tp"
  note g = mmap_gap [OF ok f cnt brk a]
  have b: "page_of (brk_va t) < v" using g v by (meson less_le_trans)
  have "v \<notin> seg_pages (high @ low)"
  proof
    assume "v \<in> seg_pages (high @ low)"
    then obtain h where h: "h \<in> set high \<union> set low" "sg_vpindex h \<le> v" "v < seg_end h" by (auto simp: seg_pages_def)
    have "h \<notin> set high" using h(2) v g by (meson leD order_trans)
    moreover have "h \<notin> set low" using h(3) v g by (meson leD less_le_trans)
    ultimately show False using h(1) by simp
  qed
  then have s: "v \<notin> seg_pages (mmap_segments t)" using g by simp
  have "\<not> page_of MAX_MMAP_VADDR \<le> v" using g v by (meson leD less_le_trans)
  then have "pgtable t v = None" using ok s b unfolding layout_ok_def by (meson leD)
  then show "pgtable t v = None \<and> v \<notin> seg_pages (mmap_segments t) \<and> page_of (brk_va t) < v" using s b by simp
qed

lemma page_of_base: "unat v < 2 ^ 52 \<Longrightarrow> page_of (page_base v) = v"
  by (simp add: word_unat_eq_iff unat_page_of unat_page_base)

lemma no_pages_outside:
  assumes tp: "tp \<le> page_of MAX_MMAP_VADDR" and cnt: "unat cnt \<le> 2 ^ 51" and a: "\<not> page_base (tp - cnt) < MAX_MMAP_VADDR"
  shows "\<not> tp - cnt < tp"
proof
  assume lt: "tp - cnt < tp"
  have t: "unat tp \<le> 0xb00000000" using tp unfolding max_page word_le_nat_alt by simp
  have l: "unat (tp - cnt) < unat tp" using lt by (simp add: word_less_nat_alt)
  then have "unat (page_base (tp - cnt)) = 4096 * unat (tp - cnt)" using t by (intro unat_page_base) simp
  then have "unat (page_base (tp - cnt)) < 0xb00000000000" using l t by simp
  then show False using a by (simp add: word_less_nat_alt MAX_MMAP_VADDR_def)
qed

section \<open>Properties\<close>

text \<open>
  C30. Unmapping is exact: it removes from the page table exactly the pages of the range and keeps every other entry, cuts the segments to exactly the
  pages outside the range (whole, left, right or split in two) and keeps them disjoint and ordered. The frames go back to no free
  list: whatever is unmapped, the list of frames that can still be handed out does not grow.
\<close>

theorem munmap_exact:
  assumes "free_mmap va sz (p, t) = Inr (p', t')" and "segs_ok (mmap_segments t)" and "page_of va \<le> page_end (va + sz)"
  shows "(\<forall>v. pgtable t' v = (if page_of va \<le> v \<and> v < page_end (va + sz) then None else pgtable t v))
    \<and> segs_ok (mmap_segments t')
    \<and> seg_pages (mmap_segments t') = seg_pages (mmap_segments t) - {v. page_of va \<le> v \<and> v < page_end (va + sz)}
    \<and> valid_pages p' = valid_pages p"
  using free_mmap_result [OF assms] by blast

text \<open>A one-frame allocator and a table with one segment of five pages, for the witnesses.\<close>

definition tiny_pages :: PhysPageAllocator where
  "tiny_pages = \<lparr>page_real_addr = [5 \<mapsto> 0x1000], valid_pages = [5], alloced_pages = Map.empty\<rparr>"

definition tiny_table :: ThreadPageTable where
  "tiny_table = new_page_table\<lparr>mmap_segments := [\<lparr>sg_vpindex = 10, sg_vpcnt = 5, sg_info = []\<rparr>]\<rparr>"

lemmas page_eval = Let_def page_end_def page_of_def page_base_def ALIGN_def CEIL_DIV_def page_addr_offset_def MAX_MMAP_VADDR_def
  new_page_table_def tiny_pages_def tiny_table_def seg_end_def

theorem munmap_exact_witness:
  "\<exists>p' t'. free_mmap 0xb000 0x2000 (tiny_pages, tiny_table) = Inr (p', t')
    \<and> seg_pages (mmap_segments t') = {10, 11, 12, 13, 14} - {11, 12} \<and> segs_ok (mmap_segments t')"
proof -
  have b: "page_of 0xb000 = 11" "page_end (0xb000 + 0x2000) = 13" by (simp_all add: page_eval)
  have "free_pages 11 13 (tiny_pages, pgtable tiny_table) = Inr (tiny_pages, pgtable tiny_table)"
    by (simp add: free_pages.simps tiny_table_def new_page_table_def)
  then obtain t' where r: "free_mmap 0xb000 0x2000 (tiny_pages, tiny_table) = Inr (tiny_pages, t')"
    unfolding free_mmap_def Let_def b by auto
  have "segs_ok (mmap_segments tiny_table)" by (simp add: segs_ok_def page_eval)
  note t = munmap_exact [OF r this, unfolded b]
  have rng: "{v. a \<le> v \<and> v < b} = {a..<b}" for a b :: u64 by auto
  have e1: "{10..<15} = ({10, 11, 12, 13, 14} :: u64 set)" and e2: "{11..<13} = ({11, 12} :: u64 set)"
    by (auto simp: word_le_nat_alt word_less_nat_alt word_unat_eq_iff)
  have "seg_pages (mmap_segments tiny_table) = {10..<15}" by (auto simp: seg_pages_def page_eval)
  then have "seg_pages (mmap_segments t') = {10, 11, 12, 13, 14} - {11, 12}" using t unfolding rng e1 e2 by simp
  then show ?thesis using r t by auto
qed

text \<open>
  C29. Mapping gives fresh pages: on a well laid out table a request of less than \<open>2 ^ 63\<close> bytes either fails for lack of address space or frames, never on
  the assertion against double allocation, or returns a page-aligned range between the break and the top of the mapping area that was unmapped and
  outside every segment; afterwards exactly that range is mapped in addition, with the flags asked for, and the layout is
  again well formed. Outside that: a request larger than the room left wraps below zero and is answered with an address above the area and no page, and
  once a fixed mapping lies above the area, the next request is placed above it too and can hit a page of the dynamic loader.
\<close>

theorem mmap_maps_fresh_pages:
  assumes ok: "layout_ok t" and cnt: "unat (page_end sz) \<le> 2 ^ 51"
  shows "(\<forall>e. alloc_mmap sz flag fd offset info (p, t) = Inl e \<longrightarrow> e = address_space_full \<or> e = out_of_memory)
    \<and> (\<forall>a p' t'. alloc_mmap sz flag fd offset info (p, t) = Inr (a, p', t') \<and> a < MAX_MMAP_VADDR \<longrightarrow>
        page_base (page_of a) = a \<and> brk_va t < a \<and> page_of a + page_end sz \<le> page_of MAX_MMAP_VADDR
        \<and> (\<forall>v. if page_of a \<le> v \<and> v < page_of a + page_end sz
              then pgtable t v = None \<and> v \<notin> seg_pages (mmap_segments t) \<and> (\<exists>e. pgtable t' v = Some e \<and> pe_flg e = flag \<and> pe_fd e = fd)
              else pgtable t' v = pgtable t v)
        \<and> seg_pages (mmap_segments t') = seg_pages (mmap_segments t) \<union> {v. page_of a \<le> v \<and> v < page_of a + page_end sz}
        \<and> layout_ok t')
    \<and> alloc_mmap 0xb00000001000 3 (- 1) 0 [] (p, new_page_table)
        = Inr (0xfffffffffffff000, p, new_page_table\<lparr>mmap_segments := [\<lparr>sg_vpindex = - 1, sg_vpcnt = 0xb00000001, sg_info = []\<rparr>]\<rparr>)
    \<and> alloc_mmap 0x1000 3 (- 1) 0 [] (p, \<lparr>brk_va = 0, mmap_segments = [\<lparr>sg_vpindex = 0xb80000000, sg_vpcnt = 1, sg_info = []\<rparr>],
        pgtable = [0xb7fffffff \<mapsto> \<lparr>pe_ppi = 0, pe_flg = 5, pe_fd = - 1, pe_offset = 0\<rparr>], dyn_lib_brk = 0xb80000000000\<rparr>) = Inl page_reallocated"
proof -
  let ?c = "page_end sz"
  obtain high low tp where f: "find_gap ?c (page_of MAX_MMAP_VADDR) (mmap_segments t) = (high, low, tp)" by (metis prod_cases3)
  let ?g = "\<lparr>sg_vpindex = tp - ?c, sg_vpcnt = ?c, sg_info = info\<rparr>" and ?b = "page_base (tp - ?c)"
  let ?r = "alloc_pages (tp - ?c) tp flag fd offset (p, pgtable t)"
  have res: "alloc_mmap sz flag fd offset info (p, t) = (if ?b \<le> brk_va t then Inl address_space_full
      else ebind ?r (\<lambda>(p', u). Inr (?b, p', t\<lparr>mmap_segments := high @ ?g # low, pgtable := u\<rparr>)))"
    using f by (cases ?r) (auto simp: alloc_mmap_def Let_def alloc_multi_page_def)
  have tpm: "tp \<le> page_of MAX_MMAP_VADDR" using find_gap_result [OF f] ok cnt by (auto simp: layout_ok_def max_page)
  have free: "\<forall>v. tp - ?c \<le> v \<and> v < tp \<longrightarrow> snd (p, pgtable t) v = None" if "\<not> ?b \<le> brk_va t"
  proof (cases "?b < MAX_MMAP_VADDR")
    case True
    then show ?thesis using alloc_mmap_result [OF ok f that True cnt] by simp
  next
    case False
    then show ?thesis using no_pages_outside [OF tpm cnt] by (meson le_less_trans snd_conv)
  qed
  have errs: "\<forall>e. alloc_mmap sz flag fd offset info (p, t) = Inl e \<longrightarrow> e = address_space_full \<or> e = out_of_memory"
    using alloc_pages_result [OF free, of flag fd offset] unfolding res by (auto simp: ebind_Inl_iff split: if_splits)
  have good: "page_base (page_of a) = a \<and> brk_va t < a \<and> page_of a + ?c \<le> page_of MAX_MMAP_VADDR
        \<and> (\<forall>v. if page_of a \<le> v \<and> v < page_of a + ?c
              then pgtable t v = None \<and> v \<notin> seg_pages (mmap_segments t) \<and> (\<exists>e. pgtable t' v = Some e \<and> pe_flg e = flag \<and> pe_fd e = fd)
              else pgtable t' v = pgtable t v)
        \<and> seg_pages (mmap_segments t') = seg_pages (mmap_segments t) \<union> {v. page_of a \<le> v \<and> v < page_of a + ?c} \<and> layout_ok t'"
    if r: "alloc_mmap sz flag fd offset info (p, t) = Inr (a, p', t')" and am: "a < MAX_MMAP_VADDR" for a p' t'
  proof -
    have brk: "\<not> ?b \<le> brk_va t" and a: "a = ?b" using r unfolding res by (auto split: if_splits)
    obtain u where u: "?r = Inr (p', u)" and t': "t' = t\<lparr>mmap_segments := high @ ?g # low, pgtable := u\<rparr>"
      using r brk unfolding res by auto
    have bm: "?b < MAX_MMAP_VADDR" using am a by simp
    note gap = mmap_gap [OF ok f cnt brk bm] and fresh = alloc_mmap_result [OF ok f brk bm cnt]
    have "unat tp \<le> 0xb00000000" using tpm unfolding max_page word_le_nat_alt by simp
    then have "unat (tp - ?c) < 2 ^ 52" using gap by (simp add: word_le_nat_alt)
    then have pa: "page_of a = tp - ?c" "page_of a + ?c = tp" unfolding a by (simp_all add: page_of_base)
    have m: "if tp - ?c \<le> v \<and> v < tp then pgtable t v = None \<and> (\<exists>e. u v = Some e \<and> pe_flg e = flag \<and> pe_fd e = fd) else u v = pgtable t v" for v
      using spec [OF alloc_pages_map [OF u], of v] unfolding snd_conv .
    have e: "seg_end ?g = tp" by (simp add: seg_end_def)
    have sp: "seg_pages (high @ ?g # low) = seg_pages (mmap_segments t) \<union> {v. tp - ?c \<le> v \<and> v < tp}" using gap e by auto
    have "segs_ok (high @ ?g # low)" using ok gap e by (auto simp: layout_ok_def segs_ok_def sorted_wrt_append)
    then have "layout_ok t'" using ok gap m e unfolding layout_ok_def t' by (auto simp: sp split: if_splits) (metis option.distinct(1))+
    then show ?thesis using fresh m sp brk tpm unfolding pa by (auto simp: t' a page_of_base pa(1) [unfolded a] split: if_splits)
  qed
  have c1: "alloc_mmap 0xb00000001000 3 (- 1) 0 [] (p, new_page_table)
        = Inr (0xfffffffffffff000, p, new_page_table\<lparr>mmap_segments := [\<lparr>sg_vpindex = - 1, sg_vpcnt = 0xb00000001, sg_info = []\<rparr>]\<rparr>)"
    by (simp add: alloc_mmap_def Let_def new_page_table_def page_end_def page_of_def page_base_def ALIGN_def CEIL_DIV_def
      page_addr_offset_def MAX_MMAP_VADDR_def alloc_multi_page_def alloc_pages.simps mask_eq_exp_minus_1)
  have c2: "alloc_mmap 0x1000 3 (- 1) 0 [] (p, \<lparr>brk_va = 0, mmap_segments = [\<lparr>sg_vpindex = 0xb80000000, sg_vpcnt = 1, sg_info = []\<rparr>],
        pgtable = [0xb7fffffff \<mapsto> \<lparr>pe_ppi = 0, pe_flg = 5, pe_fd = - 1, pe_offset = 0\<rparr>], dyn_lib_brk = 0xb80000000000\<rparr>) = Inl page_reallocated"
    by (simp add: alloc_mmap_def Let_def page_end_def page_of_def page_base_def ALIGN_def CEIL_DIV_def
      page_addr_offset_def MAX_MMAP_VADDR_def alloc_multi_page_def alloc_pages.simps seg_end_def)
  show ?thesis using errs good c1 c2 by blast
qed

theorem mmap_maps_fresh_pages_witness:
  "\<exists>a p' t'. alloc_mmap 0x1000 3 (- 1) 0 [] (tiny_pages, new_page_table) = Inr (a, p', t') \<and> layout_ok t'
    \<and> (\<exists>e. pgtable t' 0xaffffffff = Some e \<and> pe_flg e = 3)"
proof -
  have ok: "layout_ok new_page_table" by (simp add: layout_ok_def new_page_table_def segs_ok_def)
  have c: "page_end 0x1000 = 1" by (simp add: page_eval)
  then have "unat (page_end 0x1000) \<le> 2 ^ 51" by simp
  note t = mmap_maps_fresh_pages [OF ok this, of 3 "- 1" 0 "[]" tiny_pages, unfolded c]
  obtain p' t' where r: "alloc_mmap 0x1000 3 (- 1) 0 [] (tiny_pages, new_page_table) = Inr (0xaffffffff000, p', t')"
    by (simp add: alloc_mmap_def alloc_multi_page_def alloc_pages.simps page_alloc_def page_eval)
  have m: "0xaffffffff000 < MAX_MMAP_VADDR" "page_of 0xaffffffff000 = 0xaffffffff" by (simp_all add: page_eval)
  note q = mp [OF spec [OF spec [OF spec [OF conjunct1 [OF conjunct2 [OF t]]]]], OF conjI [OF r m(1)], unfolded m(2)]
  have "layout_ok t'" using q by (elim conjE)
  moreover have "\<exists>e. pgtable t' 0xaffffffff = Some e \<and> pe_flg e = 3"
    using conjunct1 [OF conjunct2 [OF conjunct2 [OF conjunct2 [OF q]]]] by (auto dest!: spec [where x = "0xaffffffff"])
  ultimately show ?thesis using r by blast
qed

end
