(* ===== verification/RVThread.thy ===== *)
theory RVThread
  imports PageMap Isa "HOL-Library.AList"
begin

text \<open>
  The memory, descriptor table, signal mask and saved contexts of a simulated thread (\<^verbatim>\<open>sys/rvthread.h\<close>, \<^verbatim>\<open>sys/rvthread.cpp\<close>). The reader-writer
  lock has no sequential effect. Threads made with \<^verbatim>\<open>CLONE_VM\<close> share a page table and are one owner of it here. Loading of
  programs, the thread tree and the scheduler are not part of this theory.
\<close>

section \<open>Translation, protection and copy on write\<close>

definition set_bits :: "u32 \<Rightarrow> u32 \<Rightarrow> PPageEntry \<Rightarrow> PPageEntry" where
  "set_bits clear add e = e\<lparr>pe_flg := (pe_flg e AND NOT clear) OR add\<rparr>"

definition va2pa ::
  "u64 \<Rightarrow> u32 \<Rightarrow> PhysPageAllocator \<times> ThreadPageTable \<Rightarrow> (SimError + u64) \<times> ThreadPageTable" where
  "va2pa addr flg s =
     (let t = snd s; out = (\<lambda>e. Inr (page_base (pe_ppi e) + (addr AND (PAGE_LEN_BYTE - 1)))) in
      case pgtable t (page_of addr) of
        None \<Rightarrow> (Inl err_invalidaddr, t)
      | Some e \<Rightarrow>
          if pe_flg e AND flg \<noteq> flg then
            if pe_flg e AND PGFLAG_COW \<noteq> 0 \<and> flg AND PGFLAG_W \<noteq> 0 then
              if \<not> is_shared (pe_ppi e) (fst s)
              then (out e, t\<lparr>pgtable := (pgtable t)(page_of addr \<mapsto> set_bits PGFLAG_COW PGFLAG_W e)\<rparr>)
              else (Inl err_pagefault, t)
            else (Inl err_unaccessable, t)
          else (out e, t))"

function (sequential) set_prot :: "u64 \<Rightarrow> u64 \<Rightarrow> u32 \<Rightarrow> entries \<Rightarrow> entries" where
  "set_prot vpi stop flag t =
     (if vpi < stop
      then set_prot (vpi + 1) stop flag
        (case t vpi of None \<Rightarrow> t | Some e \<Rightarrow> t(vpi \<mapsto> set_bits (PGFLAG_R OR PGFLAG_W OR PGFLAG_X) flag e))
      else t)"
  by pat_completeness auto
termination
  by (relation "measure (\<lambda>(vpi, stop, _). unat stop - unat vpi)") (auto simp: unat_Suc_less word_less_nat_alt)

declare set_prot.simps [simp del]

definition sys_mprotect :: "u64 \<Rightarrow> u64 \<Rightarrow> u32 \<Rightarrow> ThreadPageTable \<Rightarrow> ThreadPageTable" where
  "sys_mprotect vaddr sz flag t =
     t\<lparr>pgtable := set_prot (page_of vaddr) (page_end (vaddr + sz)) (flag AND (PGFLAG_R OR PGFLAG_W OR PGFLAG_X)) (pgtable t)\<rparr>"

text \<open>The page table of a forked process: the keys are taken in the order in which the hash map iterates.\<close>

definition fork_entry :: "PPageEntry \<Rightarrow> PPageEntry" where
  "fork_entry e =
     (if pe_flg e AND PGFLAG_W \<noteq> 0 \<and> \<not> pe_flg e AND PGFLAG_SHARE \<noteq> 0 then set_bits PGFLAG_W PGFLAG_COW e else e)"

fun fork_pages :: "u64 list \<Rightarrow> PhysPageAllocator \<times> entries \<Rightarrow> PageErr + PhysPageAllocator \<times> entries" where
  "fork_pages [] s = Inr s"
| "fork_pages (k # ks) (p, t) =
     ebind (require page_not_mapped (t k)) (\<lambda>e. ebind (page_reuse (pe_ppi e) p) (\<lambda>p'. fork_pages ks (p', t(k \<mapsto> fork_entry e))))"

definition fork_page_table ::
  "u64 list \<Rightarrow> PhysPageAllocator \<times> ThreadPageTable \<Rightarrow> PageErr + PhysPageAllocator \<times> ThreadPageTable \<times> ThreadPageTable" where
  "fork_page_table ks s =
     ebind (fork_pages ks (fst s, pgtable (snd s))) (\<lambda>(p, t).
     Inr (p, (snd s)\<lparr>pgtable := t\<rparr>,
       \<lparr>brk_va = brk_va (snd s), mmap_segments = mmap_segments (snd s), pgtable = t, dyn_lib_brk = dyn_lib_brk (snd s)\<rparr>))"

definition exec_clear :: "u64 list \<Rightarrow> PhysPageAllocator \<times> ThreadPageTable \<Rightarrow> PageErr + PhysPageAllocator \<times> ThreadPageTable" where
  "exec_clear ks s =
     ebind (free_entries ks (pgtable (snd s)) (fst s)) (\<lambda>p.
     Inr (p, \<lparr>brk_va = 0, mmap_segments = [], pgtable = Map.empty, dyn_lib_brk = MAX_MMAP_VADDR\<rparr>))"

partial_function (option) free_tmp_page :: "u64 \<Rightarrow> entries \<Rightarrow> u64 option" where
  "free_tmp_page tmp t = (if t tmp \<noteq> None then free_tmp_page (tmp + 1) t else Some tmp)"

definition cow_realloc_missed_page ::
  "u64 \<Rightarrow> PhysPageAllocator \<times> ThreadPageTable \<Rightarrow> PageErr + u64 \<times> PhysPageAllocator \<times> ThreadPageTable" where
  "cow_realloc_missed_page missed s =
     (let t = snd s in
      ebind (require page_not_mapped (pgtable t missed)) (\<lambda>pg.
      ebind (check page_not_cow (pe_flg pg AND PGFLAG_COW \<noteq> 0)) (\<lambda>_.
      ebind (require no_return (free_tmp_page (page_of (dyn_lib_brk t) + 1) (pgtable t))) (\<lambda>tmp.
      ebind (check address_space_full (tmp < page_of MAX_VADDR)) (\<lambda>_.
      ebind (page_alloc (fst s)) (\<lambda>(ppi, p).
      Inr (tmp, p, t\<lparr>pgtable := (pgtable t)(tmp \<mapsto> \<lparr>pe_ppi = pe_ppi pg, pe_flg = PGFLAG_R, pe_fd = 0, pe_offset = 0\<rparr>,
          missed \<mapsto> set_bits PGFLAG_COW PGFLAG_W (pg\<lparr>pe_ppi := ppi\<rparr>))\<rparr>)))))))"

definition cow_free_tmp_page :: "u64 \<Rightarrow> PhysPageAllocator \<times> ThreadPageTable \<Rightarrow> PageErr + PhysPageAllocator \<times> ThreadPageTable" where
  "cow_free_tmp_page tmppage s =
     ebind (require page_not_mapped (pgtable (snd s) tmppage)) (\<lambda>e.
     ebind (page_free (pe_ppi e) (fst s)) (\<lambda>(_, p).
     Inr (p, (snd s)\<lparr>pgtable := (pgtable (snd s))(tmppage := None)\<rparr>)))"

lemma free_tmp_page_none:
  assumes ret: "free_tmp_page tmp t = Some v"
  shows "t v = None"
proof (rule free_tmp_page.raw_induct [where P = "\<lambda>tmp t v. t v = None", OF _ ret])
  fix f tmp v and t :: entries
  assume IH: "\<And>tmp t v. f tmp t = Some v \<Longrightarrow> t v = None" and eq: "(if t tmp \<noteq> None then f (tmp + 1) t else Some tmp) = Some v"
  show "t v = None" using IH [of "tmp + 1" t v] eq by (cases "t tmp = None") simp_all
qed

section \<open>Descriptors, signal masks, limits and contexts\<close>

record FDTable =
  alloc_fd :: u32
  fd_tb :: "(u32 \<times> u32) list"

datatype ThreadErr = fd_table_run_out | fd_search_no_return | sigset_size | sigprocmask_args | no_context

definition new_fdtable :: FDTable where "new_fdtable = \<lparr>alloc_fd = 3, fd_tb = [(0, 0), (1, 1), (2, 2)]\<rparr>"

definition fdtable_trans :: "u32 \<Rightarrow> FDTable \<Rightarrow> u32" where
  "fdtable_trans user_fd f =
     (case map_of (fd_tb f) user_fd of Some r \<Rightarrow> r | None \<Rightarrow> if 0 < sint user_fd then - 1 else user_fd)"

partial_function (option) fd_search :: "FDTable \<Rightarrow> (u32 \<times> FDTable) option" where
  "fd_search f =
     (let ret = alloc_fd f; f' = f\<lparr>alloc_fd := (alloc_fd f + 1) AND 0x3fffffff\<rparr> in
      if map_of (fd_tb f) ret = None then Some (ret, f') else fd_search f')"

definition fdtable_insert :: "u32 \<Rightarrow> FDTable \<Rightarrow> ThreadErr + u32 \<times> FDTable" where
  "fdtable_insert sys_fd f =
     (if sint sys_fd < 3 then Inr (sys_fd, f)
      else if length (fd_tb f) > 0x1000000 then Inl fd_table_run_out
      else ebind (require fd_search_no_return (fd_search f)) (\<lambda>(ret, f').
        Inr (ret, f'\<lparr>fd_tb := (ret, sys_fd) # fd_tb f'\<rparr>)))"

definition fdtable_pop :: "u32 \<Rightarrow> FDTable \<Rightarrow> u32 \<times> FDTable" where
  "fdtable_pop user_fd f =
     (case map_of (fd_tb f) user_fd of
        Some r \<Rightarrow> (r, f\<lparr>fd_tb := AList.delete user_fd (fd_tb f)\<rparr>)
      | None \<Rightarrow> (if 0 < sint user_fd then - 1 else user_fd, f))"

definition fdtable_force_insert :: "u32 \<Rightarrow> u32 \<Rightarrow> FDTable \<Rightarrow> FDTable" where
  "fdtable_force_insert user_fd sys_fd f = f\<lparr>fd_tb := AList.update user_fd sys_fd (fd_tb f)\<rparr>"

text \<open>The table of a process forked without \<^verbatim>\<open>CLONE_FILES\<close>; \<^verbatim>\<open>dup\<close> stands for the host's duplication of a descriptor.\<close>

definition fork_fdtable :: "(u32 \<Rightarrow> u32) \<Rightarrow> FDTable \<Rightarrow> FDTable" where
  "fork_fdtable dup f =
     \<lparr>alloc_fd = alloc_fd f,
      fd_tb = [(0, 0), (1, 1), (2, 2)] @ map (\<lambda>(sim_fd, host_fd). (sim_fd, dup host_fd)) (filter (\<lambda>(sim_fd, _). \<not> sint sim_fd < 3) (fd_tb f))\<rparr>"

record RVKernelSigaction =
  sa_handler :: u64
  sa_flags :: u64
  sa_mask :: "u8 list"

definition sys_sigaction ::
  "u32 \<Rightarrow> RVKernelSigaction option \<Rightarrow> bool \<Rightarrow> (u32 \<rightharpoonup> RVKernelSigaction) \<Rightarrow> (u32 \<rightharpoonup> RVKernelSigaction) \<times> RVKernelSigaction option" where
  "sys_sigaction signum act want_old acts =
     (case act of None \<Rightarrow> acts | Some a \<Rightarrow> acts(signum \<mapsto> a),
      if want_old
      then Some (case acts signum of None \<Rightarrow> \<lparr>sa_handler = 0, sa_flags = 0, sa_mask = replicate 8 0\<rparr> | Some a \<Rightarrow> a)
      else None)"

definition sys_sigprocmask :: "u32 \<Rightarrow> u8 list option \<Rightarrow> bool \<Rightarrow> u64 \<Rightarrow> u8 list \<Rightarrow> ThreadErr + u8 list \<times> u8 list option" where
  "sys_sigprocmask how newset want_old sigsetsize sysset =
     (if sigsetsize \<noteq> 8 then Inl sigset_size
      else ebind (case newset of None \<Rightarrow> Inr sysset
          | Some s \<Rightarrow> if how = 0 then Inr (map2 (OR) sysset s)
              else if how = 1 then Inr (map2 (\<lambda>x y. x AND NOT y) sysset s)
              else if how = 2 then Inr s
              else Inl sigprocmask_args) (\<lambda>new.
        Inr (new, if want_old then Some sysset else None)))"

text \<open>The condition of \<^verbatim>\<open>sys_prlimit\<close> is an assignment of \<^verbatim>\<open>RLIMIT_STACK\<close>, which is 3: it holds for every resource.\<close>

definition sys_prlimit :: "u64 \<Rightarrow> (u64 \<times> u64) option \<Rightarrow> bool \<Rightarrow> (u64 \<times> u64) list \<Rightarrow> (u64 \<times> u64) list \<times> (u64 \<times> u64) option" where
  "sys_prlimit resource p_new want_old rlimit_values =
     (case p_new of None \<Rightarrow> rlimit_values | Some r \<Rightarrow> rlimit_values[3 := r], if want_old then Some (rlimit_values ! 3) else None)"

record RVContext =
  cx_regs :: "u64 list"
  cx_recover_a0 :: bool

definition save_context_stack :: "u64 \<Rightarrow> u64 list \<Rightarrow> bool \<Rightarrow> RVContext list \<Rightarrow> RVContext list" where
  "save_context_stack nextpc regs recover_a0 stack = stack @ [\<lparr>cx_regs = nextpc # tl regs, cx_recover_a0 = recover_a0\<rparr>]"

definition recover_context_stack :: "u64 list \<Rightarrow> RVContext list \<Rightarrow> ThreadErr + u64 \<times> u64 list \<times> RVContext list" where
  "recover_context_stack out_regs stack =
     (if stack = [] then Inl no_context
      else let c = last stack in
        Inr (cx_regs c ! 0,
          (if cx_recover_a0 c then hd out_regs # tl (cx_regs c)
           else hd out_regs # tl ((cx_regs c)[unat (ireg_index_of ''a0'') := out_regs ! unat (ireg_index_of ''a0'')])),
          butlast stack))"

text \<open>Contexts are a stack: the last one saved is restored, except for the register that holds a system call's result.\<close>

lemma context_roundtrip:
  assumes "length regs = 64" and "length out = 64"
  shows "recover_context_stack out (save_context_stack nextpc regs r st)
    = Inr (nextpc, hd out # (if r then tl regs else tl (regs[10 := out ! 10])), st)"
proof -
  have "unat (ireg_index_of ''a0'') = 10" by code_simp
  moreover have "tl ((nextpc # tl regs)[10 := x]) = tl (regs[10 := x])" for x using assms(1) by (cases regs) simp_all
  ultimately show ?thesis by (simp add: recover_context_stack_def save_context_stack_def)
qed

section \<open>The operations of one table\<close>

datatype MemOp =
    op_mmap u64 u32 u32 u64 string
  | op_mmap_fixed u64 u64 u32 u32 u64 string
  | op_munmap u64 u64
  | op_brk u64
  | op_elf_seg u64 u64 u32
  | op_dynlib_seg u64 u64 u32
  | op_translate u64 u32
  | op_mprotect u64 u64 u32
  | op_cow_fault u64
  | op_cow_done u64
  | op_exec "u64 list"

fun mem_op :: "MemOp \<Rightarrow> PhysPageAllocator \<times> ThreadPageTable \<Rightarrow> PageErr + PhysPageAllocator \<times> ThreadPageTable" where
  "mem_op (op_mmap sz flag fd offset info) s = ebind (alloc_mmap sz flag fd offset info s) (\<lambda>(_, s'). Inr s')"
| "mem_op (op_mmap_fixed addr sz flag fd offset info) s = ebind (alloc_mmap_fixed addr sz flag fd offset info s) (\<lambda>(_, s'). Inr s')"
| "mem_op (op_munmap va sz) s = free_mmap va sz s"
| "mem_op (op_brk brk) s = ebind (alloc_brk brk s) (\<lambda>(_, s'). Inr s')"
| "mem_op (op_elf_seg start sz flag) s = init_elf_seg start sz flag s"
| "mem_op (op_dynlib_seg start sz flag) s = init_dynlib_seg start sz flag s"
| "mem_op (op_translate addr flg) s = Inr (fst s, snd (va2pa addr flg s))"
| "mem_op (op_mprotect va sz flag) s = Inr (fst s, sys_mprotect va sz flag (snd s))"
| "mem_op (op_cow_fault v) s = ebind (cow_realloc_missed_page v s) (\<lambda>(_, s'). Inr s')"
| "mem_op (op_cow_done v) s = cow_free_tmp_page v s"
| "mem_op (op_exec ks) s = exec_clear ks s"

definition keeps_s :: "(u64 \<Rightarrow> nat) \<Rightarrow> PhysPageAllocator \<times> ThreadPageTable \<Rightarrow> PhysPageAllocator \<times> ThreadPageTable \<Rightarrow> bool" where
  "keeps_s R s s' \<longleftrightarrow> keeps R (fst s) (pgtable (snd s)) (fst s') (pgtable (snd s'))"

lemma keeps_s_refl [simp]: "keeps_s R s s"
  by (simp add: keeps_s_def)

lemma keeps_s_trans: "keeps_s R s s' \<Longrightarrow> keeps_s R s' s'' \<Longrightarrow> keeps_s R s s''"
  unfolding keeps_s_def by (rule keeps_trans)

lemma alloc_multi_page_keeps: "alloc_multi_page vpindex vpcnt flag fd offset s = Inr s' \<Longrightarrow> keeps_s R s s'"
  unfolding keeps_s_def alloc_multi_page_def
  using alloc_pages_keeps [of vpindex "vpindex + vpcnt" flag fd offset "(fst s, pgtable (snd s))" _ R] by auto

lemma free_mmap_keeps:
  assumes "acct R (fst s) (pgtable (snd s))"
  shows "\<exists>s'. free_mmap va sz s = Inr s' \<and> keeps_s R s s'"
  using free_pages_keeps [of R "(fst s, pgtable (snd s))" "page_of va" "page_end (va + sz)"] assms
  by (auto simp: keeps_s_def free_mmap_def Let_def)

lemma keeps_s_same_table: "keeps_s R (p, t) s' \<Longrightarrow> pgtable t = pgtable t' \<Longrightarrow> keeps_s R (p, t') s'"
  "keeps_s R s (p, t) \<Longrightarrow> pgtable t = pgtable t' \<Longrightarrow> keeps_s R s (p, t')"
  by (simp_all add: keeps_s_def)

lemma alloc_mmap_keeps: "alloc_mmap sz flag fd offset info s = Inr (a, s') \<Longrightarrow> keeps_s R s s'"
  by (cases s) (auto simp: alloc_mmap_def Let_def split: prod.splits if_splits
      dest!: alloc_multi_page_keeps [where R = R] elim!: keeps_s_same_table(1))

lemma alloc_brk_keeps: "alloc_brk brk s = Inr (a, s') \<Longrightarrow> keeps_s R s s'"
  by (auto simp: alloc_brk_def split: if_splits dest!: alloc_multi_page_keeps [where R = R] elim!: keeps_s_same_table(2))

lemma init_seg_keeps:
  "init_elf_seg start sz flag s = Inr s' \<Longrightarrow> keeps_s R s s'"
  "init_dynlib_seg start sz flag s = Inr s' \<Longrightarrow> keeps_s R s s'"
  by (auto simp: init_elf_seg_def init_dynlib_seg_def dest!: alloc_multi_page_keeps [where R = R] elim!: keeps_s_same_table(2))

lemma alloc_mmap_fixed_keeps:
  assumes "alloc_mmap_fixed addr sz flag fd offset info s = Inr (a, s')" and "acct R (fst s) (pgtable (snd s))"
  shows "keeps_s R s s'"
proof (cases "page_base (page_of addr) \<le> brk_va (snd s)")
  case True
  then show ?thesis using assms(1) by (simp add: alloc_mmap_fixed_def Let_def)
next
  case False
  obtain s1 where s1: "free_mmap addr sz s = Inr s1" "keeps_s R s s1" using free_mmap_keeps [OF assms(2)] by blast
  obtain p t where pt: "s1 = (p, t)" by (cases s1)
  obtain g where "alloc_multi_page (page_of addr) (page_end (addr + sz) - page_of addr) flag fd offset (p, t\<lparr>mmap_segments := g\<rparr>) = Inr s'"
    using assms(1) False s1(1) pt by (auto simp: alloc_mmap_fixed_def Let_def)
  then have "keeps_s R (p, t) s'" by (auto dest!: alloc_multi_page_keeps [where R = R] elim!: keeps_s_same_table(1))
  then show ?thesis using s1(2) keeps_s_trans unfolding pt by blast
qed

lemma exec_clear_keeps:
  assumes "acct R (fst s) (pgtable (snd s))" and "distinct ks" and "set ks = dom (pgtable (snd s))"
  shows "\<exists>s'. exec_clear ks s = Inr s' \<and> keeps_s R s s'"
  using free_entries_keeps [OF assms] by (auto simp: exec_clear_def keeps_s_def)

lemma flag_bits:
  "set_bits clear add e = e' \<Longrightarrow> pe_ppi e' = pe_ppi e"
  by (auto simp: set_bits_def)

lemma va2pa_keeps: "keeps_s R s (fst s, snd (va2pa addr flg s))"
proof -
  let ?v = "page_of addr" and ?t = "pgtable (snd s)"
  have "\<not> is_shared (pe_ppi e) (fst s) \<Longrightarrow> ?t ?v = Some e \<Longrightarrow> keeps R (fst s) ?t (fst s) (?t(?v \<mapsto> set_bits PGFLAG_COW PGFLAG_W e))" for e
  proof -
    assume n: "\<not> is_shared (pe_ppi e) (fst s)" and e: "?t ?v = Some e"
    show ?thesis unfolding keeps_def
    proof
      assume acct: "acct R (fst s) ?t"
      obtain c where c: "alloced_pages (fst s) (pe_ppi e) = Some c" "c \<noteq> 0" using acct_allocated(2) [OF acct e] by blast
      then have "0 < unat c" "\<not> 1 < unat c" using n by (simp_all add: unat_gt_0 is_shared_def word_less_nat_alt)
      then have "refcnt (fst s) (pe_ppi e) = 1" using c(1) by (simp add: refcnt_def)
      then show "acct R (fst s) (?t(?v \<mapsto> set_bits PGFLAG_COW PGFLAG_W e)) \<and>
         (\<forall>f. 0 < R f \<and> users ?t f = {} \<longrightarrow> users (?t(?v \<mapsto> set_bits PGFLAG_COW PGFLAG_W e)) f = {}) \<and>
         (excl (fst s) ?t \<longrightarrow> excl (fst s) (?t(?v \<mapsto> set_bits PGFLAG_COW PGFLAG_W e)))"
        using keeps_flags [where t = ?t and v = ?v and e = e and e' = "set_bits PGFLAG_COW PGFLAG_W e" and p = "fst s" and R = R] e acct
        by (auto simp: keeps_def set_bits_def)
    qed
  qed
  then show ?thesis by (auto simp: keeps_s_def va2pa_def Let_def split: option.splits)
qed

lemma cow_realloc_keeps:
  assumes "cow_realloc_missed_page missed s = Inr (tmp, s')"
  shows "keeps_s R s s'"
proof -
  let ?t = "pgtable (snd s)"
  obtain pg f p where pg: "?t missed = Some pg" and tmp: "free_tmp_page (page_of (dyn_lib_brk (snd s)) + 1) ?t = Some tmp"
    and f: "page_alloc (fst s) = Inr (f, p)"
    and s': "s' = (p, (snd s)\<lparr>pgtable := ?t(tmp \<mapsto> \<lparr>pe_ppi = pe_ppi pg, pe_flg = PGFLAG_R, pe_fd = 0, pe_offset = 0\<rparr>,
          missed \<mapsto> set_bits PGFLAG_COW PGFLAG_W (pg\<lparr>pe_ppi := f\<rparr>))\<rparr>)"
    using assms by (auto simp: cow_realloc_missed_page_def Let_def)
  have none: "?t tmp = None" by (rule free_tmp_page_none [OF tmp])
  let ?e = "\<lparr>pe_ppi = pe_ppi pg, pe_flg = PGFLAG_R, pe_fd = 0, pe_offset = 0\<rparr>"
  have "\<not> private_page ?e" by (simp add: private_page_def PGFLAG_R_def PGFLAG_W_def)
  then have k: "keeps R (fst s) ?t (fst s) (?t(missed := None, tmp \<mapsto> ?e))" by (intro keeps_move [OF pg none]) simp
  have ne: "missed \<noteq> tmp" using pg none by auto
  let ?d = "set_bits PGFLAG_COW PGFLAG_W (pg\<lparr>pe_ppi := f\<rparr>)"
  have "keeps R (fst s) (?t(missed := None, tmp \<mapsto> ?e)) p (?t(missed := None, tmp \<mapsto> ?e, missed \<mapsto> ?d))"
    using f ne by (intro keeps_map) (simp_all add: set_bits_def)
  moreover have "?t(missed := None, tmp \<mapsto> ?e, missed \<mapsto> ?d) = ?t(tmp \<mapsto> ?e, missed \<mapsto> ?d)" by auto
  ultimately have "keeps R (fst s) ?t p (?t(tmp \<mapsto> ?e, missed \<mapsto> ?d))" using keeps_trans [OF k] by simp
  then show ?thesis by (simp add: keeps_s_def s')
qed

lemma cow_free_keeps: "cow_free_tmp_page v s = Inr s' \<Longrightarrow> keeps_s R s s'"
  by (auto simp: cow_free_tmp_page_def keeps_s_def intro: keeps_unmap)

lemma set_prot_map:
  "set_prot vpi stop flag t v =
    (if vpi \<le> v \<and> v < stop then map_option (set_bits (PGFLAG_R OR PGFLAG_W OR PGFLAG_X) flag) (t v) else t v)"
proof (induction vpi stop flag t rule: set_prot.induct)
  case (1 vpi stop flag t)
  show ?case
  proof (cases "vpi < stop")
    case True
    have up: "\<not> vpi + 1 \<le> vpi" using unat_Suc_less [OF True] by (simp add: word_le_nat_alt)
    show ?thesis using 1 [OF True] True up unfolding range_step [OF True] set_prot.simps [of vpi]
      by (cases "v = vpi") (auto split: option.splits)
  next
    case False
    then show ?thesis by (auto simp: set_prot.simps)
  qed
qed

lemma users_same: "(\<And>v. map_option pe_ppi (t' v) = map_option pe_ppi (t v)) \<Longrightarrow> users t' f = users t f"
proof -
  assume "\<And>v. map_option pe_ppi (t' v) = map_option pe_ppi (t v)"
  moreover have "users u f = {v. map_option pe_ppi (u v) = Some f}" for u by (auto simp: users_def)
  ultimately show ?thesis by (simp only:)
qed

lemma dom_same: "(\<And>v. map_option pe_ppi (t' v) = map_option pe_ppi (t v)) \<Longrightarrow> dom t' = dom t"
  by (auto simp: dom_def) (metis not_None_eq option.map_disc_iff)+

text \<open>Write access is granted safely when every page it is granted to is a shared mapping or has its frame to itself.\<close>

definition safe_grant :: "PhysPageAllocator \<Rightarrow> entries \<Rightarrow> u64 \<Rightarrow> u64 \<Rightarrow> u32 \<Rightarrow> bool" where
  "safe_grant p t va sz flag \<longleftrightarrow> flag AND PGFLAG_W = 0
     \<or> (\<forall>v e. page_of va \<le> v \<and> v < page_end (va + sz) \<and> t v = Some e \<longrightarrow> pe_flg e AND PGFLAG_SHARE \<noteq> 0 \<or> refcnt p (pe_ppi e) = 1)"

lemma mprotect_acct: "acct R p (pgtable t) \<Longrightarrow> acct R p (pgtable (sys_mprotect va sz flag t))"
proof -
  have same: "map_option pe_ppi (pgtable (sys_mprotect va sz flag t) v) = map_option pe_ppi (pgtable t v)" for v
    by (simp add: sys_mprotect_def set_prot_map option.map_comp comp_def set_bits_def)
  assume "acct R p (pgtable t)"
  then show ?thesis by (simp add: acct_def users_same [OF same] dom_same [OF same])
qed

lemma mprotect_users: "users (pgtable (sys_mprotect va sz flag t)) = users (pgtable t)"
  by (rule ext, rule users_same) (simp add: sys_mprotect_def set_prot_map option.map_comp comp_def set_bits_def)

lemma prot_bits:
  "private_page (set_bits (PGFLAG_R OR PGFLAG_W OR PGFLAG_X) (flag AND (PGFLAG_R OR PGFLAG_W OR PGFLAG_X)) e)
    \<longleftrightarrow> flag AND PGFLAG_W \<noteq> 0 \<and> pe_flg e AND PGFLAG_SHARE = 0"
proof -
  let ?g = "(pe_flg e AND NOT 7) OR (flag AND 7) :: u32"
  have "?g AND k = (pe_flg e AND (NOT 7 AND k)) OR (flag AND (7 AND k))" for k
    by (simp only: bit.conj_disj_distrib2 and.assoc)
  from this [of 2] this [of 16] have "?g AND 2 = flag AND 2" "?g AND 16 = pe_flg e AND 16" by simp_all
  then show ?thesis by (simp add: private_page_def set_bits_def PGFLAG_R_def PGFLAG_W_def PGFLAG_X_def PGFLAG_SHARE_def)
qed

lemma mprotect_keeps:
  assumes "safe_grant p (pgtable t) va sz flag"
  shows "keeps_s R (p, t) (p, sys_mprotect va sz flag t)"
  unfolding keeps_s_def keeps_def fst_conv snd_conv
proof (intro impI conjI allI)
  assume a: "acct R p (pgtable t)"
  show "acct R p (pgtable (sys_mprotect va sz flag t))" by (rule mprotect_acct [OF a])
  show "users (pgtable (sys_mprotect va sz flag t)) f = {}" if "0 < R f \<and> users (pgtable t) f = {}" for f
    using that by (simp add: mprotect_users)
  assume ex: "excl p (pgtable t)"
  show "excl p (pgtable (sys_mprotect va sz flag t))" unfolding excl_def
  proof (intro allI impI)
    fix v e'
    assume v: "pgtable (sys_mprotect va sz flag t) v = Some e' \<and> private_page e'"
    show "refcnt p (pe_ppi e') = 1"
    proof (cases "page_of va \<le> v \<and> v < page_end (va + sz)")
      case False
      then show ?thesis using v ex by (auto simp: sys_mprotect_def set_prot_map excl_def)
    next
      case True
      then obtain e where e: "pgtable t v = Some e"
          "e' = set_bits (PGFLAG_R OR PGFLAG_W OR PGFLAG_X) (flag AND (PGFLAG_R OR PGFLAG_W OR PGFLAG_X)) e"
        using v by (auto simp: sys_mprotect_def set_prot_map)
      then have "flag AND PGFLAG_W \<noteq> 0" "pe_flg e AND PGFLAG_SHARE = 0" using v prot_bits by simp_all
      then have "refcnt p (pe_ppi e) = 1" using assms True e(1) unfolding safe_grant_def by blast
      then show ?thesis using e(2) by (simp add: set_bits_def)
    qed
  qed
qed

text \<open>What every operation needs of the order of keys, and what the ones that keep pages apart need of a grant.\<close>

fun op_ready :: "ThreadPageTable \<Rightarrow> MemOp \<Rightarrow> bool" where
  "op_ready t (op_exec ks) = (distinct ks \<and> set ks = dom (pgtable t))"
| "op_ready t _ = True"

fun op_safe :: "PhysPageAllocator \<Rightarrow> ThreadPageTable \<Rightarrow> MemOp \<Rightarrow> bool" where
  "op_safe p t (op_mprotect va sz flag) = safe_grant p (pgtable t) va sz flag"
| "op_safe p t _ = True"

lemma mem_op_keeps:
  assumes "mem_op m s = Inr s'" and "op_ready (snd s) m" and "op_safe (fst s) (snd s) m" and "acct R (fst s) (pgtable (snd s))"
  shows "keeps_s R s s'"
proof (cases m)
  case (op_mmap sz flag fd offset info)
  then show ?thesis using assms(1) by (auto intro: alloc_mmap_keeps)
next
  case (op_mmap_fixed addr sz flag fd offset info)
  then show ?thesis using assms(1,4) by (auto intro: alloc_mmap_fixed_keeps)
next
  case (op_munmap va sz)
  then show ?thesis using assms(1) free_mmap_keeps [OF assms(4), of va sz] by auto
next
  case (op_brk brk)
  then show ?thesis using assms(1) by (auto intro: alloc_brk_keeps)
next
  case (op_elf_seg start sz flag)
  then show ?thesis using assms(1) by (auto intro: init_seg_keeps)
next
  case (op_dynlib_seg start sz flag)
  then show ?thesis using assms(1) by (auto intro: init_seg_keeps)
next
  case (op_translate addr flg)
  then show ?thesis using assms(1) va2pa_keeps [of R s addr flg] by auto
next
  case (op_mprotect va sz flag)
  then show ?thesis using assms(1,3) mprotect_keeps [of "fst s" "snd s" va sz flag R] by auto
next
  case (op_cow_fault v)
  then show ?thesis using assms(1) by (auto intro: cow_realloc_keeps)
next
  case (op_cow_done v)
  then show ?thesis using assms(1) by (auto intro: cow_free_keeps)
next
  case (op_exec ks)
  then show ?thesis using assms(1,2) exec_clear_keeps [OF assms(4), of ks] by auto
qed

lemma mem_op_acct:
  assumes "mem_op m s = Inr s'" and "op_ready (snd s) m" and a: "acct R (fst s) (pgtable (snd s))"
  shows "acct R (fst s') (pgtable (snd s'))"
proof (cases "\<exists>va sz flag. m = op_mprotect va sz flag")
  case True
  then show ?thesis using assms(1) mprotect_acct [OF a] by auto
next
  case False
  then have "op_safe (fst s) (snd s) m" by (cases m) simp_all
  then show ?thesis using mem_op_keeps [OF assms(1,2) _ a] a by (simp add: keeps_s_def keeps_def)
qed

section \<open>Forking\<close>

lemma fork_pages_result:
  assumes "fork_pages ks (p, t) = Inr (p', t')" and "distinct ks" and "frames_ok p"
    and "\<And>f. refcnt p f + card {k \<in> set ks. k \<in> users t f} < 2 ^ 32"
  shows "frames_ok p' \<and> (\<forall>v. t' v = (if v \<in> set ks then map_option fork_entry (t v) else t v))
    \<and> (\<forall>f. refcnt p' f = refcnt p f + card {k \<in> set ks. k \<in> users t f})"
  using assms
proof (induction ks arbitrary: p t)
  case Nil
  then show ?case by simp
next
  case (Cons k ks)
  obtain e c where e: "t k = Some e" and c: "alloced_pages p (pe_ppi e) = Some c"
    and r: "fork_pages ks (p\<lparr>alloced_pages := (alloced_pages p)(pe_ppi e \<mapsto> c + 1)\<rparr>, t(k \<mapsto> fork_entry e)) = Inr (p', t')"
    using Cons.prems(1) by (auto simp: page_reuse_def)
  let ?p = "p\<lparr>alloced_pages := (alloced_pages p)(pe_ppi e \<mapsto> c + 1)\<rparr>" and ?t = "t(k \<mapsto> fork_entry e)"
  have same: "pe_ppi (fork_entry e) = pe_ppi e" by (simp add: fork_entry_def set_bits_def)
  have u: "users ?t f = users t f" for f using e same by (auto simp: users_def)
  have kin: "k \<in> users t f \<longleftrightarrow> f = pe_ppi e" for f using e by (auto simp: in_users)
  have sp: "{j \<in> set (k # ks). j \<in> users t f} = (if f = pe_ppi e then insert k {j \<in> set ks. j \<in> users t f} else {j \<in> set ks. j \<in> users t f})" for f
    using kin [of f] by auto
  have n: "k \<notin> set ks" using Cons.prems(2) by simp
  have sc: "card {j \<in> set (k # ks). j \<in> users t f} = (if f = pe_ppi e then 1 else 0) + card {j \<in> set ks. j \<in> users t f}" for f
    unfolding sp using n by simp
  have "unat c + 1 < 2 ^ 32" using Cons.prems(4) [of "pe_ppi e"] c unfolding sc by (simp add: refcnt_def)
  then have c1: "unat (c + 1) = unat c + 1" by (simp add: unat_word_ariths)
  then have "c + 1 \<noteq> 0" by (metis add_is_0 one_neq_zero unsigned_0)
  then have ok: "frames_ok ?p" using Cons.prems(3) c by (auto simp: frames_ok_def)
  have rc: "refcnt ?p f = refcnt p f + (if f = pe_ppi e then 1 else 0)" for f using c c1 by (simp add: refcnt_def)
  have bound: "refcnt ?p f + card {j \<in> set ks. j \<in> users ?t f} < 2 ^ 32" for f
    using Cons.prems(4) [of f] unfolding sc rc u by simp
  have d: "distinct ks" using Cons.prems(2) by simp
  note IH = Cons.IH [OF r d ok bound]
  show ?case
  proof (intro conjI allI)
    show "frames_ok p'" using IH by blast
    show "t' v = (if v \<in> set (k # ks) then map_option fork_entry (t v) else t v)" for v
      using IH n e by (cases "v = k") auto
    show "refcnt p' f = refcnt p f + card {j \<in> set (k # ks). j \<in> users t f}" for f
      using IH unfolding sc rc u by simp
  qed
qed

lemma fork_entry_not_private: "\<not> private_page (fork_entry e)"
proof -
  have "((pe_flg e AND NOT 2) OR 64) AND 2 = (pe_flg e AND (NOT 2 AND 2)) OR (64 AND 2 :: u32)"
    by (simp only: bit.conj_disj_distrib2 and.assoc)
  then have "((pe_flg e AND NOT 2) OR 64) AND 2 = 0" by simp
  then show ?thesis
    by (auto simp: fork_entry_def private_page_def set_bits_def PGFLAG_W_def PGFLAG_COW_def)
qed

lemma fork_page_table_result:
  assumes f: "fork_page_table ks (p, t) = Inr (p', t', child)" and ks: "distinct ks" "set ks = dom (pgtable t)"
    and ok: "frames_ok p" and bound: "\<And>f. refcnt p f + card (users (pgtable t) f) < 2 ^ 32"
  shows "frames_ok p' \<and> child = t' \<and> dom (pgtable t') = dom (pgtable t) \<and> users (pgtable t') = users (pgtable t)
    \<and> (\<forall>f. refcnt p' f = refcnt p f + card (users (pgtable t) f)) \<and> (\<forall>q. excl q (pgtable t'))
    \<and> (\<forall>v. pgtable t' v = map_option fork_entry (pgtable t v))"
proof -
  obtain u where r: "fork_pages ks (p, pgtable t) = Inr (p', u)" and t': "t' = t\<lparr>pgtable := u\<rparr>"
    and c: "child = \<lparr>brk_va = brk_va t, mmap_segments = mmap_segments t, pgtable = u, dyn_lib_brk = dyn_lib_brk t\<rparr>"
    using f by (auto simp: fork_page_table_def)
  have sub: "{k \<in> set ks. k \<in> users (pgtable t) f} = users (pgtable t) f" for f using users_subset ks(2) by blast
  have b: "refcnt p f + card {k \<in> set ks. k \<in> users (pgtable t) f} < 2 ^ 32" for f unfolding sub by (rule bound)
  note res = fork_pages_result [OF r ks(1) ok b]
  have u: "u v = map_option fork_entry (pgtable t v)" for v using res ks(2) by (cases "pgtable t v") (auto simp: domIff)
  have same: "map_option pe_ppi (u v) = map_option pe_ppi (pgtable t v)" for v
    by (simp add: u option.map_comp comp_def fork_entry_def set_bits_def if_distrib cong: if_cong)
  have "excl q u" for q using fork_entry_not_private by (auto simp: excl_def u)
  moreover have "users u = users (pgtable t)" by (rule ext, rule users_same [OF same])
  moreover have "dom u = dom (pgtable t)" by (rule dom_same [OF same])
  ultimately show ?thesis using res t' c u by (simp add: sub)
qed

section \<open>All processes\<close>

type_synonym world = "PhysPageAllocator \<times> ThreadPageTable list"

datatype WorldOp = on_table nat MemOp | fork_table nat "u64 list" | exit_table nat "u64 list" | new_process

inductive world_step :: "world \<Rightarrow> WorldOp \<Rightarrow> world \<Rightarrow> bool" where
  step_op: "i < length ts \<Longrightarrow> op_ready (ts ! i) m \<Longrightarrow> mem_op m (p, ts ! i) = Inr (p', t') \<Longrightarrow>
    world_step (p, ts) (on_table i m) (p', ts[i := t'])"
| step_fork: "i < length ts \<Longrightarrow> distinct ks \<Longrightarrow> set ks = dom (pgtable (ts ! i)) \<Longrightarrow>
    (\<forall>f. refcnt p f + card (users (pgtable (ts ! i)) f) < 2 ^ 32) \<Longrightarrow>
    fork_page_table ks (p, ts ! i) = Inr (p', t', child) \<Longrightarrow>
    world_step (p, ts) (fork_table i ks) (p', ts[i := t'] @ [child])"
| step_exit: "i < length ts \<Longrightarrow> distinct ks \<Longrightarrow> set ks = dom (pgtable (ts ! i)) \<Longrightarrow>
    free_entries ks (pgtable (ts ! i)) p = Inr p' \<Longrightarrow>
    world_step (p, ts) (exit_table i ks) (p', take i ts @ drop (Suc i) ts)"
| step_new: "world_step (p, ts) new_process (p, ts @ [new_page_table])"

definition step_safe :: "world \<Rightarrow> WorldOp \<Rightarrow> bool" where
  "step_safe w op = (case op of on_table i m \<Rightarrow> op_safe (fst w) (snd w ! i) m | _ \<Rightarrow> True)"

text \<open>Reachable worlds, all of them or only by grants that are safe.\<close>

inductive reachable :: "bool \<Rightarrow> world \<Rightarrow> bool" for safe where
  start: "new_allocator a sz m = Inr p \<Longrightarrow> unat a + unat sz + 4096 < 2 ^ 64 \<Longrightarrow> reachable safe (p, [])"
| step: "reachable safe w \<Longrightarrow> world_step w op w' \<Longrightarrow> safe \<longrightarrow> step_safe w op \<Longrightarrow> reachable safe w'"

definition refs :: "ThreadPageTable list \<Rightarrow> u64 \<Rightarrow> nat" where
  "refs ts f = sum_list (map (\<lambda>t. card (users (pgtable t) f)) ts)"

definition others :: "nat \<Rightarrow> ThreadPageTable list \<Rightarrow> ThreadPageTable list" where
  "others i ts = take i ts @ drop (Suc i) ts"

definition world_ok :: "world \<Rightarrow> bool" where
  "world_ok w \<longleftrightarrow> frames_ok (fst w) \<and> (\<forall>t\<in>set (snd w). finite (dom (pgtable t))) \<and> (\<forall>f. refcnt (fst w) f = refs (snd w) f)"

definition world_excl :: "world \<Rightarrow> bool" where
  "world_excl w \<longleftrightarrow> (\<forall>t\<in>set (snd w). excl (fst w) (pgtable t))"

lemma refs_append [simp]: "refs (xs @ ys) f = refs xs f + refs ys f" and refs_Cons: "refs (t # ts) f = card (users (pgtable t) f) + refs ts f"
  and refs_Nil [simp]: "refs [] f = 0"
  by (simp_all add: refs_def)

lemma refs_update: "i < length ts \<Longrightarrow> refs (ts[i := t]) f = refs (others i ts) f + card (users (pgtable t) f)"
  by (simp add: upd_conv_take_nth_drop others_def refs_Cons)

lemma refs_split: "i < length ts \<Longrightarrow> refs ts f = refs (others i ts) f + card (users (pgtable (ts ! i)) f)"
  using refs_update [of i ts "ts ! i"] by simp

lemma set_others: "t \<in> set (others i ts) \<Longrightarrow> t \<in> set ts"
  unfolding others_def by (auto dest: in_set_takeD in_set_dropD)

lemma set_update_others: "i < length ts \<Longrightarrow> set (ts[i := t]) = insert t (set (others i ts))"
  by (simp add: upd_conv_take_nth_drop others_def insert_commute)

lemma refs_pos:
  assumes "t \<in> set ts" and "finite (dom (pgtable t))" and "v \<in> users (pgtable t) f"
  shows "0 < refs ts f"
proof -
  have "0 < card (users (pgtable t) f)" using assms(2,3) finite_users [of "pgtable t" f] by (auto simp: card_gt_0_iff)
  moreover have "card (users (pgtable t) f) \<le> refs ts f" unfolding refs_def by (rule member_le_sum_list) (use assms(1) in simp_all)
  ultimately show ?thesis by simp
qed

lemma world_acct: "world_ok (p, ts) \<Longrightarrow> i < length ts \<Longrightarrow> acct (refs (others i ts)) p (pgtable (ts ! i))"
  by (simp add: world_ok_def acct_def refs_split [of i ts])

lemma acct_world:
  assumes "world_ok (p, ts)" and "i < length ts" and "acct (refs (others i ts)) p' (pgtable t')"
  shows "world_ok (p', ts[i := t'])"
proof -
  have "finite (dom (pgtable t))" if "t \<in> set (ts[i := t'])" for t
    using that assms set_others [of t i ts] by (auto simp: set_update_others world_ok_def acct_def)
  then show ?thesis using assms(2,3) by (simp add: world_ok_def acct_def refs_update)
qed

text \<open>An entry of another table that has its frame to itself keeps it whatever this table does.\<close>

lemma others_excl:
  assumes ok: "world_ok (p, ts)" and ex: "world_excl (p, ts)" and i: "i < length ts" and t: "t \<in> set (others i ts)"
    and same: "\<And>f. 0 < refs (others i ts) f \<Longrightarrow> users (pgtable (ts ! i)) f = {} \<Longrightarrow> refcnt p' f = refcnt p f"
  shows "excl p' (pgtable t)"
  unfolding excl_def
proof (intro allI impI)
  fix v e
  assume v: "pgtable t v = Some e \<and> private_page e"
  have tin: "t \<in> set ts" by (rule set_others [OF t])
  have one: "refcnt p (pe_ppi e) = 1" using v ex tin unfolding world_excl_def excl_def by auto
  have "v \<in> users (pgtable t) (pe_ppi e)" using v by (simp add: in_users)
  then have pos: "0 < refs (others i ts) (pe_ppi e)" using t tin ok by (intro refs_pos) (auto simp: world_ok_def)
  have rc: "refcnt p (pe_ppi e) = refs ts (pe_ppi e)" using ok by (simp add: world_ok_def)
  have "card (users (pgtable (ts ! i)) (pe_ppi e)) = 0" using one pos rc refs_split [OF i, of "pe_ppi e"] by linarith
  moreover have "finite (users (pgtable (ts ! i)) (pe_ppi e))" using ok i by (intro finite_users) (simp add: world_ok_def)
  ultimately have "users (pgtable (ts ! i)) (pe_ppi e) = {}" by simp
  then show "refcnt p' (pe_ppi e) = 1" using one same [OF pos] by simp
qed

lemma keeps_world:
  assumes ok: "world_ok (p, ts)" and i: "i < length ts" and k: "keeps_s (refs (others i ts)) (p, ts ! i) (p', t')"
  shows "world_ok (p', ts[i := t']) \<and> (world_excl (p, ts) \<longrightarrow> world_excl (p', ts[i := t']))"
proof -
  note a = world_acct [OF ok i]
  have k': "acct (refs (others i ts)) p' (pgtable t')" "\<And>f. 0 < refs (others i ts) f \<and> users (pgtable (ts ! i)) f = {} \<Longrightarrow> users (pgtable t') f = {}"
      "excl p (pgtable (ts ! i)) \<longrightarrow> excl p' (pgtable t')"
    using k a by (auto simp: keeps_s_def keeps_def)
  have w: "world_ok (p', ts[i := t'])" by (rule acct_world [OF ok i k'(1)])
  have same: "refcnt p' f = refcnt p f" if "0 < refs (others i ts) f" "users (pgtable (ts ! i)) f = {}" for f
    using a k'(1) k'(2) [of f] that by (simp add: acct_def)
  have "world_excl (p', ts[i := t'])" if ex: "world_excl (p, ts)"
    using others_excl [OF ok ex i _ same] k'(3) ex i by (auto simp: world_excl_def set_update_others)
  then show ?thesis using w by blast
qed

lemma step_world_ok:
  assumes "world_step w op w'" and "world_ok w"
  shows "world_ok w' \<and> (step_safe w op \<and> world_excl w \<longrightarrow> world_excl w')"
  using assms
proof (induction rule: world_step.induct)
  case (step_op i ts m p p' t')
  note a = world_acct [OF step_op(4,1)]
  have "acct (refs (others i ts)) p' (pgtable t')" using mem_op_acct [OF step_op(3), of "refs (others i ts)"] step_op(2) a by simp
  then have "world_ok (p', ts[i := t'])" by (rule acct_world [OF step_op(4,1)])
  moreover have "keeps_s (refs (others i ts)) (p, ts ! i) (p', t')" if "op_safe p (ts ! i) m"
    using mem_op_keeps [OF step_op(3)] step_op(2) a that by simp
  ultimately show ?case using keeps_world [OF step_op(4,1)] by (auto simp: step_safe_def)
next
  case (step_fork i ts ks p p' t' child)
  have fin: "\<forall>t\<in>set ts. finite (dom (pgtable t))" and fr: "frames_ok p" and rc: "\<And>f. refcnt p f = refs ts f"
    using step_fork(6) by (simp_all add: world_ok_def)
  have bound: "refcnt p f + card (users (pgtable (ts ! i)) f) < 2 ^ 32" for f using step_fork(4) by blast
  note r = fork_page_table_result [OF step_fork(5,2,3) fr bound]
  have ok: "world_ok (p', ts[i := t'] @ [child])"
  proof -
    have "finite (dom (pgtable t))" if "t \<in> set (ts[i := t'] @ [child])" for t
      using that r fin step_fork(1) set_others [of t i ts] by (auto simp: set_update_others)
    moreover have "refcnt p' f = refs (ts[i := t'] @ [child]) f" for f
      using r rc refs_split [OF step_fork(1), of f] by (simp add: refs_update [OF step_fork(1)] refs_Cons)
    ultimately show ?thesis using r by (simp add: world_ok_def)
  qed
  have "world_excl (p', ts[i := t'] @ [child])" if ex: "world_excl (p, ts)"
  proof -
    have "refcnt p' f = refcnt p f" if "users (pgtable (ts ! i)) f = {}" for f using r that by simp
    then have "excl p' (pgtable t)" if "t \<in> set (others i ts)" for t using others_excl [OF step_fork(6) ex step_fork(1) that] by blast
    then show ?thesis using r by (auto simp: world_excl_def set_update_others [OF step_fork(1)])
  qed
  then show ?case using ok by blast
next
  case (step_exit i ts ks p p')
  note a = world_acct [OF step_exit(5,1)]
  obtain q where q: "free_entries ks (pgtable (ts ! i)) p = Inr q" "keeps (refs (others i ts)) p (pgtable (ts ! i)) q Map.empty"
    using free_entries_keeps [OF a step_exit(2,3)] by blast
  then have "q = p'" using step_exit(4) by simp
  then have "keeps_s (refs (others i ts)) (p, ts ! i) (p', new_page_table)" using q(2) by (simp add: keeps_s_def new_page_table_def)
  note k = keeps_world [OF step_exit(5,1) this]
  have s: "set (ts[i := new_page_table]) = insert new_page_table (set (others i ts))" by (rule set_update_others [OF step_exit(1)])
  have "world_ok (p', others i ts) \<and> (world_excl (p, ts) \<longrightarrow> world_excl (p', others i ts))"
    using k s by (simp add: world_ok_def world_excl_def refs_update [OF step_exit(1)] new_page_table_def)
  then show ?case by (simp add: others_def)
next
  case (step_new p ts)
  then show ?case by (auto simp: world_ok_def world_excl_def refs_Cons new_page_table_def excl_def)
qed

section \<open>The initial allocator\<close>

lemma page_word:
  assumes "4096 * a < 2 ^ 64"
  shows "unat (of_nat (4096 * a) :: u64) = 4096 * a" and "drop_bit page_addr_offset (of_nat (4096 * a) :: u64) = of_nat a"
proof -
  show u: "unat (of_nat (4096 * a) :: u64) = 4096 * a" unfolding unat_of_nat using assms by (intro mod_less) simp
  have "unat (drop_bit page_addr_offset (of_nat (4096 * a) :: u64)) = drop_bit 12 (4096 * a)"
    by (simp only: unat_drop_bit_eq u page_addr_offset_def)
  also have "\<dots> = a" by (simp add: drop_bit_eq_div)
  also have "a = unat (of_nat a :: u64)" using assms by (simp add: unat_of_nat)
  finally show "drop_bit page_addr_offset (of_nat (4096 * a) :: u64) = of_nat a" by (rule unsigned_word_eqI)
qed

lemma init_pages_result:
  assumes "start + sz = of_nat (4096 * b)" and "4096 * b + 4096 < 2 ^ 64" and "a \<le> b"
  shows "\<exists>p'. init_pages (of_nat (4096 * a)) start sz m p = Some p' \<and> valid_pages p' = valid_pages p @ map of_nat [a..<b]
    \<and> alloced_pages p' = alloced_pages p"
  using assms(3)
proof (induction "b - a" arbitrary: a p)
  case 0
  then have "a = b" by simp
  have "unat (of_nat (4096 * b) + PAGE_LEN_BYTE :: u64) = 4096 * b + 4096"
    using page_word(1) [of b] assms(2) by (simp add: unat_word_ariths)
  then have "\<not> of_nat (4096 * b) + PAGE_LEN_BYTE \<le> start + sz"
    unfolding word_le_nat_alt assms(1) using page_word(1) [of b] assms(2) by simp
  then show ?case using \<open>a = b\<close> by (simp only: init_pages.simps [of "of_nat (4096 * b)"]) simp
next
  case (Suc n)
  then have ab: "a < b" by simp
  have pa: "4096 * a < 2 ^ 64" "4096 * b < 2 ^ 64" using ab assms(2) by simp_all
  let ?w = "of_nat (4096 * a) :: u64" and ?v = "of_nat (4096 * Suc a) :: u64"
  have nx: "?w + PAGE_LEN_BYTE = ?v" by simp
  have "4096 * Suc a < 2 ^ 64" using ab assms(2) by simp
  then have le: "?w + PAGE_LEN_BYTE \<le> start + sz" unfolding nx word_le_nat_alt assms(1) page_word(1) [OF pa(2)]
    using page_word(1) [of "Suc a"] ab by simp
  let ?p = "p\<lparr>valid_pages := valid_pages p @ [of_nat a], page_real_addr := (if page_real_addr p (of_nat a) = None
      then (page_real_addr p)(of_nat a \<mapsto> m + (?w - start)) else page_real_addr p)\<rparr>"
  have "init_pages ?w start sz m p = init_pages ?v start sz m ?p"
    using le by (subst init_pages.simps) (simp only: if_True page_word(2) [OF pa(1)] nx)
  moreover have "n = b - Suc a" "Suc a \<le> b" using Suc.hyps(2) ab by simp_all
  ultimately show ?case using Suc.hyps(1) [of "Suc a" ?p] ab by (auto simp: upt_conv_Cons)
qed

lemma aligned_multiple: "(x :: u64) AND (PAGE_LEN_BYTE - 1) = 0 \<Longrightarrow> \<exists>a. x = of_nat (4096 * a) \<and> unat x = 4096 * a"
proof -
  assume "x AND (PAGE_LEN_BYTE - 1) = 0"
  moreover have "PAGE_LEN_BYTE - 1 = mask 12" by (simp add: mask_eq_exp_minus_1)
  ultimately have "take_bit 12 x = 0" by (simp only: take_bit_eq_mask)
  then have "take_bit 12 (unat x) = 0" by (metis unsigned_take_bit_eq unsigned_0)
  then have "unat x mod 4096 = 0" by (simp add: take_bit_eq_mod)
  then have u: "unat x = 4096 * (unat x div 4096)" using div_mult_mod_eq [of "unat x" 4096] by linarith
  have "of_nat (unat x) = x" by simp
  then have "x = of_nat (4096 * (unat x div 4096))" using u by simp
  then show ?thesis using u by blast
qed

lemma new_allocator_ok:
  assumes "new_allocator a sz m = Inr p" and "unat a + unat sz + 4096 < 2 ^ 64"
  shows "world_ok (p, [])"
proof -
  let ?e = "\<lparr>page_real_addr = Map.empty, valid_pages = [], alloced_pages = Map.empty\<rparr>"
  have al: "a AND (PAGE_LEN_BYTE - 1) = 0" "sz AND (PAGE_LEN_BYTE - 1) = 0" and i: "init_pages a a sz m ?e = Some p"
    using assms(1) by (auto simp: new_allocator_def init_segment_def)
  obtain x where x: "a = of_nat (4096 * x)" "unat a = 4096 * x" using aligned_multiple [OF al(1)] by blast
  obtain y where y: "sz = of_nat (4096 * y)" "unat sz = 4096 * y" using aligned_multiple [OF al(2)] by blast
  have e: "a + sz = of_nat (4096 * (x + y))" unfolding x(1) y(1) by (simp add: algebra_simps)
  have b: "4096 * (x + y) + 4096 < 2 ^ 64" using assms(2) unfolding x(2) y(2) by simp
  have r: "valid_pages p = map of_nat [x..<x + y]" "alloced_pages p = Map.empty"
    using init_pages_result [OF e b, of x m ?e] i unfolding x(1) by auto
  have "inj_on (of_nat :: nat \<Rightarrow> u64) {x..<x + y}"
  proof (rule inj_onI)
    fix j k
    assume "j \<in> {x..<x + y}" "k \<in> {x..<x + y}" "(of_nat j :: u64) = of_nat k"
    then have "unat (of_nat j :: u64) = unat (of_nat k :: u64)" "j < 2 ^ 64" "k < 2 ^ 64" using b by simp_all
    then show "j = k" by (simp add: unat_of_nat)
  qed
  then show ?thesis using r by (simp add: world_ok_def frames_ok_def refcnt_def distinct_map)
qed

lemma reachable_ok: "reachable safe w \<Longrightarrow> world_ok w \<and> (safe \<longrightarrow> world_excl w)"
proof (induction rule: reachable.induct)
  case (start a sz m p)
  then show ?case using new_allocator_ok by (simp add: world_excl_def)
next
  case (step w op w')
  then show ?case using step_world_ok by blast
qed

section \<open>Properties\<close>

text \<open>A world with two processes: one page is mapped, the process forks, and the child is granted write access again.\<close>

definition demo_entry :: "u32 \<Rightarrow> PPageEntry" where
  "demo_entry flg = \<lparr>pe_ppi = 0x80000, pe_flg = flg, pe_fd = - 1, pe_offset = 0\<rparr>"

definition demo_table :: "u32 \<Rightarrow> ThreadPageTable" where
  "demo_table flg = \<lparr>brk_va = 0, mmap_segments = [\<lparr>sg_vpindex = 0xaffffffff, sg_vpcnt = 1, sg_info = ''a''\<rparr>],
     pgtable = [0xaffffffff \<mapsto> demo_entry flg], dyn_lib_brk = MAX_MMAP_VADDR\<rparr>"

definition demo_pages :: "u32 option \<Rightarrow> PhysPageAllocator" where
  "demo_pages c = \<lparr>page_real_addr = [0x80000 \<mapsto> 0x1000, 0x80001 \<mapsto> 0x2000],
     valid_pages = (if c = None then [0x80000, 0x80001] else [0x80001]),
     alloced_pages = (case c of None \<Rightarrow> Map.empty | Some n \<Rightarrow> [0x80000 \<mapsto> n])\<rparr>"

lemma demo_start: "new_allocator 0x80000000 0x2000 0x1000 = Inr (demo_pages None)"
  by (simp add: new_allocator_def init_segment_def init_pages.simps page_addr_offset_def demo_pages_def)

lemma demo_mmap: "mem_op (op_mmap 0x1000 3 (- 1) 0 ''a'') (demo_pages None, new_page_table) = Inr (demo_pages (Some 1), demo_table 3)"
  by (simp add: alloc_mmap_def Let_def new_page_table_def page_end_def page_of_def page_base_def ALIGN_def CEIL_DIV_def
      page_addr_offset_def MAX_MMAP_VADDR_def alloc_multi_page_def alloc_pages.simps page_alloc_def demo_pages_def demo_table_def demo_entry_def)

lemma demo_fork: "fork_page_table [0xaffffffff] (demo_pages (Some 1), demo_table 3) = Inr (demo_pages (Some 2), demo_table 65, demo_table 65)"
  by (simp add: fork_page_table_def page_reuse_def fork_entry_def set_bits_def demo_pages_def demo_table_def demo_entry_def
      PGFLAG_W_def PGFLAG_COW_def PGFLAG_SHARE_def)

lemma demo_mprotect: "sys_mprotect 0xaffffffff000 0x1000 3 (demo_table 65) = demo_table 67"
  by (simp add: sys_mprotect_def set_prot.simps page_of_def page_end_def ALIGN_def CEIL_DIV_def page_addr_offset_def
      demo_table_def demo_entry_def set_bits_def PGFLAG_W_def PGFLAG_R_def PGFLAG_X_def)

lemma demo_users: "users (pgtable (demo_table flg)) f = (if f = 0x80000 then {0xaffffffff} else {})"
  by (auto simp: users_def demo_table_def demo_entry_def)

lemma demo_mapped: "reachable safe (demo_pages (Some 1), [demo_table 3])"
proof -
  have "reachable safe (demo_pages None, [])" by (rule reachable.start [OF demo_start]) simp
  then have "reachable safe (demo_pages None, [] @ [new_page_table])"
    by (rule reachable.step [OF _ world_step.step_new]) (simp add: step_safe_def)
  then have r: "reachable safe (demo_pages None, [new_page_table])" by simp
  have "world_step (demo_pages None, [new_page_table]) (on_table 0 (op_mmap 0x1000 3 (- 1) 0 ''a''))
      (demo_pages (Some 1), [new_page_table][0 := demo_table 3])"
    by (rule world_step.step_op) (simp_all del: mem_op.simps add: demo_mmap)
  then show ?thesis using reachable.step [OF r] by (simp add: step_safe_def)
qed

lemma demo_fork_step: "world_step (demo_pages (Some 1), [demo_table 3]) (fork_table 0 [0xaffffffff]) (demo_pages (Some 2), [demo_table 65, demo_table 65])"
proof -
  have "refcnt (demo_pages (Some 1)) f + card (users (pgtable (demo_table 3)) f) < 2 ^ 32" for f
    by (simp add: demo_users refcnt_def demo_pages_def)
  then have "world_step (demo_pages (Some 1), [demo_table 3]) (fork_table 0 [0xaffffffff])
      (demo_pages (Some 2), [demo_table 3][0 := demo_table 65] @ [demo_table 65])"
    by (intro world_step.step_fork) (simp_all add: demo_fork, simp add: demo_table_def)
  then show ?thesis by simp
qed

lemma demo_forked: "reachable safe (demo_pages (Some 2), [demo_table 65, demo_table 65])"
  by (rule reachable.step [OF demo_mapped demo_fork_step]) (simp add: step_safe_def)

text \<open>The search for a free descriptor visits the numbers below \<open>2 ^ 30\<close> in a circle.\<close>

definition next_fd :: "u32 \<Rightarrow> u32" where "next_fd a = (a + 1) AND 0x3fffffff"

lemma unat_next_fd: "unat (next_fd a) = (unat a + 1) mod 2 ^ 30"
proof -
  have "next_fd a = take_bit 30 (a + 1)" by (simp add: next_fd_def take_bit_eq_mask mask_eq_exp_minus_1)
  then have "unat (next_fd a) = (unat a + 1) mod 2 ^ 32 mod 2 ^ 30"
    by (simp add: unsigned_take_bit_eq take_bit_eq_mod unat_word_ariths)
  also have "\<dots> = (unat a + 1) mod 2 ^ 30" by (rule mod_mod_cancel) (simp add: le_imp_power_dvd)
  finally show ?thesis .
qed

lemma unat_next_fds: "unat ((next_fd ^^ Suc k) a) = (unat a + Suc k) mod 2 ^ 30"
proof (induction k)
  case (Suc k)
  have "unat ((next_fd ^^ Suc (Suc k)) a) = ((unat a + Suc k) mod 2 ^ 30 + 1) mod 2 ^ 30"
    using unat_next_fd [of "(next_fd ^^ Suc k) a"] Suc by simp
  then show ?case by (simp add: mod_simps)
qed (simp add: unat_next_fd)

lemma fd_search_finds:
  "map_of (fd_tb f) ((next_fd ^^ n) (alloc_fd f)) = None \<Longrightarrow>
    \<exists>ret f'. fd_search f = Some (ret, f') \<and> map_of (fd_tb f) ret = None \<and> fd_tb f' = fd_tb f"
proof (induction n arbitrary: f)
  case 0
  then show ?case by (simp add: fd_search.simps [of f] Let_def)
next
  case (Suc n)
  show ?case
  proof (cases "map_of (fd_tb f) (alloc_fd f)")
    case None
    then show ?thesis by (simp add: fd_search.simps [of f] Let_def)
  next
    case (Some x)
    let ?f = "f\<lparr>alloc_fd := next_fd (alloc_fd f)\<rparr>"
    have s: "fd_search f = fd_search ?f" using Some by (simp add: fd_search.simps [of f] Let_def next_fd_def)
    have "map_of (fd_tb ?f) ((next_fd ^^ n) (alloc_fd ?f)) = None" using Suc.prems by (simp add: funpow_swap1)
    from Suc.IH [OF this] show ?thesis unfolding s by auto
  qed
qed

lemma free_fd_exists:
  assumes "length (fd_tb f) < 2 ^ 30 - 1"
  shows "\<exists>n. map_of (fd_tb f) ((next_fd ^^ n) (alloc_fd f)) = None"
proof (rule ccontr)
  assume "\<not> ?thesis"
  then have all: "(next_fd ^^ n) (alloc_fd f) \<in> set (map fst (fd_tb f))" for n
    by (auto simp: map_of_eq_None_iff)
  let ?s = "\<lambda>k. (next_fd ^^ Suc k) (alloc_fd f)" and ?n = "Suc (length (fd_tb f))"
  have "inj_on ?s {..<?n}"
  proof (rule inj_onI)
    fix j k
    assume jk: "j \<in> {..<?n}" "k \<in> {..<?n}" "?s j = ?s k"
    have "unat (?s j) = unat (?s k)" by (rule arg_cong [OF jk(3)])
    then have eq: "(unat (alloc_fd f) + Suc j) mod 2 ^ 30 = (unat (alloc_fd f) + Suc k) mod 2 ^ 30"
      unfolding unat_next_fds .
    have "Suc j < 2 ^ 30" "Suc k < 2 ^ 30" using jk(1,2) assms by simp_all
    then have "Suc j = Suc k" using eq by (rule mod_add_inj)
    then show "j = k" by simp
  qed
  then have "card (?s ` {..<?n}) = ?n" by (simp add: card_image)
  moreover have "?s ` {..<?n} \<subseteq> set (map fst (fd_tb f))" using all by blast
  ultimately have "?n \<le> card (set (map fst (fd_tb f)))" by (metis List.finite_set card_mono)
  also have "\<dots> \<le> length (fd_tb f)" using card_length [of "map fst (fd_tb f)"] by simp
  finally show False by simp
qed

text \<open>
  C31. Descriptor tables: as long as the table is no larger than the limit the code checks, the search loop for a free descriptor number ends
  and the new number was unused; it translates to the host descriptor, every other number translates as before, and popping it returns the host
  descriptor and restores the table. A fork without shared files sends every other open descriptor to its duplicate and resets the three
  standard ones, so a redirected standard output is lost in the child.
\<close>

theorem fdtable_insert_pop:
  assumes "distinct (map fst (fd_tb f))" and "length (fd_tb f) \<le> 0x1000000" and "3 \<le> sint sys_fd"
  shows "\<exists>ret f'. fdtable_insert sys_fd f = Inr (ret, f') \<and> map_of (fd_tb f) ret = None
    \<and> distinct (map fst (fd_tb f')) \<and> fdtable_trans ret f' = sys_fd \<and> (\<forall>u. u \<noteq> ret \<longrightarrow> fdtable_trans u f' = fdtable_trans u f)
    \<and> fst (fdtable_pop ret f') = sys_fd \<and> map_of (fd_tb (snd (fdtable_pop ret f'))) = map_of (fd_tb f)
    \<and> (\<forall>u. fdtable_trans u (fork_fdtable dup f) =
          (if u \<in> {0, 1, 2} then u
           else case map_of (fd_tb f) u of Some h \<Rightarrow> if 3 \<le> sint u then dup h else u | None \<Rightarrow> if 0 < sint u then - 1 else u))"
proof -
  have "length (fd_tb f) < 2 ^ 30 - 1" using assms(2) by simp
  from free_fd_exists [OF this] obtain n where "map_of (fd_tb f) ((next_fd ^^ n) (alloc_fd f)) = None" by blast
  from fd_search_finds [OF this] obtain ret f0 where
    r: "fd_search f = Some (ret, f0)" "map_of (fd_tb f) ret = None" "fd_tb f0 = fd_tb f" by blast
  let ?f = "f0\<lparr>fd_tb := (ret, sys_fd) # fd_tb f\<rparr>"
  have i: "fdtable_insert sys_fd f = Inr (ret, ?f)" using assms(2,3) r by (simp add: fdtable_insert_def)
  have k: "ret \<notin> fst ` set (fd_tb f)" using r(2) by (simp add: map_of_eq_None_iff)
  then have "filter (\<lambda>(k, v). k \<noteq> ret) (fd_tb f) = fd_tb f" by (force intro: filter_True)
  then have p: "map_of (fd_tb (snd (fdtable_pop ret ?f))) = map_of (fd_tb f)"
    using r(2) by (auto simp: fdtable_pop_def AList.delete_conv map_of_eq_None_iff)
  have small: "sint u < 3 \<Longrightarrow> u \<notin> {0, 1, 2} \<Longrightarrow> \<not> 0 < sint u" for u :: u32
  proof
    assume u: "sint u < 3" "u \<notin> {0, 1, 2}" "0 < sint u"
    then have "sint u = sint (1 :: u32) \<or> sint u = sint (2 :: u32)" by auto
    then show False using u(2) by (auto simp only: signed_word_eqI insert_iff)
  qed
  have g: "map_of (map (\<lambda>(s, h). (s, dup h)) (filter (\<lambda>(s, _). \<not> sint s < 3) xs)) u
      = (if sint u < 3 then None else map_option dup (map_of xs u))" for xs :: "(u32 \<times> u32) list" and u
    by (induction xs) auto
  have "fdtable_trans u (fork_fdtable dup f) =
          (if u \<in> {0, 1, 2} then u
           else case map_of (fd_tb f) u of Some h \<Rightarrow> if 3 \<le> sint u then dup h else u | None \<Rightarrow> if 0 < sint u then - 1 else u)" for u
    using small [of u] by (auto simp: fdtable_trans_def fork_fdtable_def g split: option.splits)
  then show ?thesis using i r(2) assms(1) k p by (auto simp: fdtable_trans_def fdtable_pop_def)
qed

theorem fdtable_insert_pop_witness: "\<exists>ret f'. fdtable_insert 7 new_fdtable = Inr (ret, f') \<and> fdtable_trans ret f' = 7"
proof -
  have "distinct (map fst (fd_tb new_fdtable))" "length (fd_tb new_fdtable) \<le> 0x1000000" "3 \<le> sint (7 :: u32)"
    by (simp_all add: new_fdtable_def)
  from fdtable_insert_pop [OF this, of id] show ?thesis by blast
qed

text \<open>
  C5. Frame accounting: in every world that mapping, unmapping, growing the heap, loading segments, protection changes, forks, copy-on-write faults,
  exec and exit can reach, the allocator's count of every frame is the number of page table entries of all processes that name it;
  free frames are listed once and have no count, so no page is ever handed out while it is mapped. As a consequence unmapping and
  tearing a table down never hit the allocator's assertion.
\<close>

theorem frames_accounted:
  assumes "reachable safe (p, ts)"
  shows "distinct (valid_pages p) \<and> (\<forall>f\<in>set (valid_pages p). refs ts f = 0) \<and> (\<forall>f. refcnt p f = refs ts f)
    \<and> (\<forall>t\<in>set ts. (\<forall>va sz. \<exists>s'. free_mmap va sz (p, t) = Inr s')
        \<and> (\<forall>ks. distinct ks \<and> set ks = dom (pgtable t) \<longrightarrow> (\<exists>p'. free_entries ks (pgtable t) p = Inr p')))"
proof -
  have ok: "world_ok (p, ts)" using reachable_ok [OF assms] by blast
  have rc: "refcnt p f = refs ts f" for f using ok by (simp add: world_ok_def)
  have "refs ts f = 0" if "f \<in> set (valid_pages p)" for f
    using ok that rc [of f] by (simp add: world_ok_def frames_ok_def refcnt_def)
  moreover have "(\<exists>s'. free_mmap va sz (p, t) = Inr s')
      \<and> (distinct ks \<and> set ks = dom (pgtable t) \<longrightarrow> (\<exists>p'. free_entries ks (pgtable t) p = Inr p'))"
    if t: "t \<in> set ts" for t va sz ks
  proof -
    obtain i where i: "i < length ts" "ts ! i = t" using t by (metis in_set_conv_nth)
    have a: "acct (refs (others i ts)) p (pgtable t)" using world_acct [OF ok i(1)] i(2) by simp
    then show ?thesis using free_mmap_keeps [of "refs (others i ts)" "(p, t)" va sz] free_entries_keeps [OF a, of ks] by auto
  qed
  ultimately show ?thesis using ok rc by (auto simp: world_ok_def frames_ok_def)
qed

theorem frames_accounted_witness: "refcnt (demo_pages (Some 2)) 0x80000 = refs [demo_table 65, demo_table 65] 0x80000"
  using frames_accounted [OF demo_forked [of True]] by blast

text \<open>
  C6. Isolation: while protection changes grant write access only to shared mappings and to pages that have their frame to themselves, a page that
  can be written and is not a shared mapping is the only page, of any process, that names its frame: forks mark such pages copy-on-write, and a write fault gives
  the faulting process a frame of its own. The premise is needed: \<^verbatim>\<open>mprotect\<close> does not look at the copy-on-write mark, so after a fork a process that
  protects its page readable and writable again gets write access to the frame the other process still maps.
\<close>

theorem process_isolation:
  assumes "reachable True (p, ts)" and "i < length ts" and "j < length ts"
    and "pgtable (ts ! i) v = Some e" and "pgtable (ts ! j) w = Some d" and "pe_ppi e = pe_ppi d" and "private_page e"
  shows "i = j \<and> v = w"
proof -
  have ok: "world_ok (p, ts)" and ex: "world_excl (p, ts)" using reachable_ok [OF assms(1)] by blast+
  have "ts ! i \<in> set ts" using assms(2) by simp
  then have "refcnt p (pe_ppi e) = 1" using ex assms(4,7) unfolding world_excl_def excl_def fst_conv snd_conv by blast
  then have one: "refs ts (pe_ppi e) = 1" using ok by (simp add: world_ok_def)
  have vin: "v \<in> users (pgtable (ts ! i)) (pe_ppi e)" and win: "w \<in> users (pgtable (ts ! j)) (pe_ppi e)"
    using assms(4,5,6) by (auto simp: in_users)
  have fin: "finite (users (pgtable (ts ! k)) (pe_ppi e))" if "k < length ts" for k
    using ok that by (intro finite_users) (simp add: world_ok_def)
  have pos: "0 < card (users (pgtable (ts ! i)) (pe_ppi e))" using vin fin [OF assms(2)] by (auto simp: card_gt_0_iff)
  note sp = refs_split [OF assms(2), of "pe_ppi e"]
  have "i = j"
  proof (rule ccontr)
    assume ne: "i \<noteq> j"
    have "ts ! j \<in> set (others i ts)"
    proof (cases "j < i")
      case True
      then have "take i ts ! j = ts ! j" "j < length (take i ts)" using assms(2) by simp_all
      then show ?thesis unfolding others_def by (metis Un_iff nth_mem set_append)
    next
      case False
      then have "drop (Suc i) ts ! (j - Suc i) = ts ! j" "j - Suc i < length (drop (Suc i) ts)" using ne assms(3) by simp_all
      then show ?thesis unfolding others_def by (metis Un_iff nth_mem set_append)
    qed
    then have "0 < refs (others i ts) (pe_ppi e)" using win ok assms(3) by (intro refs_pos) (auto simp: world_ok_def)
    then show False using one pos sp by linarith
  qed
  moreover have "v = w"
  proof (rule ccontr)
    assume "v \<noteq> w"
    then have "card {v, w} = 2" by simp
    moreover have "{v, w} \<subseteq> users (pgtable (ts ! i)) (pe_ppi e)" using vin win \<open>i = j\<close> by simp
    ultimately have "2 \<le> card (users (pgtable (ts ! i)) (pe_ppi e))" using card_mono [OF fin [OF assms(2)]] by metis
    then show False using one sp by linarith
  qed
  ultimately show ?thesis by simp
qed

theorem process_isolation_witness: "{w. \<exists>d. pgtable (demo_table 3) w = Some d \<and> pe_ppi d = 0x80000} = {0xaffffffff}"
proof -
  have e: "pgtable ([demo_table 3] ! 0) 0xaffffffff = Some (demo_entry 3)" "private_page (demo_entry 3)"
    by (simp_all add: demo_table_def demo_entry_def private_page_def PGFLAG_W_def PGFLAG_SHARE_def)
  have "0xaffffffff = w" if w: "pgtable (demo_table 3) w = Some d \<and> pe_ppi d = 0x80000" for w d
  proof -
    have d: "pgtable ([demo_table 3] ! 0) w = Some d" "pe_ppi (demo_entry 3) = pe_ppi d" "0 < length [demo_table 3]"
      using w by (simp_all add: demo_entry_def)
    show ?thesis using process_isolation [OF demo_mapped d(3,3) e(1) d(1,2) e(2)] by blast
  qed
  then show ?thesis using e(1) by (auto simp: demo_entry_def)
qed

lemma fork_entry_flags:
  assumes "private_page e"
  shows "pe_ppi (fork_entry e) = pe_ppi e" and "pe_flg (fork_entry e) AND PGFLAG_W = 0" and "pe_flg (fork_entry e) AND PGFLAG_COW \<noteq> 0"
    and "pe_flg (fork_entry e) AND PGFLAG_R = pe_flg e AND PGFLAG_R"
proof -
  have f: "pe_flg (fork_entry e) = (pe_flg e AND NOT 2) OR 64"
    using assms by (simp add: fork_entry_def private_page_def set_bits_def PGFLAG_W_def PGFLAG_COW_def)
  show "pe_ppi (fork_entry e) = pe_ppi e" by (simp add: fork_entry_def set_bits_def)
  show "pe_flg (fork_entry e) AND PGFLAG_W = 0" "pe_flg (fork_entry e) AND PGFLAG_R = pe_flg e AND PGFLAG_R"
    unfolding f PGFLAG_W_def PGFLAG_R_def by (simp_all add: bit.conj_disj_distrib2 and.assoc)
  have "((pe_flg e AND NOT 2) OR 64) AND 64 = (64 :: u32)" by (simp add: bit.conj_disj_distrib2 or.commute)
  then show "pe_flg (fork_entry e) AND PGFLAG_COW \<noteq> 0" unfolding f PGFLAG_COW_def by simp
qed

lemma protect_grants:
  assumes "flag AND PGFLAG_W \<noteq> 0"
  shows "pe_flg (set_bits (PGFLAG_R OR PGFLAG_W OR PGFLAG_X) (flag AND (PGFLAG_R OR PGFLAG_W OR PGFLAG_X)) e) AND PGFLAG_W = PGFLAG_W"
    and "pe_ppi (set_bits c a e) = pe_ppi e"
proof -
  have w: "PGFLAG_W = push_bit 1 1" by (simp add: PGFLAG_W_def)
  have "bit (flag AND PGFLAG_W) n \<Longrightarrow> n = 1 \<and> bit flag 1" for n by (auto simp: w bit_simps)
  then have b: "bit flag 1" using assms bit_eqI [of "flag AND PGFLAG_W" 0] by auto
  show "pe_flg (set_bits (PGFLAG_R OR PGFLAG_W OR PGFLAG_X) (flag AND (PGFLAG_R OR PGFLAG_W OR PGFLAG_X)) e) AND PGFLAG_W = PGFLAG_W"
    by (rule bit_word_eqI) (use b in \<open>auto simp: set_bits_def bit_simps w\<close>)
  show "pe_ppi (set_bits c a e) = pe_ppi e" by (simp add: set_bits_def)
qed

text \<open>
  C34. Protection changes defeat copy on write. Take any reachable world, a fork in it, and a private writable page of the forked process. After the fork a write to the page
  faults in parent and child, as it should. A protection change by which the child asks for write access to the page succeeds and keeps the frame; then the child's
  write translates without a fault, to the frame that the parent still maps at the same address and reads if it could before.
\<close>

theorem mprotect_defeats_copy_on_write:
  assumes world: "reachable safe (p, ts)" and fork: "world_step (p, ts) (fork_table i ks) (p', ts')"
    and page: "pgtable (ts ! i) (page_of va) = Some e" "private_page e"
    and grant: "page_of vaddr \<le> page_of va" "page_of va < page_end (vaddr + sz)" "flag AND PGFLAG_W \<noteq> 0"
  shows "fst (va2pa va PGFLAG_W (p', ts' ! i)) = Inl err_pagefault \<and> fst (va2pa va PGFLAG_W (p', ts' ! length ts)) = Inl err_pagefault \<and>
    (\<exists>t. world_step (p', ts') (on_table (length ts) (op_mprotect vaddr sz flag)) (p', ts'[length ts := t]) \<and>
      fst (va2pa va PGFLAG_W (p', t)) = Inr (page_base (pe_ppi e) + (va AND (PAGE_LEN_BYTE - 1)))) \<and>
    map_option pe_ppi (pgtable (ts' ! i) (page_of va)) = Some (pe_ppi e) \<and>
    fst (va2pa va PGFLAG_R (p', ts' ! i)) = fst (va2pa va PGFLAG_R (p, ts ! i))"
proof -
  let ?v = "page_of va"
  have ok: "world_ok (p, ts)" using reachable_ok [OF world] by blast
  then have fr: "frames_ok p" and rc: "refcnt p (pe_ppi e) = refs ts (pe_ppi e)" by (simp_all add: world_ok_def)
  obtain t' child where i: "i < length ts" and ks: "distinct ks" "set ks = dom (pgtable (ts ! i))"
    and bound: "\<And>f. refcnt p f + card (users (pgtable (ts ! i)) f) < 2 ^ 32"
    and f: "fork_page_table ks (p, ts ! i) = Inr (p', t', child)" and ts': "ts' = ts[i := t'] @ [child]"
    using fork by (cases) auto
  note r = fork_page_table_result [OF f ks fr bound]
  have e': "pgtable t' ?v = Some (fork_entry e)" using r page(1) by simp
  have child: "child = t'" using r by blast
  have "finite (users (pgtable (ts ! i)) (pe_ppi e))" using ok i by (intro finite_users) (simp add: world_ok_def)
  moreover have "?v \<in> users (pgtable (ts ! i)) (pe_ppi e)" using page(1) by (simp add: in_users)
  ultimately have one: "0 < card (users (pgtable (ts ! i)) (pe_ppi e))" by (auto simp: card_gt_0_iff)
  then have "1 < refcnt p' (pe_ppi e)" using r rc refs_split [OF i, of "pe_ppi e"] by simp
  then have shared: "is_shared (pe_ppi e) p'"
    by (auto simp: is_shared_def refcnt_def word_less_nat_alt split: option.splits)
  note fl = fork_entry_flags [OF page(2)]
  have fault: "fst (va2pa va PGFLAG_W (p', t')) = Inl err_pagefault"
    using e' fl shared by (simp add: va2pa_def Let_def PGFLAG_W_def)
  have rd: "fst (va2pa va PGFLAG_R (p', t')) = fst (va2pa va PGFLAG_R (p, ts ! i))"
    using e' fl page(1) by (simp add: va2pa_def Let_def PGFLAG_W_def PGFLAG_R_def)
  let ?t = "sys_mprotect vaddr sz flag t'"
  have st: "world_step (p', ts') (on_table (length ts) (op_mprotect vaddr sz flag)) (p', ts'[length ts := ?t])"
    by (rule world_step.step_op) (simp_all add: ts' child nth_append)
  have "pgtable ?t ?v = Some (set_bits (PGFLAG_R OR PGFLAG_W OR PGFLAG_X) (flag AND (PGFLAG_R OR PGFLAG_W OR PGFLAG_X)) (fork_entry e))"
    using grant(1,2) e' by (simp add: sys_mprotect_def set_prot_map)
  then have wr: "fst (va2pa va PGFLAG_W (p', ?t)) = Inr (page_base (pe_ppi e) + (va AND (PAGE_LEN_BYTE - 1)))"
    using fl(1) protect_grants [OF grant(3)] by (simp add: va2pa_def Let_def)
  show ?thesis
    using fault rd st wr e' fl(1) i by (auto simp: ts' child nth_append)
qed

theorem mprotect_defeats_copy_on_write_witness:
  "fst (va2pa 0xaffffffff000 PGFLAG_W (demo_pages (Some 2), demo_table 65)) = Inl err_pagefault \<and>
   (\<exists>t. world_step (demo_pages (Some 2), [demo_table 65, demo_table 65]) (on_table 1 (op_mprotect 0xaffffffff000 0x1000 3))
      (demo_pages (Some 2), [demo_table 65, t]) \<and> fst (va2pa 0xaffffffff000 PGFLAG_W (demo_pages (Some 2), t)) = Inr 0x80000000)"
proof -
  have e: "pgtable ([demo_table 3] ! 0) (page_of 0xaffffffff000) = Some (demo_entry 3)" "private_page (demo_entry 3)"
    by (simp_all add: demo_table_def demo_entry_def private_page_def PGFLAG_W_def PGFLAG_SHARE_def page_of_def page_addr_offset_def)
  have g: "page_of 0xaffffffff000 \<le> page_of 0xaffffffff000" "page_of 0xaffffffff000 < page_end (0xaffffffff000 + 0x1000)" "(3 :: u32) AND PGFLAG_W \<noteq> 0"
    by (simp_all add: page_of_def page_end_def ALIGN_def CEIL_DIV_def page_addr_offset_def PGFLAG_W_def)
  have a: "page_base (pe_ppi (demo_entry 3)) + (0xaffffffff000 AND (PAGE_LEN_BYTE - 1)) = 0x80000000"
    by (simp add: demo_entry_def page_base_def page_addr_offset_def)
  show ?thesis using mprotect_defeats_copy_on_write [OF demo_mapped demo_fork_step e g] unfolding a by simp
qed

end
