(* ===== verification/Spec2Isabelle.thy ===== *)
theory Spec2Isabelle
  imports TickQueue Pipes Storage Replacer Counters SymMulChaBus CacheBlock MemNode LLCProperties L1Properties DecodeExpand RvOps
    BigUInt RVThread
begin

text \<open>
  A verification development of the core of \<^verbatim>\<open>nullrvsim\<close>, a cycle-level simulator of RISC-V multi-core
  systems written in C++ (\<^verbatim>\<open>src/src\<close>). The simulator is a set of components that all have two phases: in
  \<^verbatim>\<open>on_current_tick\<close> a component reads its inputs and pushes into clocked buffers, in \<^verbatim>\<open>apply_next_tick\<close>
  the buffers move one step. CPU models fetch, predecode, decode and execute RV64 instructions; their memory
  accesses go to private caches, which exchange coherence messages with the last level cache and the memory
  node over a bus built from a route table. This root theory imports the library and holds no definitions of its own.

  \<^bold>\<open>Parts and theories.\<close> Each theory models the named files, one definition per function, method or stage, with the
  source's names; a C++ object is a record, a method a function on it, and \<^verbatim>\<open>w\<close>-bit integers are words.

    \<^item> \<^verbatim>\<open>Prelude\<close>: machine integers, fact collections, sequencing of computations that may fail.
    \<^item> \<^verbatim>\<open>SimCommon\<close>: \<^verbatim>\<open>common.h\<close> (views of a raw cell, line and page arithmetic, bit scans, PCG32), \<^verbatim>\<open>simerror\<close>.
    \<^item> \<^verbatim>\<open>FifoSpec\<close>: the contract of a clocked buffer as locales (order, conservation, capacity).
    \<^item> \<^verbatim>\<open>TickQueue\<close> (\<^verbatim>\<open>tickqueue.h\<close>), \<^verbatim>\<open>Pipes\<close> (\<^verbatim>\<open>utils/pipe.hpp\<close>): the buffers, which interpret the contract.
    \<^item> \<^verbatim>\<open>Storage\<close> (\<^verbatim>\<open>utils/storage.hpp\<close>, \<^verbatim>\<open>utils/blockram.hpp\<close>), \<^verbatim>\<open>Replacer\<close> (\<^verbatim>\<open>utils/replacer.hpp\<close>),
      \<^verbatim>\<open>Counters\<close> (\<^verbatim>\<open>utils/saturate.hpp\<close>, \<^verbatim>\<open>utils/bitvec.hpp\<close>): clocked registers, replacement policies, counters.
    \<^item> \<^verbatim>\<open>RouteTable\<close> (\<^verbatim>\<open>bus/routetable.cpp\<close>) and \<^verbatim>\<open>SymMulChaBus\<close> (\<^verbatim>\<open>bus/symmulcha.cpp\<close>): route generation and the packet bus.
    \<^item> \<^verbatim>\<open>CacheBlock\<close> (\<^verbatim>\<open>cache/cachecommon.h\<close>): the set-associative store and the miss registers, with the locale
      \<^verbatim>\<open>line_store\<close> the caches rely on; \<^verbatim>\<open>PinnedBlock\<close> interprets it a second time for the weaker invariant that holds once lines are pinned.
    \<^item> \<^verbatim>\<open>MoesiProtocol\<close> (\<^verbatim>\<open>cache/moesi/protocal.cpp\<close>), \<^verbatim>\<open>MemNode\<close> (\<^verbatim>\<open>cache/moesi/memnode.cpp\<close>), \<^verbatim>\<open>MoesiLLC\<close>, \<^verbatim>\<open>LLCProofs\<close>,
      \<^verbatim>\<open>LLCProperties\<close> (\<^verbatim>\<open>cache/moesi/lastlevelcache.cpp\<close>): coherence messages, the memory node, and the last level cache with its directory.
    \<^item> \<^verbatim>\<open>MoesiL1\<close>, \<^verbatim>\<open>L1Proofs\<close>, \<^verbatim>\<open>L1Properties\<close> (\<^verbatim>\<open>cache/moesi/l1cachev2.cpp\<close>): the private first-level cache with its miss registers, reservations and atomics.
    \<^item> \<^verbatim>\<open>Isa\<close> (\<^verbatim>\<open>cpu/isa.h\<close>), \<^verbatim>\<open>Decode\<close> (\<^verbatim>\<open>cpu/isa.cpp\<close>), \<^verbatim>\<open>DecodeSpec\<close>, \<^verbatim>\<open>DecodeExpand\<close>: the decoded record, both decoders, the predecoder.
    \<^item> \<^verbatim>\<open>PageMap\<close> (\<^verbatim>\<open>sys/pagemmap.h\<close>) and \<^verbatim>\<open>RVThread\<close> (\<^verbatim>\<open>sys/rvthread.h\<close>, \<^verbatim>\<open>sys/rvthread.cpp\<close>): the frame allocator, page tables and their
      segments; translation, protection, copy on write, forks, descriptors, signals and contexts, and the step relation of all processes that share the frames.
    \<^item> \<^verbatim>\<open>BigUInt\<close> (\<^verbatim>\<open>utils/uint.hpp\<close>): the fixed-width integers of hardware descriptions.
    \<^item> \<^verbatim>\<open>RvOps\<close> (\<^verbatim>\<open>cpu/operation.cpp\<close>, \<^verbatim>\<open>cpu/csr.h\<close>): integer, branch, atomic and CSR operations.

  \<^bold>\<open>What the lemmas show.\<close> Buffers are first-in first-out queues of bounded capacity, and values move through them in
  bounded time. Generated route tables reach every node by shortest (ring) or dimension-ordered (mesh) paths, and the bus
  loses, duplicates and invents no packet and reassembles interleaved messages. Without pins the cache block is an exact LRU cache; pins are shown not to work.
  The memory node refines an atomic memory and answers every request. The last level cache handles at most one
  request per line, keeps the owner of each directory entry among its sharers, notifies every other holder of a written line
  exactly once and loses no written-back data. The private cache never holds a line in two places, reads and writes exactly the addressed bytes, answers
  forwards with the line's contents and completes a write miss whatever the order of its messages. The decoder produces the manual's
  immediates and well-formed records, agrees with the predecoder up to three listed differences, and decodes a compressed integer instruction as its expansion, three
  instructions apart whose records are given; the
  operations compute the manual's results. The allocator's counts are exact in every reachable world of processes, a page
  written by one process is not another's unless it is shared, and mapping and unmapping change exactly their range. Wide integers compute
  modulo their width. Where the code deviates, the deviation is stated as a theorem: pins, the reservation that outlives a write forward, protection changes that defeat copy on write,
  and the misread compressed floating-point accesses.

  \<^bold>\<open>Conventions.\<close> A failed \<^verbatim>\<open>simroot_assert\<close> and undefined behaviour are values of an error type, or None
  where an operation has no other result. A hash map whose iteration order matters is an association list. Pointers to objects with a
  single owner are the objects; a pointer into a container is the key it was found under. Loops are structural recursions on
  the iterated list or on a fuel argument that is the loop bound of the code.

  \<^bold>\<open>Not modelled.\<close> Logging, tracing, statistics printing, configuration and file output; third-party code (\<^verbatim>\<open>easylogging++\<close>, \<^verbatim>\<open>elfio\<close>); test drivers; the
  cycle-level CPU pipelines and branch predictors; the combined first- and second-level cache (\<^verbatim>\<open>l1l2v2\<close>), the second cache hierarchy (\<^verbatim>\<open>cache/simplecc\<close>) and DMA; loading of programs, the scheduler and the
  system calls, which mostly pass to the host; floating-point arithmetic, which runs in the host's unit; and the unused second decoder in \<^verbatim>\<open>riscv64\<close>.
\<close>

end
